(* ===== verification/Prelude.thy ===== *)
theory Prelude
  imports Main "HOL-Library.Word"
begin

unbundle bit_operations_syntax

text \<open>
  Shared vocabulary of the development: the machine integers of the Go programs (a 64-bit
  \<^verbatim>\<open>int\<close> as \<^typ>\<open>int\<close> with the wrap-around written out, a machine word as
  \<^typ>\<open>64 word\<close>), Go's truncating remainder, the result type of code that may panic, and the
  list lemmas that the cursor arguments of several components share.
\<close>

named_theorems go_int_simps
named_theorems cursor_simps
named_theorems bit_char

section \<open>Machine integers\<close>

type_synonym go_int = int
type_synonym go_word = "64 word"

definition MaxInt :: go_int where
  "MaxInt = 2 ^ 63 - 1"

definition MinInt :: go_int where
  "MinInt = - MaxInt - 1"

text \<open>The value a 64-bit two's complement register holds after an exact result \<open>i\<close>.\<close>

definition wrap64 :: "int \<Rightarrow> go_int" where
  "wrap64 i = (i + 2 ^ 63) mod 2 ^ 64 - 2 ^ 63"

definition in_int :: "int \<Rightarrow> bool" where
  "in_int i \<longleftrightarrow> MinInt \<le> i \<and> i \<le> MaxInt"

lemma wrap64_id [go_int_simps]: "in_int i \<Longrightarrow> wrap64 i = i"
  by (simp add: in_int_def wrap64_def MinInt_def MaxInt_def)

lemma wrap64_in_int: "in_int (wrap64 i)"
proof -
  have "0 \<le> (i + 2 ^ 63) mod 2 ^ 64" "(i + 2 ^ 63) mod 2 ^ 64 < (2 ^ 64 :: int)" by simp_all
  then show ?thesis by (simp add: in_int_def wrap64_def MinInt_def MaxInt_def)
qed

lemma wrap64_diff_left [go_int_simps]: "wrap64 (wrap64 a - b) = wrap64 (a - b)"
proof -
  have "(wrap64 a - b + 2 ^ 63) mod 2 ^ 64 = ((a + 2 ^ 63) mod 2 ^ 64 - b) mod 2 ^ 64"
    by (simp add: wrap64_def)
  also have "\<dots> = (a + 2 ^ 63 - b) mod 2 ^ 64" by (simp only: mod_diff_left_eq)
  finally show ?thesis by (simp add: wrap64_def algebra_simps)
qed

text \<open>Go's \<^verbatim>\<open>%\<close> truncates towards zero: the result has the sign of the dividend.\<close>

definition go_rem :: "go_int \<Rightarrow> go_int \<Rightarrow> go_int" where
  "go_rem a b = sgn a * (\<bar>a\<bar> mod \<bar>b\<bar>)"

lemma go_rem_euclid:
  assumes "0 < b"
  shows "(if go_rem a b < 0 then go_rem a b + b else go_rem a b) = a mod b"
proof (cases "0 \<le> a")
  case True
  then show ?thesis using assms by (cases "a = 0") (auto simp: go_rem_def sgn_if not_less)
next
  case False
  define m where "m = (- a) mod b"
  have m: "0 \<le> m" "m < b" using assms by (simp_all add: m_def)
  have rem: "go_rem a b = - m" using False assms by (simp add: go_rem_def m_def)
  have amod: "a mod b = (if m = 0 then 0 else b - m)"
    using zmod_zminus1_eq_if [of "- a" b] by (simp add: m_def)
  show ?thesis using m rem amod by auto
qed

section \<open>Panics\<close>

datatype go_panic =
    IndexOutOfRange
  | NilDereference
  | TypeAssertionFailed
  | ExplicitPanic string
  | OutOfFuel
  | Diverges

type_synonym 'a go_result = "go_panic + 'a"

fun bindR :: "'a go_result \<Rightarrow> ('a \<Rightarrow> 'b go_result) \<Rightarrow> 'b go_result" where
  "bindR (Inl e) f = Inl e"
| "bindR (Inr a) f = f a"

lemma bindR_eq_Inr_iff: "bindR m f = Inr b \<longleftrightarrow> (\<exists>a. m = Inr a \<and> f a = Inr b)"
  by (cases m) auto

text \<open>\<^verbatim>\<open>xs[i]\<close> on a slice.\<close>

definition nth_go :: "'a list \<Rightarrow> int \<Rightarrow> 'a go_result" where
  "nth_go xs i = (if 0 \<le> i \<and> i < int (length xs) then Inr (xs ! nat i) else Inl IndexOutOfRange)"

text \<open>A condition on the result of code that returns, and its rules.\<close>

definition okR :: "('a \<Rightarrow> bool) \<Rightarrow> 'a go_result \<Rightarrow> bool" where
  "okR P r \<longleftrightarrow> (\<forall>x. r = Inr x \<longrightarrow> P x)"

lemma okR_Inr [iff]: "okR P (Inr x) \<longleftrightarrow> P x" and okR_Inl [iff]: "okR P (Inl e)" and okR_True: "okR (\<lambda>_. True) r"
  by (simp_all add: okR_def)

lemma okR_D: "okR P r \<Longrightarrow> r = Inr x \<Longrightarrow> P x"
  by (simp add: okR_def)

lemma okR_bind: "okR Q r \<Longrightarrow> (\<And>x. Q x \<Longrightarrow> okR P (f x)) \<Longrightarrow> okR P (bindR r f)"
  by (cases r) simp_all

lemma okR_bind_pair:
  "okR (\<lambda>x. Q (snd x)) r \<Longrightarrow> (\<And>v a. Q a \<Longrightarrow> okR P (f v a)) \<Longrightarrow> okR P (bindR r (case_prod f))"
  by (cases r) (auto split: prod.splits)

lemma okR_if: "(c \<Longrightarrow> okR P x) \<Longrightarrow> (\<not> c \<Longrightarrow> okR P y) \<Longrightarrow> okR P (if c then x else y)"
  by simp

lemma okR_option: "(x = None \<Longrightarrow> okR P u) \<Longrightarrow> (\<And>v. x = Some v \<Longrightarrow> okR P (f v)) \<Longrightarrow> okR P (case_option u f x)"
  by (cases x) simp_all

lemma okR_list: "(x = [] \<Longrightarrow> okR P u) \<Longrightarrow> (\<And>v vs. x = v # vs \<Longrightarrow> okR P (f v vs)) \<Longrightarrow> okR P (case_list u f x)"
  by (cases x) simp_all

lemma okR_prod: "(\<And>v w. x = (v, w) \<Longrightarrow> okR P (f v w)) \<Longrightarrow> okR P (case_prod f x)"
  by (cases x) simp

lemmas okR_rules = okR_bind_pair okR_bind okR_if okR_option okR_list okR_prod

section \<open>Lists addressed by a cursor\<close>

lemma nth_length_append [cursor_simps]: "(xs @ y # ys) ! length xs = y"
  by simp

lemma update_length_append [cursor_simps]: "(xs @ y # ys)[length xs := z] = xs @ z # ys"
  by simp

lemma take_length_append [cursor_simps]: "take (length xs) (xs @ ys) = xs"
  by simp

lemma drop_length_append [cursor_simps]: "drop (length xs) (xs @ ys) = ys"
  by simp

lemma drop_Suc_length_append [cursor_simps]: "drop (Suc (length xs)) (xs @ y # ys) = ys"
  by simp

lemma take_Suc_length_append [cursor_simps]: "take (Suc (length xs)) (xs @ y # ys) = xs @ [y]"
  by simp

lemma length_filter_sum: "length (filter P xs) = (\<Sum>x\<leftarrow>xs. of_bool (P x))"
  by (induction xs) auto

lemma card_Collect_less: "card {i. i < n \<and> P i} = length (filter P [0..<n])"
proof -
  have "{i. i < n \<and> P i} = set (filter P [0..<n])" by auto
  then have "card {i. i < n \<and> P i} = card (set (filter P [0..<n]))" by (rule arg_cong)
  also have "\<dots> = length (filter P [0..<n])" by (rule distinct_card) simp
  finally show ?thesis .
qed

end
