(* ===== verification/Intsets_Bits.thy ===== *)
theory Intsets_Bits
  imports Prelude
begin

text \<open>
  Word-level helpers of the sparse integer sets: \<^verbatim>\<open>gopta/container/intsets/util.go\<close>
  (\<^verbatim>\<open>popcountHD\<close>, the byte table and \<^verbatim>\<open>popcountTable\<close>, \<^verbatim>\<open>nlz\<close>,
  \<^verbatim>\<open>ntz\<close>) and the dispatching \<^verbatim>\<open>popcount\<close> of \<^verbatim>\<open>popcnt_amd64.go\<close>.
  A machine word is a \<^typ>\<open>64 word\<close> (\<^verbatim>\<open>bitsPerWord = 64\<close>). The lemmas give each
  function its meaning in terms of the set bits of the word.
\<close>

definition bitsPerWord :: nat where
  "bitsPerWord = 64"

section \<open>Population counts\<close>

text \<open>The \<^verbatim>\<open>POPCNTQ\<close> instruction that \<^verbatim>\<open>popcnt_amd64.s\<close> assembles.\<close>

definition popcnt :: "go_word \<Rightarrow> int" where
  "popcnt x = int (length (filter (bit x) [0..<64]))"

text \<open>Package initialisation of the byte table \<^verbatim>\<open>a\<close>.\<close>

fun a_count :: "nat \<Rightarrow> 8 word \<Rightarrow> 8 word" where
  "a_count x n = (if x = 0 then n else a_count (x div 2) (if odd x then n + 1 else n))"

declare a_count.simps [simp del]

definition a_table :: "8 word list" where
  "a_table = map (\<lambda>i. a_count i 0) [0..<256]"

definition a_lookup :: "go_word \<Rightarrow> nat \<Rightarrow> 8 word" where
  "a_lookup x k = a_table ! unat (ucast (drop_bit (k * 8) x) :: 8 word)"

definition popcountTable :: "go_word \<Rightarrow> int" where
  "popcountTable x =
     uint (a_lookup x 0 + a_lookup x 1 + a_lookup x 2 + a_lookup x 3 +
           a_lookup x 4 + a_lookup x 5 + a_lookup x 6 + a_lookup x 7)"

definition popcountHD :: "32 word \<Rightarrow> int" where
  "popcountHD x0 =
     (let x1 = x0 - (drop_bit 1 x0 AND 0x55555555);
          x2 = (x1 AND 0x33333333) + (drop_bit 2 x1 AND 0x33333333);
          x3 = (x2 + drop_bit 4 x2) AND 0x0f0f0f0f;
          x4 = x3 + drop_bit 8 x3;
          x5 = x4 + drop_bit 16 x4
      in uint (x5 AND 0x0000003f))"

text \<open>\<^verbatim>\<open>hasPOPCNT\<close> is what CPUID reported when the package was loaded.\<close>

definition popcount :: "bool \<Rightarrow> go_word \<Rightarrow> int" where
  "popcount hasPOPCNT x = (if hasPOPCNT then popcnt x else popcountTable x)"

definition nlz :: "bool \<Rightarrow> go_word \<Rightarrow> int" where
  "nlz hasPOPCNT x0 =
     (let x1 = x0 OR drop_bit 1 x0;
          x2 = x1 OR drop_bit 2 x1;
          x3 = x2 OR drop_bit 4 x2;
          x4 = x3 OR drop_bit 8 x3;
          x5 = x4 OR drop_bit 16 x4;
          x6 = x5 OR drop_bit 32 x5
      in popcount hasPOPCNT (NOT x6))"

definition ntz :: "go_word \<Rightarrow> int" where
  "ntz x =
     (if x = 0 then int bitsPerWord
      else
        let (n, x) = (1, x);
            (n, x) = (if x AND 0xffffffff = 0 then (n + 32, drop_bit 32 x) else (n, x));
            (n, x) = (if x AND 0x0000ffff = 0 then (n + 16, drop_bit 16 x) else (n, x));
            (n, x) = (if x AND 0x000000ff = 0 then (n + 8, drop_bit 8 x) else (n, x));
            (n, x) = (if x AND 0x0000000f = 0 then (n + 4, drop_bit 4 x) else (n, x));
            (n, x) = (if x AND 0x00000003 = 0 then (n + 2, drop_bit 2 x) else (n, x))
        in n - uint (x AND 1))"

section \<open>The byte table\<close>

lemma sum_bits_shift:
  fixes x :: nat
  shows "(\<Sum>j<Suc k. of_bool (bit x j) :: nat)
    = of_bool (odd x) + (\<Sum>j<k. of_bool (bit (x div 2) j))"
  by (simp only: sum.lessThan_Suc_shift bit_0 bit_Suc)

lemma a_count_eq:
  "x < 2 ^ k \<Longrightarrow> a_count x n = n + of_nat (\<Sum>j<k. of_bool (bit x j))"
proof (induction k arbitrary: x n)
  case 0
  then show ?case by (simp add: a_count.simps)
next
  case (Suc k)
  have lt: "x div 2 < 2 ^ k" using Suc.prems by simp
  show ?case
  proof (cases "x = 0")
    case True
    then show ?thesis by (simp add: a_count.simps)
  next
    case False
    show ?thesis
      using False Suc.IH [OF lt]
      by (subst a_count.simps) (simp add: sum_bits_shift del: sum.lessThan_Suc)
  qed
qed

lemma a_table_bits: "a_table ! unat b = of_nat (\<Sum>j<8. of_bool (bit b j))"
  for b :: "8 word"
proof -
  have lt: "unat b < 2 ^ 8" using unsigned_less [of b] by simp
  have "bit (unat b) j = bit b j" if "j < 8" for j
    using that by (simp add: bit_unsigned_iff)
  then show ?thesis
    using lt by (simp add: a_table_def a_count_eq [OF lt])
qed

lemma a_lookup_bits: "a_lookup x k = of_nat (\<Sum>j<8. of_bool (bit x (k * 8 + j)))"
  by (simp add: a_lookup_def a_table_bits bit_ucast_iff bit_drop_bit_eq add.commute)

lemma sum_bits_le: "(\<Sum>j<n. of_bool (P j) :: nat) \<le> n"
proof -
  have "(\<Sum>j<n. of_bool (P j) :: nat) \<le> (\<Sum>j<n. 1)" by (rule sum_mono) simp
  then show ?thesis by simp
qed

lemma popcnt_sum: "popcnt x = int (\<Sum>j<64. of_bool (bit x j))"
  by (simp add: popcnt_def length_filter_sum sum_list_distinct_conv_sum_set atLeast0LessThan)

lemma sum_bytes: "(\<Sum>j<(64::nat). f j :: nat) =
   (\<Sum>j<8. f (0 * 8 + j)) + (\<Sum>j<8. f (1 * 8 + j)) + (\<Sum>j<8. f (2 * 8 + j)) + (\<Sum>j<8. f (3 * 8 + j)) +
   (\<Sum>j<8. f (4 * 8 + j)) + (\<Sum>j<8. f (5 * 8 + j)) + (\<Sum>j<8. f (6 * 8 + j)) + (\<Sum>j<8. f (7 * 8 + j))"
proof -
  have shift: "sum f {m * 8..<m * 8 + 8} = (\<Sum>j<8. f (m * 8 + j))" for m
    using sum.shift_bounds_nat_ivl [of f 0 "m * 8" 8] by (simp add: atLeast0LessThan ac_simps)
  define g where "g m = (\<Sum>j<8. f (m * 8 + j))" for m
  have "(\<Sum>j<(64::nat). f j) = (\<Sum>m<8. g m)"
    using sum.nat_group [of f 8 8] by (simp add: shift g_def)
  also have "\<dots> = g 0 + g 1 + g 2 + g 3 + g 4 + g 5 + g 6 + g 7"
    by (simp add: eval_nat_numeral)
  finally show ?thesis by (simp only: g_def)
qed

lemma popcountTable_popcnt: "popcountTable x = popcnt x"
proof -
  define c where "c k = (\<Sum>j<8. of_bool (bit x (k * 8 + j)) :: nat)" for k
  have tot: "popcnt x = int (c 0 + c 1 + c 2 + c 3 + c 4 + c 5 + c 6 + c 7)"
    by (simp only: popcnt_sum sum_bytes c_def)
  have le: "c k \<le> 8" for k unfolding c_def by (rule sum_bits_le)
  have "c 0 + c 1 + c 2 + c 3 + c 4 + c 5 + c 6 + c 7 < 256"
    using le [of 0] le [of 1] le [of 2] le [of 3] le [of 4] le [of 5] le [of 6] le [of 7] by linarith
  moreover have "popcountTable x = uint (of_nat (c 0 + c 1 + c 2 + c 3 + c 4 + c 5 + c 6 + c 7) :: 8 word)"
    by (simp only: popcountTable_def a_lookup_bits c_def of_nat_add)
  moreover have "uint (of_nat n :: 8 word) = int n" if "n < 256" for n
    using that by (simp add: unsigned_of_nat take_bit_eq_mod)
  ultimately show ?thesis by (simp only: tot)
qed

lemma popcount_card: "popcount h x = int (card {i. i < 64 \<and> bit x i})"
  by (simp add: popcount_def popcountTable_popcnt popcnt_def card_Collect_less)

section \<open>Leading zeros: the smeared word\<close>

definition smeared :: "go_word \<Rightarrow> go_word \<Rightarrow> nat \<Rightarrow> bool" where
  "smeared x y k \<longleftrightarrow> (\<forall>i. bit y i \<longleftrightarrow> (\<exists>j. i \<le> j \<and> j < i + k \<and> bit x j))"

lemma smeared_1: "smeared x x 1"
  by (auto simp: smeared_def) (metis less_Suc_eq_le le_antisym)

lemma smeared_step:
  assumes "smeared x y k"
  shows "smeared x (y OR drop_bit k y) (k + k)"
proof -
  have y: "bit y i \<longleftrightarrow> (\<exists>j. i \<le> j \<and> j < i + k \<and> bit x j)" for i
    using assms by (simp add: smeared_def)
  have "bit (y OR drop_bit k y) i \<longleftrightarrow> (\<exists>j. i \<le> j \<and> j < i + (k + k) \<and> bit x j)" (is "?L \<longleftrightarrow> ?R") for i
  proof
    assume ?L
    then have "bit y i \<or> bit y (k + i)" by (simp add: bit_or_iff bit_drop_bit_eq)
    then show ?R unfolding y by (elim disjE exE conjE) (rule exI, intro conjI, auto)+
  next
    assume ?R
    then obtain j where j: "i \<le> j" "j < i + (k + k)" "bit x j" by blast
    show ?L
    proof (cases "j < i + k")
      case True
      then have "bit y i" unfolding y using j by blast
      then show ?thesis by (simp add: bit_or_iff)
    next
      case False
      then have "k + i \<le> j \<and> j < k + i + k \<and> bit x j" using j by linarith
      then have "bit y (k + i)" unfolding y by blast
      then show ?thesis by (simp add: bit_or_iff bit_drop_bit_eq)
    qed
  qed
  then show ?thesis by (simp add: smeared_def)
qed

lemma nlz_smear:
  assumes "bit x m" "\<And>j. m < j \<Longrightarrow> \<not> bit x j"
  shows "nlz h x = 63 - int m"
proof -
  define s where "s k y = y OR drop_bit k (y :: go_word)" for k y
  define y where "y = s 32 (s 16 (s 8 (s 4 (s 2 (s 1 x)))))"
  have step: "smeared x z k \<Longrightarrow> smeared x (s k z) (k + k)" for z k
    unfolding s_def by (rule smeared_step)
  have "smeared x (s 2 (s 1 x)) 4"
    using step [OF step [OF smeared_1 [of x]]] by (simp only: one_add_one numeral_Bit0 [symmetric])
  then have "smeared x (s 8 (s 4 (s 2 (s 1 x)))) 16" using step step [of _ 4] by fastforce
  then have "smeared x y 64" unfolding y_def using step [of _ 16] step [of _ 32] by fastforce
  then have yi: "bit y i \<longleftrightarrow> (\<exists>j. i \<le> j \<and> j < i + 64 \<and> bit x j)" for i
    by (simp add: smeared_def)
  have m: "m < 64" using bit_imp_le_length [OF assms(1)] by simp
  have "bit y i \<longleftrightarrow> i \<le> m" for i
    unfolding yi using assms m by (auto intro!: exI [of _ m]) (meson le_trans not_le)
  then have "i < 64 \<and> bit (NOT y) i \<longleftrightarrow> i \<in> {Suc m..<64}" for i
    by (auto simp only: bit_not_iff possible_bit_word not_le Suc_le_eq atLeastLessThan_iff) simp_all
  then have "card {i. i < 64 \<and> bit (NOT y) i} = card {Suc m..<64}" by (simp only: Collect_mem_eq)
  moreover have "nlz h x = popcount h (NOT y)"
    unfolding nlz_def s_def [symmetric] y_def Let_def ..
  ultimately show ?thesis using m by (simp add: popcount_card)
qed

section \<open>Trailing zeros: binary search for the lowest set bit\<close>

definition low_bit :: "go_word \<Rightarrow> nat \<Rightarrow> bool" where
  "low_bit x m \<longleftrightarrow> bit x m \<and> (\<forall>j < m. \<not> bit x j)"

lemma low_bit_ex: "x \<noteq> 0 \<Longrightarrow> \<exists>m. low_bit x m"
  unfolding low_bit_def by (metis bit_eqI bit_0_eq bot_apply bot_bool_def exists_least_iff)

lemma low_bit_nz: "low_bit x m \<Longrightarrow> x \<noteq> 0 \<and> m < 64"
  unfolding low_bit_def using bit_imp_le_length [of x m] by auto

lemma low_bit_mask:
  assumes "low_bit x m"
  shows "x AND mask k = 0 \<longleftrightarrow> k \<le> m"
proof
  assume z: "x AND mask k = 0"
  show "k \<le> m"
  proof (rule ccontr)
    assume "\<not> k \<le> m"
    then have "bit (x AND mask k) m"
      using assms low_bit_nz [OF assms] by (simp add: low_bit_def bit_and_iff bit_mask_iff)
    with z show False by simp
  qed
next
  assume "k \<le> m"
  then show "x AND mask k = 0"
    using assms by (auto simp: low_bit_def bit_eq_iff bit_and_iff bit_mask_iff)
qed

lemma low_bit_drop: "low_bit x m \<Longrightarrow> k \<le> m \<Longrightarrow> low_bit (drop_bit k x) (m - k)"
  by (auto simp: low_bit_def bit_drop_bit_eq)

definition ntz_step :: "nat \<Rightarrow> int \<times> go_word \<Rightarrow> int \<times> go_word" where
  "ntz_step k = (\<lambda>(n, x). if x AND mask k = 0 then (n + int k, drop_bit k x) else (n, x))"

definition ntz_inv :: "nat \<Rightarrow> nat \<Rightarrow> int \<times> go_word \<Rightarrow> bool" where
  "ntz_inv m0 k = (\<lambda>(n, x). \<exists>m. low_bit x m \<and> m < k \<and> n + int m = 1 + int m0)"

lemma ntz_step_inv: "ntz_inv m0 (k + k) p \<Longrightarrow> ntz_inv m0 k (ntz_step k p)"
proof (cases p)
  case (Pair n x)
  assume "ntz_inv m0 (k + k) p"
  then obtain m where m: "low_bit x m" "m < k + k" "n + int m = 1 + int m0"
    by (auto simp: ntz_inv_def Pair)
  show ?thesis
  proof (cases "k \<le> m")
    case True
    have "low_bit (drop_bit k x) (m - k) \<and> m - k < k \<and> n + int k + int (m - k) = 1 + int m0"
      using m True low_bit_drop by auto
    then show ?thesis
      using True low_bit_mask [OF m(1), of k] unfolding ntz_inv_def ntz_step_def Pair by auto
  next
    case False
    then show ?thesis
      using m low_bit_mask [OF m(1), of k] unfolding ntz_inv_def ntz_step_def Pair by auto
  qed
qed

lemma ntz_masks:
  "mask 32 = (0xffffffff :: go_word)" "mask 16 = (0x0000ffff :: go_word)"
  "mask 8 = (0x000000ff :: go_word)" "mask 4 = (0x0000000f :: go_word)"
  "mask 2 = (0x00000003 :: go_word)"
  by (simp_all add: mask_eq_exp_minus_1)

lemma ntz_steps:
  assumes "x \<noteq> 0" "ntz_step 32 (1, x) = (n1, x1)" "ntz_step 16 (n1, x1) = (n2, x2)"
    "ntz_step 8 (n2, x2) = (n3, x3)" "ntz_step 4 (n3, x3) = (n4, x4)" "ntz_step 2 (n4, x4) = (n5, x5)"
  shows "ntz x = n5 - uint (x5 AND 1)"
proof -
  note a = assms(2-) [unfolded ntz_step_def prod.case ntz_masks of_nat_numeral]
  show ?thesis
    unfolding ntz_def Let_def prod.case using assms(1)
    by (simp only: a prod.case if_False)
qed

lemma ntz_low_bit:
  assumes "low_bit x m"
  shows "ntz x = int m"
proof -
  note nz = low_bit_nz [OF assms]
  have "ntz_inv m (32 + 32) (1, x)" using assms nz by (auto simp: ntz_inv_def)
  from ntz_step_inv [OF this] obtain n1 x1
    where s1: "ntz_step 32 (1, x) = (n1, x1)" and i1: "ntz_inv m (16 + 16) (n1, x1)"
    by (cases "ntz_step 32 (1, x)") auto
  from ntz_step_inv [OF i1] obtain n2 x2
    where s2: "ntz_step 16 (n1, x1) = (n2, x2)" and i2: "ntz_inv m (8 + 8) (n2, x2)"
    by (cases "ntz_step 16 (n1, x1)") auto
  from ntz_step_inv [OF i2] obtain n3 x3
    where s3: "ntz_step 8 (n2, x2) = (n3, x3)" and i3: "ntz_inv m (4 + 4) (n3, x3)"
    by (cases "ntz_step 8 (n2, x2)") auto
  from ntz_step_inv [OF i3] obtain n4 x4
    where s4: "ntz_step 4 (n3, x3) = (n4, x4)" and i4: "ntz_inv m (2 + 2) (n4, x4)"
    by (cases "ntz_step 4 (n3, x3)") auto
  from ntz_step_inv [OF i4] obtain n y
    where s5: "ntz_step 2 (n4, x4) = (n, y)" and i5: "ntz_inv m 2 (n, y)"
    by (cases "ntz_step 2 (n4, x4)") auto
  from i5 obtain k where k: "low_bit y k" "k < 2" "n + int k = 1 + int m"
    by (auto simp: ntz_inv_def)
  have "uint (y AND 1) = of_bool (k = 0)"
    using k(1,2) by (cases "k = 0") (auto simp: low_bit_def and_one_eq odd_iff_mod_2_eq_one bit_0 less_2_cases_iff)
  then show ?thesis using k ntz_steps [OF _ s1 s2 s3 s4 s5] nz by auto
qed
end
