(* ===== verification/Intsets_Block.thy ===== *)
theory Intsets_Block
  imports Intsets_Bits
begin

text \<open>
  The blocks of a sparse integer set (\<^verbatim>\<open>type block\<close> in
  \<^verbatim>\<open>gopta/container/intsets/sparse.go\<close>): an offset, a multiple of 256, and 256 bits in four
  machine words. The pointer fields \<^verbatim>\<open>next\<close> and \<^verbatim>\<open>prev\<close> are the order of the list that
  holds the blocks (theory \<open>Intsets_Sparse\<close>). A block stands for the set \<open>block_elems\<close> of
  integers; each operation is proved against that set.
\<close>

definition bitsPerBlock :: nat where
  "bitsPerBlock = 256"

definition wordsPerBlock :: nat where
  "wordsPerBlock = bitsPerBlock div bitsPerWord"

record block =
  offset :: go_int
  bits :: "go_word list"

text \<open>The value Go's \<^verbatim>\<open>new(block)\<close> and \<^verbatim>\<open>block\{\}\<close> give.\<close>

definition zero_block :: block where
  "zero_block = \<lparr>offset = 0, bits = replicate wordsPerBlock 0\<rparr>"

lemma wordsPerBlock_4 [simp]: "wordsPerBlock = 4"
  by (simp add: wordsPerBlock_def bitsPerBlock_def bitsPerWord_def)

section \<open>Operations on one block\<close>

definition wordMask :: "nat \<Rightarrow> nat \<times> go_word" where
  "wordMask i = (i div bitsPerWord, push_bit (i mod bitsPerWord) 1)"

definition block_insert :: "block \<Rightarrow> nat \<Rightarrow> block \<times> bool" where
  "block_insert b i =
     (let (w, mask) = wordMask i
      in if bits b ! w AND mask = 0
         then (b\<lparr>bits := (bits b)[w := bits b ! w OR mask]\<rparr>, True)
         else (b, False))"

definition block_remove :: "block \<Rightarrow> nat \<Rightarrow> block \<times> bool" where
  "block_remove b i =
     (let (w, mask) = wordMask i
      in if bits b ! w AND mask \<noteq> 0
         then (b\<lparr>bits := (bits b)[w := bits b ! w AND NOT mask]\<rparr>, True)
         else (b, False))"

definition block_has :: "block \<Rightarrow> nat \<Rightarrow> bool" where
  "block_has b i = (let (w, mask) = wordMask i in bits b ! w AND mask \<noteq> 0)"

definition block_empty :: "block \<Rightarrow> bool" where
  "block_empty b \<longleftrightarrow> list_all (\<lambda>w. w = 0) (bits b)"

definition block_len :: "bool \<Rightarrow> block \<Rightarrow> int" where
  "block_len h b = fold (\<lambda>w l. l + popcount h w) (bits b) 0"

text \<open>
  \<^verbatim>\<open>max\<close> scans the words from the last one down; \<open>bi\<close> starts at the first integer above
  the block, which is out of range for the topmost block, so the arithmetic wraps.
\<close>

fun block_max_loop :: "bool \<Rightarrow> go_int \<Rightarrow> go_word list \<Rightarrow> go_int go_result" where
  "block_max_loop h bi [] = Inl (ExplicitPanic ''BUG: empty block'')"
| "block_max_loop h bi (w # ws) =
     (if w \<noteq> 0 then Inr (wrap64 (wrap64 (bi - nlz h w) - 1))
      else block_max_loop h (wrap64 (bi - int bitsPerWord)) ws)"

definition block_max :: "bool \<Rightarrow> block \<Rightarrow> go_int go_result" where
  "block_max h b = block_max_loop h (wrap64 (offset b + int bitsPerBlock)) (rev (bits b))"

text \<open>\<^verbatim>\<open>min(take)\<close>: the loop over the words carries the index \<open>i\<close> and the words passed.\<close>

fun block_min_loop :: "bool \<Rightarrow> nat \<Rightarrow> go_word list \<Rightarrow> (int \<times> go_word list) go_result" where
  "block_min_loop tk i [] = Inl (ExplicitPanic ''BUG: empty block'')"
| "block_min_loop tk i (w # ws) =
     (if w \<noteq> 0
      then let tz = ntz w
           in Inr (int (i * bitsPerWord) + tz,
                   (if tk then w AND NOT (push_bit (nat tz) 1) else w) # ws)
      else bindR (block_min_loop tk (Suc i) ws) (\<lambda>(m, ws'). Inr (m, w # ws')))"

definition block_min :: "bool \<Rightarrow> block \<Rightarrow> (go_int \<times> block) go_result" where
  "block_min tk b =
     bindR (block_min_loop tk 0 (bits b)) (\<lambda>(m, ws). Inr (offset b + m, b\<lparr>bits := ws\<rparr>))"

text \<open>\<^verbatim>\<open>lowerBound(i)\<close>: \<open>None\<close> is the second result \<^verbatim>\<open>false\<close>.\<close>

fun block_lowerBound_loop :: "nat \<Rightarrow> go_word list \<Rightarrow> int option" where
  "block_lowerBound_loop w [] = None"
| "block_lowerBound_loop w (v # vs) =
     (if v \<noteq> 0 then Some (int (w * bitsPerWord) + ntz v) else block_lowerBound_loop (Suc w) vs)"

definition block_lowerBound :: "block \<Rightarrow> nat \<Rightarrow> go_int option" where
  "block_lowerBound b i =
     (let w = i div bitsPerWord; bt = i mod bitsPerWord; val = drop_bit bt (bits b ! w)
      in if val \<noteq> 0 then Some (offset b + int i + ntz val)
         else map_option (\<lambda>y. offset b + y) (block_lowerBound_loop (Suc w) (drop (Suc w) (bits b))))"

text \<open>\<^verbatim>\<open>forEach\<close> calls its argument on these integers, in this order.\<close>

fun word_forEach :: "nat \<Rightarrow> go_int \<Rightarrow> go_word \<Rightarrow> go_int list" where
  "word_forEach 0 off w = []"
| "word_forEach (Suc n) off w =
     (if w = 0 then []
      else (if w AND 1 \<noteq> 0 then [off] else []) @ word_forEach n (off + 1) (drop_bit 1 w))"

fun words_forEach :: "go_int \<Rightarrow> nat \<Rightarrow> go_word list \<Rightarrow> go_int list" where
  "words_forEach off i [] = []"
| "words_forEach off i (w # ws) =
     word_forEach bitsPerWord (off + int (i * bitsPerWord)) w @ words_forEach off (Suc i) ws"

definition block_forEach :: "block \<Rightarrow> go_int list" where
  "block_forEach b = words_forEach (offset b) 0 (bits b)"

definition offsetAndBitIndex :: "go_int \<Rightarrow> go_int \<times> nat" where
  "offsetAndBitIndex x =
     (let md = go_rem x (int bitsPerBlock);
          md = (if md < 0 then md + int bitsPerBlock else md)
      in (x - md, nat md))"

section \<open>Well-formed blocks and the integers they stand for\<close>

definition bit_at :: "block \<Rightarrow> nat \<Rightarrow> bool" where
  "bit_at b i \<longleftrightarrow> bit (bits b ! (i div 64)) (i mod 64)"

definition block_elems :: "block \<Rightarrow> int set" where
  "block_elems b = {offset b + int i | i. i < 256 \<and> bit_at b i}"

definition wf_offset :: "int \<Rightarrow> bool" where
  "wf_offset off \<longleftrightarrow> off mod 256 = 0 \<and> MinInt \<le> off \<and> off \<le> MaxInt - 255"

definition wf_frame :: "block \<Rightarrow> bool" where
  "wf_frame b \<longleftrightarrow> wf_offset (offset b) \<and> length (bits b) = 4"

definition wf_block :: "block \<Rightarrow> bool" where
  "wf_block b \<longleftrightarrow> wf_frame b \<and> block_elems b \<noteq> {}"

section \<open>Single-bit operations\<close>

lemma offsetAndBitIndex_eq: "offsetAndBitIndex x = (x - x mod 256, nat (x mod 256))"
  using go_rem_euclid [of 256 x]
  by (simp add: offsetAndBitIndex_def bitsPerBlock_def Let_def split: if_splits)

lemma mask_test: "w AND 2 ^ n = 0 \<longleftrightarrow> \<not> bit w n" for w :: go_word
proof -
  have "w AND 2 ^ n = (if bit w n then 2 ^ n else 0)"
    by (rule bit_eqI) (auto simp: bit_and_iff bit_exp_iff)
  moreover have "(2 ^ n :: go_word) \<noteq> 0" if "bit w n"
    using bit_imp_le_length [OF that] by simp
  ultimately show ?thesis by auto
qed

lemma block_has_bit: "block_has b i \<longleftrightarrow> bit_at b i"
  by (simp add: block_has_def wordMask_def bit_at_def bitsPerWord_def mask_test)

lemma same_bit: "(i div 64 = j div 64 \<and> i mod 64 = j mod 64) = (i = (j::nat))"
  by (metis div_mult_mod_eq)

lemma bit_at_set:
  assumes "length (bits b) = 4" "i < 256" "j < 256"
  shows "bit_at (b\<lparr>bits := (bits b)[i div 64 := bits b ! (i div 64) OR 2 ^ (i mod 64)]\<rparr>) j
    \<longleftrightarrow> bit_at b j \<or> j = i"
  using assms same_bit [of i j]
  by (auto simp: bit_at_def nth_list_update bit_or_iff bit_exp_iff)

lemma bit_at_clear:
  assumes "length (bits b) = 4" "i < 256" "j < 256"
  shows "bit_at (b\<lparr>bits := (bits b)[i div 64 := bits b ! (i div 64) AND NOT (2 ^ (i mod 64))]\<rparr>) j
    \<longleftrightarrow> bit_at b j \<and> j \<noteq> i"
  using assms same_bit [of i j]
  by (auto simp: bit_at_def nth_list_update bit_and_iff bit_not_iff bit_exp_iff)

lemma mem_block_elems:
  assumes "wf_offset (offset b)"
  shows "x \<in> block_elems b \<longleftrightarrow> offset b = x - x mod 256 \<and> bit_at b (nat (x mod 256))"
proof
  assume "x \<in> block_elems b"
  then obtain i where i: "x = offset b + int i" "i < 256" "bit_at b i"
    by (auto simp: block_elems_def)
  have "x mod 256 = (offset b mod 256 + int i) mod 256" using i(1) by (simp add: mod_add_left_eq)
  also have "\<dots> = int i" using assms i(2) by (simp add: wf_offset_def)
  finally show "offset b = x - x mod 256 \<and> bit_at b (nat (x mod 256))" using i by simp
next
  assume r: "offset b = x - x mod 256 \<and> bit_at b (nat (x mod 256))"
  have "x = offset b + int (nat (x mod 256))" "nat (x mod 256) < 256" using r by auto
  with r show "x \<in> block_elems b" unfolding block_elems_def by blast
qed

lemma mem_block_elems_add: "j < 256 \<Longrightarrow> offset b + int j \<in> block_elems b \<longleftrightarrow> bit_at b j"
  unfolding block_elems_def by auto

lemma block_elems_insertI:
  assumes "offset b' = offset b" "i < 256" "\<And>j. j < 256 \<Longrightarrow> bit_at b' j \<longleftrightarrow> bit_at b j \<or> j = i"
  shows "block_elems b' = insert (offset b + int i) (block_elems b)"
proof -
  have "block_elems b' = {offset b + int j | j. j < 256 \<and> (bit_at b j \<or> j = i)}"
    unfolding block_elems_def using assms by metis
  then show ?thesis unfolding block_elems_def using assms(2) by blast
qed

lemma block_elems_removeI:
  assumes "offset b' = offset b" "i < 256" "\<And>j. j < 256 \<Longrightarrow> bit_at b' j \<longleftrightarrow> bit_at b j \<and> j \<noteq> i"
  shows "block_elems b' = block_elems b - {offset b + int i}"
proof -
  have "block_elems b' = {offset b + int j | j. j < 256 \<and> bit_at b j \<and> j \<noteq> i}"
    unfolding block_elems_def using assms by metis
  then show ?thesis unfolding block_elems_def by force
qed

lemma block_insert_unfold:
  "block_insert b i =
     (if bit_at b i then (b, False)
      else (b\<lparr>bits := (bits b)[i div 64 := bits b ! (i div 64) OR 2 ^ (i mod 64)]\<rparr>, True))"
  by (simp add: block_insert_def wordMask_def bitsPerWord_def mask_test bit_at_def)

lemma block_remove_unfold:
  "block_remove b i =
     (if bit_at b i
      then (b\<lparr>bits := (bits b)[i div 64 := bits b ! (i div 64) AND NOT (2 ^ (i mod 64))]\<rparr>, True)
      else (b, False))"
  by (simp add: block_remove_def wordMask_def bitsPerWord_def mask_test bit_at_def)

lemma block_insert_spec:
  assumes "wf_frame b" "i < 256" "block_insert b i = (b', r)"
  shows "wf_frame b'" "offset b' = offset b"
    "block_elems b' = insert (offset b + int i) (block_elems b)"
    "r \<longleftrightarrow> offset b + int i \<notin> block_elems b"
proof -
  have len: "length (bits b) = 4" using assms(1) by (simp add: wf_frame_def)
  show "wf_frame b'" "offset b' = offset b"
    using assms(1,3) by (auto simp: block_insert_unfold wf_frame_def split: if_splits)
  show "r \<longleftrightarrow> offset b + int i \<notin> block_elems b"
    using assms(3) mem_block_elems_add [OF assms(2), of b] by (auto simp: block_insert_unfold split: if_splits)
  show "block_elems b' = insert (offset b + int i) (block_elems b)"
  proof (cases "bit_at b i")
    case True
    then show ?thesis using assms(3) mem_block_elems_add [OF assms(2), of b] by (auto simp: block_insert_unfold)
  next
    case False
    then show ?thesis using assms by (intro block_elems_insertI) (auto simp: block_insert_unfold bit_at_set [OF len])
  qed
qed

lemma block_remove_spec:
  assumes "wf_frame b" "i < 256" "block_remove b i = (b', r)"
  shows "wf_frame b'" "offset b' = offset b"
    "block_elems b' = block_elems b - {offset b + int i}"
    "r \<longleftrightarrow> offset b + int i \<in> block_elems b"
proof -
  have len: "length (bits b) = 4" using assms(1) by (simp add: wf_frame_def)
  show "wf_frame b'" "offset b' = offset b"
    using assms(1,3) by (auto simp: block_remove_unfold wf_frame_def split: if_splits)
  show "r \<longleftrightarrow> offset b + int i \<in> block_elems b"
    using assms(3) mem_block_elems_add [OF assms(2), of b] by (auto simp: block_remove_unfold split: if_splits)
  show "block_elems b' = block_elems b - {offset b + int i}"
  proof (cases "bit_at b i")
    case True
    then show ?thesis using assms by (intro block_elems_removeI) (auto simp: block_remove_unfold bit_at_clear [OF len])
  next
    case False
    then show ?thesis using assms(3) mem_block_elems_add [OF assms(2), of b] by (auto simp: block_remove_unfold)
  qed
qed

lemma zero_word_bits: "(w = 0) \<longleftrightarrow> (\<forall>j < 64. \<not> bit w j)" for w :: go_word
  by (auto simp: bit_eq_iff)

lemma split_bits: "(\<forall>i < 256. P (i div 64) (i mod 64)) \<longleftrightarrow> (\<forall>k < 4. \<forall>j < 64. P k (j :: nat))"
proof
  assume l: "\<forall>i < 256. P (i div 64) (i mod 64)"
  show "\<forall>k < 4. \<forall>j < 64. P k j"
  proof (intro allI impI)
    fix k j :: nat
    assume kj: "k < 4" "j < 64"
    then have "k * 64 + j < 256" "(k * 64 + j) div 64 = k" "(k * 64 + j) mod 64 = j" by auto
    with l show "P k j" by metis
  qed
qed auto

lemma block_empty_iff:
  assumes "wf_frame b"
  shows "block_empty b \<longleftrightarrow> block_elems b = {}"
proof -
  have "block_empty b \<longleftrightarrow> (\<forall>k < 4. \<forall>j < 64. \<not> bit (bits b ! k) j)"
    using assms by (auto simp: block_empty_def list_all_length wf_frame_def zero_word_bits)
  also have "\<dots> \<longleftrightarrow> (\<forall>i < 256. \<not> bit_at b i)"
    unfolding bit_at_def by (rule split_bits [symmetric])
  finally show ?thesis by (auto simp: block_elems_def)
qed

section \<open>Scans over the words\<close>

fun word_set :: "nat \<Rightarrow> go_word list \<Rightarrow> int set" where
  "word_set i [] = {}"
| "word_set i (w # ws) = {int (i * 64 + j) |j. bit w j} \<union> word_set (Suc i) ws"

lemma bit_word_lt: "bit w j \<Longrightarrow> j < 64" for w :: go_word
  using bit_imp_le_length [of w j] by simp

lemma mem_word_set:
  "m \<in> word_set i ws \<longleftrightarrow> (\<exists>k j. k < length ws \<and> bit (ws ! k) j \<and> m = int ((i + k) * 64 + j))"
proof (induction ws arbitrary: i)
  case Nil
  then show ?case by simp
next
  case (Cons w ws)
  show ?case (is "?L \<longleftrightarrow> ?R")
  proof
    assume ?L
    then consider j where "bit w j" "m = int (i * 64 + j)"
      | k j where "k < length ws" "bit (ws ! k) j" "m = int ((Suc i + k) * 64 + j)"
      using Cons.IH by auto
    then show ?R
    proof cases
      case 1
      then show ?thesis by (intro exI [of _ 0] exI) auto
    next
      case (2 k j)
      then show ?thesis by (intro exI [of _ "Suc k"] exI [of _ j]) auto
    qed
  next
    assume ?R
    then obtain k j where "k < length (w # ws)" "bit ((w # ws) ! k) j" "m = int ((i + k) * 64 + j)"
      by blast
    then show ?L using Cons.IH [of "Suc i"] by (cases k) auto
  qed
qed

lemma word_set_bounds: "m \<in> word_set i ws \<Longrightarrow> int (i * 64) \<le> m \<and> m < int ((i + length ws) * 64)"
proof (induction ws arbitrary: i)
  case (Cons w ws)
  then show ?case using Cons.IH [of "Suc i"] by (auto dest: bit_word_lt)
qed simp

lemma word_set_append: "word_set i (us @ vs) = word_set i us \<union> word_set (i + length us) vs"
  by (induction us arbitrary: i) auto

lemma finite_word_set [simp]: "finite (word_set i ws)"
proof -
  have "word_set i ws \<subseteq> {int (i * 64)..<int ((i + length ws) * 64)}"
    using word_set_bounds by fastforce
  then show ?thesis by (rule finite_subset) simp
qed

lemma block_elems_word_set:
  assumes "length (bits b) = 4"
  shows "block_elems b = (\<lambda>m. offset b + m) ` word_set 0 (bits b)"
proof -
  have "{int i | i. i < 256 \<and> bit_at b i} = word_set 0 (bits b)"
  proof (rule set_eqI)
    fix m
    show "m \<in> {int i | i. i < 256 \<and> bit_at b i} \<longleftrightarrow> m \<in> word_set 0 (bits b)" (is "?L \<longleftrightarrow> ?R")
    proof
      assume ?L
      then obtain i where "m = int i" "i < 256" "bit_at b i" by blast
      then show ?R using assms
        unfolding mem_word_set bit_at_def
        by (intro exI [of _ "i div 64"] exI [of _ "i mod 64"]) auto
    next
      assume ?R
      then obtain k j where kj: "k < 4" "bit (bits b ! k) j" "m = int (k * 64 + j)"
        using assms unfolding mem_word_set by auto
      moreover have "j < 64" using kj(2) by (rule bit_word_lt)
      ultimately have "k * 64 + j < 256 \<and> bit_at b (k * 64 + j)" by (auto simp: bit_at_def)
      then show ?L using kj(3) by blast
    qed
  qed
  moreover have "block_elems b = (\<lambda>m. offset b + m) ` {int i | i. i < 256 \<and> bit_at b i}"
    unfolding block_elems_def by blast
  ultimately show ?thesis by simp
qed

lemma finite_block_elems: "length (bits b) = 4 \<Longrightarrow> finite (block_elems b)"
  by (simp add: block_elems_word_set)

lemma card_word_bits: "card {int (i * 64 + j) |j. bit w j} = card {j. j < 64 \<and> bit w j}"
  for w :: go_word
proof -
  have "{int (i * 64 + j) |j. bit w j} = (\<lambda>j. int (i * 64 + j)) ` {j. j < 64 \<and> bit w j}"
    by (auto dest: bit_word_lt)
  then show ?thesis by (simp add: card_image inj_on_def)
qed

lemma card_word_set:
  "fold (\<lambda>w l. l + popcount h w) ws n = n + int (card (word_set i ws))"
proof (induction ws arbitrary: i n)
  case (Cons w ws)
  have disj: "{int (i * 64 + j) |j. bit w j} \<inter> word_set (Suc i) ws = {}"
    using word_set_bounds [of _ "Suc i" ws] by (fastforce dest: bit_word_lt)
  have fin: "finite {int (i * 64 + j) |j. bit w j}"
    using finite_word_set [of i "[w]"] by simp
  have "card (word_set i (w # ws)) = card {j. j < 64 \<and> bit w j} + card (word_set (Suc i) ws)"
    using card_Un_disjoint [OF fin finite_word_set disj] by (simp only: card_word_bits word_set.simps)
  then show ?case using Cons.IH [of _ "Suc i"] by (simp add: popcount_card)
qed simp

lemma block_len_card: "length (bits b) = 4 \<Longrightarrow> block_len h b = int (card (block_elems b))"
  by (simp add: block_len_def card_word_set [of _ _ _ 0] block_elems_word_set card_image inj_on_def)

lemma nonzero_low_bit:
  assumes "w \<noteq> 0"
  obtains m where "low_bit w m" "ntz w = int m" "m < 64"
  using low_bit_ex [OF assms] low_bit_nz ntz_low_bit by blast

definition is_least :: "int \<Rightarrow> int set \<Rightarrow> bool" where
  "is_least m S \<longleftrightarrow> m \<in> S \<and> (\<forall>y \<in> S. m \<le> y)"

lemma word_set_low:
  assumes "low_bit w m"
  shows "is_least (int (i * 64) + int m) (word_set i (w # ws))"
proof -
  have "int (i * 64) + int m \<le> y" if y: "y \<in> word_set i (w # ws)" for y
  proof -
    consider j where "bit w j" "y = int (i * 64 + j)" | "y \<in> word_set (Suc i) ws"
      using y by auto
    then show ?thesis
    proof cases
      case (1 j)
      then have "m \<le> j" using assms unfolding low_bit_def by (meson leI)
      then show ?thesis using 1 by simp
    next
      case 2
      then show ?thesis using word_set_bounds [of y "Suc i" ws] low_bit_nz [OF assms] by simp
    qed
  qed
  then show ?thesis using assms by (auto simp: is_least_def low_bit_def)
qed

lemma word_set_clear:
  assumes "low_bit w m"
  shows "word_set i ((w AND NOT (2 ^ m)) # ws) = word_set i (w # ws) - {int (i * 64) + int m}"
proof -
  have "int (i * 64) + int m \<notin> word_set (Suc i) ws"
    using word_set_bounds [of _ "Suc i" ws] low_bit_nz [OF assms] by fastforce
  moreover have "{int (i * 64 + j) |j. bit (w AND NOT (2 ^ m)) j}
      = {int (i * 64 + j) |j. bit w j} - {int (i * 64) + int m}"
    by (auto simp: bit_and_iff bit_not_iff bit_exp_iff dest: bit_word_lt)
  ultimately show ?thesis by (auto simp del: of_nat_add of_nat_mult)
qed

lemma block_min_loop_spec:
  assumes "word_set i ws \<noteq> {}"
  shows "\<exists>m ws'. block_min_loop tk i ws = Inr (m, ws') \<and> is_least m (word_set i ws) \<and>
    length ws' = length ws \<and> word_set i ws' = (if tk then word_set i ws - {m} else word_set i ws)"
  using assms
proof (induction ws arbitrary: i)
  case (Cons w ws)
  show ?case
  proof (cases "w = 0")
    case True
    then show ?thesis using Cons by force
  next
    case False
    then obtain m where m: "low_bit w m" "ntz w = int m" by (rule nonzero_low_bit)
    have min: "block_min_loop tk i (w # ws)
        = Inr (int (i * 64) + int m, (if tk then w AND NOT (2 ^ m) else w) # ws)"
      using False m by (simp add: bitsPerWord_def)
    show ?thesis
      using min word_set_low [OF m(1), of i ws] word_set_clear [OF m(1), of i ws]
      by (auto simp del: word_set.simps block_min_loop.simps split: if_splits)
  qed
qed simp


lemma shift_least: "is_least m S \<Longrightarrow> is_least (c + m) ((\<lambda>m. c + m) ` S)"
  by (auto simp: is_least_def)

lemma block_min_spec:
  assumes "wf_block b"
  shows "\<exists>m b'. block_min tk b = Inr (m, b') \<and> is_least m (block_elems b) \<and> wf_frame b' \<and>
    offset b' = offset b \<and> block_elems b' = (if tk then block_elems b - {m} else block_elems b)"
proof -
  have len: "length (bits b) = 4" and ne: "word_set 0 (bits b) \<noteq> {}"
    using assms block_elems_word_set [of b] by (auto simp: wf_block_def wf_frame_def)
  obtain m ws where m: "block_min_loop tk 0 (bits b) = Inr (m, ws)" "is_least m (word_set 0 (bits b))"
    "length ws = 4" "word_set 0 ws = (if tk then word_set 0 (bits b) - {m} else word_set 0 (bits b))"
    using block_min_loop_spec [OF ne, of tk] len by auto
  have "block_min tk b = Inr (offset b + m, b\<lparr>bits := ws\<rparr>)" using m(1) by (simp add: block_min_def)
  moreover have "is_least (offset b + m) (block_elems b)"
    unfolding block_elems_word_set [OF len] using m(2) by (rule shift_least)
  moreover have "block_elems (b\<lparr>bits := ws\<rparr>)
      = (if tk then block_elems b - {offset b + m} else block_elems b)"
    using m(3,4) block_elems_word_set [of "b\<lparr>bits := ws\<rparr>"] by (auto simp: block_elems_word_set [OF len])
  ultimately show ?thesis using assms m(3) by (auto simp: wf_block_def wf_frame_def)
qed

definition is_greatest :: "int \<Rightarrow> int set \<Rightarrow> bool" where
  "is_greatest m S \<longleftrightarrow> m \<in> S \<and> (\<forall>y \<in> S. y \<le> m)"

lemma nonzero_high_bit:
  assumes "w \<noteq> (0 :: go_word)"
  obtains m where "bit w m" "\<And>j. m < j \<Longrightarrow> \<not> bit w j" "m < 64" "nlz h w = 63 - int m"
proof -
  have ne: "{j. bit w j} \<noteq> {}" using assms low_bit_ex by (auto simp: low_bit_def)
  have "{j. bit w j} \<subseteq> {..<64}" by (auto dest: bit_word_lt)
  then have fin: "finite {j. bit w j}" by (rule finite_subset) simp
  have 1: "bit w (Max {j. bit w j})" using Max_in [OF fin ne] by simp
  have 2: "\<not> bit w j" if "Max {j. bit w j} < j" for j using Max_ge [OF fin, of j] that by (auto simp: not_le [symmetric])
  from that [OF 1 2 bit_word_lt [OF 1] nlz_smear [OF 1 2]] show thesis by blast
qed

lemma block_max_loop_spec:
  assumes "word_set 0 ws \<noteq> {}" "in_int off" "length ws \<le> 4" "off \<le> MaxInt - 255"
  shows "\<exists>m. block_max_loop h (wrap64 (off + int (length ws * 64))) (rev ws) = Inr (off + m) \<and>
    is_greatest m (word_set 0 ws)"
  using assms
proof (induction ws rule: rev_induct)
  case (snoc w ws)
  let ?n = "length ws"
  show ?case
  proof (cases "w = 0")
    case True
    have "wrap64 (wrap64 (off + int (length (ws @ [w]) * 64)) - int bitsPerWord) = wrap64 (off + int (?n * 64))"
      by (simp add: go_int_simps bitsPerWord_def)
    then show ?thesis using True snoc by (auto simp: word_set_append)
  next
    case False
    then obtain m where m: "bit w m" "\<And>j. m < j \<Longrightarrow> \<not> bit w j" "m < 64" "nlz h w = 63 - int m"
      by (rule nonzero_high_bit [of w h]) blast
    have "wrap64 (wrap64 (wrap64 (off + int (length (ws @ [w]) * 64)) - nlz h w) - 1)
        = wrap64 (off + int (?n * 64 + m))"
      by (simp only: wrap64_diff_left m(4)) (simp add: algebra_simps)
    also have "\<dots> = off + int (?n * 64 + m)"
      using snoc.prems(2-) m(3) by (intro wrap64_id) (auto simp: in_int_def)
    finally have res: "block_max_loop h (wrap64 (off + int (length (ws @ [w]) * 64))) (rev (ws @ [w]))
        = Inr (off + int (?n * 64 + m))"
      using False by simp
    have "is_greatest (int (?n * 64 + m)) (word_set 0 (ws @ [w]))"
      unfolding is_greatest_def word_set_append
      using m(1,2) word_set_bounds [of _ 0 ws] by (fastforce simp: not_less)
    then show ?thesis using res by blast
  qed
qed simp

lemma block_max_spec:
  assumes "wf_block b"
  shows "\<exists>m. block_max h b = Inr m \<and> is_greatest m (block_elems b)"
proof -
  have wf: "length (bits b) = 4" "in_int (offset b)" "offset b \<le> MaxInt - 255" "word_set 0 (bits b) \<noteq> {}"
    using assms block_elems_word_set [of b]
    by (auto simp: wf_block_def wf_frame_def wf_offset_def in_int_def)
  obtain m where "block_max h b = Inr (offset b + m)" "is_greatest m (word_set 0 (bits b))"
    using block_max_loop_spec [OF wf(4,2) _ wf(3), of h] wf(1) by (auto simp: block_max_def bitsPerBlock_def)
  then show ?thesis by (auto simp: block_elems_word_set [OF wf(1)] is_greatest_def)
qed


section \<open>Lower bounds\<close>

lemma block_lowerBound_loop_spec:
  "case block_lowerBound_loop w vs of None \<Rightarrow> word_set w vs = {} | Some m \<Rightarrow> is_least m (word_set w vs)"
proof (induction vs arbitrary: w)
  case (Cons v vs)
  show ?case
  proof (cases "v = 0")
    case True
    then have "word_set w (v # vs) = word_set (Suc w) vs" by simp
    then show ?thesis using True Cons [of "Suc w"] by (simp only: block_lowerBound_loop.simps simp_thms if_False)
  next
    case False
    then obtain m where "low_bit v m" "ntz v = int m" by (rule nonzero_low_bit)
    then show ?thesis using False word_set_low [of v m w vs] by (simp add: bitsPerWord_def del: word_set.simps)
  qed
qed simp

lemma word_set_drop:
  assumes "k \<le> length ws"
  shows "word_set k (drop k ws) = {m \<in> word_set 0 ws. int (k * 64) \<le> m}"
proof -
  have "word_set 0 ws = word_set 0 (take k ws) \<union> word_set k (drop k ws)"
    using word_set_append [of 0 "take k ws" "drop k ws"] assms by (simp add: min_absorb2)
  then show ?thesis
    using word_set_bounds [of _ 0 "take k ws"] word_set_bounds [of _ k "drop k ws"] assms
    by (fastforce simp: min_absorb2)
qed

lemma word_set_ge_split:
  assumes "k < length ws" "t < 64"
  shows "{m \<in> word_set 0 ws. int (k * 64 + t) \<le> m}
    = {int (k * 64 + j) |j. bit (ws ! k) j \<and> t \<le> j} \<union> word_set (Suc k) (drop (Suc k) ws)"
proof -
  have d: "drop k ws = ws ! k # drop (Suc k) ws" using assms(1) by (rule Cons_nth_drop_Suc [symmetric])
  have "{m \<in> word_set 0 ws. int (k * 64 + t) \<le> m} = {m \<in> word_set k (drop k ws). int (k * 64 + t) \<le> m}"
    using assms(1) by (auto simp: word_set_drop)
  also have "\<dots> = {int (k * 64 + j) |j. bit (ws ! k) j \<and> t \<le> j} \<union> word_set (Suc k) (drop (Suc k) ws)"
    unfolding d using word_set_bounds [of _ "Suc k" "drop (Suc k) ws"] assms(2) by fastforce
  finally show ?thesis .
qed

lemma block_lowerBound_words:
  assumes "length (bits b) = 4" "i < 256"
  shows "case block_lowerBound b i of
      None \<Rightarrow> {m \<in> word_set 0 (bits b). int i \<le> m} = {}
    | Some y \<Rightarrow> is_least (y - offset b) {m \<in> word_set 0 (bits b). int i \<le> m}"
proof -
  define k t where "k = i div 64" and "t = i mod 64"
  have kt: "k < 4" "t < 64" "i = k * 64 + t" using assms(2) by (auto simp: k_def t_def)
  let ?v = "bits b ! k" and ?R = "word_set (Suc k) (drop (Suc k) (bits b))"
  have S: "{m \<in> word_set 0 (bits b). int i \<le> m} = {int (k * 64 + j) |j. bit ?v j \<and> t \<le> j} \<union> ?R"
    unfolding kt(3) using kt assms(1) by (intro word_set_ge_split) auto
  show ?thesis
  proof (cases "drop_bit t ?v = 0")
    case True
    have shift: "bit ?v j \<Longrightarrow> t \<le> j \<Longrightarrow> bit (drop_bit t ?v) (j - t)" for j
      by (simp add: bit_drop_bit_eq)
    have "\<not> (bit ?v j \<and> t \<le> j)" for j using shift [of j] True by auto
    then have "{m \<in> word_set 0 (bits b). int i \<le> m} = ?R" unfolding S by blast
    then show ?thesis
      using True block_lowerBound_loop_spec [of "Suc k" "drop (Suc k) (bits b)"]
      by (auto simp: block_lowerBound_def bitsPerWord_def Let_def k_def [symmetric] t_def [symmetric]
          split: option.splits)
  next
    case False
    then obtain m where m: "low_bit (drop_bit t ?v) m" "ntz (drop_bit t ?v) = int m" by (rule nonzero_low_bit)
    have b: "bit ?v (t + m)" "\<And>j. j < m \<Longrightarrow> \<not> bit ?v (t + j)"
      using m(1) by (auto simp: low_bit_def bit_drop_bit_eq)
    have le: "t + m \<le> j" if "bit ?v j" "t \<le> j" for j
    proof (rule ccontr)
      assume "\<not> t + m \<le> j"
      with that(2) have "j - t < m" by simp
      with b(2) [OF this] that show False by simp
    qed
    have lt: "t + m < 64" using b(1) by (rule bit_word_lt)
    have im: "int i + int m = int (k * 64 + (t + m))" using kt(3) by simp
    have low: "int i + int m \<le> y" if y: "y \<in> {int (k * 64 + j) |j. bit ?v j \<and> t \<le> j} \<union> ?R" for y
      using y
    proof
      assume "y \<in> ?R"
      from word_set_bounds [OF this] lt show ?thesis unfolding im by simp
    next
      assume "y \<in> {int (k * 64 + j) |j. bit ?v j \<and> t \<le> j}"
      then obtain j where "y = int (k * 64 + j)" "bit ?v j" "t \<le> j" by blast
      then show ?thesis unfolding im using le [of j] by (simp only: of_nat_le_iff) simp
    qed
    have mem: "int i + int m \<in> {int (k * 64 + j) |j. bit ?v j \<and> t \<le> j}"
      unfolding im using b(1) by (intro CollectI exI [of _ "t + m"]) simp
    have "is_least (int i + int m) {m \<in> word_set 0 (bits b). int i \<le> m}"
      unfolding S is_least_def using UnI1 [OF mem] low by (intro conjI ballI)
    then show ?thesis
      using False m(2) by (simp add: block_lowerBound_def bitsPerWord_def Let_def k_def [symmetric] t_def [symmetric])
  qed
qed

lemma block_lowerBound_spec:
  assumes "length (bits b) = 4" "i < 256"
  shows "case block_lowerBound b i of
      None \<Rightarrow> {x \<in> block_elems b. offset b + int i \<le> x} = {}
    | Some y \<Rightarrow> is_least y {x \<in> block_elems b. offset b + int i \<le> x}"
  using block_lowerBound_words [OF assms]
  by (auto simp: block_elems_word_set [OF assms(1)] is_least_def image_iff algebra_simps
      split: option.splits intro: bexI [of _ "_ - offset b"])

section \<open>Iteration\<close>

lemma Collect_less_Suc: "{j. j < Suc n \<and> P j} = (if P 0 then {0} else {}) \<union> Suc ` {j. j < n \<and> P (Suc j)}"
  by (auto simp: less_Suc_eq_0_disj)

lemma set_word_forEach: "set (word_forEach n off w) = (\<lambda>j. off + int j) ` {j. j < n \<and> bit w j}"
proof (induction n arbitrary: off w)
  case (Suc n)
  show ?case
  proof (cases "w = 0")
    case False
    have "(\<lambda>j. off + int j) ` {j. j < Suc n \<and> bit w j}
        = (if bit w 0 then {off} else {}) \<union> (\<lambda>j. off + 1 + int j) ` {j. j < n \<and> bit (drop_bit 1 w) j}"
      unfolding Collect_less_Suc by (auto simp: bit_drop_bit_eq image_Un image_image add.assoc)
    moreover have "w AND 1 \<noteq> 0 \<longleftrightarrow> bit w 0" using mask_test [of w 0] by simp
    ultimately show ?thesis using False Suc.IH [of "off + 1" "drop_bit 1 w"] by simp
  qed simp
qed simp

lemma sorted_word_forEach: "sorted_wrt (<) (word_forEach n off w)"
  by (induction n arbitrary: off w) (auto simp: set_word_forEach sorted_wrt_append)

lemma set_words_forEach: "set (words_forEach off i ws) = (\<lambda>m. off + m) ` word_set i ws"
  by (induction ws arbitrary: i)
    (auto simp: set_word_forEach bitsPerWord_def image_iff dest: bit_word_lt)

lemma sorted_words_forEach: "sorted_wrt (<) (words_forEach off i ws)"
proof (induction ws arbitrary: i)
  case (Cons w ws)
  have "x < y" if "x \<in> set (word_forEach bitsPerWord (off + int (i * bitsPerWord)) w)"
      "y \<in> set (words_forEach off (Suc i) ws)" for x y
    using that word_set_bounds [of _ "Suc i" ws]
    by (fastforce simp: set_word_forEach set_words_forEach bitsPerWord_def)
  then show ?case using Cons by (simp add: sorted_wrt_append sorted_word_forEach)
qed simp

lemma block_forEach_spec:
  assumes "length (bits b) = 4"
  shows "set (block_forEach b) = block_elems b" "sorted_wrt (<) (block_forEach b)"
  using assms by (simp_all add: block_forEach_def set_words_forEach sorted_words_forEach block_elems_word_set)

end
