(* ===== verification/Intsets_Sparse.thy ===== *)
theory Intsets_Sparse
  imports Intsets_Block
begin

text \<open>
  The sparse integer sets of \<^verbatim>\<open>gopta/container/intsets/sparse.go\<close>. The circular doubly
  linked list of blocks that hangs off \<^verbatim>\<open>Sparse.root\<close> is the list of its blocks in link
  order, the root first; \<open>[]\<close> is the root in its empty state (uninitialised, or offset
  \<^verbatim>\<open>MaxInt\<close> and linked to itself). A \<^verbatim>\<open>*block\<close> into the list is a position, so that
  position 0 is \<^verbatim>\<open>&s.root\<close>, and \<^verbatim>\<open>&none\<close> is \<^const>\<open>None\<close>. A set that an operation only
  reads is traversed as the list of the blocks from the cursor on. Operations whose result depends
  on two sets being the same object (\<^verbatim>\<open>s == x\<close>) work on a store of sets.
\<close>

type_synonym sparse = "block list"
type_synonym cursor = "nat option"
type_synonym store = "nat \<Rightarrow> sparse"

section \<open>Structure: cursors, insertion and removal of blocks\<close>

definition IsEmpty :: "sparse \<Rightarrow> bool" where
  "IsEmpty s \<longleftrightarrow> s = [] \<or> offset (hd s) = MaxInt"

definition first :: "sparse \<Rightarrow> cursor" where
  "first s = (if IsEmpty s then None else Some 0)"

definition next_block :: "sparse \<Rightarrow> nat \<Rightarrow> cursor" where
  "next_block s k = (if Suc k < length s then Some (Suc k) else None)"

text \<open>The blocks a read-only traversal \<^verbatim>\<open>for b := x.first(); b != &none; b = x.next(b)\<close> meets.\<close>

definition from_first :: "sparse \<Rightarrow> block list" where
  "from_first s = (if IsEmpty s then [] else s)"

definition Clear :: sparse where
  "Clear = []"

text \<open>
  Unlinking a block that is not the root keeps the others in place, so the block that followed is
  now at position \<open>k\<close>. Removing the root copies the second block into it.
\<close>

definition removeBlock :: "sparse \<Rightarrow> nat \<Rightarrow> sparse \<times> cursor" where
  "removeBlock s k =
     (if k \<noteq> 0
      then (take k s @ drop (Suc k) s, if next_block s k = None then None else Some k)
      else if next_block s 0 = None then (Clear, None)
      else (tl s, Some 0))"

definition insertBlockBefore :: "sparse \<Rightarrow> cursor \<Rightarrow> (sparse \<times> nat) go_result" where
  "insertBlockBefore s nxt =
     (if IsEmpty s
      then (case nxt of
              None \<Rightarrow> Inr (if s = [] then [zero_block\<lparr>offset := MaxInt\<rparr>] else s, 0)
            | Some _ \<Rightarrow> Inl (ExplicitPanic ''BUG: passed block with empty set''))
      else case nxt of
             Some k \<Rightarrow> Inr (take k s @ zero_block # drop k s, k)
           | None \<Rightarrow> Inr (s @ [zero_block], length s))"

definition discardTail :: "sparse \<Rightarrow> cursor \<Rightarrow> sparse" where
  "discardTail s b = (case b of None \<Rightarrow> s | Some k \<Rightarrow> if k = 0 then Clear else take k s)"

text \<open>
  Two idioms of the code: insert a block and fill it (\<^verbatim>\<open>sb = s.insertBlockBefore(sb);
  sb.offset = xb.offset; sb.bits = xb.bits\<close>), and make sure the cursor is at a block
  (\<^verbatim>\<open>if sb == &none \{ sb = s.insertBlockBefore(sb) \}\<close>).
\<close>

definition put_before :: "sparse \<Rightarrow> cursor \<Rightarrow> block \<Rightarrow> (sparse \<times> nat) go_result" where
  "put_before s nxt b =
     (case insertBlockBefore s nxt of Inl e \<Rightarrow> Inl e | Inr (s', k) \<Rightarrow> Inr (s'[k := b], k))"

definition ensure_block :: "sparse \<Rightarrow> cursor \<Rightarrow> (sparse \<times> nat) go_result" where
  "ensure_block s sb = (case sb of None \<Rightarrow> insertBlockBefore s None | Some k \<Rightarrow> Inr (s, k))"

section \<open>Queries and updates of single elements\<close>

definition Len :: "bool \<Rightarrow> sparse \<Rightarrow> int" where
  "Len h s = fold (\<lambda>b l. l + block_len h b) (from_first s) 0"

definition Max_elem :: "bool \<Rightarrow> sparse \<Rightarrow> go_int go_result" where
  "Max_elem h s = (if IsEmpty s then Inr MinInt else block_max h (last s))"

definition Min_elem :: "sparse \<Rightarrow> go_int go_result" where
  "Min_elem s = (if IsEmpty s then Inr MaxInt else bindR (block_min False (hd s)) (\<lambda>(m, _). Inr m))"

fun LowerBound_loop :: "block list \<Rightarrow> go_int \<Rightarrow> nat \<Rightarrow> go_int go_result" where
  "LowerBound_loop [] off i = Inr MaxInt"
| "LowerBound_loop (b # bs) off i =
     (if offset b > off then bindR (block_min False b) (\<lambda>(m, _). Inr m)
      else if offset b = off
      then (case block_lowerBound b i of Some y \<Rightarrow> Inr y | None \<Rightarrow> LowerBound_loop bs off i)
      else LowerBound_loop bs off i)"

definition LowerBound :: "sparse \<Rightarrow> go_int \<Rightarrow> go_int go_result" where
  "LowerBound s x = (let (off, i) = offsetAndBitIndex x in LowerBound_loop (from_first s) off i)"

fun block_loop :: "nat \<Rightarrow> block list \<Rightarrow> go_int \<Rightarrow> nat option" where
  "block_loop k [] off = None"
| "block_loop k (b # bs) off =
     (if offset b \<le> off then if offset b = off then Some k else block_loop (Suc k) bs off
      else None)"

definition block_at :: "sparse \<Rightarrow> go_int \<Rightarrow> nat option" where
  "block_at s off = block_loop 0 (from_first s) off"

text \<open>The loop of \<^verbatim>\<open>Insert\<close>: the block that already has the offset, or where to insert one.\<close>

fun Insert_seek :: "nat \<Rightarrow> block list \<Rightarrow> go_int \<Rightarrow> cursor \<times> bool" where
  "Insert_seek k [] off = (None, False)"
| "Insert_seek k (b # bs) off =
     (if offset b \<le> off
      then if offset b = off then (Some k, True) else Insert_seek (Suc k) bs off
      else (Some k, False))"

definition Insert :: "sparse \<Rightarrow> go_int \<Rightarrow> (sparse \<times> bool) go_result" where
  "Insert s x =
     (let (off, i) = offsetAndBitIndex x
      in case Insert_seek 0 (from_first s) off of
           (Some k, True) \<Rightarrow> (let (b, r) = block_insert (s ! k) i in Inr (s[k := b], r))
         | (c, _) \<Rightarrow>
             (case insertBlockBefore s c of
                Inl e \<Rightarrow> Inl e
              | Inr (s', k) \<Rightarrow>
                  (let (b, r) = block_insert ((s' ! k)\<lparr>offset := off\<rparr>) i in Inr (s'[k := b], r))))"

definition Remove :: "sparse \<Rightarrow> go_int \<Rightarrow> sparse \<times> bool" where
  "Remove s x =
     (let (off, i) = offsetAndBitIndex x
      in case block_at s off of
           None \<Rightarrow> (s, False)
         | Some k \<Rightarrow>
             (let (b, r) = block_remove (s ! k) i
              in if \<not> r then (s, False)
                 else let s' = s[k := b]
                      in (if block_empty b then fst (removeBlock s' k) else s', True)))"

text \<open>\<^verbatim>\<open>TakeMin(&x)\<close>: \<^const>\<open>None\<close> is the result \<^verbatim>\<open>false\<close>, which leaves \<^verbatim>\<open>*p\<close> undefined.\<close>

definition TakeMin :: "sparse \<Rightarrow> (go_int \<times> sparse) option go_result" where
  "TakeMin s =
     (if IsEmpty s then Inr None
      else bindR (block_min True (hd s)) (\<lambda>(m, b).
             let s' = s[0 := b]
             in Inr (Some (m, if block_empty b then fst (removeBlock s' 0) else s'))))"

definition Has :: "sparse \<Rightarrow> go_int \<Rightarrow> bool" where
  "Has s x =
     (let (off, i) = offsetAndBitIndex x
      in case block_at s off of None \<Rightarrow> False | Some k \<Rightarrow> block_has (s ! k) i)"

definition forEach :: "sparse \<Rightarrow> go_int list" where
  "forEach s = concat (map block_forEach (from_first s))"

definition AppendTo :: "sparse \<Rightarrow> go_int list \<Rightarrow> go_int list" where
  "AppendTo s space = fold (\<lambda>x sl. sl @ [x]) (forEach s) space"

section \<open>Well-formed sets and the integers they stand for\<close>

definition elems :: "sparse \<Rightarrow> int set" where
  "elems s = (\<Union>b \<in> set s. block_elems b)"

definition wf_sparse :: "sparse \<Rightarrow> bool" where
  "wf_sparse s \<longleftrightarrow> list_all wf_block s \<and> sorted_wrt (\<lambda>b c. offset b < offset c) s"

lemma wf_sparse_Nil [simp]: "wf_sparse []"
  by (simp add: wf_sparse_def)

lemma wf_sparse_Cons: "wf_sparse (b # s) \<longleftrightarrow> wf_block b \<and> wf_sparse s \<and> (\<forall>c \<in> set s. offset b < offset c)"
  by (auto simp: wf_sparse_def)

lemma wf_sparse_append:
  "wf_sparse (s @ t) \<longleftrightarrow> wf_sparse s \<and> wf_sparse t \<and> (\<forall>b \<in> set s. \<forall>c \<in> set t. offset b < offset c)"
  by (auto simp: wf_sparse_def sorted_wrt_append)

lemma elems_simps [simp]:
  "elems [] = {}" "elems (b # s) = block_elems b \<union> elems s" "elems (s @ t) = elems s \<union> elems t"
  by (simp_all add: elems_def)

lemma wf_blockD:
  assumes "wf_block b"
  shows "wf_offset (offset b)" "length (bits b) = 4" "block_elems b \<noteq> {}" "offset b \<noteq> MaxInt"
    "wf_frame b"
  using assms by (auto simp: wf_block_def wf_frame_def wf_offset_def)

lemma wf_not_IsEmpty: "wf_sparse s \<Longrightarrow> IsEmpty s \<longleftrightarrow> s = []"
  by (cases s) (auto simp: IsEmpty_def wf_sparse_Cons dest: wf_blockD)

lemma wf_from_first [simp]: "wf_sparse s \<Longrightarrow> from_first s = s"
  by (simp add: from_first_def wf_not_IsEmpty)

lemma elems_empty_iff: "wf_sparse s \<Longrightarrow> elems s = {} \<longleftrightarrow> s = []"
  by (cases s) (auto simp: wf_sparse_Cons dest: wf_blockD)

lemma block_elems_range:
  assumes "x \<in> block_elems b"
  shows "offset b \<le> x" "x \<le> offset b + 255"
  using assms by (auto simp: block_elems_def)

lemma elems_in_int:
  assumes "wf_sparse s" "x \<in> elems s"
  shows "in_int x"
proof -
  obtain b where b: "b \<in> set s" "x \<in> block_elems b" using assms(2) by (auto simp: elems_def)
  then have "wf_offset (offset b)" using assms(1) by (auto simp: wf_sparse_def list_all_iff dest: wf_blockD)
  then show ?thesis using block_elems_range [OF b(2)] by (auto simp: wf_offset_def in_int_def)
qed

text \<open>An element determines its block: \<open>base x\<close> is the offset, so other blocks do not hold it.\<close>

definition base :: "int \<Rightarrow> int" where
  "base x = x - x mod 256"

lemma elem_offset: "wf_offset (offset b) \<Longrightarrow> x \<in> block_elems b \<Longrightarrow> offset b = base x"
  by (simp add: mem_block_elems base_def)

lemma base_wf: "in_int x \<Longrightarrow> wf_offset (base x)"
proof -
  assume x: "in_int x"
  have b: "base x = 256 * (x div 256)" unfolding base_def by (rule minus_mod_eq_mult_div)
  have "MinInt div 256 \<le> x div 256" "x div 256 \<le> MaxInt div 256"
    using x by (auto simp: in_int_def intro: zdiv_mono1)
  then show ?thesis by (simp add: wf_offset_def b MinInt_def MaxInt_def)
qed

lemma elems_offset:
  "wf_sparse s \<Longrightarrow> x \<in> elems s \<Longrightarrow> \<exists>b \<in> set s. offset b = base x \<and> x \<in> block_elems b"
  unfolding elems_def by (auto simp: wf_sparse_def list_all_iff dest: wf_blockD elem_offset)

lemma not_in_elems:
  "wf_sparse s \<Longrightarrow> (\<And>b. b \<in> set s \<Longrightarrow> offset b \<noteq> base x) \<Longrightarrow> x \<notin> elems s"
  using elems_offset by blast

lemma offsetAndBitIndex_base: "offsetAndBitIndex x = (base x, nat (x mod 256))"
  by (simp add: offsetAndBitIndex_eq base_def)

lemma base_split: "x = base x + int (nat (x mod 256))" "nat (x mod 256) < 256"
  by (auto simp: base_def)

section \<open>Lookup\<close>

lemma block_loop_spec:
  assumes "wf_sparse s"
  shows "case block_loop k s off of
      None \<Rightarrow> \<forall>b \<in> set s. offset b \<noteq> off
    | Some n \<Rightarrow> \<exists>pre b post. s = pre @ b # post \<and> n = k + length pre \<and> offset b = off"
  using assms
proof (induction s arbitrary: k)
  case (Cons b s)
  have IH: "case block_loop (Suc k) s off of
      None \<Rightarrow> \<forall>b \<in> set s. offset b \<noteq> off
    | Some n \<Rightarrow> \<exists>pre c post. s = pre @ c # post \<and> n = Suc k + length pre \<and> offset c = off"
    using Cons by (simp add: wf_sparse_Cons)
  consider "offset b < off" | "offset b = off" | "off < offset b" by linarith
  then show ?case
  proof cases
    case 1
    show ?thesis
    proof (cases "block_loop (Suc k) s off")
      case None
      then show ?thesis using 1 IH by simp
    next
      case (Some n)
      then obtain pre c post where "s = pre @ c # post" "n = Suc k + length pre" "offset c = off"
        using IH by auto
      then have "b # s = (b # pre) @ c # post \<and> n = k + length (b # pre) \<and> offset c = off" by simp
      then show ?thesis using 1 Some by (simp only: block_loop.simps) (auto intro: exI [of _ "b # pre"])
    qed
  next
    case 2
    then show ?thesis by (auto intro: exI [of _ "[]"])
  next
    case 3
    then show ?thesis using Cons.prems by (fastforce simp: wf_sparse_Cons)
  qed
qed simp

lemma Has_elems:
  assumes "wf_sparse s"
  shows "Has s x \<longleftrightarrow> x \<in> elems s"
proof (cases "block_loop 0 s (base x)")
  case None
  then have "\<forall>b \<in> set s. offset b \<noteq> base x" using block_loop_spec [OF assms, where k = 0 and off = "base x"] by simp
  then show ?thesis using None not_in_elems [OF assms] assms
    by (auto simp: Has_def offsetAndBitIndex_base block_at_def)
next
  case (Some n)
  then obtain pre b post where s: "s = pre @ b # post" "n = length pre" "offset b = base x"
    using block_loop_spec [OF assms, where k = 0 and off = "base x"] by auto
  have wfs: "wf_block b" "wf_sparse pre" "wf_sparse post" "\<forall>c \<in> set pre. offset c < base x" "\<forall>c \<in> set post. base x < offset c"
    using assms s by (auto simp: wf_sparse_append wf_sparse_Cons)
  have "x \<notin> elems pre" "x \<notin> elems post"
    using wfs(2-) by (fastforce dest: elems_offset)+
  moreover have "x \<in> block_elems b \<longleftrightarrow> bit_at b (nat (x mod 256))"
    using mem_block_elems [OF wf_blockD(1) [OF wfs(1)], of x] s(3) by (simp add: base_def)
  ultimately show ?thesis
    using Some s assms by (simp add: Has_def offsetAndBitIndex_base block_at_def block_has_bit)
qed

section \<open>Cursors\<close>

text \<open>The cursor at the first block of \<open>post\<close> in the list \<open>pre @ post\<close>.\<close>

definition cur :: "block list \<Rightarrow> block list \<Rightarrow> cursor" where
  "cur pre post = (if post = [] then None else Some (length pre))"

lemma cur_simps [simp]: "cur pre [] = None" "cur pre (b # post) = Some (length pre)"
  by (simp_all add: cur_def)

lemma first_cur: "wf_sparse s \<Longrightarrow> first s = cur [] s"
  by (simp add: first_def wf_not_IsEmpty cur_def)

lemma next_cur [cursor_simps]: "next_block (pre @ b # post) (length pre) = cur (pre @ [b]) post"
  by (cases post) (simp_all add: next_block_def)

lemma next_cur' [cursor_simps]:
  "length s = length pre + Suc (length post) \<Longrightarrow> next_block s (length pre) = cur (pre @ [b]) post"
  by (cases post) (simp_all add: next_block_def)

lemma removeBlock_cur [cursor_simps]: "removeBlock (pre @ b # post) (length pre) = (pre @ post, cur pre post)"
  by (cases pre; cases post) (simp_all add: removeBlock_def next_block_def Clear_def)

lemma discardTail_cur [cursor_simps]: "discardTail (pre @ post) (cur pre post) = pre"
  by (cases post; cases pre) (simp_all add: discardTail_def Clear_def)

definition rooted :: "block list \<Rightarrow> bool" where
  "rooted pre \<longleftrightarrow> (pre \<noteq> [] \<longrightarrow> offset (hd pre) \<noteq> MaxInt)"

lemma rooted_simps [simp]:
  "rooted []" "rooted (b # bs) \<longleftrightarrow> offset b \<noteq> MaxInt"
  "rooted (pre @ [b]) \<longleftrightarrow> (if pre = [] then offset b \<noteq> MaxInt else rooted pre)"
  by (auto simp: rooted_def)

lemma insertBlockBefore_cur:
  assumes "rooted (pre @ post)"
  shows "\<exists>z. insertBlockBefore (pre @ post) (cur pre post) = Inr (pre @ z # post, length pre) \<and>
    bits z = replicate 4 0"
  using assms
  by (cases pre; cases post)
    (auto simp: insertBlockBefore_def IsEmpty_def zero_block_def)

lemma put_before_cur [cursor_simps]:
  assumes "rooted (pre @ post)"
  shows "put_before (pre @ post) (cur pre post) b = Inr (pre @ b # post, length pre)"
  using insertBlockBefore_cur [OF assms] by (auto simp: put_before_def)

text \<open>\<open>old\<close> is what is left of the previous contents of the set; it is overwritten block by block.\<close>

lemma ensure_block_cur:
  assumes "rooted pre"
  shows "\<exists>z old'. ensure_block (pre @ old) (cur pre old) = Inr (pre @ z # old', length pre) \<and> old' = tl old"
proof (cases old)
  case Nil
  then show ?thesis using insertBlockBefore_cur [of pre "[]"] assms by (auto simp: ensure_block_def)
next
  case (Cons z old')
  then show ?thesis by (simp add: ensure_block_def)
qed

lemma wf_rooted: "wf_sparse (pre @ post) \<Longrightarrow> rooted (pre @ post)"
  using wf_not_IsEmpty [of "pre @ post"] by (auto simp: rooted_def IsEmpty_def)

section \<open>Insertion\<close>

lemma Insert_seek_spec:
  assumes "wf_sparse s"
  shows "\<exists>pre post. s = pre @ post \<and> (\<forall>b \<in> set pre. offset b < off) \<and>
    ((\<exists>b rest. post = b # rest \<and> offset b = off \<and> Insert_seek k s off = (Some (k + length pre), True)) \<or>
     ((\<forall>b \<in> set post. off < offset b) \<and>
      Insert_seek k s off = (if post = [] then None else Some (k + length pre), False)))"
  using assms
proof (induction s arbitrary: k)
  case (Cons b s)
  consider "offset b < off" | "offset b = off" | "off < offset b" by linarith
  then show ?case
  proof cases
    case 1
    obtain pre post where "s = pre @ post" "\<forall>b \<in> set pre. offset b < off"
      "(\<exists>b rest. post = b # rest \<and> offset b = off \<and> Insert_seek (Suc k) s off = (Some (Suc k + length pre), True)) \<or>
       ((\<forall>b \<in> set post. off < offset b) \<and>
        Insert_seek (Suc k) s off = (if post = [] then None else Some (Suc k + length pre), False))"
      using Cons by (metis wf_sparse_Cons)
    then show ?thesis using 1 by (intro exI [of _ "b # pre"] exI [of _ post]) auto
  next
    case 2
    then show ?thesis by (intro exI [of _ "[]"] exI [of _ "b # s"]) auto
  next
    case 3
    then show ?thesis using Cons.prems
      by (intro exI [of _ "[]"] exI [of _ "b # s"]) (auto simp: wf_sparse_Cons)
  qed
qed simp

lemma block_elems_zero:
  assumes "bits z = replicate 4 0"
  shows "block_elems z = {}"
proof -
  have "\<not> bit_at z i" if "i < 256" for i
    using assms that by (simp add: bit_at_def)
  then show ?thesis by (auto simp: block_elems_def)
qed

lemma wf_insert_between:
  assumes "wf_sparse (pre @ post)" "wf_block b"
    "\<forall>c \<in> set pre. offset c < offset b" "\<forall>c \<in> set post. offset b < offset c"
  shows "wf_sparse (pre @ b # post)"
  using assms by (auto simp: wf_sparse_append wf_sparse_Cons)

lemma Insert_spec:
  assumes "wf_sparse s" "in_int x"
  shows "\<exists>s'. Insert s x = Inr (s', x \<notin> elems s) \<and> wf_sparse s' \<and> elems s' = insert x (elems s)"
proof -
  let ?i = "nat (x mod 256)"
  note xi = base_split [of x]
  obtain pre post where s: "s = pre @ post" and pre: "\<forall>b \<in> set pre. offset b < base x"
    and c: "(\<exists>b rest. post = b # rest \<and> offset b = base x \<and> Insert_seek 0 s (base x) = (Some (length pre), True)) \<or>
      ((\<forall>b \<in> set post. base x < offset b) \<and> Insert_seek 0 s (base x) = (cur pre post, False))"
    using Insert_seek_spec [OF assms(1), of "base x" 0] by (auto simp: cur_def)
  have wfs: "wf_sparse pre" "wf_sparse post" using assms(1) s by (auto simp: wf_sparse_append)
  have npre: "x \<notin> elems pre" using wfs(1) pre by (fastforce dest: elems_offset)
  from c show ?thesis
  proof
    assume "\<exists>b rest. post = b # rest \<and> offset b = base x \<and> Insert_seek 0 s (base x) = (Some (length pre), True)"
    then obtain b rest where b: "post = b # rest" "offset b = base x"
      "Insert_seek 0 s (base x) = (Some (length pre), True)" by blast
    obtain b' r where ins: "block_insert b ?i = (b', r)" by fastforce
    have wb: "wf_block b" "wf_frame b" using wfs(2) b(1) by (auto simp: wf_sparse_Cons wf_blockD)
    note sp = block_insert_spec [OF wb(2) xi(2) ins, unfolded b(2) xi(1) [symmetric]]
    have nrest: "x \<notin> elems rest" using wfs(2) b by (fastforce simp: wf_sparse_Cons dest: elems_offset)
    have "wf_block b'" using sp by (simp add: wf_block_def)
    then have "wf_sparse (pre @ b' # rest)"
      using assms(1) s b sp(2) by (auto simp: wf_sparse_append wf_sparse_Cons)
    then show ?thesis
      using b ins sp s npre nrest assms(1) by (auto simp: Insert_def offsetAndBitIndex_base)
  next
    assume n: "(\<forall>b \<in> set post. base x < offset b) \<and> Insert_seek 0 s (base x) = (cur pre post, False)"
    have npost: "x \<notin> elems post" using wfs(2) n by (fastforce dest: elems_offset)
    obtain z where z: "insertBlockBefore s (cur pre post) = Inr (pre @ z # post, length pre)"
      "bits z = replicate 4 0"
      using insertBlockBefore_cur [OF wf_rooted] assms(1) s by blast
    let ?z = "z\<lparr>offset := base x\<rparr>"
    have fz: "wf_frame ?z" "block_elems ?z = {}"
      using z(2) base_wf [OF assms(2)] block_elems_zero [of ?z] by (auto simp: wf_frame_def)
    obtain b' r where ins: "block_insert ?z ?i = (b', r)" by fastforce
    have oz: "offset ?z = base x" by simp
    note sp = block_insert_spec [OF fz(1) xi(2) ins, unfolded fz(2) oz xi(1) [symmetric]]
    have "wf_block b'" using sp by (simp add: wf_block_def)
    then have "wf_sparse (pre @ b' # post)"
      using assms(1) s pre n sp(2) by (intro wf_insert_between) auto
    then show ?thesis
      using n z(1) ins sp s npre npost assms(1)
      by (auto simp: Insert_def offsetAndBitIndex_base split: option.splits)
  qed
qed

section \<open>Removal\<close>

lemma wf_splice_block:
  assumes "wf_sparse (pre @ b # post)" "wf_frame b'" "offset b' = offset b"
  shows "wf_sparse (if block_empty b' then pre @ post else pre @ b' # post)"
    "elems (if block_empty b' then pre @ post else pre @ b' # post) = elems pre \<union> block_elems b' \<union> elems post"
  using assms block_empty_iff [OF assms(2)]
  by (auto simp: wf_sparse_append wf_sparse_Cons wf_block_def)

lemma Remove_spec:
  assumes "wf_sparse s"
  shows "\<exists>s'. Remove s x = (s', x \<in> elems s) \<and> wf_sparse s' \<and> elems s' = elems s - {x}"
proof (cases "block_loop 0 s (base x)")
  case None
  then have "\<forall>b \<in> set s. offset b \<noteq> base x"
    using block_loop_spec [OF assms, where k = 0 and off = "base x"] by simp
  then have "x \<notin> elems s" using not_in_elems [OF assms] by blast
  then show ?thesis using None assms by (simp add: Remove_def offsetAndBitIndex_base block_at_def)
next
  case (Some n)
  let ?i = "nat (x mod 256)"
  note xi = base_split [of x]
  obtain pre b post where s: "s = pre @ b # post" "n = length pre" "offset b = base x"
    using block_loop_spec [OF assms, where k = 0 and off = "base x"] Some by auto
  have wb: "wf_frame b" "wf_sparse pre" "wf_sparse post"
    "\<forall>c \<in> set pre. offset c < base x" "\<forall>c \<in> set post. base x < offset c"
    using assms s by (auto simp: wf_sparse_append wf_sparse_Cons wf_blockD)
  have n: "x \<notin> elems pre" "x \<notin> elems post"
    using wb(2-) by (fastforce dest: elems_offset)+
  obtain b' r where rem: "block_remove b ?i = (b', r)" by fastforce
  note sp = block_remove_spec [OF wb(1) xi(2) rem, unfolded s(3) xi(1) [symmetric]]
  let ?s' = "if block_empty b' then pre @ post else pre @ b' # post"
  have "wf_sparse ?s'" "elems ?s' = elems pre \<union> block_elems b' \<union> elems post"
    using wf_splice_block [of pre b post b'] assms s sp by (auto simp del: if_split)
  moreover have "Remove s x = (if r then ?s' else s, r)"
    using Some s rem assms
    by (simp add: Remove_def offsetAndBitIndex_base block_at_def cursor_simps)
  ultimately show ?thesis using sp n s assms by (cases r) auto
qed

lemma mod_256_gap:
  assumes "a mod 256 = 0" "b mod 256 = 0" "a < (b :: int)"
  shows "a + 256 \<le> b"
proof -
  obtain i j where "a = 256 * i" "b = 256 * j" using assms by (meson dvdE mod_0_imp_dvd)
  then show ?thesis using assms(3) by simp
qed

lemma is_least_elems:
  assumes "wf_sparse (b # s)" "is_least m (block_elems b)"
  shows "is_least m (elems (b # s))"
proof -
  have "m \<le> y" if y: "y \<in> elems s" for y
  proof -
    obtain c where c: "c \<in> set s" "y \<in> block_elems c" using y by (auto simp: elems_def)
    then have cb: "offset b < offset c" "wf_offset (offset b)" "wf_offset (offset c)"
      using assms(1) by (auto simp: wf_sparse_def list_all_iff dest: wf_blockD)
    then have "offset b + 256 \<le> offset c" by (auto simp: wf_offset_def intro: mod_256_gap)
    then show ?thesis
      using block_elems_range [OF c(2)] assms(2) block_elems_range [of m b] by (auto simp: is_least_def)
  qed
  then show ?thesis using assms(2) by (auto simp: is_least_def)
qed

lemma TakeMin_spec:
  assumes "wf_sparse s"
  shows "case TakeMin s of
      Inl e \<Rightarrow> False
    | Inr None \<Rightarrow> elems s = {} \<and> s = []
    | Inr (Some (m, s')) \<Rightarrow> is_least m (elems s) \<and> wf_sparse s' \<and> elems s' = elems s - {m}"
proof (cases s)
  case Nil
  then show ?thesis by (simp add: TakeMin_def IsEmpty_def)
next
  case (Cons b rest)
  have wb: "wf_block b" and off: "offset b \<noteq> MaxInt" using assms Cons by (auto simp: wf_sparse_Cons wf_blockD)
  obtain m b' where m: "block_min True b = Inr (m, b')" "is_least m (block_elems b)" "wf_frame b'"
    "offset b' = offset b" "block_elems b' = block_elems b - {m}"
    using block_min_spec [OF wb, of True] by auto
  let ?s' = "if block_empty b' then rest else b' # rest"
  have least: "is_least m (elems s)" using assms Cons is_least_elems [OF _ m(2)] by blast
  have "wf_sparse ?s'" "elems ?s' = block_elems b' \<union> elems rest"
    using wf_splice_block [of "[]" b rest b'] assms Cons m(3,4) by auto
  moreover have "TakeMin s = Inr (Some (m, ?s'))"
    using off m(1) Cons removeBlock_cur [of "[]" b' rest] by (simp add: TakeMin_def IsEmpty_def)
  moreover have "m \<notin> elems rest"
  proof
    assume "m \<in> elems rest"
    then obtain c where c: "c \<in> set rest" "m \<in> block_elems c" by (auto simp: elems_def)
    have "m \<in> block_elems b" using m(2) by (simp add: is_least_def)
    then have "offset b = base m" "offset c = base m"
      using assms Cons c elem_offset by (auto simp: wf_sparse_def list_all_iff dest: wf_blockD)
    then show False using assms Cons c(1) by (auto simp: wf_sparse_Cons)
  qed
  ultimately show ?thesis using least m(5) Cons by auto
qed

section \<open>Whole-set queries\<close>

lemma elems_block_lt:
  assumes "wf_sparse (b # s)" "x \<in> block_elems b" "y \<in> elems s"
  shows "x < y"
proof -
  obtain c where c: "c \<in> set s" "y \<in> block_elems c" using assms(3) by (auto simp: elems_def)
  then have "offset b < offset c" "wf_offset (offset b)" "wf_offset (offset c)"
    using assms(1) by (auto simp: wf_sparse_def list_all_iff dest: wf_blockD)
  then have "offset b + 256 \<le> offset c" by (auto simp: wf_offset_def intro: mod_256_gap)
  then show ?thesis using block_elems_range [OF c(2)] block_elems_range [OF assms(2)] by simp
qed

lemma finite_elems: "wf_sparse s \<Longrightarrow> finite (elems s)"
  by (auto simp: elems_def wf_sparse_def list_all_iff wf_block_def wf_frame_def intro: finite_block_elems)

lemma Len_fold: "wf_sparse s \<Longrightarrow> fold (\<lambda>b l. l + block_len h b) s n = n + int (card (elems s))"
proof (induction s arbitrary: n)
  case (Cons b s)
  then have w: "wf_sparse s" "wf_block b" by (auto simp: wf_sparse_Cons)
  have disj: "block_elems b \<inter> elems s = {}" using elems_block_lt [OF Cons.prems] by blast
  have "card (elems (b # s)) = card (block_elems b) + card (elems s)"
    using card_Un_disjoint [OF finite_block_elems finite_elems [OF w(1)] disj] w(2) by (simp add: wf_blockD)
  then show ?case using Cons.IH [OF w(1)] block_len_card [of b h] w(2) by (simp add: wf_blockD)
qed simp

lemma Len_card: "wf_sparse s \<Longrightarrow> Len h s = int (card (elems s))"
  by (simp add: Len_def Len_fold)

lemma forEach_spec:
  assumes "wf_sparse s"
  shows "set (forEach s) = elems s" "sorted_wrt (<) (forEach s)"
proof -
  have "set (concat (map block_forEach s)) = elems s \<and> sorted_wrt (<) (concat (map block_forEach s))"
    using assms
  proof (induction s)
    case (Cons b s)
    then have w: "wf_sparse s" "length (bits b) = 4" by (auto simp: wf_sparse_Cons wf_blockD)
    show ?case
      using Cons.IH [OF w(1)] elems_block_lt [OF Cons.prems] block_forEach_spec [OF w(2)]
      by (auto simp: sorted_wrt_append)
  qed simp
  then show "set (forEach s) = elems s" "sorted_wrt (<) (forEach s)"
    using assms by (auto simp: forEach_def)
qed

lemma forEach_sorted_list: "wf_sparse s \<Longrightarrow> forEach s = sorted_list_of_set (elems s)"
proof -
  assume s: "wf_sparse s"
  then have "sorted (forEach s) \<and> distinct (forEach s)"
    using forEach_spec(2) [OF s] by (simp add: strict_sorted_iff)
  then have "sorted_list_of_set (set (forEach s)) = forEach s"
    by (auto intro: sorted_list_of_set.idem_if_sorted_distinct)
  then show ?thesis by (simp add: forEach_spec(1) [OF s])
qed

lemma AppendTo_eq: "AppendTo s space = space @ forEach s"
proof -
  have "fold (\<lambda>x sl. sl @ [x]) xs ys = ys @ xs" for xs ys :: "int list"
    by (induction xs arbitrary: ys) auto
  then show ?thesis by (simp add: AppendTo_def)
qed

lemma Min_spec:
  assumes "wf_sparse s"
  shows "s = [] \<Longrightarrow> Min_elem s = Inr MaxInt"
    and "s \<noteq> [] \<Longrightarrow> \<exists>m. Min_elem s = Inr m \<and> is_least m (elems s)"
proof -
  assume "s \<noteq> []"
  then obtain b rest where s: "s = b # rest" by (cases s) auto
  then have b: "wf_block b" "offset b \<noteq> MaxInt" using assms by (auto simp: wf_sparse_Cons wf_blockD)
  obtain m where "block_min False b = Inr (m, b) \<or> (\<exists>b'. block_min False b = Inr (m, b'))"
    "is_least m (block_elems b)" using block_min_spec [OF b(1), of False] by auto
  then show "\<exists>m. Min_elem s = Inr m \<and> is_least m (elems s)"
    using s b(2) assms is_least_elems [of b rest m] by (auto simp: Min_elem_def IsEmpty_def)
qed (simp add: Min_elem_def IsEmpty_def)

lemma Max_spec:
  assumes "wf_sparse s"
  shows "s = [] \<Longrightarrow> Max_elem h s = Inr MinInt"
    and "s \<noteq> [] \<Longrightarrow> \<exists>m. Max_elem h s = Inr m \<and> is_greatest m (elems s)"
proof -
  assume ne: "s \<noteq> []"
  then obtain pre b where s: "s = pre @ [b]" by (metis append_butlast_last_id)
  then have b: "wf_block b" "wf_sparse s" using assms by (auto simp: wf_sparse_append wf_sparse_Cons)
  obtain m where m: "block_max h b = Inr m" "is_greatest m (block_elems b)"
    using block_max_spec [OF b(1), of h] by blast
  have "y \<le> m" if y: "y \<in> elems pre" for y
  proof -
    obtain c where c: "c \<in> set pre" "y \<in> block_elems c" using y by (auto simp: elems_def)
    have "wf_sparse [c, b]" using c(1) b(2) s by (auto simp: wf_sparse_def list_all_iff sorted_wrt_append)
    then have "y < m" using c(2) m(2) elems_block_lt [of c "[b]" y m] by (auto simp: is_greatest_def)
    then show ?thesis by simp
  qed
  then have "is_greatest m (elems s)" using m(2) s by (auto simp: is_greatest_def)
  then show "\<exists>m. Max_elem h s = Inr m \<and> is_greatest m (elems s)"
    using m(1) s wf_not_IsEmpty [OF assms] by (simp add: Max_elem_def)
qed (simp add: Max_elem_def IsEmpty_def)

lemma is_least_ge_cut:
  assumes "is_least m {y \<in> A. x \<le> y}" "\<And>y. y \<in> B \<Longrightarrow> m \<le> y"
  shows "is_least m {y \<in> A \<union> B. x \<le> y}"
  using assms by (auto simp: is_least_def)

lemma LowerBound_loop_spec:
  assumes "wf_sparse s" "in_int x"
  shows "\<exists>m. LowerBound_loop s (base x) (nat (x mod 256)) = Inr m \<and>
    (if {y \<in> elems s. x \<le> y} = {} then m = MaxInt else is_least m {y \<in> elems s. x \<le> y})"
  using assms(1)
proof (induction s)
  case (Cons b s)
  have w: "wf_sparse s" "wf_block b" "wf_offset (offset b)" "length (bits b) = 4"
    using Cons.prems by (auto simp: wf_sparse_Cons wf_blockD)
  note IH = Cons.IH [OF w(1)] and xi = base_split [of x]
  have bx: "wf_offset (base x)" using assms(2) by (rule base_wf)
  consider "base x < offset b" | "offset b = base x" | "offset b < base x" by linarith
  then show ?case
  proof cases
    case 1
    have gap: "base x + 256 \<le> offset b" using 1 bx w(3) by (auto simp: wf_offset_def intro: mod_256_gap)
    obtain m b' where m: "block_min False b = Inr (m, b')" "is_least m (block_elems b)"
      using block_min_spec [OF w(2), of False] by auto
    have xm: "x < m" using m(2) gap xi block_elems_range [of m b] by (auto simp: is_least_def)
    have all: "x \<le> y" if "y \<in> elems (b # s)" for y
    proof -
      have "m \<le> y" using is_least_elems [OF Cons.prems m(2)] that by (auto simp: is_least_def)
      then show ?thesis using xm by simp
    qed
    then have "{y \<in> elems (b # s). x \<le> y} = elems (b # s)" by blast
    then show ?thesis using 1 m is_least_elems [OF Cons.prems m(2)]
      by (auto simp: is_least_def simp del: elems_simps)
  next
    case 2
    have lb: "case block_lowerBound b (nat (x mod 256)) of
        None \<Rightarrow> {y \<in> block_elems b. x \<le> y} = {}
      | Some m \<Rightarrow> is_least m {y \<in> block_elems b. x \<le> y}"
      using block_lowerBound_spec [OF w(4) xi(2)] unfolding 2 xi(1) [symmetric] .
    show ?thesis
    proof (cases "block_lowerBound b (nat (x mod 256))")
      case None
      then have e: "{y \<in> elems (b # s). x \<le> y} = {y \<in> elems s. x \<le> y}" using lb by auto
      have "LowerBound_loop (b # s) (base x) (nat (x mod 256)) = LowerBound_loop s (base x) (nat (x mod 256))"
        using None 2 by simp
      then show ?thesis using IH unfolding e by metis
    next
      case (Some m)
      then have m: "is_least m {y \<in> block_elems b. x \<le> y}" using lb by simp
      then have "is_least m {y \<in> elems (b # s). x \<le> y}"
        using elems_block_lt [OF Cons.prems, of m]
        unfolding elems_simps by (intro is_least_ge_cut) (auto simp: is_least_def less_imp_le)
      then show ?thesis using Some 2 by (auto simp: is_least_def simp del: elems_simps)
    qed
  next
    case 3
    have gap: "offset b + 256 \<le> base x" using 3 bx w(3) by (auto simp: wf_offset_def intro: mod_256_gap)
    have "{y \<in> block_elems b. x \<le> y} = {}" using gap xi block_elems_range [of _ b] by fastforce
    then have e: "{y \<in> elems (b # s). x \<le> y} = {y \<in> elems s. x \<le> y}" by auto
    have "LowerBound_loop (b # s) (base x) (nat (x mod 256)) = LowerBound_loop s (base x) (nat (x mod 256))"
      using 3 by simp
    then show ?thesis using IH unfolding e by metis
  qed
qed simp

lemma LowerBound_spec:
  assumes "wf_sparse s" "in_int x"
  shows "\<exists>m. LowerBound s x = Inr m \<and>
    (if {y \<in> elems s. x \<le> y} = {} then m = MaxInt else is_least m {y \<in> elems s. x \<le> y})"
  using LowerBound_loop_spec [OF assms] assms(1) by (simp add: LowerBound_def offsetAndBitIndex_base)

end
