(* ===== verification/Intsets_SetOps.thy ===== *)
theory Intsets_SetOps
  imports Intsets_Sparse
begin

text \<open>
  The operations of \<^verbatim>\<open>sparse.go\<close> on whole sets: copying, intersection, union, difference,
  symmetric difference, the subset and equality tests, printing and the representation check. Each
  loop of the code is a recursive function over its cursors; the method on top of it selects the
  aliasing case, with the sets in a store addressed by their pointers.
\<close>

section \<open>Loops over the words of two blocks\<close>

definition comb_bits :: "(go_word \<Rightarrow> go_word \<Rightarrow> go_word) \<Rightarrow> go_word list \<Rightarrow> go_word list \<Rightarrow> go_word list" where
  "comb_bits f us vs = map2 f us vs"

text \<open>The accumulated \<^verbatim>\<open>sum |= r\<close>.\<close>

definition sum_bits :: "go_word list \<Rightarrow> go_word" where
  "sum_bits ws = fold (\<lambda>r sum. sum OR r) ws 0"

text \<open>The inner loop of \<^verbatim>\<open>UnionWith\<close> writes a word, and reports a change, when the words differ.\<close>

definition union_words :: "go_word list \<Rightarrow> go_word list \<Rightarrow> go_word list \<times> bool" where
  "union_words us vs =
     (map2 (\<lambda>u v. if u \<noteq> v then u OR v else u) us vs, list_ex (\<lambda>(u, v). u \<noteq> v) (zip us vs))"

section \<open>Loops over the blocks\<close>

fun Copy_loop :: "sparse \<Rightarrow> cursor \<Rightarrow> block list \<Rightarrow> sparse go_result" where
  "Copy_loop s sb [] = Inr (discardTail s sb)"
| "Copy_loop s sb (xb # xs) =
     (case ensure_block s sb of
        Inl e \<Rightarrow> Inl e
      | Inr (s', k) \<Rightarrow> Copy_loop (s'[k := xb]) (next_block s' k) xs)"

definition cursor_left :: "sparse \<Rightarrow> cursor \<Rightarrow> nat" where
  "cursor_left s sb = (case sb of None \<Rightarrow> 0 | Some k \<Rightarrow> Suc (length s - k))"

lemma cursor_left_next: "cursor_left s (next_block s k) < cursor_left s (Some k)"
  by (auto simp: cursor_left_def next_block_def)

lemma cursor_left_remove: "cursor_left (fst (removeBlock s k)) (snd (removeBlock s k)) < cursor_left s (Some k)"
  by (auto simp: cursor_left_def removeBlock_def next_block_def)

lemma cursor_left_update: "cursor_left (s[k := b]) c = cursor_left s c"
  by (simp add: cursor_left_def split: option.split)

lemmas cursor_left_simps = cursor_left_next cursor_left_remove cursor_left_update

function IntersectionWith_loop :: "sparse \<Rightarrow> cursor \<Rightarrow> block list \<Rightarrow> sparse" where
  "IntersectionWith_loop s sb [] = discardTail s sb"
| "IntersectionWith_loop s None (xb # xs) = discardTail s None"
| "IntersectionWith_loop s (Some k) (xb # xs) =
     (if offset xb < offset (s ! k) then IntersectionWith_loop s (Some k) xs
      else if offset xb > offset (s ! k)
      then IntersectionWith_loop (fst (removeBlock s k)) (snd (removeBlock s k)) (xb # xs)
      else let r = comb_bits (AND) (bits xb) (bits (s ! k)); s' = s[k := (s ! k)\<lparr>bits := r\<rparr>]
           in IntersectionWith_loop s' (if sum_bits r \<noteq> 0 then next_block s k else Some k) xs)"
  by pat_completeness auto
termination
  by (relation "measures [\<lambda>(s, sb, xs). length xs, \<lambda>(s, sb, xs). cursor_left s sb]")
    (auto simp: cursor_left_simps)

fun Intersection_loop :: "sparse \<Rightarrow> cursor \<Rightarrow> block list \<Rightarrow> block list \<Rightarrow> sparse go_result" where
  "Intersection_loop s sb [] ys = Inr (discardTail s sb)"
| "Intersection_loop s sb (xb # xs) [] = Inr (discardTail s sb)"
| "Intersection_loop s sb (xb # xs) (yb # ys) =
     (if offset xb < offset yb then Intersection_loop s sb xs (yb # ys)
      else if offset xb > offset yb then Intersection_loop s sb (xb # xs) ys
      else case ensure_block s sb of
             Inl e \<Rightarrow> Inl e
           | Inr (s', k) \<Rightarrow>
               (let r = comb_bits (AND) (bits xb) (bits yb);
                    s'' = s'[k := \<lparr>offset = offset xb, bits = r\<rparr>]
                in Intersection_loop s'' (if sum_bits r \<noteq> 0 then next_block s'' k else Some k) xs ys))"

fun Intersects_loop :: "block list \<Rightarrow> block list \<Rightarrow> bool" where
  "Intersects_loop [] xs = False"
| "Intersects_loop (sb # ss) [] = False"
| "Intersects_loop (sb # ss) (xb # xs) =
     (if offset xb < offset sb then Intersects_loop (sb # ss) xs
      else if offset xb > offset sb then Intersects_loop ss (xb # xs)
      else if list_ex (\<lambda>(u, v). u AND v \<noteq> 0) (zip (bits sb) (bits xb)) then True
      else Intersects_loop ss xs)"

function UnionWith_loop :: "sparse \<Rightarrow> cursor \<Rightarrow> block list \<Rightarrow> bool \<Rightarrow> (sparse \<times> bool) go_result" where
  "UnionWith_loop s sb [] changed = Inr (s, changed)"
| "UnionWith_loop s None (xb # xs) changed =
     (case put_before s None xb of
        Inl e \<Rightarrow> Inl e
      | Inr (s', k) \<Rightarrow> UnionWith_loop s' (next_block s' k) xs True)"
| "UnionWith_loop s (Some k) (xb # xs) changed =
     (if offset (s ! k) = offset xb
      then let (ws, ch) = union_words (bits (s ! k)) (bits xb)
           in UnionWith_loop (s[k := (s ! k)\<lparr>bits := ws\<rparr>]) (next_block s k) xs (changed \<or> ch)
      else if offset (s ! k) > offset xb
      then (case put_before s (Some k) xb of
              Inl e \<Rightarrow> Inl e
            | Inr (s', k') \<Rightarrow> UnionWith_loop s' (next_block s' k') xs True)
      else UnionWith_loop s (next_block s k) (xb # xs) changed)"
  by pat_completeness auto
termination
  by (relation "measures [\<lambda>(s, sb, xs, c). length xs, \<lambda>(s, sb, xs, c). cursor_left s sb]")
    (auto simp: cursor_left_simps)

function Union_loop :: "sparse \<Rightarrow> cursor \<Rightarrow> block list \<Rightarrow> block list \<Rightarrow> sparse go_result" where
  "Union_loop s sb xs ys =
     (if xs = [] \<and> ys = [] then Inr (discardTail s sb)
      else case ensure_block s sb of
             Inl e \<Rightarrow> Inl e
           | Inr (s', k) \<Rightarrow>
               (if ys = [] \<or> (xs \<noteq> [] \<and> offset (hd xs) < offset (hd ys))
                then Union_loop (s'[k := hd xs]) (next_block s' k) (tl xs) ys
                else if xs = [] \<or> (ys \<noteq> [] \<and> offset (hd ys) < offset (hd xs))
                then Union_loop (s'[k := hd ys]) (next_block s' k) xs (tl ys)
                else Union_loop
                       (s'[k := \<lparr>offset = offset (hd xs), bits = comb_bits (OR) (bits (hd xs)) (bits (hd ys))\<rparr>])
                       (next_block s' k) (tl xs) (tl ys)))"
  by pat_completeness auto
termination
  by (relation "measure (\<lambda>(s, sb, xs, ys). length xs + length ys)")
    (auto simp: neq_Nil_conv)

function DifferenceWith_loop :: "sparse \<Rightarrow> cursor \<Rightarrow> block list \<Rightarrow> sparse" where
  "DifferenceWith_loop s sb [] = s"
| "DifferenceWith_loop s None (xb # xs) = s"
| "DifferenceWith_loop s (Some k) (xb # xs) =
     (if offset xb > offset (s ! k) then DifferenceWith_loop s (next_block s k) (xb # xs)
      else if offset xb < offset (s ! k) then DifferenceWith_loop s (Some k) xs
      else let r = comb_bits (\<lambda>u v. u AND NOT v) (bits (s ! k)) (bits xb);
               s' = s[k := (s ! k)\<lparr>bits := r\<rparr>]
           in if sum_bits r = 0 then DifferenceWith_loop (fst (removeBlock s' k)) (snd (removeBlock s' k)) xs
              else DifferenceWith_loop s' (next_block s' k) xs)"
  by pat_completeness auto
termination
  by (relation "measures [\<lambda>(s, sb, xs). length xs, \<lambda>(s, sb, xs). cursor_left s sb]")
    (auto simp: cursor_left_simps)

fun Difference_loop :: "sparse \<Rightarrow> cursor \<Rightarrow> block list \<Rightarrow> block list \<Rightarrow> sparse go_result" where
  "Difference_loop s sb [] ys = Copy_loop s sb []"
| "Difference_loop s sb (xb # xs) [] = Copy_loop s sb (xb # xs)"
| "Difference_loop s sb (xb # xs) (yb # ys) =
     (if offset xb > offset yb then Difference_loop s sb (xb # xs) ys
      else case ensure_block s sb of
             Inl e \<Rightarrow> Inl e
           | Inr (s', k) \<Rightarrow>
               (if offset xb < offset yb
                then Difference_loop (s'[k := xb]) (next_block s' k) xs (yb # ys)
                else let r = comb_bits (\<lambda>u v. u AND NOT v) (bits xb) (bits yb);
                         s'' = s'[k := \<lparr>offset = offset xb, bits = r\<rparr>]
                     in Difference_loop s'' (if sum_bits r \<noteq> 0 then next_block s'' k else Some k) xs ys))"

text \<open>
  In \<^verbatim>\<open>SymmetricDifferenceWith\<close> the cursor stays at its block when a block is inserted before
  it: one position up, unless that block is the root, whose contents move into the second block
  while \<^verbatim>\<open>sb\<close> still points at the root.
\<close>

fun SymmetricDifferenceWith_tail :: "sparse \<Rightarrow> cursor \<Rightarrow> block list \<Rightarrow> sparse go_result" where
  "SymmetricDifferenceWith_tail s sb [] = Inr s"
| "SymmetricDifferenceWith_tail s sb (xb # xs) =
     (case put_before s sb xb of
        Inl e \<Rightarrow> Inl e
      | Inr (s', k) \<Rightarrow> SymmetricDifferenceWith_tail s' (next_block s' k) xs)"

function SymmetricDifferenceWith_loop :: "sparse \<Rightarrow> cursor \<Rightarrow> block list \<Rightarrow> sparse go_result" where
  "SymmetricDifferenceWith_loop s sb [] = SymmetricDifferenceWith_tail s sb []"
| "SymmetricDifferenceWith_loop s None (xb # xs) = SymmetricDifferenceWith_tail s None (xb # xs)"
| "SymmetricDifferenceWith_loop s (Some k) (xb # xs) =
     (if offset (s ! k) < offset xb then SymmetricDifferenceWith_loop s (next_block s k) (xb # xs)
      else if offset xb < offset (s ! k)
      then (case put_before s (Some k) xb of
              Inl e \<Rightarrow> Inl e
            | Inr (s', _) \<Rightarrow> SymmetricDifferenceWith_loop s' (Some (if k = 0 then 0 else Suc k)) xs)
      else let r = comb_bits (XOR) (bits (s ! k)) (bits xb); s' = s[k := (s ! k)\<lparr>bits := r\<rparr>]
           in if sum_bits r = 0
              then SymmetricDifferenceWith_loop (fst (removeBlock s' k)) (snd (removeBlock s' k)) xs
              else SymmetricDifferenceWith_loop s' (next_block s' k) xs)"
  by pat_completeness auto
termination
  by (relation "measures [\<lambda>(s, sb, xs). length xs, \<lambda>(s, sb, xs). cursor_left s sb]")
    (auto simp: cursor_left_simps)

text \<open>
  The tails of \<^verbatim>\<open>SymmetricDifference\<close>: first the rest of \<open>x\<close>, then the rest of \<open>y\<close>, then
  \<^verbatim>\<open>discardTail\<close>. As one of the two rests is empty, this is a copy of their concatenation.
\<close>

fun SymmetricDifference_loop :: "sparse \<Rightarrow> cursor \<Rightarrow> block list \<Rightarrow> block list \<Rightarrow> sparse go_result" where
  "SymmetricDifference_loop s sb [] ys = Copy_loop s sb ([] @ ys)"
| "SymmetricDifference_loop s sb (xb # xs) [] = Copy_loop s sb ((xb # xs) @ [])"
| "SymmetricDifference_loop s sb (xb # xs) (yb # ys) =
     (case ensure_block s sb of
        Inl e \<Rightarrow> Inl e
      | Inr (s', k) \<Rightarrow>
          (if offset yb < offset xb
           then SymmetricDifference_loop (s'[k := yb]) (next_block s' k) (xb # xs) ys
           else if offset xb < offset yb
           then SymmetricDifference_loop (s'[k := xb]) (next_block s' k) xs (yb # ys)
           else let r = comb_bits (XOR) (bits xb) (bits yb)
                in if sum_bits r \<noteq> 0
                   then SymmetricDifference_loop (s'[k := \<lparr>offset = offset xb, bits = r\<rparr>])
                          (next_block s' k) xs ys
                   else SymmetricDifference_loop (s'[k := (s' ! k)\<lparr>bits := r\<rparr>]) (Some k) xs ys))"

fun SubsetOf_loop :: "block list \<Rightarrow> block list \<Rightarrow> bool" where
  "SubsetOf_loop [] xs = True"
| "SubsetOf_loop (sb # ss) [] = False"
| "SubsetOf_loop (sb # ss) (xb # xs) =
     (if offset xb > offset sb then False
      else if offset xb < offset sb then SubsetOf_loop (sb # ss) xs
      else if list_ex (\<lambda>(u, v). u AND NOT v \<noteq> 0) (zip (bits sb) (bits xb)) then False
      else SubsetOf_loop ss xs)"

fun Equals_loop :: "block list \<Rightarrow> block list \<Rightarrow> bool" where
  "Equals_loop [] [] = True"
| "Equals_loop [] (tb # ts) = False"
| "Equals_loop (sb # ss) [] = False"
| "Equals_loop (sb # ss) (tb # ts) =
     (if offset sb \<noteq> offset tb then False
      else if bits sb \<noteq> bits tb then False
      else Equals_loop ss ts)"

section \<open>Methods\<close>

definition upd :: "store \<Rightarrow> nat \<Rightarrow> sparse go_result \<Rightarrow> store go_result" where
  "upd st s r = bindR r (\<lambda>v. Inr (st(s := v)))"

definition Copy :: "store \<Rightarrow> nat \<Rightarrow> nat \<Rightarrow> store go_result" where
  "Copy st s x =
     (if s = x then Inr st
      else upd st s (Copy_loop (st s) (first (st s)) (from_first (st x))))"

definition IntersectionWith :: "store \<Rightarrow> nat \<Rightarrow> nat \<Rightarrow> store go_result" where
  "IntersectionWith st s x =
     (if s = x then Inr st
      else Inr (st(s := IntersectionWith_loop (st s) (first (st s)) (from_first (st x)))))"

definition Intersection :: "store \<Rightarrow> nat \<Rightarrow> nat \<Rightarrow> nat \<Rightarrow> store go_result" where
  "Intersection st s x y =
     (if s = x then IntersectionWith st s y
      else if s = y then IntersectionWith st s x
      else if x = y then Copy st s x
      else upd st s (Intersection_loop (st s) (first (st s)) (from_first (st x)) (from_first (st y))))"

definition Intersects :: "sparse \<Rightarrow> sparse \<Rightarrow> bool" where
  "Intersects s x = Intersects_loop (from_first s) (from_first x)"

definition UnionWith :: "store \<Rightarrow> nat \<Rightarrow> nat \<Rightarrow> (store \<times> bool) go_result" where
  "UnionWith st s x =
     (if s = x then Inr (st, False)
      else bindR (UnionWith_loop (st s) (first (st s)) (from_first (st x)) False)
             (\<lambda>(v, changed). Inr (st(s := v), changed)))"

definition Union :: "store \<Rightarrow> nat \<Rightarrow> nat \<Rightarrow> nat \<Rightarrow> store go_result" where
  "Union st s x y =
     (if x = y then Copy st s x
      else if s = x then bindR (UnionWith st s y) (\<lambda>(st', _). Inr st')
      else if s = y then bindR (UnionWith st s x) (\<lambda>(st', _). Inr st')
      else upd st s (Union_loop (st s) (first (st s)) (from_first (st x)) (from_first (st y))))"

definition DifferenceWith :: "store \<Rightarrow> nat \<Rightarrow> nat \<Rightarrow> store go_result" where
  "DifferenceWith st s x =
     (if s = x then Inr (st(s := Clear))
      else Inr (st(s := DifferenceWith_loop (st s) (first (st s)) (from_first (st x)))))"

text \<open>When \<^verbatim>\<open>s == y\<close> the code copies \<open>y\<close> into the fresh local \<^verbatim>\<open>y2\<close> and calls itself.\<close>

definition Difference :: "store \<Rightarrow> nat \<Rightarrow> nat \<Rightarrow> nat \<Rightarrow> store go_result" where
  "Difference st s x y =
     (if x = y then Inr (st(s := Clear))
      else if s = x then DifferenceWith st s y
      else if s = y
      then bindR (Copy_loop [] (first []) (from_first (st y))) (\<lambda>y2.
             upd st s (Difference_loop (st s) (first (st s)) (from_first (st x)) (from_first y2)))
      else upd st s (Difference_loop (st s) (first (st s)) (from_first (st x)) (from_first (st y))))"

definition SymmetricDifferenceWith :: "store \<Rightarrow> nat \<Rightarrow> nat \<Rightarrow> store go_result" where
  "SymmetricDifferenceWith st s x =
     (if s = x then Inr (st(s := Clear))
      else upd st s (SymmetricDifferenceWith_loop (st s) (first (st s)) (from_first (st x))))"

definition SymmetricDifference :: "store \<Rightarrow> nat \<Rightarrow> nat \<Rightarrow> nat \<Rightarrow> store go_result" where
  "SymmetricDifference st s x y =
     (if x = y then Inr (st(s := Clear))
      else if s = x then SymmetricDifferenceWith st s y
      else if s = y then SymmetricDifferenceWith st s x
      else upd st s (SymmetricDifference_loop (st s) (first (st s)) (from_first (st x)) (from_first (st y))))"

definition SubsetOf :: "store \<Rightarrow> nat \<Rightarrow> nat \<Rightarrow> bool" where
  "SubsetOf st s x = (s = x \<or> SubsetOf_loop (from_first (st s)) (from_first (st x)))"

definition Equals :: "store \<Rightarrow> nat \<Rightarrow> nat \<Rightarrow> bool" where
  "Equals st s t = (s = t \<or> Equals_loop (from_first (st s)) (from_first (st t)))"

text \<open>
  \<^verbatim>\<open>check\<close> returns \<^verbatim>\<open>nil\<close> (\<^const>\<open>None\<close>) or the first violation it finds; the tests of the
  \<^verbatim>\<open>prev\<close> and \<^verbatim>\<open>next\<close> links have no counterpart on a list.
\<close>

fun check_loop :: "block list \<Rightarrow> string option" where
  "check_loop [] = None"
| "check_loop (b # bs) =
     (if go_rem (offset b) (int bitsPerBlock) \<noteq> 0 then Some ''bad offset modulo''
      else if block_empty b then Some ''empty block''
      else if bs = [] then None
      else if offset b \<ge> offset (hd bs) then Some ''bad offset order''
      else check_loop bs)"

definition check :: "sparse \<Rightarrow> string option" where
  "check s =
     (if s = [] then None
      else if block_empty (hd s)
      then if length s \<noteq> 1 then Some ''multiple blocks with empty root block''
           else if offset (hd s) \<noteq> MaxInt then Some ''empty set has bad offset''
           else None
      else check_loop s)"

end
