(* ===== verification/Intsets_Algebra.thy ===== *)
theory Intsets_Algebra
  imports Intsets_SetOps
begin

text \<open>
  Correctness of the operations of \<^verbatim>\<open>sparse.go\<close> on whole sets. Every binary operation is a
  merge of two lists of blocks in offset order that combines blocks at the same offset word by
  word; \<open>merge\<close> is that reference merge, and the locale \<open>bitwise\<close> proves once what it computes for
  any boolean operation on membership. Each loop of the code is then shown to produce the merge,
  whatever blocks of the previous contents its cursor overwrites.
\<close>

section \<open>Combining two blocks\<close>

fun merge :: "(go_word \<Rightarrow> go_word \<Rightarrow> go_word) \<Rightarrow> bool \<Rightarrow> bool \<Rightarrow> sparse \<Rightarrow> sparse \<Rightarrow> sparse" where
  "merge f kl kr [] ys = (if kr then ys else [])"
| "merge f kl kr (x # xs) [] = (if kl then x # xs else [])"
| "merge f kl kr (x # xs) (y # ys) =
     (if offset x < offset y then (if kl then [x] else []) @ merge f kl kr xs (y # ys)
      else if offset y < offset x then (if kr then [y] else []) @ merge f kl kr (x # xs) ys
      else (let r = comb_bits f (bits x) (bits y)
            in (if sum_bits r \<noteq> 0 then [x\<lparr>bits := r\<rparr>] else []) @ merge f kl kr xs ys))"

lemma merge_Nil2 [simp]: "merge f kl kr xs [] = (if kl then xs else [])"
  by (cases xs) auto

text \<open>The induction all the merges follow: the smaller of the two head offsets advances.\<close>

lemma merge_induct [case_names Nil1 Nil2 Cons]:
  assumes "\<And>ys. Q [] ys" "\<And>x xs. Q (x # xs) []"
    "\<And>x xs y ys. (offset x < offset y \<Longrightarrow> Q xs (y # ys)) \<Longrightarrow> (offset y < offset x \<Longrightarrow> Q (x # xs) ys) \<Longrightarrow>
      (offset x = offset y \<Longrightarrow> Q xs ys) \<Longrightarrow> Q (x # xs) (y # ys)"
  shows "Q (xs :: sparse) (ys :: sparse)"
  using assms by (rule merge.induct [of "\<lambda>_ _ _ xs ys. Q xs ys"]) (auto simp: not_less)

lemma sum_bits_0: "sum_bits ws = 0 \<longleftrightarrow> list_all (\<lambda>w. w = 0) ws"
proof -
  have "fold (\<lambda>r sum. sum OR r) ws s = 0 \<longleftrightarrow> s = 0 \<and> list_all (\<lambda>w. w = 0) ws" for s :: go_word
    by (induction ws arbitrary: s) (auto simp: bit_eq_iff bit_or_iff)
  then show ?thesis by (simp add: sum_bits_def)
qed

lemma length_comb_bits [simp]: "length (comb_bits f us vs) = min (length us) (length vs)"
  by (simp add: comb_bits_def)

lemma comb_bits_commute: "(\<And>u v. f u v = f v u) \<Longrightarrow> comb_bits f us vs = comb_bits f vs us"
  by (simp add: comb_bits_def zip_commute [of us] split_beta comp_def)

lemma sum_bits_elems:
  assumes "wf_frame b"
  shows "sum_bits (bits b) \<noteq> 0 \<longleftrightarrow> wf_block b"
  using block_empty_iff [OF assms] assms by (simp add: sum_bits_0 block_empty_def wf_block_def)

lemma wf_optional_head:
  assumes "wf_sparse s" "wf_block b" "\<forall>c \<in> set s. offset b < offset c"
  shows "wf_sparse ((if p then [b] else []) @ s)"
    "\<And>z. z \<in> elems ((if p then [b] else []) @ s) \<longleftrightarrow> (p \<and> z \<in> block_elems b) \<or> z \<in> elems s"
  using assms by (auto simp: wf_sparse_Cons)

section \<open>The reference merge computes the boolean operation\<close>

locale bitwise =
  fixes f :: "go_word \<Rightarrow> go_word \<Rightarrow> go_word"
    and P :: "bool \<Rightarrow> bool \<Rightarrow> bool"
  assumes bit_f: "bit (f u v) n \<longleftrightarrow> n < 64 \<and> P (bit u n) (bit v n)"
    and P_False: "\<not> P False False"
begin

lemma bit_at_comb:
  assumes "length us = 4" "length vs = 4" "i < 256"
  shows "bit_at \<lparr>offset = off, bits = comb_bits f us vs\<rparr> i \<longleftrightarrow>
    P (bit_at \<lparr>offset = off, bits = us\<rparr> i) (bit_at \<lparr>offset = off, bits = vs\<rparr> i)"
  using assms by (simp add: bit_at_def comb_bits_def bit_f)

lemma comb_frame:
  assumes "wf_frame b" "wf_frame c" "offset b = offset c"
  shows "wf_frame (b\<lparr>bits := comb_bits f (bits b) (bits c)\<rparr>)"
    "block_elems (b\<lparr>bits := comb_bits f (bits b) (bits c)\<rparr>) =
       {x. P (x \<in> block_elems b) (x \<in> block_elems c)}"
proof -
  let ?r = "b\<lparr>bits := comb_bits f (bits b) (bits c)\<rparr>"
  show fr: "wf_frame ?r" using assms by (simp add: wf_frame_def)
  have "x \<in> block_elems ?r \<longleftrightarrow> P (x \<in> block_elems b) (x \<in> block_elems c)" for x
    using assms bit_at_comb [of "bits b" "bits c" "nat (x mod 256)" "offset b"] base_split(2) [of x] P_False
    by (cases "offset c = x - x mod 256") (auto simp: mem_block_elems wf_frame_def bit_at_def)
  then show "block_elems ?r = {x. P (x \<in> block_elems b) (x \<in> block_elems c)}" by blast
qed

abbreviation m_op :: "sparse \<Rightarrow> sparse \<Rightarrow> sparse" where
  "m_op \<equiv> merge f (P True False) (P False True)"

lemma merge_offsets: "b \<in> set (m_op xs ys) \<Longrightarrow> offset b \<in> offset ` set xs \<union> offset ` set ys"
  by (induction xs ys rule: merge_induct) (auto simp: Let_def split: if_splits)

lemma merge_mem:
  assumes "wf_sparse xs" "wf_sparse ys"
  shows "wf_sparse (m_op xs ys) \<and> (\<forall>x. x \<in> elems (m_op xs ys) \<longleftrightarrow> P (x \<in> elems xs) (x \<in> elems ys))"
  using assms
proof (induction xs ys rule: merge_induct)
  case (Nil1 ys)
  have "P False (z \<in> elems ys) \<longleftrightarrow> P False True \<and> z \<in> elems ys" for z
    using P_False by (cases "z \<in> elems ys") simp_all
  then show ?case using Nil1 by simp
next
  case (Nil2 x xs)
  have "P (z \<in> elems (x # xs)) False \<longleftrightarrow> P True False \<and> z \<in> elems (x # xs)" for z
    using P_False by (cases "z \<in> elems (x # xs)") simp_all
  then show ?case using Nil2 by simp
next
  case (Cons x xs y ys)
  have wx: "wf_sparse xs" "wf_block x" "wf_frame x" "\<forall>c \<in> set xs. offset x < offset c"
    and wy: "wf_sparse ys" "wf_block y" "wf_frame y" "\<forall>c \<in> set ys. offset y < offset c"
    using Cons.prems by (auto simp: wf_sparse_Cons wf_blockD)
  have out: "z \<notin> elems zs" if "wf_sparse zs" "wf_block b" "z \<in> block_elems b" "\<forall>c \<in> set zs. offset b < offset c"
    for z b zs
    using that by (fastforce dest: elems_offset elem_offset wf_blockD)
  consider "offset x < offset y" | "offset y < offset x" | "offset x = offset y" by linarith
  then show ?case
  proof cases
    case 1
    have IH: "wf_sparse (m_op xs (y # ys))"
      "\<forall>z. z \<in> elems (m_op xs (y # ys)) \<longleftrightarrow> P (z \<in> elems xs) (z \<in> elems (y # ys))"
      using Cons.IH(1) [OF 1 wx(1) Cons.prems(2)] by auto
    have lt: "\<forall>c \<in> set (m_op xs (y # ys)). offset x < offset c"
      using wx(4) wy(4) 1 by (fastforce dest: merge_offsets)
    have ly: "\<forall>c \<in> set (y # ys). offset x < offset c" using 1 wy(4) by fastforce
    have n: "z \<notin> elems xs \<and> z \<notin> elems (y # ys)" if "z \<in> block_elems x" for z
      using out [OF wx(1,2) that wx(4)] out [OF Cons.prems(2) wx(2) that ly] by simp
    have mem: "(P True False \<and> z \<in> block_elems x) \<or> P (z \<in> elems xs) (z \<in> elems (y # ys)) \<longleftrightarrow>
        P (z \<in> elems (x # xs)) (z \<in> elems (y # ys))" for z
      using n [of z] P_False by (cases "z \<in> block_elems x") simp_all
    have e: "m_op (x # xs) (y # ys) = (if P True False then [x] else []) @ m_op xs (y # ys)" using 1 by simp
    show ?thesis unfolding e using wf_optional_head [OF IH(1) wx(2) lt, where p = "P True False"] IH(2) mem by metis
  next
    case 2
    have IH: "wf_sparse (m_op (x # xs) ys)"
      "\<forall>z. z \<in> elems (m_op (x # xs) ys) \<longleftrightarrow> P (z \<in> elems (x # xs)) (z \<in> elems ys)"
      using Cons.IH(2) [OF 2 Cons.prems(1) wy(1)] by auto
    have lt: "\<forall>c \<in> set (m_op (x # xs) ys). offset y < offset c"
      using wx(4) wy(4) 2 by (fastforce dest: merge_offsets)
    have lx: "\<forall>c \<in> set (x # xs). offset y < offset c" using 2 wx(4) by fastforce
    have n: "z \<notin> elems ys \<and> z \<notin> elems (x # xs)" if "z \<in> block_elems y" for z
      using out [OF wy(1,2) that wy(4)] out [OF Cons.prems(1) wy(2) that lx] by simp
    have mem: "(P False True \<and> z \<in> block_elems y) \<or> P (z \<in> elems (x # xs)) (z \<in> elems ys) \<longleftrightarrow>
        P (z \<in> elems (x # xs)) (z \<in> elems (y # ys))" for z
      using n [of z] P_False by (cases "z \<in> block_elems y") simp_all
    have e: "m_op (x # xs) (y # ys) = (if P False True then [y] else []) @ m_op (x # xs) ys" using 2 by simp
    show ?thesis unfolding e using wf_optional_head [OF IH(1) wy(2) lt, where p = "P False True"] IH(2) mem by metis
  next
    case 3
    note e = 3
    let ?r = "x\<lparr>bits := comb_bits f (bits x) (bits y)\<rparr>"
    have IH: "wf_sparse (m_op xs ys)"
      "\<forall>z. z \<in> elems (m_op xs ys) \<longleftrightarrow> P (z \<in> elems xs) (z \<in> elems ys)"
      using Cons.IH(3) [OF e wx(1) wy(1)] by auto
    have lt: "\<forall>c \<in> set (m_op xs ys). offset ?r < offset c"
      using wx(4) wy(4) e by (fastforce dest: merge_offsets)
    note cf = comb_frame [OF wx(3) wy(3) e]
    have nx: "z \<notin> elems xs \<and> z \<notin> elems ys" if "z \<in> block_elems x" for z
      using out [OF wx(1,2) that wx(4)] out [OF wy(1) wx(2) that] e wy(4) by auto
    have ny: "z \<notin> elems xs \<and> z \<notin> elems ys" if "z \<in> block_elems y" for z
      using out [OF wx(1) wy(2) that] out [OF wy(1,2) that wy(4)] e wx(4) by auto
    have mem: "z \<in> block_elems ?r \<or> P (z \<in> elems xs) (z \<in> elems ys) \<longleftrightarrow>
        P (z \<in> elems (x # xs)) (z \<in> elems (y # ys))" for z
      unfolding cf(2) using nx [of z] ny [of z] P_False
      by (cases "z \<in> block_elems x"; cases "z \<in> block_elems y") simp_all
    show ?thesis
    proof (cases "wf_block ?r")
      case True
      then have "m_op (x # xs) (y # ys) = ?r # m_op xs ys"
        using e sum_bits_elems [OF cf(1)] by (simp add: Let_def)
      then show ?thesis using True IH lt mem by (simp add: wf_sparse_Cons)
    next
      case False
      then have "m_op (x # xs) (y # ys) = m_op xs ys" "block_elems ?r = {}"
        using e sum_bits_elems [OF cf(1)] cf(1) by (auto simp: Let_def wf_block_def)
      then show ?thesis using IH mem by simp
    qed
  qed
qed

lemma merge_wf: "wf_sparse xs \<Longrightarrow> wf_sparse ys \<Longrightarrow> wf_sparse (m_op xs ys)"
  using merge_mem by blast

lemma merge_elems:
  "wf_sparse xs \<Longrightarrow> wf_sparse ys \<Longrightarrow> elems (m_op xs ys) = {x. P (x \<in> elems xs) (x \<in> elems ys)}"
  using merge_mem by blast

end

interpretation b_and: bitwise "(AND)" "\<lambda>p q. p \<and> q"
  by unfold_locales (auto simp: bit_and_iff dest: bit_word_lt)

interpretation b_or: bitwise "(OR)" "\<lambda>p q. p \<or> q"
  by unfold_locales (auto simp: bit_or_iff dest: bit_word_lt)

interpretation b_xor: bitwise "(XOR)" "\<lambda>p q. p \<noteq> q"
  by unfold_locales (auto simp: bit_xor_iff dest: bit_word_lt)

interpretation b_diff: bitwise "\<lambda>u v. u AND NOT v" "\<lambda>p q. p \<and> \<not> q"
  by unfold_locales (auto simp: bit_and_iff bit_not_iff dest: bit_word_lt)

section \<open>The loops that write a third set\<close>

definition placeable :: "sparse \<Rightarrow> bool" where
  "placeable xs \<longleftrightarrow> (\<forall>b \<in> set xs. offset b \<noteq> MaxInt)"

lemma placeable_simps [simp]: "placeable []" "placeable (b # xs) \<longleftrightarrow> offset b \<noteq> MaxInt \<and> placeable xs"
  by (auto simp: placeable_def)

lemma wf_placeable: "wf_sparse xs \<Longrightarrow> placeable xs"
  by (auto simp: placeable_def wf_sparse_def list_all_iff dest: wf_blockD)

lemma rooted_snoc: "rooted pre \<Longrightarrow> offset b \<noteq> MaxInt \<Longrightarrow> rooted (pre @ [b])"
  by auto

lemma ensure_step:
  assumes "rooted pre"
  obtains s' z where "ensure_block (pre @ old) (cur pre old) = Inr (s', length pre)"
    "s' = pre @ z # tl old"
    "\<And>b. s'[length pre := b] = pre @ b # tl old"
    "\<And>b. next_block s' (length pre) = cur (pre @ [b]) (tl old)"
proof -
  obtain z where "ensure_block (pre @ old) (cur pre old) = Inr (pre @ z # tl old, length pre)"
    using ensure_block_cur [OF assms, of old] by blast
  then show ?thesis using that [of "pre @ z # tl old" z] by (auto simp: next_cur' )
qed

lemma Copy_loop_eq:
  assumes "rooted pre" "placeable xs"
  shows "Copy_loop (pre @ old) (cur pre old) xs = Inr (pre @ xs)"
  using assms
proof (induction xs arbitrary: pre old)
  case Nil
  then show ?case by (simp add: discardTail_cur)
next
  case (Cons x xs)
  obtain s' z where s': "ensure_block (pre @ old) (cur pre old) = Inr (s', length pre)"
    "\<And>b. s'[length pre := b] = pre @ b # tl old" "\<And>b. next_block s' (length pre) = cur (pre @ [b]) (tl old)"
    using ensure_step [OF Cons.prems(1), of old] by metis
  show ?case
    using Cons.IH [of "pre @ [x]" "tl old"] Cons.prems rooted_snoc s'(1,2) s'(3) [of x] by simp
qed

lemma Intersection_loop_eq:
  assumes "rooted pre" "placeable xs"
  shows "Intersection_loop (pre @ old) (cur pre old) xs ys = Inr (pre @ merge (AND) False False xs ys)"
  using assms
proof (induction xs ys arbitrary: pre old rule: merge_induct)
  case (Nil1 ys)
  then show ?case by (simp add: discardTail_cur)
next
  case (Nil2 x xs)
  then show ?case by (simp add: discardTail_cur)
next
  case (Cons x xs y ys)
  consider "offset x < offset y" | "offset y < offset x" | "offset x = offset y" by linarith
  then show ?case
  proof cases
    case 3
    let ?n = "\<lparr>offset = offset x, bits = comb_bits (AND) (bits x) (bits y)\<rparr>"
    obtain s' z where s': "ensure_block (pre @ old) (cur pre old) = Inr (s', length pre)"
      "s' = pre @ z # tl old" "\<And>b. s'[length pre := b] = pre @ b # tl old"
      using ensure_step [OF Cons.prems(1), of old] by metis
    have n: "x\<lparr>bits := comb_bits (AND) (bits x) (bits y)\<rparr> = ?n" by simp
    show ?thesis
    proof (cases "sum_bits (bits ?n) = 0")
      case True
      then show ?thesis
        using 3 Cons.IH(3) [OF 3, of pre "?n # tl old"] Cons.prems s'(1,3) by (simp add: Let_def)
    next
      case False
      then show ?thesis
        using 3 Cons.IH(3) [OF 3, of "pre @ [?n]" "tl old"] Cons.prems s'(1,3) n
        by (simp add: Let_def next_cur rooted_snoc)
    qed
  qed (use Cons in simp_all)
qed

lemma comb_or_nonzero:
  assumes "wf_block x" "wf_block y" "offset x = offset y"
  shows "sum_bits (comb_bits (OR) (bits x) (bits y)) \<noteq> 0"
proof -
  have f: "wf_frame x" "wf_frame y" using assms by (auto simp: wf_blockD)
  let ?r = "x\<lparr>bits := comb_bits (OR) (bits x) (bits y)\<rparr>"
  have "block_elems ?r \<noteq> {}" using b_or.comb_frame(2) [OF f assms(3)] wf_blockD(3) [OF assms(1)] by auto
  then show ?thesis using sum_bits_elems [OF b_or.comb_frame(1) [OF f assms(3)]] b_or.comb_frame(1) [OF f assms(3)]
    by (simp add: wf_block_def)
qed

lemma block_bits_upd: "x\<lparr>bits := r\<rparr> = \<lparr>offset = offset x, bits = r\<rparr>" for x :: block
  by simp

declare Union_loop.simps [simp del]

lemma Union_loop_cur:
  assumes "rooted pre"
  shows "Union_loop (pre @ old) (cur pre old) [] [] = Inr pre"
    and "ys = [] \<or> offset x < offset (hd ys) \<Longrightarrow>
      Union_loop (pre @ old) (cur pre old) (x # xs) ys
        = Union_loop ((pre @ [x]) @ tl old) (cur (pre @ [x]) (tl old)) xs ys"
    and "xs = [] \<or> offset y < offset (hd xs) \<Longrightarrow>
      Union_loop (pre @ old) (cur pre old) xs (y # ys)
        = Union_loop ((pre @ [y]) @ tl old) (cur (pre @ [y]) (tl old)) xs ys"
    and "offset x = offset y \<Longrightarrow> r = x\<lparr>bits := comb_bits (OR) (bits x) (bits y)\<rparr> \<Longrightarrow>
      Union_loop (pre @ old) (cur pre old) (x # xs) (y # ys)
        = Union_loop ((pre @ [r]) @ tl old) (cur (pre @ [r]) (tl old)) xs ys"
proof -
  obtain s' z where s': "ensure_block (pre @ old) (cur pre old) = Inr (s', length pre)"
    "\<And>b. s'[length pre := b] = pre @ b # tl old" "\<And>b. next_block s' (length pre) = cur (pre @ [b]) (tl old)"
    using ensure_step [OF assms, of old] by metis
  show "Union_loop (pre @ old) (cur pre old) [] [] = Inr pre"
    by (simp add: Union_loop.simps [of _ _ "[]" "[]"] discardTail_cur)
  show "ys = [] \<or> offset x < offset (hd ys) \<Longrightarrow>
      Union_loop (pre @ old) (cur pre old) (x # xs) ys
        = Union_loop ((pre @ [x]) @ tl old) (cur (pre @ [x]) (tl old)) xs ys"
    using s'(1,2) s'(3) [of x] by (simp add: Union_loop.simps [of "pre @ old" _ "x # xs" ys])
  show "xs = [] \<or> offset y < offset (hd xs) \<Longrightarrow>
      Union_loop (pre @ old) (cur pre old) xs (y # ys)
        = Union_loop ((pre @ [y]) @ tl old) (cur (pre @ [y]) (tl old)) xs ys"
    using s'(1,2) s'(3) [of y] by (auto simp: Union_loop.simps [of "pre @ old" _ xs "y # ys"])
  show "offset x = offset y \<Longrightarrow> r = x\<lparr>bits := comb_bits (OR) (bits x) (bits y)\<rparr> \<Longrightarrow>
      Union_loop (pre @ old) (cur pre old) (x # xs) (y # ys)
        = Union_loop ((pre @ [r]) @ tl old) (cur (pre @ [r]) (tl old)) xs ys"
    using s'(1,2) s'(3) [of r] by (simp add: block_bits_upd Union_loop.simps [of "pre @ old" _ "x # xs" "y # ys"])
qed

lemma Union_loop_eq:
  assumes "rooted pre" "wf_sparse xs" "wf_sparse ys"
  shows "Union_loop (pre @ old) (cur pre old) xs ys = Inr (pre @ merge (OR) True True xs ys)"
  using assms
proof (induction xs ys arbitrary: pre old rule: merge_induct)
  case (Nil1 ys)
  then show ?case
  proof (induction ys arbitrary: pre old)
    case Nil
    then show ?case by (simp add: Union_loop_cur)
  next
    case (Cons y ys)
    then show ?case
      using Cons.IH [of "pre @ [y]" "tl old"] by (simp add: Union_loop_cur(3) wf_sparse_Cons wf_blockD)
  qed
next
  case (Nil2 x xs)
  have "Union_loop (pre @ old) (cur pre old) xs [] = Inr (pre @ xs)" if "rooted pre" "placeable xs" for xs pre old
    using that
  proof (induction xs arbitrary: pre old)
    case (Cons x xs)
    then show ?case using Cons.IH [of "pre @ [x]" "tl old"] by (simp add: Union_loop_cur(2))
  qed (simp add: Union_loop_cur)
  then show ?case using Nil2 wf_placeable [of "x # xs"] by (simp del: placeable_simps)
next
  case (Cons x xs y ys)
  have w: "wf_sparse xs" "wf_sparse ys" "wf_block x" "wf_block y" "offset x \<noteq> MaxInt" "offset y \<noteq> MaxInt"
    using Cons.prems by (auto simp: wf_sparse_Cons wf_blockD)
  consider "offset x < offset y" | "offset y < offset x" | "offset x = offset y" by linarith
  then show ?case
  proof cases
    case 1
    then show ?thesis
      using Cons.IH(1) [OF 1, of "pre @ [x]" "tl old"] Cons.prems w by (simp add: Union_loop_cur(2) rooted_snoc)
  next
    case 2
    then show ?thesis
      using Cons.IH(2) [OF 2, of "pre @ [y]" "tl old"] Cons.prems w by (simp add: Union_loop_cur(3) rooted_snoc)
  next
    case 3
    let ?r = "x\<lparr>bits := comb_bits (OR) (bits x) (bits y)\<rparr>"
    have "rooted (pre @ [?r])" using Cons.prems(1) w(5) by (simp add: rooted_snoc)
    then show ?thesis
      using 3 Cons.IH(3) [OF 3, of "pre @ [?r]" "tl old"] Cons.prems w comb_or_nonzero [OF w(3,4) 3]
      by (simp add: Union_loop_cur(4) [OF _ 3 refl] Let_def)
  qed
qed

lemma Difference_loop_eq:
  assumes "rooted pre" "placeable xs"
  shows "Difference_loop (pre @ old) (cur pre old) xs ys
    = Inr (pre @ merge (\<lambda>u v. u AND NOT v) True False xs ys)"
  using assms
proof (induction xs ys arbitrary: pre old rule: merge_induct)
  case (Nil1 ys)
  then show ?case by (simp add: discardTail_cur)
next
  case (Nil2 x xs)
  then show ?case by (simp add: Copy_loop_eq del: Copy_loop.simps)
next
  case (Cons x xs y ys)
  obtain s' z where s': "ensure_block (pre @ old) (cur pre old) = Inr (s', length pre)"
    "\<And>b. s'[length pre := b] = pre @ b # tl old" "\<And>b. next_block s' (length pre) = cur (pre @ [b]) (tl old)"
    using ensure_step [OF Cons.prems(1), of old] by metis
  consider "offset x < offset y" | "offset y < offset x" | "offset x = offset y" by linarith
  then show ?case
  proof cases
    case 1
    then show ?thesis
      using Cons.IH(1) [OF 1, of "pre @ [x]" "tl old"] Cons.prems s'(1,2) s'(3) [of x] by (simp add: rooted_snoc)
  next
    case 2
    then show ?thesis using Cons by simp
  next
    case 3
    let ?n = "\<lparr>offset = offset x, bits = comb_bits (\<lambda>u v. u AND NOT v) (bits x) (bits y)\<rparr>"
    have n: "x\<lparr>bits := comb_bits (\<lambda>u v. u AND NOT v) (bits x) (bits y)\<rparr> = ?n" by simp
    show ?thesis
    proof (cases "sum_bits (bits ?n) = 0")
      case True
      then show ?thesis
        using 3 Cons.IH(3) [OF 3, of pre "?n # tl old"] Cons.prems s'(1,2) by (simp add: Let_def)
    next
      case False
      then show ?thesis
        using 3 Cons.IH(3) [OF 3, of "pre @ [?n]" "tl old"] Cons.prems s'(1,2) n
        by (simp add: Let_def next_cur rooted_snoc)
    qed
  qed
qed

lemma SymmetricDifference_loop_eq:
  assumes "rooted pre" "placeable xs" "placeable ys"
  shows "SymmetricDifference_loop (pre @ old) (cur pre old) xs ys = Inr (pre @ merge (XOR) True True xs ys)"
  using assms
proof (induction xs ys arbitrary: pre old rule: merge_induct)
  case (Nil1 ys)
  then show ?case by (simp add: Copy_loop_eq)
next
  case (Nil2 x xs)
  then show ?case by (simp add: Copy_loop_eq del: Copy_loop.simps)
next
  case (Cons x xs y ys)
  obtain s' z where s': "ensure_block (pre @ old) (cur pre old) = Inr (s', length pre)"
    "\<And>b. s'[length pre := b] = pre @ b # tl old" "\<And>b. next_block s' (length pre) = cur (pre @ [b]) (tl old)"
    using ensure_step [OF Cons.prems(1), of old] by metis
  consider "offset x < offset y" | "offset y < offset x" | "offset x = offset y" by linarith
  then show ?case
  proof cases
    case 1
    then show ?thesis
      using Cons.IH(1) [OF 1, of "pre @ [x]" "tl old"] Cons.prems s'(1,2) s'(3) [of x] by (simp add: rooted_snoc)
  next
    case 2
    then show ?thesis
      using Cons.IH(2) [OF 2, of "pre @ [y]" "tl old"] Cons.prems s'(1,2) s'(3) [of y] by (simp add: rooted_snoc)
  next
    case 3
    let ?n = "\<lparr>offset = offset x, bits = comb_bits (XOR) (bits x) (bits y)\<rparr>"
    have n: "x\<lparr>bits := comb_bits (XOR) (bits x) (bits y)\<rparr> = ?n" by simp
    show ?thesis
    proof (cases "sum_bits (bits ?n) = 0")
      case True
      let ?m = "(s' ! length pre)\<lparr>bits := bits ?n\<rparr>"
      show ?thesis
        using True 3 Cons.IH(3) [OF 3, of pre "?m # tl old"] Cons.prems s'(1,2) by (simp add: Let_def)
    next
      case False
      then show ?thesis
        using 3 Cons.IH(3) [OF 3, of "pre @ [?n]" "tl old"] Cons.prems s'(1,2) s'(3) [of ?n] n
        by (simp add: Let_def rooted_snoc)
    qed
  qed
qed

section \<open>The loops that update a set in place\<close>

lemma IntersectionWith_loop_drop:
  assumes "\<forall>c \<in> set xs. offset b < offset c"
  shows "IntersectionWith_loop (pre @ b # post) (Some (length pre)) xs
    = (if xs = [] then pre else IntersectionWith_loop (pre @ post) (cur pre post) xs)"
  using assms discardTail_cur [of pre "b # post"] by (cases xs) (simp_all add: removeBlock_cur)

lemma IntersectionWith_loop_eq:
  assumes "wf_sparse post" "wf_sparse xs"
  shows "IntersectionWith_loop (pre @ post) (cur pre post) xs = pre @ merge (AND) False False post xs"
  using assms
proof (induction post xs arbitrary: pre rule: merge_induct)
  case (Nil1 xs)
  then show ?case by (cases xs) (simp_all add: discardTail_def)
next
  case (Nil2 b post)
  then show ?case using discardTail_cur [of pre "b # post"] by simp
next
  case (Cons b post x xs)
  have w: "wf_sparse post" "wf_sparse xs" "\<forall>c \<in> set xs. offset x < offset c"
    using Cons.prems by (auto simp: wf_sparse_Cons)
  consider "offset b < offset x" | "offset x < offset b" | "offset b = offset x" by linarith
  then show ?case
  proof cases
    case 3
    let ?n = "b\<lparr>bits := comb_bits (AND) (bits b) (bits x)\<rparr>"
    have c: "comb_bits (AND) (bits x) (bits b) = bits ?n" by (simp add: comb_bits_commute and.commute)
    show ?thesis
    proof (cases "sum_bits (bits ?n) = 0")
      case True
      then show ?thesis
        using 3 c w Cons.IH(3) [OF 3 w(1,2), of pre] IntersectionWith_loop_drop [of xs ?n pre post]
        by (simp add: Let_def)
    next
      case False
      then show ?thesis
        using 3 c Cons.IH(3) [OF 3 w(1,2), of "pre @ [?n]"] by (simp add: Let_def next_cur' [where b = ?n])
    qed
  qed (use Cons w in \<open>simp_all add: removeBlock_cur\<close>)
qed

lemma union_words_or: "fst (union_words us vs) = comb_bits (OR) us vs"
  by (auto simp: union_words_def comb_bits_def)

text \<open>What the loop reports: a block of \<open>x\<close> that \<open>s\<close> did not have, or words that differ.\<close>

fun union_reports :: "sparse \<Rightarrow> sparse \<Rightarrow> bool" where
  "union_reports s [] \<longleftrightarrow> False"
| "union_reports [] (x # xs) \<longleftrightarrow> True"
| "union_reports (b # s) (x # xs) \<longleftrightarrow>
     (if offset b < offset x then union_reports s (x # xs)
      else if offset x < offset b then True
      else snd (union_words (bits b) (bits x)) \<or> union_reports s xs)"

lemma union_reports_Nil [simp]: "union_reports [] xs \<longleftrightarrow> xs \<noteq> []"
  by (cases xs) auto

lemma UnionWith_loop_eq:
  assumes "wf_sparse (pre @ post)" "wf_sparse xs" "\<forall>b \<in> set pre. \<forall>c \<in> set xs. offset b < offset c"
  shows "UnionWith_loop (pre @ post) (cur pre post) xs ch
    = Inr (pre @ merge (OR) True True post xs, ch \<or> union_reports post xs)"
  using assms
proof (induction post xs arbitrary: pre ch rule: merge_induct)
  case (Nil1 xs)
  then show ?case
  proof (induction xs arbitrary: pre ch)
    case (Cons x xs)
    have "wf_sparse ((pre @ [x]) @ [])"
      using Cons.prems by (auto simp: wf_sparse_append wf_sparse_Cons)
    then show ?case
      using Cons.IH [of "pre @ [x]" True] Cons.prems put_before_cur [of pre "[]" x] wf_rooted [of pre "[]"]
        next_cur [of pre x "[]"] by (simp add: wf_sparse_Cons)
  qed simp
next
  case (Nil2 b post)
  then show ?case by simp
next
  case (Cons b post x xs)
  have w: "wf_sparse (pre @ [b])" "wf_sparse (b # post)" "wf_sparse post" "wf_sparse xs" "wf_block x" "wf_block b"
    "wf_frame b" "wf_frame x" "\<forall>c \<in> set xs. offset x < offset c" "\<forall>c \<in> set post. offset b < offset c"
    using Cons.prems by (auto simp: wf_sparse_Cons wf_sparse_append wf_blockD)
  consider "offset b < offset x" | "offset x < offset b" | "offset b = offset x" by linarith
  then show ?case
  proof cases
    case 1
    have "\<forall>a \<in> set (pre @ [b]). \<forall>c \<in> set (x # xs). offset a < offset c"
      using 1 w(9) Cons.prems(3) by auto
    then show ?thesis using 1 Cons.IH(1) [OF 1, of "pre @ [b]" ch] Cons.prems by (simp add: next_cur)
  next
    case 2
    have wf: "wf_sparse ((pre @ [x]) @ b # post)"
      using 2 Cons.prems w by (auto simp: wf_sparse_append wf_sparse_Cons)
    have "put_before (pre @ b # post) (Some (length pre)) x = Inr (pre @ x # b # post, length pre)"
      using put_before_cur [OF wf_rooted, of pre "b # post" x] Cons.prems(1) by simp
    then show ?thesis
      using 2 Cons.IH(2) [OF 2 wf w(4)] Cons.prems(3) w(9) next_cur [of pre x "b # post"] by simp
  next
    case 3
    let ?n = "b\<lparr>bits := comb_bits (OR) (bits b) (bits x)\<rparr>"
    have "wf_block ?n" using comb_or_nonzero [OF w(6,5) 3] sum_bits_elems [OF b_or.comb_frame(1) [OF w(7,8) 3]] by simp
    then have wf: "wf_sparse ((pre @ [?n]) @ post)"
      using Cons.prems w by (auto simp: wf_sparse_append wf_sparse_Cons)
    have u: "cur (pre @ [b]) post = cur (pre @ [?n]) post" by (simp add: cur_def)
    show ?thesis
      using 3 Cons.IH(3) [OF 3 wf w(4), of "ch \<or> snd (union_words (bits b) (bits x))"] Cons.prems(3) w(9) u
        comb_or_nonzero [OF w(6,5) 3]
      by (simp add: Let_def next_cur split_beta disj_assoc union_words_or)
  qed
qed

lemma DifferenceWith_loop_eq:
  assumes "wf_sparse post" "wf_sparse xs"
  shows "DifferenceWith_loop (pre @ post) (cur pre post) xs
    = pre @ merge (\<lambda>u v. u AND NOT v) True False post xs"
  using assms
proof (induction post xs arbitrary: pre rule: merge_induct)
  case (Nil1 xs)
  then show ?case by (cases xs) simp_all
next
  case (Nil2 b post)
  then show ?case by simp
next
  case (Cons b post x xs)
  have w: "wf_sparse post" "wf_sparse xs" using Cons.prems by (auto simp: wf_sparse_Cons)
  consider "offset b < offset x" | "offset x < offset b" | "offset b = offset x" by linarith
  then show ?case
  proof cases
    case 1
    then show ?thesis using Cons.IH(1) [OF 1 w(1) Cons.prems(2), of "pre @ [b]"] by (simp add: next_cur)
  next
    case 2
    then show ?thesis using Cons.IH(2) [OF 2 Cons.prems(1) w(2), of pre] by simp
  next
    case 3
    let ?n = "b\<lparr>bits := comb_bits (\<lambda>u v. u AND NOT v) (bits b) (bits x)\<rparr>"
    show ?thesis
      using 3 Cons.IH(3) [OF 3 w, of pre] Cons.IH(3) [OF 3 w, of "pre @ [?n]"]
      by (simp add: Let_def next_cur removeBlock_cur)
  qed
qed

lemma SymmetricDifferenceWith_tail_eq:
  assumes "rooted pre" "placeable xs"
  shows "SymmetricDifferenceWith_tail pre None xs = Inr (pre @ xs)"
  using assms
proof (induction xs arbitrary: pre)
  case (Cons x xs)
  then show ?case
    using Cons.IH [of "pre @ [x]"] put_before_cur [of pre "[]" x] next_cur [of pre x "[]"] by (simp add: rooted_snoc)
qed simp

lemma SymmetricDifferenceWith_loop_skip:
  assumes "\<forall>c \<in> set xs. offset b < offset c"
  shows "SymmetricDifferenceWith_loop (pre @ b # post) (Some (length pre)) xs
    = SymmetricDifferenceWith_loop (pre @ b # post) (cur (pre @ [b]) post) xs"
  using assms by (cases xs) (simp_all add: next_cur)

lemma SymmetricDifferenceWith_loop_eq:
  assumes "wf_sparse (pre @ post)" "wf_sparse xs" "\<forall>b \<in> set pre. \<forall>c \<in> set xs. offset b < offset c"
  shows "SymmetricDifferenceWith_loop (pre @ post) (cur pre post) xs = Inr (pre @ merge (XOR) True True post xs)"
  using assms
proof (induction post xs arbitrary: pre rule: merge_induct)
  case (Nil1 xs)
  then show ?case
    using SymmetricDifferenceWith_tail_eq [of pre xs] wf_rooted [of pre "[]"] wf_placeable [of xs]
    by (cases xs) (simp_all del: SymmetricDifferenceWith_tail.simps(2))
next
  case (Nil2 b post)
  then show ?case by simp
next
  case (Cons b post x xs)
  have w: "wf_sparse (b # post)" "wf_sparse post" "wf_sparse xs" "wf_block x" "wf_block b"
    "wf_frame b" "wf_frame x" "\<forall>c \<in> set xs. offset x < offset c" "\<forall>c \<in> set post. offset b < offset c"
    "wf_sparse (pre @ post)"
    using Cons.prems by (auto simp: wf_sparse_Cons wf_sparse_append wf_blockD)
  consider "offset b < offset x" | "offset x < offset b" | "offset b = offset x" by linarith
  then show ?case
  proof cases
    case 1
    have "\<forall>a \<in> set (pre @ [b]). \<forall>c \<in> set (x # xs). offset a < offset c"
      using 1 w(8) Cons.prems(3) by auto
    then show ?thesis using 1 Cons.IH(1) [OF 1, of "pre @ [b]"] Cons.prems by (simp add: next_cur)
  next
    case 2
    have wf: "wf_sparse ((pre @ [x]) @ b # post)"
      using 2 Cons.prems w by (auto simp: wf_sparse_append wf_sparse_Cons)
    have p: "put_before (pre @ b # post) (Some (length pre)) x = Inr (pre @ x # b # post, length pre)"
      using put_before_cur [OF wf_rooted, of pre "b # post" x] Cons.prems(1) by simp
    have "SymmetricDifferenceWith_loop (pre @ x # b # post) (Some (if pre = [] then 0 else Suc (length pre))) xs
      = SymmetricDifferenceWith_loop ((pre @ [x]) @ b # post) (cur (pre @ [x]) (b # post)) xs"
      using SymmetricDifferenceWith_loop_skip [OF w(8), of "[]" "b # post"] by simp
    then show ?thesis
      using 2 p Cons.IH(2) [OF 2 wf w(3)] Cons.prems(3) w(8) by simp
  next
    case 3
    let ?n = "b\<lparr>bits := comb_bits (XOR) (bits b) (bits x)\<rparr>"
    show ?thesis
    proof (cases "sum_bits (bits ?n) = 0")
      case True
      then show ?thesis
        using 3 Cons.IH(3) [OF 3 w(10,3)] Cons.prems(3) by (simp add: Let_def removeBlock_cur)
    next
      case False
      then have "wf_block ?n" using sum_bits_elems [OF b_xor.comb_frame(1) [OF w(6,7) 3]] by simp
      then have wf: "wf_sparse ((pre @ [?n]) @ post)"
        using Cons.prems w by (auto simp: wf_sparse_append wf_sparse_Cons)
      show ?thesis
        using 3 False Cons.IH(3) [OF 3 wf w(3)] Cons.prems(3) w(8) by (simp add: Let_def next_cur)
    qed
  qed
qed

section \<open>Tests on two sets\<close>

lemma list_ex_zip_sum: "list_ex (\<lambda>(u, v). f u v \<noteq> 0) (zip us vs) \<longleftrightarrow> sum_bits (comb_bits f us vs) \<noteq> 0"
  by (auto simp: sum_bits_0 comb_bits_def list_ex_iff list_all_iff split_beta)

lemma Intersects_loop_eq: "Intersects_loop ss xs \<longleftrightarrow> merge (AND) False False ss xs \<noteq> []"
  by (induction ss xs rule: merge_induct) (auto simp: Let_def list_ex_zip_sum [of "(AND)"])

lemma SubsetOf_loop_eq: "SubsetOf_loop ss xs \<longleftrightarrow> merge (\<lambda>u v. u AND NOT v) True False ss xs = []"
  by (induction ss xs rule: merge_induct) (auto simp: Let_def list_ex_zip_sum [of "\<lambda>u v. u AND NOT v"])

lemma Equals_loop_eq: "Equals_loop (ss :: sparse) ts \<longleftrightarrow> ss = ts"
  by (induction ss ts rule: Equals_loop.induct) (auto intro: block.equality)

text \<open>The representation is canonical: the elements determine the blocks.\<close>

lemma elems_head_least:
  assumes "wf_sparse (b # s)" "x \<in> elems (b # s)"
  shows "offset b \<le> base x"
  using assms elems_offset [OF assms] by (auto simp: wf_sparse_Cons)

lemma head_block_elems:
  assumes "wf_sparse (b # s)"
  shows "block_elems b = {x \<in> elems (b # s). base x = offset b}"
proof -
  have "x \<notin> elems s" if "base x = offset b" for x
    using assms that by (fastforce simp: wf_sparse_Cons dest: elems_offset)
  moreover have "base x = offset b" if "x \<in> block_elems b" for x
    using assms that by (auto simp: wf_sparse_Cons elem_offset wf_blockD)
  ultimately show ?thesis by auto
qed

lemma block_elems_inj:
  assumes "wf_frame b" "wf_frame c" "offset b = offset c" "block_elems b = block_elems c"
  shows "b = c"
proof -
  have bits_eq: "bit_at b i \<longleftrightarrow> bit_at c i" if "i < 256" for i
    using mem_block_elems_add [OF that, of b] mem_block_elems_add [OF that, of c] assms(3,4) by simp
  have "\<forall>k < 4. \<forall>j < 64. bit (bits b ! k) j \<longleftrightarrow> bit (bits c ! k) j"
    using bits_eq split_bits [of "\<lambda>k j. bit (bits b ! k) j \<longleftrightarrow> bit (bits c ! k) j"] by (simp add: bit_at_def)
  then have "bits b ! k = bits c ! k" if "k < 4" for k
    using that by (auto simp: bit_eq_iff)
  then have "bits b = bits c" using assms(1,2) by (auto simp: wf_frame_def list_eq_iff_nth_eq)
  then show ?thesis using assms(3) by simp
qed

lemma sparse_canonical:
  assumes "wf_sparse s" "wf_sparse t" "elems s = elems t"
  shows "s = t"
  using assms
proof (induction s arbitrary: t)
  case Nil
  then show ?case using elems_empty_iff [of t] by simp
next
  case (Cons b s)
  then obtain c t' where t: "t = c # t'" using elems_empty_iff [of "b # s"] by (cases t) auto
  have ne: "block_elems b \<noteq> {}" "block_elems c \<noteq> {}" "wf_frame b" "wf_frame c"
    using Cons.prems t by (auto simp: wf_sparse_Cons wf_blockD)
  then obtain x y where xy: "x \<in> block_elems b" "y \<in> block_elems c" by blast
  have hb: "block_elems b = {x \<in> elems (b # s). base x = offset b}"
    and hc: "block_elems c = {x \<in> elems (b # s). base x = offset c}"
    using head_block_elems [OF Cons.prems(1)] head_block_elems [of c t'] Cons.prems(2)
    unfolding t Cons.prems(3) [unfolded t] by blast+
  have "x \<in> elems (c # t')" "base x = offset b"
    using xy(1) Cons.prems(3) unfolding t hb by (auto simp del: elems_simps)
  moreover have "y \<in> elems (b # s)" "base y = offset c" using xy(2) unfolding hc by simp_all
  ultimately have "offset c \<le> offset b" "offset b \<le> offset c"
    using elems_head_least [of c t' x] elems_head_least [OF Cons.prems(1), of y] Cons.prems(2)
    unfolding t by (auto simp del: elems_simps)
  then have off: "offset b = offset c" by simp
  then have "block_elems b = block_elems c" using hb hc by simp
  then have bc: "b = c" using block_elems_inj [OF ne(3,4) off] by simp
  have "block_elems b \<inter> elems s = {}" "block_elems b \<inter> elems t' = {}"
    using elems_block_lt [OF Cons.prems(1)] elems_block_lt [of c t'] Cons.prems(2) t bc by auto
  then have "elems s = elems t'" using Cons.prems(3) unfolding t bc elems_simps by blast
  then show ?case using Cons.IH [of t'] Cons.prems t bc by (simp add: wf_sparse_Cons)
qed

section \<open>The representation check\<close>

lemma go_rem_256: "go_rem x 256 = 0 \<longleftrightarrow> x mod 256 = 0"
  by (auto simp: go_rem_def sgn_if dvd_eq_mod_eq_0 [symmetric])

lemma check_loop_wf:
  assumes "\<forall>b \<in> set s. length (bits b) = 4 \<and> in_int (offset b)"
  shows "check_loop s = None \<longleftrightarrow> wf_sparse s"
  using assms
proof (induction s)
  case (Cons b s)
  have off: "offset b mod 256 = 0 \<longleftrightarrow> wf_offset (offset b)"
    using base_wf [of "offset b"] Cons.prems by (auto simp: wf_offset_def base_def)
  have "wf_frame b \<Longrightarrow> \<not> block_empty b \<longleftrightarrow> wf_block b"
    using block_empty_iff [of b] by (auto simp: wf_block_def)
  then have blk: "wf_block b \<longleftrightarrow> offset b mod 256 = 0 \<and> \<not> block_empty b"
    using off Cons.prems by (auto simp: wf_frame_def wf_block_def)
  have "wf_sparse (b # s) \<longleftrightarrow> wf_block b \<and> wf_sparse s \<and> (s \<noteq> [] \<longrightarrow> offset b < offset (hd s))"
    by (cases s) (auto simp: wf_sparse_Cons)
  then show ?case using Cons blk by (auto simp: go_rem_256 bitsPerBlock_def)
qed simp

lemma check_wf:
  assumes "\<forall>b \<in> set s. length (bits b) = 4 \<and> in_int (offset b)"
  shows "check s = None \<longleftrightarrow> wf_sparse s \<or> (\<exists>b. s = [b] \<and> block_empty b \<and> offset b = MaxInt)"
proof (cases s)
  case (Cons b rest)
  have "\<not> wf_sparse s" if "block_empty b"
    using that Cons block_empty_iff [of b] by (auto simp: wf_sparse_Cons wf_block_def)
  then show ?thesis using Cons check_loop_wf [OF assms] by (auto simp: check_def)
qed (simp add: check_def)

section \<open>The methods\<close>

text \<open>
  Each method leaves every other set alone and the result well-formed, and none of the panics of
  the code is reached, whichever of its operands are the same object.
\<close>

definition only_changes :: "store \<Rightarrow> nat \<Rightarrow> int set \<Rightarrow> store \<Rightarrow> bool" where
  "only_changes st s E st' \<longleftrightarrow> wf_sparse (st' s) \<and> elems (st' s) = E \<and> (\<forall>p. p \<noteq> s \<longrightarrow> st' p = st p)"

lemma only_changesI: "wf_sparse v \<Longrightarrow> elems v = E \<Longrightarrow> only_changes st s E (st(s := v))"
  by (simp add: only_changes_def)

lemma only_changes_same: "wf_sparse (st s) \<Longrightarrow> elems (st s) = E \<Longrightarrow> only_changes st s E st"
  by (simp add: only_changes_def)

lemmas loop_starts = first_cur wf_from_first

lemma Copy_loop_start:
  assumes "wf_sparse s" "wf_sparse xs"
  shows "Copy_loop s (first s) xs = Inr xs"
  using Copy_loop_eq [of "[]" xs s] assms by (simp add: first_cur wf_placeable)

lemma Copy_ok:
  assumes "wf_sparse (st s)" "wf_sparse (st x)"
  shows "\<exists>st'. Copy st s x = Inr st' \<and> only_changes st s (elems (st x)) st'"
  using assms by (auto simp: Copy_def upd_def Copy_loop_start intro: only_changesI only_changes_same)

lemma IntersectionWith_ok:
  assumes "wf_sparse (st s)" "wf_sparse (st x)"
  shows "\<exists>st'. IntersectionWith st s x = Inr st' \<and> only_changes st s (elems (st s) \<inter> elems (st x)) st'"
  using assms IntersectionWith_loop_eq [of "st s" "st x" "[]"] b_and.merge_mem [of "st s" "st x"]
  by (auto simp: IntersectionWith_def loop_starts intro!: only_changesI only_changes_same)

lemma Intersection_ok:
  assumes "wf_sparse (st s)" "wf_sparse (st x)" "wf_sparse (st y)"
  shows "\<exists>st'. Intersection st s x y = Inr st' \<and> only_changes st s (elems (st x) \<inter> elems (st y)) st'"
proof -
  have "Intersection_loop (st s) (first (st s)) (st x) (st y) = Inr (merge (AND) False False (st x) (st y))"
    using Intersection_loop_eq [of "[]" "st x" "st s" "st y"] assms by (simp add: first_cur wf_placeable)
  then show ?thesis
    using assms IntersectionWith_ok [of st s y] IntersectionWith_ok [of st s x] Copy_ok [of st s x]
      b_and.merge_mem [of "st x" "st y"]
    by (auto simp: Intersection_def upd_def Int_commute intro!: only_changesI)
qed

lemma UnionWith_ok:
  assumes "wf_sparse (st s)" "wf_sparse (st x)"
  shows "\<exists>st'. UnionWith st s x = Inr (st', s \<noteq> x \<and> union_reports (st s) (st x)) \<and>
    only_changes st s (elems (st s) \<union> elems (st x)) st'"
  using assms UnionWith_loop_eq [of "[]" "st s" "st x" False] b_or.merge_mem [of "st s" "st x"]
  by (auto simp: UnionWith_def loop_starts intro!: only_changesI only_changes_same)

lemma Union_ok:
  assumes "wf_sparse (st s)" "wf_sparse (st x)" "wf_sparse (st y)"
  shows "\<exists>st'. Union st s x y = Inr st' \<and> only_changes st s (elems (st x) \<union> elems (st y)) st'"
proof -
  have "Union_loop (st s) (first (st s)) (st x) (st y) = Inr (merge (OR) True True (st x) (st y))"
    using Union_loop_eq [of "[]" "st x" "st y" "st s"] assms by (simp add: first_cur)
  then show ?thesis
    using assms UnionWith_ok [of st s y] UnionWith_ok [of st s x] Copy_ok [of st s x]
      b_or.merge_mem [of "st x" "st y"]
    by (auto simp: Union_def upd_def Un_commute intro!: only_changesI)
qed

lemma DifferenceWith_ok:
  assumes "wf_sparse (st s)" "wf_sparse (st x)"
  shows "\<exists>st'. DifferenceWith st s x = Inr st' \<and> only_changes st s (elems (st s) - elems (st x)) st'"
  using assms DifferenceWith_loop_eq [of "st s" "st x" "[]"] b_diff.merge_mem [of "st s" "st x"]
  by (auto simp: DifferenceWith_def loop_starts Clear_def intro!: only_changesI)

lemma Difference_ok:
  assumes "wf_sparse (st s)" "wf_sparse (st x)" "wf_sparse (st y)"
  shows "\<exists>st'. Difference st s x y = Inr st' \<and> only_changes st s (elems (st x) - elems (st y)) st'"
proof -
  have "Difference_loop (st s) (first (st s)) (st x) (st y)
    = Inr (merge (\<lambda>u v. u AND NOT v) True False (st x) (st y))"
    using Difference_loop_eq [of "[]" "st x" "st s" "st y"] assms by (simp add: first_cur wf_placeable)
  then show ?thesis
    using assms DifferenceWith_ok [of st s y] Copy_loop_start [of "[]" "st y"] b_diff.merge_mem [of "st x" "st y"]
    by (auto simp: Difference_def upd_def Clear_def intro!: only_changesI)
qed

lemma SymmetricDifferenceWith_ok:
  assumes "wf_sparse (st s)" "wf_sparse (st x)"
  shows "\<exists>st'. SymmetricDifferenceWith st s x = Inr st' \<and>
    only_changes st s ((elems (st s) - elems (st x)) \<union> (elems (st x) - elems (st s))) st'"
  using assms SymmetricDifferenceWith_loop_eq [of "[]" "st s" "st x"] b_xor.merge_mem [of "st s" "st x"]
  by (auto simp: SymmetricDifferenceWith_def upd_def loop_starts Clear_def intro!: only_changesI)

lemma SymmetricDifference_ok:
  assumes "wf_sparse (st s)" "wf_sparse (st x)" "wf_sparse (st y)"
  shows "\<exists>st'. SymmetricDifference st s x y = Inr st' \<and>
    only_changes st s ((elems (st x) - elems (st y)) \<union> (elems (st y) - elems (st x))) st'"
proof -
  have "SymmetricDifference_loop (st s) (first (st s)) (st x) (st y) = Inr (merge (XOR) True True (st x) (st y))"
    using SymmetricDifference_loop_eq [of "[]" "st x" "st y" "st s"] assms by (simp add: first_cur wf_placeable)
  then show ?thesis
    using assms SymmetricDifferenceWith_ok [of st s y] SymmetricDifferenceWith_ok [of st s x]
      b_xor.merge_mem [of "st x" "st y"]
    by (auto simp: SymmetricDifference_def upd_def Clear_def Un_commute intro!: only_changesI)
qed

lemma Intersects_ok:
  "wf_sparse s \<Longrightarrow> wf_sparse x \<Longrightarrow> Intersects s x \<longleftrightarrow> elems s \<inter> elems x \<noteq> {}"
  using b_and.merge_mem [of s x] elems_empty_iff [of "merge (AND) False False s x"]
  by (auto simp: Intersects_def Intersects_loop_eq)

lemma SubsetOf_ok:
  "wf_sparse (st s) \<Longrightarrow> wf_sparse (st x) \<Longrightarrow> SubsetOf st s x \<longleftrightarrow> elems (st s) \<subseteq> elems (st x)"
  using b_diff.merge_mem [of "st s" "st x"]
    elems_empty_iff [of "merge (\<lambda>u v. u AND NOT v) True False (st s) (st x)"]
  by (auto simp: SubsetOf_def SubsetOf_loop_eq)

lemma Equals_ok:
  "wf_sparse (st s) \<Longrightarrow> wf_sparse (st t) \<Longrightarrow> Equals st s t \<longleftrightarrow> elems (st s) = elems (st t)"
  using sparse_canonical [of "st s" "st t"] by (auto simp: Equals_def Equals_loop_eq)

section \<open>What \<^verbatim>\<open>UnionWith\<close> reports\<close>

lemma union_words_changed:
  assumes "length us = length vs"
  shows "snd (union_words us vs) \<longleftrightarrow> us \<noteq> vs"
proof -
  have "list_ex (\<lambda>(u, v). u \<noteq> v) (zip us vs) \<longleftrightarrow> us \<noteq> vs"
    using assms by (induction us vs rule: list_induct2) auto
  then show ?thesis by (simp add: union_words_def)
qed

text \<open>The report is exact about blocks, not about elements.\<close>

lemma union_reports_blocks:
  assumes "wf_sparse s" "wf_sparse x"
  shows "union_reports s x \<longleftrightarrow> \<not> set x \<subseteq> set s"
  using assms
proof (induction s x rule: merge_induct)
  case (Cons b s c x)
  have w: "wf_sparse s" "wf_sparse x" "wf_frame b" "wf_frame c" "\<forall>d \<in> set s. offset b < offset d"
    "\<forall>d \<in> set x. offset c < offset d"
    using Cons.prems by (auto simp: wf_sparse_Cons wf_blockD)
  consider "offset b < offset c" | "offset c < offset b" | "offset b = offset c" by linarith
  then show ?case
  proof cases
    case 1
    then have "b \<notin> set (c # x)" using w(6) by fastforce
    then show ?thesis using 1 Cons.IH(1) [OF 1 w(1) Cons.prems(2)] by auto
  next
    case 2
    then have "c \<notin> set (b # s)" using w(5) by fastforce
    then show ?thesis using 2 by auto
  next
    case 3
    have d: "b \<notin> set x" "c \<notin> set s" using w(5,6) 3 by force+
    have "snd (union_words (bits b) (bits c)) \<longleftrightarrow> b \<noteq> c"
      using union_words_changed [of "bits b" "bits c"] w(3,4) 3 by (auto simp: wf_frame_def intro: block.equality)
    then show ?thesis using 3 Cons.IH(3) [OF 3 w(1,2)] d by auto
  qed
qed auto

lemma union_reports_growth:
  assumes "wf_sparse s" "wf_sparse x" "\<not> elems x \<subseteq> elems s"
  shows "union_reports s x"
  using assms union_reports_blocks [OF assms(1,2)] by (auto simp: elems_def)

end
