(* ===== verification/Intsets_Properties.thy ===== *)
theory Intsets_Properties
  imports Intsets_Algebra
begin

text \<open>
  The properties of \<^verbatim>\<open>gopta/container/intsets\<close>, each over the definitions that translate the
  code, with an instance on concrete sets.
\<close>

lemma wf_sparse_exec:
  "wf_sparse s \<longleftrightarrow> list_all (\<lambda>b. wf_frame b \<and> \<not> block_empty b) s \<and> sorted_wrt (\<lambda>b c. offset b < offset c) s"
  by (auto simp: wf_sparse_def wf_block_def list_all_iff block_empty_iff)

lemmas wf_eval = wf_sparse_exec wf_frame_def wf_offset_def block_empty_def MaxInt_def MinInt_def in_int_def

text \<open>A store of four sets: \<open>{0, 1, 64}\<close>, \<open>{1, 300}\<close>, \<open>{-1}\<close> and \<open>{}\<close>.\<close>

definition sample_store :: store where
  "sample_store = (\<lambda>_. [])
     (0 := [\<lparr>offset = 0, bits = [3, 1, 0, 0]\<rparr>],
      1 := [\<lparr>offset = 0, bits = [2, 0, 0, 0]\<rparr>, \<lparr>offset = 256, bits = [push_bit 44 1, 0, 0, 0]\<rparr>],
      2 := [\<lparr>offset = - 256, bits = [0, 0, 0, push_bit 63 1]\<rparr>])"

lemma sample_wf: "wf_sparse (sample_store p)"
  by (simp add: sample_store_def wf_eval)

section \<open>Words\<close>

text \<open>
  The bit tricks of \<^verbatim>\<open>util.go\<close> and \<^verbatim>\<open>popcnt_generic.go\<close> on a nonzero word: \<^verbatim>\<open>ntz\<close> is the
  index of its lowest set bit, \<^verbatim>\<open>nlz\<close> counts the zeros above its highest set bit and
  \<^verbatim>\<open>popcount\<close> counts its set bits, with the table as with the processor instruction.
\<close>
theorem word_queries:
  assumes "w \<noteq> 0"
  shows "\<exists>lo hi. bit w lo \<and> (\<forall>j. bit w j \<longrightarrow> lo \<le> j \<and> j \<le> hi) \<and> bit w hi \<and>
    ntz w = int lo \<and> nlz h w = 63 - int hi \<and> popcount h w = int (card {j. bit w j})"
proof -
  obtain lo where lo: "low_bit w lo" "ntz w = int lo" using nonzero_low_bit [OF assms] by metis
  obtain hi where hi: "bit w hi" "\<And>j. hi < j \<Longrightarrow> \<not> bit w j" "nlz h w = 63 - int hi"
    using nonzero_high_bit [OF assms, of h] by metis
  have "{j. j < 64 \<and> bit w j} = {j. bit w j}" by (auto dest: bit_word_lt)
  then have "popcount h w = int (card {j. bit w j})" by (simp add: popcount_card)
  then show ?thesis using lo hi
    by (intro exI [of _ lo] exI [of _ hi]) (auto simp: low_bit_def not_less [symmetric])
qed

theorem word_queries_witness:
  "(40 :: go_word) \<noteq> 0 \<and> (\<exists>lo hi. bit (40 :: go_word) lo \<and>
     (\<forall>j. bit (40 :: go_word) j \<longrightarrow> lo \<le> j \<and> j \<le> hi) \<and> bit (40 :: go_word) hi \<and>
     ntz 40 = int lo \<and> nlz False 40 = 63 - int hi \<and> popcount False 40 = int (card {j. bit (40 :: go_word) j}))"
  using word_queries [of 40 False] by simp

section \<open>Single elements\<close>

text \<open>
  C16. On a well-formed set, \<^verbatim>\<open>Insert\<close> and \<^verbatim>\<open>Remove\<close> of a machine integer never panic,
  add or remove exactly that element, keep the invariant, and report whether the set changed; and
  \<^verbatim>\<open>Has\<close> is membership.
\<close>
theorem element_updates:
  assumes "wf_sparse s" "in_int x"
  shows "(\<exists>s'. Insert s x = Inr (s', x \<notin> elems s) \<and> wf_sparse s' \<and> elems s' = insert x (elems s)) \<and>
    (\<exists>s'. Remove s x = (s', x \<in> elems s) \<and> wf_sparse s' \<and> elems s' = elems s - {x}) \<and>
    (Has s x \<longleftrightarrow> x \<in> elems s)"
  using Insert_spec [OF assms] Remove_spec [OF assms(1), of x] Has_elems [OF assms(1)] by blast

theorem element_updates_witness:
  "wf_sparse (sample_store 1) \<and> in_int 300 \<and>
   (\<exists>s'. Remove (sample_store 1) 300 = (s', 300 \<in> elems (sample_store 1)) \<and> wf_sparse s' \<and>
      elems s' = elems (sample_store 1) - {300})"
proof -
  have "in_int 300" by (simp add: wf_eval)
  then show ?thesis using element_updates [OF sample_wf [of 1], of 300] sample_wf by blast
qed

text \<open>
  C17. \<^verbatim>\<open>TakeMin\<close> on a well-formed set never panics: it reports an empty set, or removes and
  returns the least element.
\<close>
theorem take_min_correct:
  assumes "wf_sparse s"
  shows "(TakeMin s = Inr None \<and> elems s = {}) \<or>
    (\<exists>m s'. TakeMin s = Inr (Some (m, s')) \<and> m \<in> elems s \<and> (\<forall>y \<in> elems s. m \<le> y) \<and>
       wf_sparse s' \<and> elems s' = elems s - {m})"
  using TakeMin_spec [OF assms] by (auto simp: is_least_def split: sum.splits option.splits)

theorem take_min_correct_witness:
  "wf_sparse (sample_store 0) \<and> (\<exists>m s'. TakeMin (sample_store 0) = Inr (Some (m, s')) \<and>
     m \<in> elems (sample_store 0) \<and> (\<forall>y \<in> elems (sample_store 0). m \<le> y) \<and>
     wf_sparse s' \<and> elems s' = elems (sample_store 0) - {m})"
proof -
  have "sample_store 0 \<noteq> []" by (simp add: sample_store_def)
  then have "elems (sample_store 0) \<noteq> {}" using elems_empty_iff [OF sample_wf [of 0]] by blast
  then show ?thesis using take_min_correct [OF sample_wf [of 0]] sample_wf [of 0] by blast
qed

section \<open>Whole-set queries\<close>

text \<open>
  C18. The queries of a well-formed set: \<^verbatim>\<open>Len\<close> is the number of elements, \<^verbatim>\<open>AppendTo\<close> appends
  them in increasing order, \<^verbatim>\<open>Min\<close> and \<^verbatim>\<open>Max\<close> are the extreme elements (\<^verbatim>\<open>MaxInt\<close> and
  \<^verbatim>\<open>MinInt\<close> for the empty set), and \<^verbatim>\<open>LowerBound(x)\<close> is the least element at or above
  \<open>x\<close>, or \<^verbatim>\<open>MaxInt\<close>.
\<close>
theorem set_queries:
  assumes "wf_sparse s" "in_int x"
  shows "Len h s = int (card (elems s)) \<and>
    AppendTo s sl = sl @ sorted_list_of_set (elems s) \<and>
    (\<exists>m. Min_elem s = Inr m \<and> (if elems s = {} then m = MaxInt else is_least m (elems s))) \<and>
    (\<exists>m. Max_elem h s = Inr m \<and> (if elems s = {} then m = MinInt else is_greatest m (elems s))) \<and>
    (\<exists>m. LowerBound s x = Inr m \<and>
      (if {y \<in> elems s. x \<le> y} = {} then m = MaxInt else is_least m {y \<in> elems s. x \<le> y}))"
proof (intro conjI)
  show "Len h s = int (card (elems s))" by (rule Len_card [OF assms(1)])
  show "AppendTo s sl = sl @ sorted_list_of_set (elems s)"
    by (simp add: AppendTo_eq forEach_sorted_list [OF assms(1)])
  show "\<exists>m. Min_elem s = Inr m \<and> (if elems s = {} then m = MaxInt else is_least m (elems s))"
    using Min_spec [OF assms(1)] elems_empty_iff [OF assms(1)] by (cases "s = []") auto
  show "\<exists>m. Max_elem h s = Inr m \<and> (if elems s = {} then m = MinInt else is_greatest m (elems s))"
    using Max_spec [OF assms(1), of h] elems_empty_iff [OF assms(1)] by (cases "s = []") auto
  show "\<exists>m. LowerBound s x = Inr m \<and>
      (if {y \<in> elems s. x \<le> y} = {} then m = MaxInt else is_least m {y \<in> elems s. x \<le> y})"
    by (rule LowerBound_spec [OF assms])
qed

theorem set_queries_witness:
  "wf_sparse (sample_store 0) \<and> in_int 2 \<and> Len False (sample_store 0) = int (card (elems (sample_store 0))) \<and>
   AppendTo (sample_store 0) [7] = [7] @ sorted_list_of_set (elems (sample_store 0))"
proof -
  have "in_int 2" by (simp add: wf_eval)
  then show ?thesis using set_queries [OF sample_wf [of 0], of 2 False "[7]"] sample_wf [of 0] by blast
qed

section \<open>Operations on whole sets\<close>

text \<open>
  C14. The three-operand methods \<^verbatim>\<open>Intersection\<close>, \<^verbatim>\<open>Union\<close>, \<^verbatim>\<open>Difference\<close> and
  \<^verbatim>\<open>SymmetricDifference\<close> store the set operation of their arguments in the receiver, keep it
  well-formed and leave every other set unchanged, without a panic, whichever of the three pointers
  are equal.
\<close>
theorem three_operand_methods:
  assumes "wf_sparse (st s)" "wf_sparse (st x)" "wf_sparse (st y)"
  shows "(\<exists>st'. Intersection st s x y = Inr st' \<and> only_changes st s (elems (st x) \<inter> elems (st y)) st') \<and>
    (\<exists>st'. Union st s x y = Inr st' \<and> only_changes st s (elems (st x) \<union> elems (st y)) st') \<and>
    (\<exists>st'. Difference st s x y = Inr st' \<and> only_changes st s (elems (st x) - elems (st y)) st') \<and>
    (\<exists>st'. SymmetricDifference st s x y = Inr st' \<and>
      only_changes st s ((elems (st x) - elems (st y)) \<union> (elems (st y) - elems (st x))) st')"
  using Intersection_ok [OF assms] Union_ok [OF assms] Difference_ok [OF assms] SymmetricDifference_ok [OF assms]
  by blast

theorem three_operand_methods_witness:
  "wf_sparse (sample_store 0) \<and> wf_sparse (sample_store 1) \<and>
   (\<exists>st'. Difference sample_store 0 1 0 = Inr st' \<and>
      only_changes sample_store 0 (elems (sample_store 1) - elems (sample_store 0)) st')"
  using three_operand_methods [OF sample_wf [of 0] sample_wf [of 1] sample_wf [of 0]] sample_wf by blast

text \<open>
  C15. The in-place methods \<^verbatim>\<open>Copy\<close>, \<^verbatim>\<open>IntersectionWith\<close>, \<^verbatim>\<open>UnionWith\<close>,
  \<^verbatim>\<open>DifferenceWith\<close> and \<^verbatim>\<open>SymmetricDifferenceWith\<close> do the same for the receiver and one
  argument, also when both are the same set.
\<close>
theorem in_place_methods:
  assumes "wf_sparse (st s)" "wf_sparse (st x)"
  shows "(\<exists>st'. Copy st s x = Inr st' \<and> only_changes st s (elems (st x)) st') \<and>
    (\<exists>st'. IntersectionWith st s x = Inr st' \<and> only_changes st s (elems (st s) \<inter> elems (st x)) st') \<and>
    (\<exists>st' ch. UnionWith st s x = Inr (st', ch) \<and> only_changes st s (elems (st s) \<union> elems (st x)) st') \<and>
    (\<exists>st'. DifferenceWith st s x = Inr st' \<and> only_changes st s (elems (st s) - elems (st x)) st') \<and>
    (\<exists>st'. SymmetricDifferenceWith st s x = Inr st' \<and>
      only_changes st s ((elems (st s) - elems (st x)) \<union> (elems (st x) - elems (st s))) st')"
  using Copy_ok [OF assms] IntersectionWith_ok [OF assms] UnionWith_ok [OF assms] DifferenceWith_ok [OF assms]
    SymmetricDifferenceWith_ok [OF assms] by blast

theorem in_place_methods_witness:
  "wf_sparse (sample_store 0) \<and> wf_sparse (sample_store 2) \<and>
   (\<exists>st'. SymmetricDifferenceWith sample_store 0 2 = Inr st' \<and>
      only_changes sample_store 0 ((elems (sample_store 0) - elems (sample_store 2)) \<union>
        (elems (sample_store 2) - elems (sample_store 0))) st')"
  using in_place_methods [OF sample_wf [of 0] sample_wf [of 2]] sample_wf by blast

text \<open>
  C20. What \<^verbatim>\<open>UnionWith\<close> reports: true exactly when some block of the argument is not, word for
  word, a block of the receiver; so no growth of the set goes unreported.
\<close>
theorem union_with_report:
  assumes "wf_sparse (st s)" "wf_sparse (st x)" "UnionWith st s x = Inr (st', ch)"
  shows "(ch \<longleftrightarrow> \<not> set (st x) \<subseteq> set (st s)) \<and> (elems (st' s) \<noteq> elems (st s) \<longrightarrow> ch)"
proof -
  have r: "ch \<longleftrightarrow> s \<noteq> x \<and> union_reports (st s) (st x)" "elems (st' s) = elems (st s) \<union> elems (st x)"
    using UnionWith_ok [OF assms(1,2)] assms(3) by (auto simp: only_changes_def)
  then show ?thesis using union_reports_blocks [OF assms(1,2)] by (auto simp: elems_def)
qed

theorem union_with_report_witness:
  "\<exists>st' ch. UnionWith sample_store 0 1 = Inr (st', ch) \<and> (ch \<longleftrightarrow> \<not> set (sample_store 1) \<subseteq> set (sample_store 0)) \<and>
    (elems (st' 0) \<noteq> elems (sample_store 0) \<longrightarrow> ch)"
  using UnionWith_ok [OF sample_wf [of 0] sample_wf [of 1]] union_with_report [OF sample_wf [of 0] sample_wf [of 1]]
  by blast

text \<open>
  The comment on \<^verbatim>\<open>UnionWith\<close> promises "reports whether s grew", but the code reports a
  change as soon as two words differ: for the receiver \<open>{0, 1, 64}\<close> and the argument \<open>{0}\<close> it
  answers true although the set is left exactly as it was.
\<close>
theorem union_with_overreports:
  "\<exists>st'. UnionWith (sample_store(3 := [\<lparr>offset = 0, bits = [1, 0, 0, 0]\<rparr>])) 0 3 = Inr (st', True) \<and>
     st' 0 = sample_store 0"
  by (simp add: UnionWith_def sample_store_def first_def from_first_def IsEmpty_def MaxInt_def union_words_def
      next_block_def)

text \<open>
  C19. The tests on two well-formed sets decide the set relations: \<^verbatim>\<open>Equals\<close> equality,
  \<^verbatim>\<open>SubsetOf\<close> inclusion and \<^verbatim>\<open>Intersects\<close> a common element; equality of the
  representations is the same as equality of the sets.
\<close>
theorem set_tests:
  assumes "wf_sparse (st s)" "wf_sparse (st x)"
  shows "(Equals st s x \<longleftrightarrow> elems (st s) = elems (st x)) \<and> (SubsetOf st s x \<longleftrightarrow> elems (st s) \<subseteq> elems (st x)) \<and>
    (Intersects (st s) (st x) \<longleftrightarrow> elems (st s) \<inter> elems (st x) \<noteq> {}) \<and>
    (elems (st s) = elems (st x) \<longrightarrow> st s = st x)"
  using Equals_ok [OF assms] SubsetOf_ok [OF assms] Intersects_ok [OF assms] sparse_canonical [OF assms] by blast

theorem set_tests_witness:
  "wf_sparse (sample_store 0) \<and> wf_sparse (sample_store 1) \<and>
   \<not> (elems (sample_store 0) \<subseteq> elems (sample_store 1)) \<and> elems (sample_store 0) \<inter> elems (sample_store 1) \<noteq> {}"
proof -
  have "\<not> SubsetOf sample_store 0 1" "Intersects (sample_store 0) (sample_store 1)"
    by (simp_all add: SubsetOf_def Intersects_def sample_store_def from_first_def IsEmpty_def MaxInt_def)
  then show ?thesis using set_tests [OF sample_wf [of 0] sample_wf [of 1]] sample_wf by blast
qed

text \<open>
  C21. On lists of blocks with machine-integer offsets, \<^verbatim>\<open>check\<close> reports no violation exactly
  for the well-formed sets and the initialised empty root: the invariant of this development is the
  one the code tests for.
\<close>
theorem check_is_invariant:
  assumes "\<forall>b \<in> set s. length (bits b) = 4 \<and> in_int (offset b)"
  shows "check s = None \<longleftrightarrow> wf_sparse s \<or> (\<exists>b. s = [b] \<and> block_empty b \<and> offset b = MaxInt)"
  by (rule check_wf [OF assms])

theorem check_is_invariant_witness:
  "check (sample_store 1) = None \<and>
   check [\<lparr>offset = 256, bits = [1, 0, 0, 0]\<rparr>, \<lparr>offset = 0, bits = [1, 0, 0, 0]\<rparr>] \<noteq> None"
proof -
  let ?bad = "[\<lparr>offset = 256, bits = [1, 0, 0, 0]\<rparr>, \<lparr>offset = 0, bits = [1, 0, 0, 0]\<rparr>]"
  have s: "\<forall>b \<in> set (sample_store 1). length (bits b) = 4 \<and> in_int (offset b)"
    and b: "\<forall>b \<in> set ?bad. length (bits b) = 4 \<and> in_int (offset b)" "\<not> wf_sparse ?bad"
    by (simp_all add: sample_store_def wf_eval)
  show ?thesis using check_is_invariant [OF s] check_is_invariant [OF b(1)] b(2) s sample_wf [of 1] by auto
qed

end
