(* ===== verification/Ssa_Model.thy ===== *)
theory Ssa_Model
  imports Prelude
begin

text \<open>
  The SSA program that the race detector reads (\<^verbatim>\<open>gopta/go/ssa/ssa.go\<close>): values and
  instructions are objects on a heap, addressed by references, since the code compares them as
  pointers; a \<^verbatim>\<open>*ssa.Function\<close> is a value too. An \<open>object\<close> carries the operands that the
  detector inspects, with the constructor names of the source; what every value has (position, name,
  printed form, block, parent) is a component of the program, as are the three questions the detector
  asks about the type of a value: its printed form, whether \<^verbatim>\<open>pointer.CanPoint\<close> accepts it, and
  whether it is a pointer to a type that \<^verbatim>\<open>CanPoint\<close> accepts. A constant carries its 64-bit integer
  value. The analyses never write to the heap.
\<close>

type_synonym ref = nat
type_synonym blk = nat
type_synonym token_pos = int

definition NoPos :: token_pos where
  "NoPos = 0"

datatype token_op = MUL | ARROW | OtherOp

record method_func =
  method_name :: string
  method_pkg :: "string option"

record call_common =
  call_value :: ref
  call_method :: "method_func option"
  call_args :: "ref list"

record select_state =
  state_dir :: int
  state_chan :: ref

text \<open>
  The flags of a parameter say whether its type is a \<^verbatim>\<open>*types.Pointer\<close> and whether it is a
  \<^verbatim>\<open>*types.Basic\<close>; the string is the name of the package of its object.
\<close>

datatype object =
    Alloc (alloc_comment: string) (alloc_heap: bool)
  | Global
  | FreeVar
  | Parameter bool bool string
  | Const int
  | Builtin
  | Function
  | FieldAddr ref
  | IndexAddr ref
  | UnOp token_op ref
  | Lookup ref
  | Store ref ref
  | Call call_common
  | Defer call_common
  | Go call_common
  | MapUpdate ref
  | ChangeType ref
  | MakeInterface ref
  | MakeClosure ref "ref list"
  | MakeChan ref
  | MakeMap
  | Send ref
  | Select bool "select_state list"
  | IfIns
  | Return
  | TypeAssert ref
  | Extract
  | RunDefers
  | OtherObject

text \<open>Case analysis for a property of a type switch over an object.\<close>

lemma object_cases:
  fixes Q :: "'b \<Rightarrow> bool"
  assumes "\<And>x0 x1. x = Alloc x0 x1 \<Longrightarrow> Q (f0 x0 x1)" "x = Global \<Longrightarrow> Q (f1)"
    "x = FreeVar \<Longrightarrow> Q (f2)"
    "\<And>x0 x1 x2. x = Parameter x0 x1 x2 \<Longrightarrow> Q (f3 x0 x1 x2)"
    "\<And>x0. x = Const x0 \<Longrightarrow> Q (f4 x0)" "x = Builtin \<Longrightarrow> Q (f5)"
    "x = Function \<Longrightarrow> Q (f6)" "\<And>x0. x = FieldAddr x0 \<Longrightarrow> Q (f7 x0)"
    "\<And>x0. x = IndexAddr x0 \<Longrightarrow> Q (f8 x0)"
    "\<And>x0 x1. x = UnOp x0 x1 \<Longrightarrow> Q (f9 x0 x1)"
    "\<And>x0. x = Lookup x0 \<Longrightarrow> Q (f10 x0)"
    "\<And>x0 x1. x = Store x0 x1 \<Longrightarrow> Q (f11 x0 x1)"
    "\<And>x0. x = Call x0 \<Longrightarrow> Q (f12 x0)" "\<And>x0. x = Defer x0 \<Longrightarrow> Q (f13 x0)"
    "\<And>x0. x = Go x0 \<Longrightarrow> Q (f14 x0)" "\<And>x0. x = MapUpdate x0 \<Longrightarrow> Q (f15 x0)"
    "\<And>x0. x = ChangeType x0 \<Longrightarrow> Q (f16 x0)"
    "\<And>x0. x = MakeInterface x0 \<Longrightarrow> Q (f17 x0)"
    "\<And>x0 x1. x = MakeClosure x0 x1 \<Longrightarrow> Q (f18 x0 x1)"
    "\<And>x0. x = MakeChan x0 \<Longrightarrow> Q (f19 x0)" "x = MakeMap \<Longrightarrow> Q (f20)"
    "\<And>x0. x = Send x0 \<Longrightarrow> Q (f21 x0)"
    "\<And>x0 x1. x = Select x0 x1 \<Longrightarrow> Q (f22 x0 x1)" "x = IfIns \<Longrightarrow> Q (f23)"
    "x = Return \<Longrightarrow> Q (f24)" "\<And>x0. x = TypeAssert x0 \<Longrightarrow> Q (f25 x0)"
    "x = Extract \<Longrightarrow> Q (f26)" "x = RunDefers \<Longrightarrow> Q (f27)"
    "x = OtherObject \<Longrightarrow> Q (f28)"
  shows "Q (case_object f0 f1 f2 f3 f4 f5 f6 f7 f8 f9 f10 f11 f12 f13 f14 f15 f16 f17 f18 f19 f20 f21 f22 f23 f24 f25 f26 f27 f28 x)"
  using assms by (cases x) simp_all

lemmas okR_object = object_cases [where Q = "okR P" for P]

record types_package =
  pkg_name :: string
  pkg_path :: string

text \<open>\<^verbatim>\<open>fn_pkg\<close> is \<^verbatim>\<open>Function.Pkg\<close>, whose own \<^verbatim>\<open>Pkg\<close> may be nil; nil blocks are an external function.\<close>

record ssa_function =
  fn_name :: string
  fn_string :: string
  fn_pkg :: "types_package option option"
  fn_from_app :: bool
  fn_synthetic :: string
  fn_blocks :: "blk list option"
  fn_free_vars :: "ref list"

record basic_block =
  block_index :: int
  block_comment :: string
  block_parent :: "ref option"
  block_instrs :: "ref list"
  block_succs :: "blk list"
  dom_pre :: int
  dom_post :: int

record ssa_program =
  obj :: "ref \<Rightarrow> object"
  val_pos :: "ref \<Rightarrow> token_pos"
  val_name :: "ref \<Rightarrow> string"
  val_string :: "ref \<Rightarrow> string"
  ins_block :: "ref \<Rightarrow> blk option"
  val_parent :: "ref \<Rightarrow> ref option"
  fun_of :: "ref \<Rightarrow> ssa_function"
  bb :: "blk \<Rightarrow> basic_block"
  val_type_string :: "ref \<Rightarrow> string"
  can_point :: "ref \<Rightarrow> bool"
  can_point_elem :: "ref \<Rightarrow> bool"

section \<open>Methods of the SSA objects\<close>

definition StaticCallee :: "ssa_program \<Rightarrow> call_common \<Rightarrow> ref option" where
  "StaticCallee p c =
     (case obj p (call_value c) of
        Function \<Rightarrow> Some (call_value c)
      | MakeClosure f _ \<Rightarrow> Some f
      | _ \<Rightarrow> None)"

definition Dominates :: "ssa_program \<Rightarrow> blk \<Rightarrow> blk \<Rightarrow> bool" where
  "Dominates p b c \<longleftrightarrow> dom_pre (bb p b) \<le> dom_pre (bb p c) \<and> dom_post (bb p c) \<le> dom_post (bb p b)"

text \<open>\<^verbatim>\<open>sort.Sort\<close> by the preorder number; the numbers of the blocks of a function are distinct.\<close>

definition DomPreorder :: "ssa_program \<Rightarrow> ref \<Rightarrow> blk list" where
  "DomPreorder p f =
     (case fn_blocks (fun_of p f) of None \<Rightarrow> [] | Some bs \<Rightarrow> sort_key (\<lambda>b. dom_pre (bb p b)) bs)"

text \<open>\<^verbatim>\<open>c.StaticCallee().Pkg.Pkg.Name()\<close>, each step a possible nil dereference.\<close>

definition callee_pkg_name :: "ssa_program \<Rightarrow> call_common \<Rightarrow> string go_result" where
  "callee_pkg_name p c =
     (case StaticCallee p c of
        None \<Rightarrow> Inl NilDereference
      | Some f \<Rightarrow>
          (case fn_pkg (fun_of p f) of
             Some (Some q) \<Rightarrow> Inr (pkg_name q)
           | _ \<Rightarrow> Inl NilDereference))"

definition prefix_of :: "string \<Rightarrow> string \<Rightarrow> bool" where
  "prefix_of s t \<longleftrightarrow> take (length s) t = s"

text \<open>\<^verbatim>\<open>strings.Contains\<close>.\<close>

fun str_contains :: "string \<Rightarrow> string \<Rightarrow> bool" where
  "str_contains [] s \<longleftrightarrow> s = []"
| "str_contains (c # t) s \<longleftrightarrow> prefix_of s (c # t) \<or> str_contains t s"

section \<open>Dominance intervals\<close>

text \<open>
  The numbering of a dominator tree is a nesting of intervals: two blocks are comparable, or their
  intervals are disjoint.
\<close>

lemma Dominates_refl: "Dominates p b b"
  by (simp add: Dominates_def)

lemma Dominates_trans: "Dominates p a b \<Longrightarrow> Dominates p b c \<Longrightarrow> Dominates p a c"
  by (auto simp: Dominates_def)

lemma Dominates_antisym:
  assumes "Dominates p a b" "Dominates p b a"
  shows "dom_pre (bb p a) = dom_pre (bb p b)" "dom_post (bb p a) = dom_post (bb p b)"
  using assms by (auto simp: Dominates_def)

lemma DomPreorder_set: "fn_blocks (fun_of p f) = Some bs \<Longrightarrow> set (DomPreorder p f) = set bs"
  by (simp add: DomPreorder_def)

lemma str_contains_iff: "str_contains t s \<longleftrightarrow> (\<exists>pre post. t = pre @ s @ post)"
proof (induction t)
  case (Cons c t)
  have "prefix_of s (c # t) \<longleftrightarrow> (\<exists>post. c # t = s @ post)"
    by (auto simp: prefix_of_def) (metis append_take_drop_id)
  moreover have "(\<exists>pre post. c # t = pre @ s @ post) \<longleftrightarrow>
      (\<exists>post. c # t = s @ post) \<or> (\<exists>pre post. t = pre @ s @ post)"
    by (auto simp: Cons_eq_append_conv)
  ultimately show ?case using Cons by simp
qed simp

end
