(* ===== verification/Pointer_Loops.thy ===== *)
theory Pointer_Loops
  imports Intsets_Algebra Ssa_Model
begin

text \<open>
  The questions about the control flow that decide on origin contexts in \<^verbatim>\<open>gopta/go/pointer/gen.go\<close>:
  whether an instruction is in a loop (\<^verbatim>\<open>isInLoop\<close>, a search over the blocks with a sparse set of
  block indices), and which instruction consumes a closure (\<^verbatim>\<open>isGoNext\<close>, \<^verbatim>\<open>isDeferNext\<close>,
  \<^verbatim>\<open>isCallNext\<close>). Go maps are lists of entries in insertion order.
\<close>

section \<open>Loops\<close>

type_synonym frontier = "(int \<times> blk) list"

definition map_put :: "int \<Rightarrow> blk \<Rightarrow> frontier \<Rightarrow> frontier" where
  "map_put k b m = (if k \<in> fst ` set m then map (\<lambda>e. if fst e = k then (k, b) else e) m else m @ [(k, b)])"

definition record_block :: "ssa_program \<Rightarrow> blk \<Rightarrow> frontier \<times> sparse \<Rightarrow> (frontier \<times> sparse) go_result" where
  "record_block p b s =
     bindR (Insert (snd s) (block_index (bb p b))) (\<lambda>(total, _). Inr (map_put (block_index (bb p b)) b (fst s), total))"

fun start_blocks :: "ssa_program \<Rightarrow> blk list \<Rightarrow> frontier \<times> sparse \<Rightarrow> (frontier \<times> sparse) go_result" where
  "start_blocks p [] s = Inr s"
| "start_blocks p (b # bs) s = bindR (record_block p b s) (start_blocks p bs)"

fun new_succs :: "ssa_program \<Rightarrow> blk list \<Rightarrow> frontier \<times> sparse \<Rightarrow> (frontier \<times> sparse) go_result" where
  "new_succs p [] s = Inr s"
| "new_succs p (b # bs) s =
     bindR (if \<not> Has (snd s) (block_index (bb p b)) then record_block p b s else Inr s) (new_succs p bs)"

text \<open>One pass over \<^verbatim>\<open>next\<close>: \<^const>\<open>None\<close> when the block of the instruction is met.\<close>

fun scan_next :: "ssa_program \<Rightarrow> int \<Rightarrow> frontier \<Rightarrow> frontier \<times> sparse \<Rightarrow> (frontier \<times> sparse) option go_result" where
  "scan_next p i [] s = Inr (Some s)"
| "scan_next p i ((k, b) # es) s =
     (if k = i then Inr None
      else bindR (new_succs p (block_succs (bb p b)) s) (scan_next p i es))"

partial_function (option) loop_search :: "ssa_program \<Rightarrow> int \<Rightarrow> frontier \<Rightarrow> sparse \<Rightarrow> bool go_result option" where
  "loop_search p i nxt tot =
     (if nxt = [] then Some (Inr False)
      else case scan_next p i nxt ([], tot) of
             Inl e \<Rightarrow> Some (Inl e)
           | Inr None \<Rightarrow> Some (Inr True)
           | Inr (Some s) \<Rightarrow> loop_search p i (fst s) (snd s))"

declare loop_search.simps [code]

definition isInLoop :: "ssa_program \<Rightarrow> ref \<Rightarrow> bool go_result option" where
  "isInLoop p ins =
     (case ins_block p ins of
        None \<Rightarrow> Some (Inl NilDereference)
      | Some b \<Rightarrow>
          (case start_blocks p (block_succs (bb p b)) ([], []) of
             Inl e \<Rightarrow> Some (Inl e)
           | Inr s \<Rightarrow> loop_search p (block_index (bb p b)) (fst s) (snd s)))"

section \<open>The use of a closure\<close>

text \<open>The instructions of the block after the first occurrence of \<open>i\<close>.\<close>

fun instrs_after :: "ref \<Rightarrow> ref list \<Rightarrow> ref list" where
  "instrs_after i [] = []"
| "instrs_after i (s # ss) = (if s = i then ss else instrs_after i ss)"

fun go_after :: "ssa_program \<Rightarrow> ref \<Rightarrow> ref list \<Rightarrow> ref option" where
  "go_after p c [] = None"
| "go_after p c (s # ss) =
     (case obj p s of
        Go call \<Rightarrow>
          (case obj p (call_value call) of
             MakeClosure _ _ \<Rightarrow> if call_value call = c then Some s else go_after p c ss
           | _ \<Rightarrow> go_after p c ss)
      | _ \<Rightarrow> go_after p c ss)"

text \<open>The value of a defer or a call is the closure, or a function that gets it as an argument.\<close>

definition consumes :: "ssa_program \<Rightarrow> ref \<Rightarrow> call_common \<Rightarrow> bool" where
  "consumes p c call \<longleftrightarrow>
     (case obj p (call_value call) of
        MakeClosure _ _ \<Rightarrow> call_value call = c
      | Function \<Rightarrow> c \<in> set (call_args call)
      | _ \<Rightarrow> False)"

fun defer_after :: "ssa_program \<Rightarrow> ref \<Rightarrow> ref list \<Rightarrow> ref option" where
  "defer_after p c [] = None"
| "defer_after p c (s # ss) =
     (case obj p s of Defer call \<Rightarrow> if consumes p c call then Some s else defer_after p c ss | _ \<Rightarrow> defer_after p c ss)"

fun call_after :: "ssa_program \<Rightarrow> ref \<Rightarrow> ref list \<Rightarrow> ref option" where
  "call_after p c [] = None"
| "call_after p c (s # ss) =
     (case obj p s of Call call \<Rightarrow> if consumes p c call then Some s else call_after p c ss | _ \<Rightarrow> call_after p c ss)"

definition in_block_of :: "ssa_program \<Rightarrow> ref \<Rightarrow> (ref list \<Rightarrow> 'a) \<Rightarrow> 'a go_result" where
  "in_block_of p c f =
     (case ins_block p c of None \<Rightarrow> Inl NilDereference | Some b \<Rightarrow> Inr (f (instrs_after c (block_instrs (bb p b)))))"

definition isGoNext :: "ssa_program \<Rightarrow> ref \<Rightarrow> ref option go_result" where
  "isGoNext p c = in_block_of p c (go_after p c)"

definition isDeferNext :: "ssa_program \<Rightarrow> ref \<Rightarrow> ref option go_result" where
  "isDeferNext p c = in_block_of p c (defer_after p c)"

definition isCallNext :: "ssa_program \<Rightarrow> ref \<Rightarrow> ref option go_result" where
  "isCallNext p c = in_block_of p c (call_after p c)"

definition consumeMakeClosureNext :: "ssa_program \<Rightarrow> ref \<Rightarrow> bool go_result" where
  "consumeMakeClosureNext p c =
     bindR (isDeferNext p c) (\<lambda>d. if d \<noteq> None then Inr True else bindR (isCallNext p c) (\<lambda>i. Inr (i \<noteq> None)))"

section \<open>The search is exact\<close>

definition succ_rel :: "ssa_program \<Rightarrow> (blk \<times> blk) set" where
  "succ_rel p = {(x, y). y \<in> set (block_succs (bb p x))}"

text \<open>The blocks \<open>B\<close> of a function: closed under successors, with different indices.\<close>

definition cfg_ok :: "ssa_program \<Rightarrow> blk set \<Rightarrow> bool" where
  "cfg_ok p B \<longleftrightarrow>
     finite B \<and> (\<forall>b \<in> B. set (block_succs (bb p b)) \<subseteq> B \<and> in_int (block_index (bb p b))) \<and>
     inj_on (\<lambda>b. block_index (bb p b)) B"

text \<open>\<open>tmp\<close> and \<open>total\<close> after the blocks of \<open>V\<close> have been seen and those of \<open>T\<close> are new.\<close>

definition seen :: "ssa_program \<Rightarrow> blk set \<Rightarrow> blk set \<Rightarrow> frontier \<times> sparse \<Rightarrow> bool" where
  "seen p T V s \<longleftrightarrow>
     wf_sparse (snd s) \<and> elems (snd s) = (\<lambda>b. block_index (bb p b)) ` V \<and> set (fst s) = (\<lambda>b. (block_index (bb p b), b)) ` T"

lemma same_index: "cfg_ok p B \<Longrightarrow> b \<in> B \<Longrightarrow> c \<in> B \<Longrightarrow> block_index (bb p b) = block_index (bb p c) \<longleftrightarrow> b = c"
  unfolding cfg_ok_def by (metis inj_on_eq_iff)

lemma cfg_index: "cfg_ok p B \<Longrightarrow> b \<in> B \<Longrightarrow> in_int (block_index (bb p b))"
  and cfg_succs: "cfg_ok p B \<Longrightarrow> b \<in> B \<Longrightarrow> set (block_succs (bb p b)) \<subseteq> B"
  by (simp_all add: cfg_ok_def)

lemma map_put_set:
  assumes B: "cfg_ok p B" "insert b T \<subseteq> B" and m: "set m = (\<lambda>b. (block_index (bb p b), b)) ` T"
  shows "set (map_put (block_index (bb p b)) b m) = (\<lambda>b. (block_index (bb p b), b)) ` insert b T"
proof -
  let ?k = "block_index (bb p b)"
  have e: "fst e = ?k \<longleftrightarrow> e = (?k, b)" if e: "e \<in> set m" for e
  proof -
    obtain c where "e = (block_index (bb p c), c)" "c \<in> T" using m e by auto
    then show ?thesis using same_index [OF B(1), of c b] B(2) by auto
  qed
  have k: "?k \<in> fst ` set m \<longleftrightarrow> (?k, b) \<in> set m" using e by (metis fst_conv image_iff)
  have "map (\<lambda>e. if fst e = ?k then (?k, b) else e) m = m" by (rule map_idI) (use e in auto)
  then have "set (map_put ?k b m) = insert (?k, b) (set m)" using k by (auto simp: map_put_def)
  then show ?thesis using m by simp
qed

lemma record_block_seen:
  assumes "cfg_ok p B" "insert b (T \<union> V) \<subseteq> B" "seen p T V s"
  shows "\<exists>t. record_block p b s = Inr t \<and> seen p (insert b T) (insert b V) t"
proof -
  have i: "in_int (block_index (bb p b))" using assms(2) by (intro cfg_index [OF assms(1)]) simp
  then obtain t where "Insert (snd s) (block_index (bb p b)) = Inr (t, block_index (bb p b) \<notin> elems (snd s))" "wf_sparse t"
      "elems t = insert (block_index (bb p b)) (elems (snd s))"
    using Insert_spec [OF _ i, of "snd s"] assms(3) by (auto simp: seen_def)
  then show ?thesis using assms(2,3) map_put_set [OF assms(1), of b T "fst s"] by (simp add: record_block_def seen_def)
qed

lemma start_blocks_seen:
  "cfg_ok p B \<Longrightarrow> set bs \<union> T \<union> V \<subseteq> B \<Longrightarrow> seen p T V s \<Longrightarrow>
   \<exists>t. start_blocks p bs s = Inr t \<and> seen p (T \<union> set bs) (V \<union> set bs) t"
proof (induction bs arbitrary: T V s)
  case (Cons b bs)
  obtain t where t: "record_block p b s = Inr t" "seen p (insert b T) (insert b V) t"
    using record_block_seen [OF Cons.prems(1) _ Cons.prems(3), of b] Cons.prems(2) by auto
  then show ?case using Cons.IH [OF Cons.prems(1) _ t(2)] Cons.prems(2) by auto
qed simp

lemma has_seen: "cfg_ok p B \<Longrightarrow> insert b V \<subseteq> B \<Longrightarrow> seen p T V s \<Longrightarrow> Has (snd s) (block_index (bb p b)) \<longleftrightarrow> b \<in> V"
proof -
  assume B: "cfg_ok p B" "insert b V \<subseteq> B" and s: "seen p T V s"
  then have "Has (snd s) (block_index (bb p b)) \<longleftrightarrow> (\<exists>c \<in> V. block_index (bb p b) = block_index (bb p c))"
    by (auto simp: seen_def Has_elems image_iff)
  also have "\<dots> \<longleftrightarrow> b \<in> V" using same_index [OF B(1)] B(2) by (metis insert_subset subsetD)
  finally show "Has (snd s) (block_index (bb p b)) \<longleftrightarrow> b \<in> V" .
qed

lemma new_succs_seen:
  "cfg_ok p B \<Longrightarrow> set bs \<union> T \<union> V \<subseteq> B \<Longrightarrow> seen p T V s \<Longrightarrow>
   \<exists>t. new_succs p bs s = Inr t \<and> seen p (T \<union> (set bs - V)) (V \<union> set bs) t"
proof (induction bs arbitrary: T V s)
  case (Cons b bs)
  show ?case
  proof (cases "b \<in> V")
    case True
    then have "Has (snd s) (block_index (bb p b))" using has_seen [OF Cons.prems(1) _ Cons.prems(3), of b] Cons.prems(2) by auto
    then show ?thesis using Cons.IH [OF Cons.prems(1) _ Cons.prems(3)] Cons.prems(2) True by (auto simp: insert_absorb)
  next
    case False
    then have h: "\<not> Has (snd s) (block_index (bb p b))" using has_seen [OF Cons.prems(1) _ Cons.prems(3), of b] Cons.prems(2) by auto
    obtain t where t: "record_block p b s = Inr t" "seen p (insert b T) (insert b V) t"
      using record_block_seen [OF Cons.prems(1) _ Cons.prems(3), of b] Cons.prems(2) by auto
    have "insert b T \<union> (set bs - insert b V) = T \<union> (set (b # bs) - V)" "insert b V \<union> set bs = V \<union> set (b # bs)"
      using False by auto
    then show ?thesis using Cons.IH [OF Cons.prems(1) _ t(2)] Cons.prems(2) t(1) h by auto
  qed
qed simp


text \<open>One pass: it stops at the block of the instruction, or sees the successors of the whole frontier.\<close>

lemma scan_next_seen:
  assumes B: "cfg_ok p B" and i: "a \<in> B"
  shows "set es = (\<lambda>b. (block_index (bb p b), b)) ` F \<Longrightarrow> F \<subseteq> B \<Longrightarrow> T \<union> V \<subseteq> B \<Longrightarrow> seen p T V s \<Longrightarrow>
    (if a \<in> F then scan_next p (block_index (bb p a)) es s = Inr None
     else \<exists>t. scan_next p (block_index (bb p a)) es s = Inr (Some t) \<and>
       seen p (T \<union> (succ_rel p `` F - V)) (V \<union> succ_rel p `` F) t)"
proof (induction es arbitrary: F T V s)
  case Nil
  then show ?case by auto
next
  case (Cons e es)
  have "e \<in> set (e # es)" by simp
  then obtain b where b: "e = (block_index (bb p b), b)" "b \<in> F" unfolding Cons.prems(1) by (elim imageE) simp
  let ?G = "snd ` set es" and ?S = "set (block_succs (bb p b))"
  have "snd ` set (e # es) = F" unfolding Cons.prems(1) by (simp add: image_image)
  then have F: "F = insert b ?G" using b(1) by simp
  have "x = (block_index (bb p (snd x)), snd x)" if "x \<in> set es" for x
  proof -
    have "x \<in> set (e # es)" using that by simp
    then show ?thesis unfolding Cons.prems(1) by (auto simp only: image_iff snd_conv)
  qed
  then have es: "set es = (\<lambda>b. (block_index (bb p b), b)) ` ?G" unfolding image_image by (metis (no_types, lifting) image_cong image_ident)
  have bB: "b \<in> B" "?S \<subseteq> B" using Cons.prems(2) b(2) cfg_succs [OF B] by auto
  show ?case
  proof (cases "b = a")
    case True
    then show ?thesis using b by simp
  next
    case False
    then have k: "block_index (bb p b) \<noteq> block_index (bb p a)" using same_index [OF B bB(1) i] by simp
    have "?S \<union> T \<union> V \<subseteq> B" using Cons.prems(3) bB(2) by blast
    then obtain t where t: "new_succs p (block_succs (bb p b)) s = Inr t" "seen p (T \<union> (?S - V)) (V \<union> ?S) t"
      using new_succs_seen [OF B _ Cons.prems(4)] by blast
    have s: "scan_next p (block_index (bb p a)) (e # es) s = scan_next p (block_index (bb p a)) es t"
      using b(1) k t(1) by simp
    have u: "succ_rel p `` F = ?S \<union> succ_rel p `` ?G" unfolding F by (auto simp: succ_rel_def)
    have e: "T \<union> (?S - V) \<union> (succ_rel p `` ?G - (V \<union> ?S)) = T \<union> (succ_rel p `` F - V)"
      "V \<union> ?S \<union> succ_rel p `` ?G = V \<union> succ_rel p `` F" "a \<in> ?G \<longleftrightarrow> a \<in> F"
      unfolding u using F False by blast+
    have "?G \<subseteq> B" "T \<union> (?S - V) \<union> (V \<union> ?S) \<subseteq> B" using Cons.prems(2,3) F bB(2) by blast+
    from Cons.IH [OF es this t(2)] show ?thesis unfolding s e .
  qed
qed

text \<open>
  The search from the frontier \<open>F\<close> with the seen blocks \<open>V\<close>: it returns, and finds the block when it can be
  reached from the frontier.
\<close>

lemma loop_search_exact:
  assumes B: "cfg_ok p B" and a: "a \<in> B"
  shows "V \<subseteq> B \<Longrightarrow> F \<subseteq> V \<Longrightarrow> seen p F V s \<Longrightarrow> succ_rel p `` (V - F) \<subseteq> V \<Longrightarrow> a \<notin> V - F \<Longrightarrow>
    loop_search p (block_index (bb p a)) (fst s) (snd s) = Some (Inr (a \<in> (succ_rel p)\<^sup>* `` F))"
proof (induction "card (B - V)" arbitrary: F V s rule: less_induct)
  case less
  have fin: "finite B" using B by (simp add: cfg_ok_def)
  have nxt: "set (fst s) = (\<lambda>b. (block_index (bb p b), b)) ` F" and tot: "seen p {} V ([], snd s)"
    using less.prems(3) by (simp_all add: seen_def)
  show ?case
  proof (cases "F = {}")
    case True
    then show ?thesis using nxt by (simp add: loop_search.simps)
  next
    case False
    then have ne: "fst s \<noteq> []" using nxt by auto
    have FB: "F \<subseteq> B" using less.prems(1,2) by blast
    note sc = scan_next_seen [OF B a nxt FB _ tot]
    show ?thesis
    proof (cases "a \<in> F")
      case True
      then have "scan_next p (block_index (bb p a)) (fst s) ([], snd s) = Inr None" using sc less.prems(1) by simp
      moreover have "a \<in> (succ_rel p)\<^sup>* `` F" using True by blast
      ultimately show ?thesis using ne by (simp add: loop_search.simps [of _ _ "fst s"])
    next
      case aF: False
      let ?N = "succ_rel p `` F"
      obtain t where t: "scan_next p (block_index (bb p a)) (fst s) ([], snd s) = Inr (Some t)" "seen p (?N - V) (V \<union> ?N) t"
        using sc less.prems(1) aF by auto
      have N: "?N \<subseteq> B" using FB cfg_succs [OF B] by (auto simp: succ_rel_def)
      have step: "loop_search p (block_index (bb p a)) (fst s) (snd s) = loop_search p (block_index (bb p a)) (fst t) (snd t)"
        using ne t(1) by (simp add: loop_search.simps [of _ _ "fst s"])
      have reach: "a \<in> (succ_rel p)\<^sup>* `` (?N - V) \<longleftrightarrow> a \<in> (succ_rel p)\<^sup>* `` F"
      proof
        assume "a \<in> (succ_rel p)\<^sup>* `` F"
        then obtain f where f: "f \<in> F" "(f, a) \<in> (succ_rel p)\<^sup>*" by blast
        have "(x, a) \<in> (succ_rel p)\<^sup>* \<Longrightarrow> x \<in> V \<Longrightarrow> a \<in> (succ_rel p)\<^sup>* `` (?N - V)" for x
        proof (induction rule: converse_rtrancl_induct)
          case base
          then show ?case using less.prems(5) aF by blast
        next
          case (step y z)
          show ?case
          proof (cases "z \<in> V")
            case False
            have "y \<in> F" using step.hyps(1) step.prems False less.prems(4) by blast
            then have "z \<in> ?N - V" using step.hyps(1) False by blast
            then show ?thesis using step.hyps(2) by blast
          qed (rule step.IH)
        qed
        then show "a \<in> (succ_rel p)\<^sup>* `` (?N - V)" using f less.prems(2) by blast
      qed (blast intro: converse_rtrancl_into_rtrancl)
      show ?thesis
      proof (cases "?N \<subseteq> V")
        case True
        then have e: "?N - V = {}" by blast
        then have "fst t = []" using t(2) by (simp only: seen_def e image_empty set_empty)
        then show ?thesis using step reach unfolding e by (simp add: loop_search.simps)
      next
        case False
        then have "card (B - (V \<union> ?N)) < card (B - V)" using N fin by (intro psubset_card_mono) auto
        moreover have "succ_rel p `` (V \<union> ?N - (?N - V)) \<subseteq> V \<union> ?N" using less.prems(4) by blast
        moreover have "a \<notin> V \<union> ?N - (?N - V)" using less.prems(5) aF by blast
        moreover have "V \<union> ?N \<subseteq> B" "?N - V \<subseteq> V \<union> ?N" using less.prems(1) N by blast+
        ultimately have "loop_search p (block_index (bb p a)) (fst t) (snd t) = Some (Inr (a \<in> (succ_rel p)\<^sup>* `` (?N - V)))"
          by (intro less.hyps [OF _ _ _ t(2)])
        then show ?thesis using step reach by simp
      qed
    qed
  qed
qed

lemma isInLoop_cycle:
  assumes B: "cfg_ok p B" and a: "ins_block p ins = Some a" "a \<in> B"
  shows "isInLoop p ins = Some (Inr ((a, a) \<in> (succ_rel p)\<^sup>+))"
proof -
  let ?S = "set (block_succs (bb p a))"
  have e: "seen p {} {} ([], [])" by (simp add: seen_def wf_sparse_def elems_def)
  obtain s where s: "start_blocks p (block_succs (bb p a)) ([], []) = Inr s" "seen p ?S ?S s"
    using start_blocks_seen [OF B _ e, of "block_succs (bb p a)"] cfg_succs [OF B a(2)] by force
  have "loop_search p (block_index (bb p a)) (fst s) (snd s) = Some (Inr (a \<in> (succ_rel p)\<^sup>* `` ?S))"
    by (rule loop_search_exact [OF B a(2) cfg_succs [OF B a(2)] order_refl s(2)]) auto
  moreover have "a \<in> (succ_rel p)\<^sup>* `` ?S \<longleftrightarrow> (a, a) \<in> (succ_rel p)\<^sup>+"
  proof -
    have "b \<in> ?S \<longleftrightarrow> (a, b) \<in> succ_rel p" for b by (simp add: succ_rel_def)
    then show ?thesis unfolding trancl_unfold_left by (auto dest: tranclD)
  qed
  ultimately show ?thesis using a(1) s(1) by (simp add: isInLoop_def)
qed

end
