(* ===== verification/Pointer_Nodeset.thy ===== *)
theory Pointer_Nodeset
  imports Intsets_Algebra
begin

text \<open>
  The points-to sets of \<^verbatim>\<open>gopta/go/pointer\<close>: \<^verbatim>\<open>nodeset\<close> of \<^verbatim>\<open>util.go\<close> wraps a sparse integer set and
  holds 32-bit node numbers. The locale \<open>label_set\<close> states what the solver needs of it.
\<close>

type_synonym nodeid = "32 word"

definition ns_IsEmpty :: "sparse \<Rightarrow> bool" where
  "ns_IsEmpty s \<longleftrightarrow> Len False s = 0"

definition ns_add :: "sparse \<Rightarrow> nodeid \<Rightarrow> (sparse \<times> bool) go_result" where
  "ns_add s n = Insert s (uint n)"

text \<open>
  The methods with two or three pointers act on a small store; \<open>same\<close> tells that receiver and argument
  are one set. The receiver of \<^verbatim>\<open>Difference\<close> and \<^verbatim>\<open>Copy\<close> still holds its old elements.
\<close>

definition ns_addAll :: "bool \<Rightarrow> sparse \<Rightarrow> sparse \<Rightarrow> (sparse \<times> bool) go_result" where
  "ns_addAll same s y =
     bindR (UnionWith (\<lambda>p. if p = 0 then s else y) 0 (if same then 0 else 1)) (\<lambda>(st, changed). Inr (st 0, changed))"

definition ns_diff :: "sparse \<Rightarrow> sparse \<Rightarrow> sparse \<Rightarrow> sparse go_result" where
  "ns_diff d x y =
     bindR (Difference (\<lambda>p. if p = 0 then d else if p = 1 then x else y) 0 1 2) (\<lambda>st. Inr (st 0))"

definition ns_copy :: "sparse \<Rightarrow> sparse \<Rightarrow> sparse go_result" where
  "ns_copy d x = bindR (Copy (\<lambda>p. if p = 0 then d else x) 0 1) (\<lambda>st. Inr (st 0))"

text \<open>\<^verbatim>\<open>for _, x := range s.AppendTo(space[:0]) \{ k := nodeid(x) ... \}\<close>\<close>

definition ns_list :: "sparse \<Rightarrow> nodeid list" where
  "ns_list s = map word_of_int (AppendTo s [])"

section \<open>The interface\<close>

locale label_set =
  fixes emp :: 's
    and is_empty :: "'s \<Rightarrow> bool"
    and add :: "'s \<Rightarrow> 'l \<Rightarrow> ('s \<times> bool) go_result"
    and addAll :: "bool \<Rightarrow> 's \<Rightarrow> 's \<Rightarrow> ('s \<times> bool) go_result"
    and diff :: "'s \<Rightarrow> 's \<Rightarrow> 's \<Rightarrow> 's go_result"
    and copy :: "'s \<Rightarrow> 's \<Rightarrow> 's go_result"
    and list :: "'s \<Rightarrow> 'l list"
    and labels :: "'s \<Rightarrow> 'l set"
    and inv :: "'s \<Rightarrow> bool"
  assumes emp: "inv emp" "labels emp = {}"
    and is_empty: "inv s \<Longrightarrow> is_empty s \<longleftrightarrow> labels s = {}"
    and add: "inv s \<Longrightarrow> \<exists>t. add s n = Inr (t, n \<notin> labels s) \<and> inv t \<and> labels t = insert n (labels s)"
    and addAll: "inv s \<Longrightarrow> inv y \<Longrightarrow> (same \<Longrightarrow> s = y) \<Longrightarrow>
      \<exists>t b. addAll same s y = Inr (t, b) \<and> inv t \<and> labels t = labels s \<union> labels y \<and> (labels t \<noteq> labels s \<longrightarrow> b)"
    and diff: "inv d \<Longrightarrow> inv x \<Longrightarrow> inv y \<Longrightarrow> \<exists>t. diff d x y = Inr t \<and> inv t \<and> labels t = labels x - labels y"
    and copy: "inv d \<Longrightarrow> inv x \<Longrightarrow> \<exists>t. copy d x = Inr t \<and> inv t \<and> labels t = labels x"
    and list: "inv s \<Longrightarrow> set (list s) = labels s" "inv s \<Longrightarrow> distinct (list s)"
begin

lemma add_Inr: "inv s \<Longrightarrow> add s n = Inr (t, b) \<Longrightarrow> inv t \<and> labels t = insert n (labels s) \<and> (b \<longleftrightarrow> n \<notin> labels s)"
  using add [of s n] by auto

lemma addAll_Inr:
  "inv s \<Longrightarrow> inv y \<Longrightarrow> (same \<Longrightarrow> s = y) \<Longrightarrow> addAll same s y = Inr (t, b) \<Longrightarrow>
   inv t \<and> labels t = labels s \<union> labels y \<and> (\<not> b \<longrightarrow> labels t = labels s)"
  using addAll [of s y same] by auto

lemma diff_Inr: "inv d \<Longrightarrow> inv x \<Longrightarrow> inv y \<Longrightarrow> diff d x y = Inr t \<Longrightarrow> inv t \<and> labels t = labels x - labels y"
  using diff [of d x y] by auto

lemma copy_Inr: "inv d \<Longrightarrow> inv x \<Longrightarrow> copy d x = Inr t \<Longrightarrow> inv t \<and> labels t = labels x"
  using copy [of d x] by auto

text \<open>Difference propagation: the labels not seen before, together with those seen, are all labels.\<close>

lemma diff_cover: "inv d \<Longrightarrow> inv x \<Longrightarrow> inv y \<Longrightarrow> diff d x y = Inr t \<Longrightarrow> labels x \<subseteq> labels y \<union> labels t"
  using diff_Inr by blast

end

section \<open>Sparse sets of node numbers\<close>

definition ns_labels :: "sparse \<Rightarrow> nodeid set" where
  "ns_labels s = word_of_int ` elems s"

definition ns_ok :: "sparse \<Rightarrow> bool" where
  "ns_ok s \<longleftrightarrow> wf_sparse s \<and> elems s \<subseteq> {0..<2 ^ 32}"

lemma uint_node: "x \<in> {0..<2 ^ 32} \<Longrightarrow> uint (word_of_int x :: nodeid) = x"
  by (simp add: uint_word_of_int)

lemma inj_node: "inj_on (word_of_int :: int \<Rightarrow> nodeid) {0..<2 ^ 32}"
  by (rule inj_on_inverseI [where g = uint]) (rule uint_node)

lemma ns_labels_Un: "ns_ok s \<Longrightarrow> ns_ok y \<Longrightarrow> elems t = elems s \<union> elems y \<Longrightarrow> ns_labels t = ns_labels s \<union> ns_labels y"
  by (auto simp: ns_labels_def)

lemma in_int_node: "in_int (uint (n :: nodeid))" "uint n \<in> {0..<2 ^ 32}"
proof -
  have r: "0 \<le> uint n" "uint n < 4294967296" using uint_lt2p [of n] by simp_all
  then show "uint n \<in> {0..<2 ^ 32}" by simp
  have "(2::int) ^ 63 = 9223372036854775808" by simp
  then show "in_int (uint n)" unfolding in_int_def MinInt_def MaxInt_def using r by linarith
qed

lemma ns_finite: "ns_ok s \<Longrightarrow> finite (elems s)"
  by (auto simp: ns_ok_def intro: finite_subset)

lemma ns_mem: "ns_ok s \<Longrightarrow> uint n \<in> elems s \<longleftrightarrow> n \<in> ns_labels s"
proof
  assume s: "ns_ok s" and n: "n \<in> ns_labels s"
  then obtain x where x: "x \<in> elems s" "n = word_of_int x" by (auto simp: ns_labels_def)
  then have "x \<in> {0..<2 ^ 32}" using s by (auto simp: ns_ok_def)
  then have "uint n = x" unfolding x(2) by (rule uint_node)
  then show "uint n \<in> elems s" using x(1) by simp
next
  assume "uint n \<in> elems s"
  then show "n \<in> ns_labels s" unfolding ns_labels_def by (rule rev_image_eqI) simp
qed

interpretation ns: label_set "[]" ns_IsEmpty ns_add ns_addAll ns_diff ns_copy ns_list ns_labels ns_ok
proof unfold_locales
  show "ns_ok []" "ns_labels [] = {}" by (simp_all add: ns_ok_def ns_labels_def wf_sparse_def elems_def)
  show "ns_IsEmpty s \<longleftrightarrow> ns_labels s = {}" if "ns_ok s" for s
    using that ns_finite [OF that] by (simp add: ns_IsEmpty_def ns_ok_def ns_labels_def Len_card)
  show "\<exists>t. ns_add s n = Inr (t, n \<notin> ns_labels s) \<and> ns_ok t \<and> ns_labels t = insert n (ns_labels s)"
    if s: "ns_ok s" for s n
  proof -
    obtain t where t: "Insert s (uint n) = Inr (t, uint n \<notin> elems s)" "wf_sparse t" "elems t = insert (uint n) (elems s)"
      using Insert_spec [OF conjunct1 [OF s [unfolded ns_ok_def]] in_int_node(1) [of n]] by blast
    then have "ns_ok t" "ns_labels t = insert n (ns_labels s)"
      using that in_int_node(2) [of n] by (auto simp: ns_ok_def ns_labels_def)
    then show ?thesis using t(1) ns_mem [OF that] by (simp add: ns_add_def)
  qed
  show "\<exists>t b. ns_addAll same s y = Inr (t, b) \<and> ns_ok t \<and> ns_labels t = ns_labels s \<union> ns_labels y \<and>
      (ns_labels t \<noteq> ns_labels s \<longrightarrow> b)" if "ns_ok s" "ns_ok y" "same \<Longrightarrow> s = y" for s y same
  proof -
    let ?st = "\<lambda>p :: nat. if p = 0 then s else y" and ?q = "if same then 0 else 1 :: nat"
    have wf: "wf_sparse (?st 0)" "wf_sparse (?st ?q)" "?st ?q = y" using that by (auto simp: ns_ok_def)
    obtain st where st: "UnionWith ?st 0 ?q = Inr (st, 0 \<noteq> ?q \<and> union_reports (?st 0) (?st ?q))"
      "only_changes ?st 0 (elems (?st 0) \<union> elems (?st ?q)) st" using UnionWith_ok [OF wf(1,2)] by blast
    have e: "wf_sparse (st 0)" "elems (st 0) = elems s \<union> elems y" using st(2) wf(3) by (simp_all add: only_changes_def)
    then have l: "ns_ok (st 0)" "ns_labels (st 0) = ns_labels s \<union> ns_labels y"
      using that by (auto simp: ns_ok_def ns_labels_def)
    have "0 \<noteq> ?q \<and> union_reports s y" if g: "ns_labels (st 0) \<noteq> ns_labels s"
    proof -
      have ne: "elems (st 0) \<noteq> elems s" using g by (auto simp: ns_labels_def)
      then have "\<not> same" using that \<open>same \<Longrightarrow> s = y\<close> e(2) by auto
      moreover have "\<not> set y \<subseteq> set s" using ne e(2) by (auto simp: elems_def)
      ultimately show ?thesis using union_reports_blocks [of s y] wf by simp
    qed
    then show ?thesis using st(1) l wf(3) by (simp add: ns_addAll_def)
  qed
  show "\<exists>t. ns_diff d x y = Inr t \<and> ns_ok t \<and> ns_labels t = ns_labels x - ns_labels y" 
    if dxy: "ns_ok d" "ns_ok x" "ns_ok y" for d x y
  proof -
    let ?st = "\<lambda>p :: nat. if p = 0 then d else if p = 1 then x else y"
    obtain st where st: "Difference ?st 0 1 2 = Inr st" "only_changes ?st 0 (elems x - elems y) st"
      using Difference_ok [of ?st 0 1 2] dxy by (auto simp: ns_ok_def simp del: One_nat_def)
    have sub: "elems x \<subseteq> {0..<2 ^ 32}" "elems y \<subseteq> {0..<2 ^ 32}" using dxy by (auto simp: ns_ok_def)
    have "ns_labels (st 0) = ns_labels x - ns_labels y"
    proof -
      have "elems x - elems y \<subseteq> {0..<2 ^ 32}" using sub(1) by (rule order_trans [OF Diff_subset])
      from inj_on_image_set_diff [OF inj_node this sub(2)] show ?thesis
        using st(2) by (simp add: ns_labels_def only_changes_def)
    qed
    moreover have "ns_ok (st 0)" using st(2) sub by (auto simp: only_changes_def ns_ok_def)
    ultimately show ?thesis using st(1) by (simp add: ns_diff_def)
  qed
  show "\<exists>t. ns_copy d x = Inr t \<and> ns_ok t \<and> ns_labels t = ns_labels x" if "ns_ok d" "ns_ok x" for d x
    using Copy_ok [of "\<lambda>p. if p = 0 then d else x" 0 1] that
    by (auto simp: ns_copy_def ns_ok_def ns_labels_def only_changes_def)
  show "set (ns_list s) = ns_labels s" "distinct (ns_list s)" if "ns_ok s" for s
  proof -
    have s: "AppendTo s [] = sorted_list_of_set (elems s)"
      using that by (simp add: AppendTo_eq forEach_sorted_list ns_ok_def)
    show "set (ns_list s) = ns_labels s" using ns_finite [OF that] by (simp add: ns_list_def s ns_labels_def)
    show "distinct (ns_list s)" unfolding ns_list_def s
      using inj_on_subset [OF inj_node, of "elems s"] that ns_finite [OF that] by (simp add: distinct_map ns_ok_def)
  qed
qed

end
