(* ===== verification/Pointer_Solve.thy ===== *)
theory Pointer_Solve
  imports Pointer_Nodeset
begin

text \<open>
  The solver of the pointer analysis: the constraints of \<^verbatim>\<open>gopta/go/pointer/constraint.go\<close>, the graph of
  \<^verbatim>\<open>analysis.go\<close> and the worklist algorithm of \<^verbatim>\<open>solve.go\<close>. Solver states are shared by the nodes of a
  pointer-equivalence class, so they live on a heap. The types of the analysed program, its method sets
  and the generation of constraints for functions that were not seen before are parameters. The
  constraints of the reflection package are not modelled.
\<close>

section \<open>Constraints\<close>

text \<open>Types, methods, functions, call sites and call-graph nodes are references.\<close>

type_synonym ty = nat
type_synonym fn_ref = nat

datatype constraint =
    AddrC (dst: nodeid) (src: nodeid)
  | CopyC (dst: nodeid) (src: nodeid)
  | LoadC (offs: nodeid) (dst: nodeid) (src: nodeid)
  | StoreC (offs: nodeid) (dst: nodeid) (src: nodeid)
  | OffsetAddrC (offs: nodeid) (dst: nodeid) (src: nodeid)
  | TypeFilterC (filter_typ: ty) (dst: nodeid) (src: nodeid)
  | UntagC (filter_typ: ty) (dst: nodeid) (src: nodeid) (exact: bool)
  | InvokeC (called_method: nat) (iface: nodeid) (params: nodeid) (site: nat) (caller: nat)

fun ptr :: "constraint \<Rightarrow> nodeid" where
  "ptr (AddrC d s) = d"
| "ptr (CopyC d s) = d"
| "ptr (LoadC k d s) = s"
| "ptr (StoreC k d s) = d"
| "ptr (OffsetAddrC k d s) = s"
| "ptr (TypeFilterC t d s) = s"
| "ptr (UntagC t d s e) = s"
| "ptr (InvokeC m i p st cl) = i"

section \<open>The graph\<close>

record object_rec =
  flags :: "32 word"
  obj_size :: "32 word"

definition otTagged :: "32 word" where "otTagged = 1"
definition otIndirect :: "32 word" where "otIndirect = 2"
definition otFunction :: "32 word" where "otFunction = 4"

record solver_state =
  complex :: "constraint list"
  copyTo :: sparse
  pts :: sparse
  prevPTS :: sparse

record node =
  obj :: "object_rec option"
  node_typ :: ty
  solve_ref :: nat

record solver =
  nodes :: "node list"
  sol :: "nat \<Rightarrow> solver_state"
  constraints :: "constraint list"
  work :: sparse
  globalobj :: "fn_ref \<Rightarrow> nodeid"
  ptsLimit :: int
  skipIDs :: "nodeid set"
  skipNewFn :: bool

text \<open>What the solver asks of the type checker, the SSA program and the constraint generator.\<close>

record env =
  AssignableTo :: "ty \<Rightarrow> ty \<Rightarrow> bool"
  Identical :: "ty \<Rightarrow> ty \<Rightarrow> bool"
  is_pointer :: "ty \<Rightarrow> bool"
  sizeof :: "ty \<Rightarrow> 32 word"
  LookupMethod :: "ty \<Rightarrow> nat \<Rightarrow> fn_ref option"
  recv_size :: "fn_ref \<Rightarrow> 32 word"
  params_size :: "fn_ref \<Rightarrow> 32 word"
  results_size :: "fn_ref \<Rightarrow> 32 word"
  genMissingFn :: "fn_ref \<Rightarrow> nat \<Rightarrow> nat \<Rightarrow> solver \<Rightarrow> (nodeid \<times> solver) go_result"
  reflection :: bool
  flagPTSLimit :: int

section \<open>Access to nodes\<close>

definition get_node :: "nodeid \<Rightarrow> solver \<Rightarrow> node go_result" where
  "get_node nid a = nth_go (nodes a) (uint nid)"

definition ref_of :: "nodeid \<Rightarrow> solver \<Rightarrow> nat go_result" where
  "ref_of nid a = bindR (get_node nid a) (\<lambda>n. Inr (solve_ref n))"

definition set_sol :: "nat \<Rightarrow> solver_state \<Rightarrow> solver \<Rightarrow> solver" where
  "set_sol r s a = a\<lparr>sol := (sol a)(r := s)\<rparr>"

text \<open>\<^verbatim>\<open>a.nodes[ptr].solve.pts.add(label)\<close>\<close>

definition addLabel :: "nodeid \<Rightarrow> nodeid \<Rightarrow> solver \<Rightarrow> (bool \<times> solver) go_result" where
  "addLabel p label a =
     bindR (ref_of p a) (\<lambda>r.
     bindR (ns_add (pts (sol a r)) label) (\<lambda>(s, b). Inr (b, set_sol r ((sol a r)\<lparr>pts := s\<rparr>) a)))"

definition addWork :: "nodeid \<Rightarrow> solver \<Rightarrow> solver go_result" where
  "addWork nid a = bindR (ns_add (work a) nid) (\<lambda>(w, _). Inr (a\<lparr>work := w\<rparr>))"

text \<open>\<^verbatim>\<open>taggedValue\<close> of \<^verbatim>\<open>gen.go\<close>: the dynamic type, the payload and whether it is indirect.\<close>

definition taggedValue :: "nodeid \<Rightarrow> solver \<Rightarrow> (ty \<times> nodeid \<times> bool) go_result" where
  "taggedValue x a =
     bindR (get_node x a) (\<lambda>n.
       case obj n of
         None \<Rightarrow> Inl NilDereference
       | Some ob \<Rightarrow>
           if and (flags ob) otTagged = 0 then Inl (ExplicitPanic ''not a tagged object'')
           else Inr (node_typ n, x + 1, and (flags ob) otIndirect \<noteq> 0))"

definition funcParams :: "nodeid \<Rightarrow> solver \<Rightarrow> nodeid go_result" where
  "funcParams nid a =
     bindR (get_node nid a) (\<lambda>n.
       case obj n of
         None \<Rightarrow> Inl (ExplicitPanic ''not a function object block'')
       | Some ob \<Rightarrow>
           if and (flags ob) otFunction = 0 then Inl (ExplicitPanic ''not a function object block'') else Inr (nid + 1))"

section \<open>Dynamic copy edges\<close>

definition add_edge :: "nodeid \<Rightarrow> nodeid \<Rightarrow> solver \<Rightarrow> (bool \<times> solver) go_result" where
  "add_edge s d a =
     bindR (ref_of s a) (\<lambda>r.
     bindR (ns_add (copyTo (sol a r)) d) (\<lambda>(t, b). Inr (b, set_sol r ((sol a r)\<lparr>copyTo := t\<rparr>) a)))"

text \<open>\<^verbatim>\<open>a.nodes[mid].solve.pts.addAll(delta)\<close>, where \<open>same\<close> tells that \<open>delta\<close> is that very set.\<close>

definition add_labels :: "nodeid \<Rightarrow> bool \<Rightarrow> sparse \<Rightarrow> solver \<Rightarrow> (bool \<times> solver) go_result" where
  "add_labels mid same delta a =
     bindR (ref_of mid a) (\<lambda>r.
     bindR (ns_addAll same (pts (sol a r)) delta) (\<lambda>(t, b). Inr (b, set_sol r ((sol a r)\<lparr>pts := t\<rparr>) a)))"

definition onlineCopy :: "nodeid \<Rightarrow> nodeid \<Rightarrow> solver \<Rightarrow> (bool \<times> solver) go_result" where
  "onlineCopy d s a =
     (if d \<noteq> s
      then bindR (add_edge s d a) (\<lambda>(b, a).
             if b
             then bindR (ref_of s a) (\<lambda>rs. bindR (ref_of d a) (\<lambda>rd. add_labels d (rs = rd) (pts (sol a rs)) a))
             else Inr (False, a))
      else Inr (False, a))"

text \<open>\<^verbatim>\<open>onlineCopyN\<close> without its result, which is the width it was given.\<close>

fun onlineCopyN_loop :: "nat \<Rightarrow> nodeid \<Rightarrow> nodeid \<Rightarrow> solver \<Rightarrow> solver go_result" where
  "onlineCopyN_loop 0 d s a = Inr a"
| "onlineCopyN_loop (Suc n) d s a =
     bindR (onlineCopy d s a) (\<lambda>(b, a).
     bindR (if b then addWork d a else Inr a) (onlineCopyN_loop n (d + 1) (s + 1)))"

definition onlineCopyN :: "nodeid \<Rightarrow> nodeid \<Rightarrow> 32 word \<Rightarrow> solver \<Rightarrow> solver go_result" where
  "onlineCopyN d s w a = onlineCopyN_loop (unat w) d s a"

section \<open>The rules of the complex constraints\<close>

fun load_loop :: "nodeid \<Rightarrow> nodeid \<Rightarrow> nodeid list \<Rightarrow> bool \<Rightarrow> solver \<Rightarrow> (bool \<times> solver) go_result" where
  "load_loop k d [] changed a = Inr (changed, a)"
| "load_loop k d (x # xs) changed a =
     bindR (onlineCopy d (x + k) a) (\<lambda>(b, a). load_loop k d xs (if b then True else changed) a)"

definition load_solve :: "nodeid \<Rightarrow> nodeid \<Rightarrow> nodeid list \<Rightarrow> solver \<Rightarrow> solver go_result" where
  "load_solve k d xs a = bindR (load_loop k d xs False a) (\<lambda>(changed, a). if changed then addWork d a else Inr a)"

fun store_solve :: "nodeid \<Rightarrow> nodeid \<Rightarrow> nodeid list \<Rightarrow> solver \<Rightarrow> solver go_result" where
  "store_solve k s [] a = Inr a"
| "store_solve k s (x # xs) a =
     bindR (onlineCopy (x + k) s a) (\<lambda>(b, a).
     bindR (if b then addWork (x + k) a else Inr a) (store_solve k s xs))"

text \<open>\<^verbatim>\<open>if add(label) \{ addWork(dst) \}\<close>\<close>

definition add_and_work :: "nodeid \<Rightarrow> nodeid \<Rightarrow> solver \<Rightarrow> solver go_result" where
  "add_and_work d label a = bindR (addLabel d label a) (\<lambda>(b, a). if b then addWork d a else Inr a)"

fun offsetAddr_loop :: "nodeid \<Rightarrow> nodeid \<Rightarrow> nodeid list \<Rightarrow> solver \<Rightarrow> solver go_result" where
  "offsetAddr_loop k d [] a = Inr a"
| "offsetAddr_loop k d (x # xs) a = bindR (add_and_work d (x + k) a) (offsetAddr_loop k d xs)"

definition offsetAddr_solve :: "nodeid \<Rightarrow> nodeid \<Rightarrow> nodeid list \<Rightarrow> solver \<Rightarrow> solver go_result" where
  "offsetAddr_solve k d xs a = bindR (get_node d a) (\<lambda>_. offsetAddr_loop k d xs a)"

text \<open>With reflection, the first assignable object whose filter is no pointer type ends the loop.\<close>

fun typeFilter_solve :: "env \<Rightarrow> ty \<Rightarrow> nodeid \<Rightarrow> nodeid list \<Rightarrow> solver \<Rightarrow> solver go_result" where
  "typeFilter_solve e t d [] a = Inr a"
| "typeFilter_solve e t d (x # xs) a =
     bindR (taggedValue x a) (\<lambda>(tDyn, _, indirect).
       if indirect then Inl (ExplicitPanic ''indirect tagged object'')
       else if \<not> AssignableTo e tDyn t then typeFilter_solve e t d xs a
       else if reflection e \<and> \<not> is_pointer e t then Inr a
       else bindR (add_and_work d x a) (typeFilter_solve e t d xs))"

fun untag_solve :: "env \<Rightarrow> ty \<Rightarrow> nodeid \<Rightarrow> bool \<Rightarrow> nodeid list \<Rightarrow> solver \<Rightarrow> solver go_result" where
  "untag_solve e t d ex [] a = Inr a"
| "untag_solve e t d ex (x # xs) a =
     bindR (taggedValue x a) (\<lambda>(tDyn, v, indirect).
       if indirect then Inl (ExplicitPanic ''indirect tagged object'')
       else bindR (if (if ex then Identical e else AssignableTo e) tDyn t
                   then onlineCopyN d v (sizeof e tDyn) a else Inr a)
              (untag_solve e t d ex xs))"

definition eachSolve :: "env \<Rightarrow> nodeid \<Rightarrow> nodeid \<Rightarrow> fn_ref \<Rightarrow> nodeid \<Rightarrow> solver \<Rightarrow> solver go_result" where
  "eachSolve e ps fnObj f v a =
     bindR (addLabel ps fnObj a) (\<lambda>(_, a).
     bindR (funcParams fnObj a) (\<lambda>arg0.
     bindR (onlineCopyN arg0 v (recv_size e f) a) (\<lambda>a.
       let s = ps + 1; d = arg0 + recv_size e f
       in bindR (onlineCopyN d s (params_size e f) a)
            (onlineCopyN (s + params_size e f) (d + params_size e f) (results_size e f)))))"

text \<open>The object node of the callee: known, generated now, or zero when it is out of scope.\<close>

definition callee_obj :: "env \<Rightarrow> fn_ref \<Rightarrow> nat \<Rightarrow> nat \<Rightarrow> solver \<Rightarrow> (nodeid \<times> solver) go_result" where
  "callee_obj e f cl st a =
     (if globalobj a f = 0 then genMissingFn e f cl st a else Inr (globalobj a f, a))"

fun invoke_solve :: "env \<Rightarrow> nat \<Rightarrow> nodeid \<Rightarrow> nat \<Rightarrow> nat \<Rightarrow> nodeid list \<Rightarrow> solver \<Rightarrow> solver go_result" where
  "invoke_solve e m ps st cl [] a = Inr a"
| "invoke_solve e m ps st cl (x # xs) a =
     bindR (taggedValue x a) (\<lambda>(tDyn, v, indirect).
       if indirect then Inl (ExplicitPanic ''indirect tagged object'')
       else case LookupMethod e tDyn m of
              None \<Rightarrow> Inl (ExplicitPanic ''no ssa.Function'')
            | Some f \<Rightarrow>
                if globalobj a f = 0 \<and> skipNewFn a then Inr a
                else bindR (callee_obj e f cl st a) (\<lambda>(fnObj, a).
                     bindR (if fnObj = 0 then Inr a else eachSolve e ps fnObj f v a)
                       (invoke_solve e m ps st cl xs)))"

definition solve_rule :: "env \<Rightarrow> constraint \<Rightarrow> sparse \<Rightarrow> solver \<Rightarrow> solver go_result" where
  "solve_rule e c delta a =
     (case c of
        AddrC d s \<Rightarrow> Inl (ExplicitPanic ''addr is not a complex constraint'')
      | CopyC d s \<Rightarrow> Inl (ExplicitPanic ''copy is not a complex constraint'')
      | LoadC k d s \<Rightarrow> load_solve k d (ns_list delta) a
      | StoreC k d s \<Rightarrow> store_solve k s (ns_list delta) a
      | OffsetAddrC k d s \<Rightarrow> offsetAddr_solve k d (ns_list delta) a
      | TypeFilterC t d s \<Rightarrow> typeFilter_solve e t d (ns_list delta) a
      | UntagC t d s ex \<Rightarrow> untag_solve e t d ex (ns_list delta) a
      | InvokeC m i ps st cl \<Rightarrow> invoke_solve e m ps st cl (ns_list delta) a)"

section \<open>One node\<close>

fun solve_complex :: "env \<Rightarrow> constraint list \<Rightarrow> sparse \<Rightarrow> solver \<Rightarrow> solver go_result" where
  "solve_complex e [] delta a = Inr a"
| "solve_complex e (c # cs) delta a = bindR (solve_rule e c delta a) (solve_complex e cs delta)"

fun copy_loop :: "nodeid list \<Rightarrow> sparse \<Rightarrow> sparse \<Rightarrow> solver \<Rightarrow> solver go_result" where
  "copy_loop [] copySeen delta a = Inr a"
| "copy_loop (mid # mids) copySeen delta a =
     bindR (ns_add copySeen mid) (\<lambda>(copySeen, fresh).
     bindR (if fresh
            then bindR (add_labels mid False delta a) (\<lambda>(b, a). if b then addWork mid a else Inr a)
            else Inr a)
       (copy_loop mids copySeen delta))"

definition solveConstraints :: "env \<Rightarrow> nat \<Rightarrow> sparse \<Rightarrow> solver \<Rightarrow> solver go_result" where
  "solveConstraints e r delta a =
     (if ns_IsEmpty delta then Inr a
      else bindR (solve_complex e (complex (sol a r)) delta a) (\<lambda>a.
           copy_loop (ns_list (copyTo (sol a r))) [] delta a))"

section \<open>New constraints\<close>

definition add_base :: "constraint \<Rightarrow> solver \<Rightarrow> solver go_result" where
  "add_base c a =
     (case c of
        AddrC d s \<Rightarrow>
          bindR (addLabel d s a) (\<lambda>(_, a).
          bindR (ref_of d a) (\<lambda>r.
            if \<not> ns_IsEmpty (copyTo (sol a r)) \<or> complex (sol a r) \<noteq> [] then addWork d a else Inr a))
      | _ \<Rightarrow> Inr a)"

fun add_bases :: "constraint list \<Rightarrow> solver \<Rightarrow> solver go_result" where
  "add_bases [] a = Inr a"
| "add_bases (c # cs) a = bindR (add_base c a) (add_bases cs)"

text \<open>\<^verbatim>\<open>if n := a.nodes[id]; !n.solve.pts.IsEmpty() \{ ... \}\<close>\<close>

definition note_stale :: "nodeid \<Rightarrow> sparse \<times> solver \<Rightarrow> (sparse \<times> solver) go_result" where
  "note_stale nid s =
     bindR (ref_of nid (snd s)) (\<lambda>r.
       if ns_IsEmpty (pts (sol (snd s) r)) then Inr s
       else bindR (if ns_IsEmpty (prevPTS (sol (snd s) r)) then Inr (fst s)
                   else bindR (ns_add (fst s) nid) (\<lambda>(t, _). Inr t)) (\<lambda>stale.
            bindR (addWork nid (snd s)) (\<lambda>a. Inr (stale, a))))"

definition attach :: "constraint \<Rightarrow> sparse \<times> solver \<Rightarrow> (sparse \<times> solver) go_result" where
  "attach c s =
     (case c of
        AddrC _ _ \<Rightarrow> Inr s
      | CopyC d sr \<Rightarrow> bindR (add_edge sr d (snd s)) (\<lambda>(_, a). note_stale sr (fst s, a))
      | _ \<Rightarrow>
          bindR (ref_of (ptr c) (snd s)) (\<lambda>r.
            let q = sol (snd s) r
            in note_stale (ptr c) (fst s, set_sol r (q\<lparr>complex := complex q @ [c]\<rparr>) (snd s))))"

fun attach_all :: "constraint list \<Rightarrow> sparse \<times> solver \<Rightarrow> (sparse \<times> solver) go_result" where
  "attach_all [] s = Inr s"
| "attach_all (c # cs) s = bindR (attach c s) (attach_all cs)"

fun solve_stale :: "env \<Rightarrow> nodeid list \<Rightarrow> solver \<Rightarrow> solver go_result" where
  "solve_stale e [] a = Inr a"
| "solve_stale e (nid # ids) a =
     bindR (ref_of nid a) (\<lambda>r.
     bindR (solveConstraints e r (prevPTS (sol a r)) a) (solve_stale e ids))"

definition processNewConstraints :: "env \<Rightarrow> solver \<Rightarrow> solver go_result" where
  "processNewConstraints e a =
     (let cs = constraints a
      in bindR (add_bases cs (a\<lparr>constraints := []\<rparr>)) (\<lambda>a.
         bindR (attach_all cs ([], a)) (\<lambda>(stale, a). solve_stale e (ns_list stale) a)))"

section \<open>The main loops\<close>

text \<open>
  One round of the loop: \<^const>\<open>None\<close> when the worklist is empty. \<open>delta\<close> is the set variable declared
  outside the loop.
\<close>

definition take_work :: "solver \<Rightarrow> (nodeid \<times> solver) option go_result" where
  "take_work a = bindR (TakeMin (work a)) (\<lambda>r. Inr (map_option (\<lambda>(x, w). (word_of_int x, a\<lparr>work := w\<rparr>)) r))"

definition default_node :: "env \<Rightarrow> nodeid \<Rightarrow> sparse \<times> solver \<Rightarrow> (sparse \<times> solver) go_result" where
  "default_node e nid s =
     bindR (ref_of nid (snd s)) (\<lambda>r. let q = sol (snd s) r in
     bindR (ns_diff (fst s) (pts q) (prevPTS q)) (\<lambda>delta.
       if ns_IsEmpty delta then Inr (delta, snd s)
       else bindR (ns_copy (prevPTS q) (pts q)) (\<lambda>prev.
            bindR (solveConstraints e r delta (set_sol r (q\<lparr>prevPTS := prev\<rparr>) (snd s))) (\<lambda>a. Inr (delta, a)))))"

definition default_round :: "env \<Rightarrow> sparse \<times> solver \<Rightarrow> ((sparse \<times> solver) option \<times> solver) go_result" where
  "default_round e s =
     bindR (processNewConstraints e (snd s)) (\<lambda>a.
     bindR (take_work a) (\<lambda>w.
       case w of
         None \<Rightarrow> Inr (None, a)
       | Some (nid, a) \<Rightarrow> bindR (default_node e nid (fst s, a)) (\<lambda>s. Inr (Some s, snd s))))"

partial_function (option) solveDefault :: "env \<Rightarrow> sparse \<times> solver \<Rightarrow> solver go_result option" where
  "solveDefault e s =
     (case default_round e s of
        Inl p \<Rightarrow> Some (Inl p)
      | Inr (None, a) \<Rightarrow> Some (Inr a)
      | Inr (Some s, _) \<Rightarrow> solveDefault e s)"

declare solveDefault.simps [code]

text \<open>With a limit, nodes with many labels are given up; their old labels are forgotten.\<close>

definition limit_node :: "env \<Rightarrow> nodeid \<Rightarrow> sparse \<times> solver \<Rightarrow> (sparse \<times> solver) go_result" where
  "limit_node e nid s =
     (if nid \<in> skipIDs (snd s) then Inr s
      else bindR (ref_of nid (snd s)) (\<lambda>r. let q = sol (snd s) r in
           bindR (ns_diff (fst s) (pts q) (prevPTS q)) (\<lambda>delta.
             if ns_IsEmpty delta then Inr (delta, snd s)
             else if Len False (pts q) \<ge> ptsLimit (snd s)
             then Inr (delta, set_sol r (q\<lparr>prevPTS := []\<rparr>) ((snd s)\<lparr>skipIDs := insert nid (skipIDs (snd s))\<rparr>))
             else bindR (ns_copy (prevPTS q) (pts q)) (\<lambda>prev.
                  bindR (solveConstraints e r delta (set_sol r (q\<lparr>prevPTS := prev\<rparr>) (snd s))) (\<lambda>a.
                    Inr (delta, a))))))"

definition limit_round :: "env \<Rightarrow> sparse \<times> solver \<Rightarrow> ((sparse \<times> solver) option \<times> solver) go_result" where
  "limit_round e s =
     bindR (processNewConstraints e (snd s)) (\<lambda>a.
     bindR (take_work a) (\<lambda>w.
       case w of
         None \<Rightarrow> Inr (None, a)
       | Some (nid, a) \<Rightarrow> bindR (limit_node e nid (fst s, a)) (\<lambda>s. Inr (Some s, snd s))))"

partial_function (option) solveLimit_loop :: "env \<Rightarrow> sparse \<times> solver \<Rightarrow> solver go_result option" where
  "solveLimit_loop e s =
     (case limit_round e s of
        Inl p \<Rightarrow> Some (Inl p)
      | Inr (None, a) \<Rightarrow> Some (Inr a)
      | Inr (Some s, _) \<Rightarrow> solveLimit_loop e s)"

declare solveLimit_loop.simps [code]

definition solveLimit :: "env \<Rightarrow> solver \<Rightarrow> solver go_result option" where
  "solveLimit e a =
     solveLimit_loop e ([], a\<lparr>ptsLimit := flagPTSLimit e, skipIDs := {},
                               skipNewFn := (if length (constraints a) > 5000000 then True else skipNewFn a)\<rparr>)"

text \<open>\<^verbatim>\<open>solve\<close>: the loop, the check on the zero node, and the release of the working state.\<close>

definition release :: "solver \<Rightarrow> solver" where
  "release a =
     a\<lparr>sol := (\<lambda>r. if r \<in> set (map solve_ref (nodes a))
                  then (sol a r)\<lparr>complex := [], copyTo := [], prevPTS := []\<rparr> else sol a r)\<rparr>"

definition finish_solve :: "solver \<Rightarrow> solver go_result" where
  "finish_solve a =
     bindR (ref_of 0 a) (\<lambda>r.
       if \<not> ns_IsEmpty (pts (sol a r)) then Inl (ExplicitPanic ''pts(0) is nonempty'') else Inr (release a))"

definition solve :: "env \<Rightarrow> solver \<Rightarrow> solver go_result option" where
  "solve e a =
     map_option (\<lambda>r. bindR r finish_solve)
       (if flagPTSLimit e = 0 then solveDefault e ([], a) else solveLimit e a)"

end
