(* ===== verification/Pointer_Types.thy ===== *)
theory Pointer_Types
  imports Pointer_Solve
begin

text \<open>
  The nodes of a type: \<^verbatim>\<open>flatten\<close>, \<^verbatim>\<open>sizeof\<close> and \<^verbatim>\<open>offsetOf\<close> of \<^verbatim>\<open>gopta/go/pointer/util.go\<close>. Types
  of the analysed program are references into a store, since named types are cyclic. The recursion of
  \<^verbatim>\<open>flatten\<close> follows arrays, structs and tuples, which Go does not allow to be cyclic; the fuel bounds
  their nesting. The memo table of the code has no counterpart.
\<close>

section \<open>Types\<close>

text \<open>A named type refers to its underlying type; the fields of a struct are variables with types.\<close>

datatype gotype =
    Named ty
  | BasicT
  | SignatureT
  | ChanT
  | MapT
  | InterfaceT
  | SliceT ty
  | PointerT ty
  | TypeParamT
  | UnionT
  | ArrayT ty
  | StructT "(nat \<times> ty) list"
  | TupleT "ty list"

type_synonym ty_store = "ty \<Rightarrow> gotype"

datatype path_op = ElemOp | VarOp nat | IndexOp nat

datatype fieldInfo = FieldInfo (fi_typ: ty) (fi_op: "path_op option") (fi_tail: "fieldInfo option")

definition scalar_info :: "ty \<Rightarrow> fieldInfo" where
  "scalar_info t = FieldInfo t None None"

definition extend_info :: "path_op \<Rightarrow> fieldInfo \<Rightarrow> fieldInfo" where
  "extend_info q fi = FieldInfo (fi_typ fi) (Some q) (Some fi)"

text \<open>\<^verbatim>\<open>Underlying\<close> and \<^verbatim>\<open>types.IsInterface\<close>; the underlying type of a named type is not named.\<close>

definition Underlying :: "ty_store \<Rightarrow> ty \<Rightarrow> ty" where
  "Underlying s t = (case s t of Named u \<Rightarrow> u | _ \<Rightarrow> t)"

definition isInterface :: "ty_store \<Rightarrow> ty \<Rightarrow> bool" where
  "isInterface s t \<longleftrightarrow> s (Underlying s t) = InterfaceT"

section \<open>Flattening\<close>

fun concat_infos :: "(ty \<Rightarrow> fieldInfo list option) \<Rightarrow> (path_op \<times> ty) list \<Rightarrow> fieldInfo list option" where
  "concat_infos f [] = Some []"
| "concat_infos f ((q, t) # ts) =
     (case f t of
        None \<Rightarrow> None
      | Some fs \<Rightarrow> map_option (\<lambda>rest. map (extend_info q) fs @ rest) (concat_infos f ts))"

definition struct_parts :: "(nat \<times> ty) list \<Rightarrow> (path_op \<times> ty) list" where
  "struct_parts fs = map (\<lambda>(v, t). (VarOp v, t)) fs"

definition tuple_parts :: "ty list \<Rightarrow> (path_op \<times> ty) list" where
  "tuple_parts ts = zip (map IndexOp [0..<length ts]) ts"

text \<open>The body of \<^verbatim>\<open>flatten\<close>, with the recursive calls as an argument.\<close>

definition flatten_body :: "(ty \<Rightarrow> fieldInfo list option) \<Rightarrow> ty_store \<Rightarrow> ty \<Rightarrow> fieldInfo list option" where
  "flatten_body f s t =
     (case s t of
        Named u \<Rightarrow> if isInterface s u then Some [scalar_info t] else f u
      | ArrayT u \<Rightarrow> map_option (\<lambda>fs. scalar_info t # map (extend_info ElemOp) fs) (f u)
      | StructT fs \<Rightarrow> map_option (\<lambda>fs. scalar_info t # fs) (concat_infos f (struct_parts fs))
      | TupleT ts \<Rightarrow> (case ts of [u] \<Rightarrow> f u | _ \<Rightarrow> concat_infos f (tuple_parts ts))
      | _ \<Rightarrow> Some [scalar_info t])"

primrec flatten :: "nat \<Rightarrow> ty_store \<Rightarrow> ty \<Rightarrow> fieldInfo list option" where
  "flatten 0 s = (\<lambda>t. None)"
| "flatten (Suc k) s = flatten_body (flatten k s) s"

definition sizeof_ty :: "nat \<Rightarrow> ty_store \<Rightarrow> ty \<Rightarrow> 32 word option" where
  "sizeof_ty k s t = map_option (\<lambda>fs. of_nat (length fs)) (flatten k s t)"

text \<open>\<^verbatim>\<open>offsetOf\<close>: the loop adds the sizes of the first \<open>i\<close> parts; \<^const>\<open>None\<close> when the fuel ends.\<close>

fun sum_sizes :: "nat \<Rightarrow> ty_store \<Rightarrow> nat \<Rightarrow> ty list \<Rightarrow> 32 word \<Rightarrow> 32 word go_result option" where
  "sum_sizes k s 0 ts off = Some (Inr off)"
| "sum_sizes k s (Suc i) [] off = Some (Inl IndexOutOfRange)"
| "sum_sizes k s (Suc i) (t # ts) off =
     (case sizeof_ty k s t of None \<Rightarrow> None | Some w \<Rightarrow> sum_sizes k s i ts (off + w))"

definition offsetOf :: "nat \<Rightarrow> ty_store \<Rightarrow> ty \<Rightarrow> nat \<Rightarrow> 32 word go_result option" where
  "offsetOf k s t i =
     (case s (Underlying s t) of
        TupleT ts \<Rightarrow> sum_sizes k s i ts 0
      | StructT fs \<Rightarrow> sum_sizes k s i (map snd fs) 1
      | _ \<Rightarrow> Some (Inl (ExplicitPanic ''offsetOf'')))"

section \<open>Enough fuel\<close>

text \<open>The types a value of a type contains.\<close>

definition parts_of :: "gotype \<Rightarrow> ty list" where
  "parts_of g =
     (case g of Named u \<Rightarrow> [u] | ArrayT u \<Rightarrow> [u] | StructT fs \<Rightarrow> map snd fs | TupleT ts \<Rightarrow> ts | _ \<Rightarrow> [])"

text \<open>No type contains itself: a rank decreases from a type to its parts.\<close>

definition sized :: "ty_store \<Rightarrow> (ty \<Rightarrow> nat) \<Rightarrow> bool" where
  "sized s r \<longleftrightarrow> (\<forall>t. \<forall>u \<in> set (parts_of (s t)). r u < r t)"

lemma concat_infos_Some: "(\<And>t. t \<in> set (map snd ts) \<Longrightarrow> f t \<noteq> None) \<Longrightarrow> concat_infos f ts \<noteq> None"
proof (induction f ts rule: concat_infos.induct)
  case (2 f q t ts)
  obtain fs where "f t = Some fs" using 2(2) [of t] by auto
  then show ?case using 2(1) [of fs] 2(2) by auto
qed simp

lemma concat_infos_mono: "(\<And>t y. f t = Some y \<Longrightarrow> g t = Some y) \<Longrightarrow> concat_infos f ts = Some x \<Longrightarrow> concat_infos g ts = Some x"
proof (induction f ts arbitrary: x rule: concat_infos.induct)
  case (2 f q t ts)
  obtain fs rest where "f t = Some fs" "concat_infos f ts = Some rest" "x = map (extend_info q) fs @ rest"
    using 2(3) by (auto split: option.splits)
  then show ?case using 2(1) [of fs rest] 2(2) by simp
qed simp

lemma tuple_parts_types: "map snd (tuple_parts ts) = ts" and struct_parts_types: "map snd (struct_parts fs) = map snd fs"
  by (simp_all add: tuple_parts_def struct_parts_def split_def)

lemma flatten_body_mono: "(\<And>t y. f t = Some y \<Longrightarrow> g t = Some y) \<Longrightarrow> flatten_body f s t = Some x \<Longrightarrow> flatten_body g s t = Some x"
  using concat_infos_mono [of f g] unfolding flatten_body_def by (cases "s t") (auto split: list.splits if_splits)

lemma flatten_mono: "flatten k s t = Some fs \<Longrightarrow> flatten (Suc k) s t = Some fs"
proof (induction k arbitrary: t fs)
  case (Suc k)
  from flatten_body_mono [of "flatten k s" "flatten (Suc k) s", OF Suc.IH] show ?case using Suc.prems by simp
qed simp

lemma flatten_more:
  assumes "flatten k s t = Some fs" "k \<le> k'"
  shows "flatten k' s t = Some fs"
  using assms(2,1) flatten_mono by (induction k' rule: dec_induct) auto

lemma flatten_body_total: "(\<And>u. u \<in> set (parts_of (s t)) \<Longrightarrow> f u \<noteq> None) \<Longrightarrow> flatten_body f s t \<noteq> None"
proof -
  assume p: "\<And>u. u \<in> set (parts_of (s t)) \<Longrightarrow> f u \<noteq> None"
  have c: "concat_infos f ts \<noteq> None" if "set (map snd ts) \<subseteq> set (parts_of (s t))" for ts
    by (rule concat_infos_Some) (use p that in auto)
  show ?thesis
  proof (cases "s t")
    case (TupleT ts)
    then show ?thesis using p c [of "tuple_parts ts"] by (auto simp: parts_of_def tuple_parts_types flatten_body_def split: list.splits)
  next
    case (StructT fs)
    then show ?thesis using c [of "struct_parts fs"] by (auto simp: parts_of_def struct_parts_types flatten_body_def)
  qed (use p in \<open>auto simp: parts_of_def flatten_body_def\<close>)
qed

lemma flatten_total:
  assumes "sized s r"
  shows "r t < k \<Longrightarrow> flatten k s t \<noteq> None"
proof (induction k arbitrary: t)
  case (Suc k)
  have "flatten k s u \<noteq> None" if "u \<in> set (parts_of (s t))" for u
    using Suc.IH [of u] Suc.prems assms that by (force simp: sized_def)
  then show ?case using flatten_body_total [of s t "flatten k s"] by simp
qed simp

section \<open>Fields\<close>

lemma concat_infos_nth:
  assumes "concat_infos f ts = Some x" "i < length ts" "f (snd (ts ! i)) = Some fs"
  shows "\<exists>us ws. x = us @ map (extend_info (fst (ts ! i))) fs @ ws \<and>
    length us = sum_list (map (\<lambda>t. length (the (f (snd t)))) (take i ts))"
  using assms
proof (induction f ts arbitrary: i x rule: concat_infos.induct)
  case (2 f q t ts)
  obtain gs rest where g: "f t = Some gs" "concat_infos f ts = Some rest" "x = map (extend_info q) gs @ rest"
    using 2(2) by (auto split: option.splits)
  show ?case
  proof (cases i)
    case 0
    then show ?thesis using g 2(4) by auto
  next
    case (Suc j)
    obtain us ws where "rest = us @ map (extend_info (fst (ts ! j))) fs @ ws"
        "length us = sum_list (map (\<lambda>t. length (the (f (snd t)))) (take j ts))"
      using 2(1) [OF g(1,2), of j] 2(3,4) Suc by auto
    then show ?thesis using g Suc by (intro exI [of _ "map (extend_info q) gs @ us"] exI [of _ ws]) simp
  qed
qed simp

lemma sum_sizes_total:
  assumes "\<And>t. t \<in> set ts \<Longrightarrow> flatten k s t \<noteq> None" "i \<le> length ts"
  shows "sum_sizes k s i ts off = Some (Inr (off + of_nat (sum_list (map (\<lambda>t. length (the (flatten k s t))) (take i ts)))))"
  using assms
proof (induction k s i ts off rule: sum_sizes.induct)
  case (3 k s i t ts off)
  obtain fs where fs: "flatten k s t = Some fs" using 3(2) [of t] by auto
  then show ?case using 3(1) [of "of_nat (length fs)"] 3(2,3) by (simp add: sizeof_ty_def add.assoc)
qed simp_all

text \<open>A type and its underlying struct have the same nodes.\<close>

lemma flatten_underlying:
  assumes "sized s r" "s (Underlying s t) = StructT fs" "r t < k"
  shows "flatten k s t = flatten k s (Underlying s t) \<and> r (Underlying s t) \<le> r t"
proof (cases "s t")
  case (Named u)
  have u: "Underlying s t = u" "s u = StructT fs" using Named assms(2) by (simp_all add: Underlying_def)
  have l: "r u < r t" using assms(1) Named by (fastforce simp: sized_def parts_of_def)
  obtain k' where k': "k = Suc k'" "r u < k'" using assms(3) l by (cases k) auto
  obtain X where X: "flatten k' s u = Some X" using flatten_total [OF assms(1) k'(2)] by auto
  have "\<not> isInterface s u" using u by (simp add: isInterface_def Underlying_def)
  then show ?thesis using X flatten_mono [OF X] Named k'(1) u(1) l by (simp add: flatten_body_def)
qed (use assms in \<open>simp_all add: Underlying_def\<close>)

lemma field_block:
  assumes r: "sized s r" and t: "s (Underlying s t) = StructT fs" and i: "i < length fs" and k: "r t < k"
    and X: "flatten k s t = Some X" "length X < 2 ^ 32" and F: "flatten k s (snd (fs ! i)) = Some F"
  shows "\<exists>off. offsetOf k s t i = Some (Inr off) \<and> unat off + length F \<le> length X \<and>
    take (length F) (drop (unat off) X) = map (extend_info (VarOp (fst (fs ! i)))) F"
proof -
  let ?u = "Underlying s t" and ?len = "\<lambda>f t. length (the (flatten f s t))"
  obtain k' where k': "k = Suc k'" using k by (cases k) auto
  have u: "flatten k s ?u = Some X" "r ?u < k" using flatten_underlying [OF r t k] X(1) k by auto
  obtain Y where Y: "X = scalar_info ?u # Y" "concat_infos (flatten k' s) (struct_parts fs) = Some Y"
    using u(1) t by (auto simp: k' flatten_body_def)
  have small: "flatten k' s (snd f) \<noteq> None \<and> flatten k s (snd f) = flatten k' s (snd f)" if "f \<in> set fs" for f
  proof -
    have "snd f \<in> set (parts_of (s ?u))" using that t by (simp add: parts_of_def)
    then have "r (snd f) < r ?u" using r by (simp add: sized_def)
    then have "flatten k' s (snd f) \<noteq> None" using u(2) k' flatten_total [OF r, of "snd f" k'] by simp
    then show ?thesis using flatten_mono k' by (cases "flatten k' s (snd f)") auto
  qed
  have Fi: "flatten k' s (snd (struct_parts fs ! i)) = Some F" "fst (struct_parts fs ! i) = VarOp (fst (fs ! i))" "i < length (struct_parts fs)"
    using F i small [of "fs ! i"] by (simp_all add: struct_parts_def split_def)
  obtain us ws where s: "Y = us @ map (extend_info (VarOp (fst (fs ! i)))) F @ ws"
      "length us = sum_list (map (\<lambda>t. ?len k' (snd t)) (take i (struct_parts fs)))"
    using concat_infos_nth [OF Y(2) Fi(3,1)] Fi(2) by auto
  have e: "map (\<lambda>t. ?len k' (snd t)) (take i (struct_parts fs)) = map (\<lambda>t. ?len k t) (take i (map snd fs))"
    unfolding struct_parts_def take_map [symmetric] by (auto simp: split_def take_map dest!: in_set_takeD small)
  have "sum_sizes k s i (map snd fs) 1 = Some (Inr (1 + of_nat (length us)))"
    using sum_sizes_total [of "map snd fs" k s i 1] small i unfolding s(2) e by force
  then have "offsetOf k s t i = Some (Inr (of_nat (Suc (length us))))" using t by (simp add: offsetOf_def)
  moreover have "unat (of_nat (Suc (length us)) :: 32 word) = Suc (length us)" using X(2) Y(1) s(1) by (simp add: unat_of_nat del: of_nat_Suc)
  ultimately show ?thesis using Y(1) s(1) by auto
qed

end
