(* ===== verification/Pointer_Context.thy ===== *)
theory Pointer_Context
  imports Pointer_Solve
begin

text \<open>
  Calling contexts of the pointer analysis: call sites and call-graph nodes of
  \<^verbatim>\<open>gopta/go/pointer/callgraph.go\<close>, the comparisons between call sites, the match of a context with a
  goroutine (\<^verbatim>\<open>api.go\<close>), and the tests of \<^verbatim>\<open>gen.go\<close> whether a context exists already. Call sites are
  mutable and shared by call-graph nodes, so they live on a heap; contexts are slices that may be nil and
  may hold nil pointers. The text of instructions and functions is a parameter.
\<close>

section \<open>Data\<close>

record callsite =
  targets :: nodeid
  instr :: "nat option"
  loopID :: int
  goInstr :: "nat option"

type_synonym site_heap = "nat \<Rightarrow> callsite"
type_synonym site_ptr = "nat option"
type_synonym ctx = "site_ptr list option"

record cgnode =
  cg_fn :: fn_ref
  cg_obj :: nodeid
  sites :: "nat list"
  callersite :: ctx
  cg_idx :: int
  actualCallerSite :: "ctx list option"
  localval :: "(nat \<times> nodeid) list option"
  localobj :: "(nat \<times> nodeid) list option"

record call_text =
  instr_String :: "nat \<Rightarrow> string"
  Parent_String :: "nat \<Rightarrow> string"

text \<open>The elements of a slice, none when it is nil.\<close>

definition slice :: "'a list option \<Rightarrow> 'a list" where
  "slice s = (case s of None \<Rightarrow> [] | Some xs \<Rightarrow> xs)"

section \<open>Comparing call sites\<close>

definition equal_site :: "call_text \<Rightarrow> site_heap \<Rightarrow> site_ptr \<Rightarrow> site_ptr \<Rightarrow> bool" where
  "equal_site t h c o' =
     (case (c, o') of
        (None, None) \<Rightarrow> True
      | (None, Some _) \<Rightarrow> False
      | (Some _, None) \<Rightarrow> False
      | (Some x, Some y) \<Rightarrow>
          (case (instr (h x), instr (h y)) of
             (None, None) \<Rightarrow> targets (h x) = targets (h y) \<and> loopID (h x) = loopID (h y)
           | (None, Some _) \<Rightarrow> False
           | (Some _, None) \<Rightarrow> False
           | (Some i, Some j) \<Rightarrow>
               instr_String t i = instr_String t j \<and> Parent_String t i = Parent_String t j \<and>
               loopID (h x) = loopID (h y)))"

definition loopEqual :: "call_text \<Rightarrow> site_heap \<Rightarrow> site_ptr \<Rightarrow> site_ptr \<Rightarrow> bool" where
  "loopEqual t h c o' =
     (case (c, o') of
        (None, None) \<Rightarrow> True
      | (None, Some _) \<Rightarrow> False
      | (Some _, None) \<Rightarrow> False
      | (Some x, Some y) \<Rightarrow>
          (case (instr (h x), instr (h y)) of
             (None, None) \<Rightarrow> targets (h x) = targets (h y) \<and> loopID (h x) = 0
           | (None, Some _) \<Rightarrow> False
           | (Some _, None) \<Rightarrow> False
           | (Some i, Some j) \<Rightarrow>
               instr_String t i = instr_String t j \<and> Parent_String t i = Parent_String t j \<and> loopID (h x) = 0))"

definition relaxEqual :: "call_text \<Rightarrow> site_heap \<Rightarrow> site_ptr \<Rightarrow> site_ptr \<Rightarrow> bool" where
  "relaxEqual t h c o' =
     (case (c, o') of
        (None, None) \<Rightarrow> True
      | (None, Some _) \<Rightarrow> False
      | (Some _, None) \<Rightarrow> False
      | (Some x, Some y) \<Rightarrow>
          (case (instr (h x), instr (h y)) of
             (None, None) \<Rightarrow> True
           | (None, Some _) \<Rightarrow> False
           | (Some _, None) \<Rightarrow> False
           | (Some i, Some j) \<Rightarrow> instr_String t i = instr_String t j))"

text \<open>The second test of the code asks for the receiver twice.\<close>

definition goEqual :: "site_heap \<Rightarrow> site_ptr \<Rightarrow> site_ptr \<Rightarrow> bool" where
  "goEqual h c o' =
     (case (c, o') of
        (Some x, Some y) \<Rightarrow>
          (if goInstr (h x) = None \<and> goInstr (h y) = None then False
           else if goInstr (h x) = None \<or> goInstr (h x) = None then False
           else goInstr (h x) = goInstr (h y))
      | _ \<Rightarrow> False)"

definition GetLoopID :: "site_heap \<Rightarrow> site_ptr \<Rightarrow> int" where
  "GetLoopID h c = (case c of None \<Rightarrow> -1 | Some x \<Rightarrow> loopID (h x))"

fun equal_prefix :: "call_text \<Rightarrow> site_heap \<Rightarrow> site_ptr list \<Rightarrow> site_ptr list \<Rightarrow> bool" where
  "equal_prefix t h (a # as) (b # bs) = (if \<not> equal_site t h a b then False else equal_prefix t h as bs)"
| "equal_prefix t h _ _ = True"

definition equalCallSite :: "call_text \<Rightarrow> site_heap \<Rightarrow> ctx \<Rightarrow> ctx \<Rightarrow> bool" where
  "equalCallSite t h a b =
     (if length (slice a) \<noteq> length (slice b) then False else equal_prefix t h (slice a) (slice b))"

section \<open>Call-graph nodes\<close>

definition IsSharedContour :: "cgnode \<Rightarrow> bool" where
  "IsSharedContour n \<longleftrightarrow> (case slice (callersite n) of [] \<Rightarrow> True | c # _ \<Rightarrow> c = None)"

definition updateActualCallerSite :: "call_text \<Rightarrow> site_heap \<Rightarrow> ctx \<Rightarrow> cgnode \<Rightarrow> cgnode" where
  "updateActualCallerSite t h cs n =
     (if \<exists>actual \<in> set (slice (actualCallerSite n)). equalCallSite t h actual cs then n
      else n\<lparr>actualCallerSite := Some (slice (actualCallerSite n) @ [cs])\<rparr>)"

definition initLocalMaps :: "cgnode \<Rightarrow> bool \<times> cgnode" where
  "initLocalMaps n =
     (if localval n = None \<and> localobj n = None
      then (False, n\<lparr>localval := Some [], localobj := Some []\<rparr>) else (True, n))"

section \<open>Matching a context with a goroutine\<close>

text \<open>The first call site of a context; indexing an empty slice panics.\<close>

definition first_site :: "ctx \<Rightarrow> site_ptr go_result" where
  "first_site c = nth_go (slice c) 0"

definition site_of :: "site_heap \<Rightarrow> site_ptr \<Rightarrow> callsite go_result" where
  "site_of h p = (case p of None \<Rightarrow> Inl NilDereference | Some x \<Rightarrow> Inr (h x))"

definition first_site_of :: "site_heap \<Rightarrow> ctx \<Rightarrow> callsite go_result" where
  "first_site_of h c = bindR (first_site c) (site_of h)"

fun actual_match :: "site_heap \<Rightarrow> nat option \<Rightarrow> ctx list \<Rightarrow> bool go_result" where
  "actual_match h g [] = Inr False"
| "actual_match h g (c # cs) =
     bindR (first_site c) (\<lambda>p.
       case p of
         None \<Rightarrow> Inr False
       | Some x \<Rightarrow> if goInstr (h x) = g then Inr True else actual_match h g cs)"

text \<open>A context without a call site: the nil slice, or a nil first element.\<close>

definition no_site :: "ctx \<Rightarrow> bool go_result" where
  "no_site c = (if c = None then Inr True else bindR (first_site c) (\<lambda>p. Inr (p = None)))"

definition matchMyContext :: "site_heap \<Rightarrow> cgnode \<Rightarrow> nat option \<Rightarrow> bool go_result" where
  "matchMyContext h n g =
     bindR (if g = None \<and> callersite n \<noteq> None then bindR (first_site (callersite n)) (\<lambda>p. Inr (p = None)) else Inr False) (\<lambda>shared.
       if shared then Inr True
       else bindR (no_site (callersite n)) (\<lambda>none.
         if none then Inr False
         else bindR (first_site_of h (callersite n)) (\<lambda>s.
           if goInstr s = g then Inr True
           else if actualCallerSite n = None then Inr False
           else actual_match h g (slice (actualCallerSite n)))))"

text \<open>The parts of the analysis and its result that the methods of a pointer read.\<close>

record match_env =
  isMain :: bool
  result_main :: "cgnode option"

fun actual_match_loop :: "site_heap \<Rightarrow> nat option \<Rightarrow> int \<Rightarrow> ctx list \<Rightarrow> bool go_result" where
  "actual_match_loop h g l [] = Inr False"
| "actual_match_loop h g l (c # cs) =
     bindR (no_site c) (\<lambda>none.
       if none then actual_match_loop h g l cs
       else bindR (first_site_of h c) (\<lambda>s.
         if goInstr s = g \<and> (l = 0 \<or> loopID s = l) then Inr True else actual_match_loop h g l cs))"

definition matches_main :: "match_env \<Rightarrow> site_heap \<Rightarrow> ctx \<Rightarrow> ctx \<Rightarrow> bool go_result" where
  "matches_main e h c testMainCtx =
     bindR (if isMain e
            then case result_main e of None \<Rightarrow> Inl NilDereference | Some m \<Rightarrow> first_site_of h (callersite m)
            else first_site_of h testMainCtx) (\<lambda>m.
     bindR (first_site_of h c) (\<lambda>s. Inr (targets s = targets m)))"

definition pointer_unbound :: "cgnode option \<Rightarrow> bool go_result" where
  "pointer_unbound n = (case n of None \<Rightarrow> Inr True | Some n \<Rightarrow> no_site (callersite n))"

definition MatchMyContext :: "match_env \<Rightarrow> site_heap \<Rightarrow> cgnode option \<Rightarrow> nat option \<Rightarrow> ctx \<Rightarrow> bool go_result" where
  "MatchMyContext e h pn g testMainCtx =
     bindR (pointer_unbound pn) (\<lambda>unbound.
       case pn of
         None \<Rightarrow> Inr (g = None)
       | Some n \<Rightarrow>
           if unbound then Inr (g = None)
           else if g = None then matches_main e h (callersite n) testMainCtx
           else bindR (first_site_of h (callersite n)) (\<lambda>s.
             if goInstr s = g then Inr True
             else if actualCallerSite n = None then Inr False
             else actual_match_loop h g 0 (slice (actualCallerSite n))))"

definition MatchMyContextWithLoopID :: "match_env \<Rightarrow> site_heap \<Rightarrow> cgnode option \<Rightarrow> nat option \<Rightarrow> int \<Rightarrow> ctx \<Rightarrow> bool go_result" where
  "MatchMyContextWithLoopID e h pn g l testMainCtx =
     bindR (pointer_unbound pn) (\<lambda>unbound.
       case pn of
         None \<Rightarrow> Inr (g = None \<and> l = 0)
       | Some n \<Rightarrow>
           if unbound then Inr (g = None \<and> l = 0)
           else if g = None then matches_main e h (callersite n) testMainCtx
           else bindR (first_site_of h (callersite n)) (\<lambda>s.
             if goInstr s = g then Inr (l = 0 \<or> loopID s = l)
             else if actualCallerSite n = None then Inr False
             else actual_match_loop h g l (slice (actualCallerSite n))))"

definition GetMyGoAndLoopID :: "site_heap \<Rightarrow> cgnode option \<Rightarrow> (nat option \<times> int) go_result" where
  "GetMyGoAndLoopID h pn =
     bindR (pointer_unbound pn) (\<lambda>unbound.
       case pn of
         None \<Rightarrow> Inr (None, -1)
       | Some n \<Rightarrow>
           if unbound then Inr (None, -1)
           else bindR (first_site_of h (callersite n)) (\<lambda>s. Inr (goInstr s, loopID s)))"

end
