(* ===== verification/Pointer_Steps.thy ===== *)
theory Pointer_Steps
  imports Pointer_Solve
begin

text \<open>
  What the operations of the solver keep. \<open>grows\<close> says that nodes, labels, edges and the worklist only
  get larger; \<open>tracked\<close> that every set of labels that grew is on the worklist or pending, and that a new
  edge has carried over the labels of its source. Both compose, so each operation is treated once.
\<close>

section \<open>Views of the state\<close>

definition is_node :: "solver \<Rightarrow> nodeid \<Rightarrow> bool" where
  "is_node a n \<longleftrightarrow> unat n < length (nodes a)"

definition rf :: "solver \<Rightarrow> nodeid \<Rightarrow> nat" where
  "rf a n = solve_ref (nodes a ! unat n)"

definition Lb :: "solver \<Rightarrow> nat \<Rightarrow> nodeid set" where
  "Lb a r = ns_labels (pts (sol a r))"

definition Ed :: "solver \<Rightarrow> nat \<Rightarrow> nodeid set" where
  "Ed a r = ns_labels (copyTo (sol a r))"

definition Pv :: "solver \<Rightarrow> nat \<Rightarrow> nodeid set" where
  "Pv a r = ns_labels (prevPTS (sol a r))"

definition Cx :: "solver \<Rightarrow> nat \<Rightarrow> constraint set" where
  "Cx a r = set (complex (sol a r))"

text \<open>The solver states of the nodes on the worklist.\<close>

definition Wk :: "solver \<Rightarrow> nat set" where
  "Wk a = rf a ` {n \<in> ns_labels (work a). is_node a n}"

definition sets_ok :: "solver \<Rightarrow> bool" where
  "sets_ok a \<longleftrightarrow> ns_ok (work a) \<and> (\<forall>r. ns_ok (pts (sol a r)) \<and> ns_ok (copyTo (sol a r)) \<and> ns_ok (prevPTS (sol a r)))"

definition edge :: "solver \<Rightarrow> nodeid \<Rightarrow> nodeid \<Rightarrow> bool" where
  "edge a s d \<longleftrightarrow> d = s \<or> (is_node a s \<and> d \<in> Ed a (rf a s))"

definition has_label :: "solver \<Rightarrow> nodeid \<Rightarrow> nodeid \<Rightarrow> bool" where
  "has_label a n k \<longleftrightarrow> is_node a n \<and> k \<in> Lb a (rf a n)"

lemma get_node_Inr: "get_node n a = Inr v \<longleftrightarrow> is_node a n \<and> v = nodes a ! unat n"
proof -
  have "nth_go (nodes a) (int i) = Inr v \<longleftrightarrow> i < length (nodes a) \<and> v = nodes a ! i" for i
    by (auto simp: nth_go_def)
  from this [of "unat n"] show ?thesis unfolding get_node_def is_node_def by (simp only: uint_nat)
qed

lemma ref_of_Inr: "ref_of n a = Inr r \<longleftrightarrow> is_node a n \<and> r = rf a n"
  by (auto simp: ref_of_def bindR_eq_Inr_iff get_node_Inr rf_def)

section \<open>Growth\<close>

text \<open>The nodes the constraint generator may add come at the end.\<close>

definition grows :: "solver \<Rightarrow> solver \<Rightarrow> bool" where
  "grows a b \<longleftrightarrow>
     sets_ok b \<and> (\<exists>ns. nodes b = nodes a @ ns) \<and>
     (\<forall>r. complex (sol b r) = complex (sol a r)) \<and> (\<forall>r. prevPTS (sol b r) = prevPTS (sol a r)) \<and>
     (\<forall>r. Lb a r \<subseteq> Lb b r \<and> Ed a r \<subseteq> Ed b r) \<and> ns_labels (work a) \<subseteq> ns_labels (work b) \<and>
     skipNewFn b = skipNewFn a \<and> (\<exists>cs. constraints b = constraints a @ cs)"

lemma grows_refl: "sets_ok a \<Longrightarrow> grows a a"
  by (simp add: grows_def)

lemma grows_trans:
  assumes "grows a b" "grows b c"
  shows "grows a c"
proof -
  have "\<exists>ns. nodes c = nodes a @ ns" "\<exists>cs. constraints c = constraints a @ cs"
    using assms unfolding grows_def by (metis append_assoc)+
  moreover have "Lb a r \<subseteq> Lb c r \<and> Ed a r \<subseteq> Ed c r" for r
    using assms unfolding grows_def by (meson order_trans)
  moreover have "ns_labels (work a) \<subseteq> ns_labels (work c)" using assms unfolding grows_def by (meson order_trans)
  ultimately show ?thesis using assms by (simp add: grows_def)
qed

lemma grows_sets: "grows a b \<Longrightarrow> sets_ok b"
  by (simp add: grows_def)

lemma grows_nodes: "grows a b \<Longrightarrow> is_node a n \<Longrightarrow> is_node b n \<and> rf b n = rf a n"
  by (auto simp: grows_def is_node_def rf_def nth_append)

lemma grows_labels: "grows a b \<Longrightarrow> Lb a r \<subseteq> Lb b r \<and> Ed a r \<subseteq> Ed b r"
  by (simp add: grows_def)

lemma grows_same: "grows a b \<Longrightarrow> Cx b r = Cx a r \<and> Pv b r = Pv a r \<and> complex (sol b r) = complex (sol a r)"
  by (simp add: grows_def Cx_def Pv_def)

lemma grows_work: "grows a b \<Longrightarrow> Wk a \<subseteq> Wk b"
proof
  fix r assume g: "grows a b" "r \<in> Wk a"
  then obtain n where n: "n \<in> ns_labels (work a)" "is_node a n" "r = rf a n" by (auto simp: Wk_def)
  have "n \<in> ns_labels (work b)" using g(1) n(1) unfolding grows_def by blast
  then show "r \<in> Wk b" using grows_nodes [OF g(1) n(2)] n(3) unfolding Wk_def by (intro image_eqI [where x = n]) simp_all
qed

lemma edge_grows: "grows a b \<Longrightarrow> edge a s d \<Longrightarrow> edge b s d"
  using grows_nodes [of a b s] grows_labels [of a b "rf a s"] by (auto simp: edge_def)

lemma has_label_grows: "grows a b \<Longrightarrow> has_label a n k \<Longrightarrow> has_label b n k"
  using grows_nodes [of a b n] grows_labels [of a b "rf a n"] by (auto simp: has_label_def)

section \<open>Tracking\<close>

text \<open>
  \<open>X\<close> are the states that are not tracked: those of the nodes that hold the identity of a callee, to which
  the solver adds labels without putting them on the worklist. \<open>D\<close> are the states whose node is about to
  be put on the worklist.
\<close>

definition okc :: "nat set \<Rightarrow> solver \<Rightarrow> constraint \<Rightarrow> bool" where
  "okc X a c \<longleftrightarrow> (case c of InvokeC _ _ ps _ _ \<Rightarrow> is_node a ps \<and> rf a ps \<in> X | _ \<Rightarrow> True)"

definition carried :: "nat set \<Rightarrow> solver \<Rightarrow> solver \<Rightarrow> nat \<Rightarrow> nodeid \<Rightarrow> bool" where
  "carried D a b q m \<longleftrightarrow>
     is_node b m \<and> Lb a q \<subseteq> Lb b (rf b m) \<and> (q \<in> Wk b \<union> D \<or> Lb b q \<subseteq> Lb b (rf b m))"

definition tracked :: "nat set \<Rightarrow> nat set \<Rightarrow> solver \<Rightarrow> solver \<Rightarrow> bool" where
  "tracked X D a b \<longleftrightarrow>
     (\<forall>q. q \<notin> X \<longrightarrow> Lb b q \<noteq> Lb a q \<longrightarrow> q \<in> Wk b \<union> D) \<and>
     (\<forall>q m. q \<notin> X \<longrightarrow> m \<in> Ed b q \<longrightarrow> m \<notin> Ed a q \<longrightarrow> carried D a b q m) \<and>
     (\<forall>c \<in> set (constraints b) - set (constraints a). okc X b c)"

definition step :: "nat set \<Rightarrow> nat set \<Rightarrow> solver \<Rightarrow> solver \<Rightarrow> bool" where
  "step X D a b \<longleftrightarrow> grows a b \<and> tracked X D a b"

lemma step_grows: "step X D a b \<Longrightarrow> grows a b"
  by (simp add: step_def)

lemma step_sets: "step X D a b \<Longrightarrow> sets_ok b"
  by (rule grows_sets [OF step_grows])

lemma step_refl: "sets_ok a \<Longrightarrow> step X D a a"
  by (simp add: step_def grows_refl tracked_def)

lemma step_weaken: "step X D a b \<Longrightarrow> D \<subseteq> D' \<Longrightarrow> step X D' a b"
  unfolding step_def tracked_def carried_def by blast

lemma okc_grows: "grows a b \<Longrightarrow> okc X a c \<Longrightarrow> okc X b c"
  using grows_nodes [of a b] by (cases c) (auto simp: okc_def)

lemma step_trans:
  assumes "step X D a b" "step X D b c"
  shows "step X D a c"
proof -
  have g: "grows a b" "grows b c" "grows a c" using assms grows_trans by (auto simp: step_def)
  have t: "tracked X D a b" "tracked X D b c" using assms by (simp_all add: step_def)
  have w: "Wk b \<subseteq> Wk c" by (rule grows_work [OF g(2)])
  have L: "Lb a q \<subseteq> Lb b q" "Lb b q \<subseteq> Lb c q" for q
    using grows_labels [OF g(1)] grows_labels [OF g(2)] by blast+
  have c1: "q \<in> Wk c \<union> D" if "q \<notin> X" "Lb c q \<noteq> Lb a q" for q
    using t w that unfolding tracked_def by (cases "Lb b q = Lb a q") blast+
  have c2: "carried D a c q m" if q: "q \<notin> X" "m \<in> Ed c q" "m \<notin> Ed a q" for q m
  proof (cases "m \<in> Ed b q")
    case True
    then have m: "is_node b m" "Lb a q \<subseteq> Lb b (rf b m)" "q \<in> Wk b \<union> D \<or> Lb b q \<subseteq> Lb b (rf b m)"
      using t(1) q unfolding tracked_def carried_def by blast+
    have n: "is_node c m" "rf c m = rf b m" using grows_nodes [OF g(2) m(1)] by simp_all
    have "q \<in> Wk c \<union> D \<or> Lb c q \<subseteq> Lb c (rf c m)"
    proof (cases "Lb c q = Lb b q")
      case True
      then show ?thesis using m(3) n(2) w L(2) [of "rf b m"] by auto
    next
      case False
      then show ?thesis using t(2) q(1) unfolding tracked_def by blast
    qed
    then show ?thesis using n m(2) L(2) [of "rf b m"] unfolding carried_def by auto
  next
    case False
    then have "carried D b c q m" using t(2) q unfolding tracked_def by blast
    then show ?thesis using L(1) [of q] unfolding carried_def by blast
  qed
  have c3: "okc X c cc" if "cc \<in> set (constraints c) - set (constraints a)" for cc
    using t that okc_grows [OF g(2)] unfolding tracked_def by blast
  show ?thesis unfolding step_def tracked_def using g(3) c1 c2 c3 by blast
qed

section \<open>The basic operations\<close>

lemma sets_okD:
  "sets_ok a \<Longrightarrow> ns_ok (work a)" "sets_ok a \<Longrightarrow> ns_ok (pts (sol a r))" "sets_ok a \<Longrightarrow> ns_ok (copyTo (sol a r))"
  "sets_ok a \<Longrightarrow> ns_ok (prevPTS (sol a r))"
  by (simp_all add: sets_ok_def)

text \<open>The views of a state in which one solver state was replaced.\<close>

lemma set_sol_views:
  "is_node (set_sol r q a) n \<longleftrightarrow> is_node a n" "rf (set_sol r q a) n = rf a n"
  "Lb (set_sol r q a) i = (if i = r then ns_labels (pts q) else Lb a i)"
  "Ed (set_sol r q a) i = (if i = r then ns_labels (copyTo q) else Ed a i)"
  "Pv (set_sol r q a) i = (if i = r then ns_labels (prevPTS q) else Pv a i)"
  "Cx (set_sol r q a) i = (if i = r then set (complex q) else Cx a i)"
  "Wk (set_sol r q a) = Wk a" "nodes (set_sol r q a) = nodes a" "work (set_sol r q a) = work a"
  "constraints (set_sol r q a) = constraints a" "skipNewFn (set_sol r q a) = skipNewFn a"
  "globalobj (set_sol r q a) = globalobj a"
  by (simp_all add: set_sol_def is_node_def rf_def Lb_def Ed_def Pv_def Cx_def Wk_def)

lemma set_sol_same: "complex q = complex (sol a r) \<Longrightarrow> complex (sol (set_sol r q a) i) = complex (sol a i)"
  "prevPTS q = prevPTS (sol a r) \<Longrightarrow> prevPTS (sol (set_sol r q a) i) = prevPTS (sol a i)"
  by (simp_all add: set_sol_def)

lemma sets_ok_set_sol:
  "sets_ok a \<Longrightarrow> ns_ok (pts q) \<Longrightarrow> ns_ok (copyTo q) \<Longrightarrow> ns_ok (prevPTS q) \<Longrightarrow> sets_ok (set_sol r q a)"
  by (simp add: sets_ok_def set_sol_def)

text \<open>The labels of a solver state are replaced by more labels.\<close>

lemma step_pts:
  assumes "sets_ok a" "ns_ok t" "Lb a r \<subseteq> ns_labels t" "ns_labels t \<noteq> Lb a r \<longrightarrow> r \<in> D \<union> X"
  shows "step X D a (set_sol r ((sol a r)\<lparr>pts := t\<rparr>) a)"
proof -
  have "sets_ok (set_sol r ((sol a r)\<lparr>pts := t\<rparr>) a)"
    by (rule sets_ok_set_sol) (simp_all add: assms sets_okD)
  moreover have "complex (sol (set_sol r ((sol a r)\<lparr>pts := t\<rparr>) a) i) = complex (sol a i)"
    "prevPTS (sol (set_sol r ((sol a r)\<lparr>pts := t\<rparr>) a) i) = prevPTS (sol a i)" for i
    by (simp_all add: set_sol_same)
  moreover have "Ed (set_sol r ((sol a r)\<lparr>pts := t\<rparr>) a) i = Ed a i" for i
    by (simp add: set_sol_def Ed_def)
  ultimately show ?thesis using assms(3,4)
    by (simp add: step_def grows_def tracked_def set_sol_views) blast
qed

lemma addLabel_step:
  assumes "sets_ok a" "addLabel p k a = Inr (ch, b)" "ch \<longrightarrow> rf a p \<in> D \<union> X"
  shows "step X D a b" "is_node a p" "has_label b p k"
proof -
  obtain t where t: "is_node a p" "ns_add (pts (sol a (rf a p))) k = Inr (t, ch)"
    "b = set_sol (rf a p) ((sol a (rf a p))\<lparr>pts := t\<rparr>) a"
    using assms(2) by (auto simp: addLabel_def bindR_eq_Inr_iff ref_of_Inr split: prod.splits)
  have l: "ns_ok t" "ns_labels t = insert k (Lb a (rf a p))" "ch \<longleftrightarrow> k \<notin> Lb a (rf a p)"
    using ns.add_Inr [OF sets_okD(2) [OF assms(1)] t(2)] by (simp_all add: Lb_def)
  show "step X D a b" unfolding t(3)
    by (rule step_pts [OF assms(1) l(1)]) (use l assms(3) in auto)
  show "is_node a p" "has_label b p k" using t l(2) by (simp_all add: has_label_def set_sol_views)
qed

lemma add_labels_step:
  assumes "sets_ok a" "ns_ok delta" "same \<Longrightarrow> pts (sol a (rf a m)) = delta" "add_labels m same delta a = Inr (ch, b)"
    "ch \<longrightarrow> rf a m \<in> D \<union> X"
  shows "step X D a b" "is_node a m" "Lb b = (Lb a)(rf a m := Lb a (rf a m) \<union> ns_labels delta)"
    "Ed b = Ed a" "\<not> ch \<longrightarrow> Lb b = Lb a" "nodes b = nodes a" "work b = work a"
proof -
  obtain t where t: "is_node a m" "ns_addAll same (pts (sol a (rf a m))) delta = Inr (t, ch)"
    "b = set_sol (rf a m) ((sol a (rf a m))\<lparr>pts := t\<rparr>) a"
    using assms(4) by (auto simp: add_labels_def bindR_eq_Inr_iff ref_of_Inr split: prod.splits)
  have l: "ns_ok t" "ns_labels t = Lb a (rf a m) \<union> ns_labels delta" "\<not> ch \<longrightarrow> ns_labels t = Lb a (rf a m)"
    using ns.addAll_Inr [OF sets_okD(2) [OF assms(1)] assms(2) assms(3) t(2)] unfolding Lb_def by blast+
  show "step X D a b" unfolding t(3)
    by (rule step_pts [OF assms(1) l(1)]) (use l assms(5) in auto)
  show "Ed b = Ed a" by (simp add: t(3) fun_eq_iff set_sol_def Ed_def)
  show "is_node a m" "Lb b = (Lb a)(rf a m := Lb a (rf a m) \<union> ns_labels delta)"
    "\<not> ch \<longrightarrow> Lb b = Lb a" "nodes b = nodes a" "work b = work a"
    using t(1) l by (auto simp: t(3) fun_eq_iff set_sol_views)
qed

lemma addWork_step:
  assumes "step X (insert (rf a n) D) o1 a" "is_node a n" "addWork n a = Inr b"
  shows "step X D o1 b"
proof -
  obtain w where w: "ns_add (work a) n = Inr w" "b = a\<lparr>work := fst w\<rparr>"
    using assms(3) by (auto simp: addWork_def bindR_eq_Inr_iff)
  have s: "sets_ok a" "grows o1 a" "tracked X (insert (rf a n) D) o1 a"
    using assms(1) step_sets [OF assms(1)] by (simp_all add: step_def)
  have l: "ns_ok (fst w)" "ns_labels (fst w) = insert n (ns_labels (work a))"
    using ns.add_Inr [OF sets_okD(1) [OF s(1)]] w(1) by (cases w; simp)+
  have v: "is_node b = is_node a" "rf b = rf a" "Lb b = Lb a" "Ed b = Ed a" "constraints b = constraints a"
    by (simp_all add: w(2) fun_eq_iff is_node_def rf_def Lb_def Ed_def)
  have "work b = fst w" by (simp add: w(2))
  then have k: "Wk b = insert (rf a n) (Wk a)" using assms(2) l(2) by (auto simp: Wk_def v)
  have "grows a b" using s(1) l by (auto simp: grows_def w(2) Lb_def Ed_def sets_ok_def)
  then have g: "grows o1 b" by (rule grows_trans [OF s(2)])
  have c: "carried (insert (rf a n) D) o1 a q m \<longleftrightarrow> carried D o1 b q m" for q m
    unfolding carried_def v k by auto
  have "okc X b = okc X a" by (simp add: fun_eq_iff okc_def v split: constraint.splits)
  then have "tracked X D o1 b" using s(3) unfolding tracked_def v k c by simp
  then show ?thesis using g by (simp add: step_def)
qed

lemma if_addWork_step:
  assumes "step X (if ch then {rf a n} else {}) o1 a" "ch \<longrightarrow> is_node a n"
    "(if ch then addWork n a else Inr a) = Inr b"
  shows "step X {} o1 b"
  using assms addWork_step [of X a n "{}" o1 b] by (auto split: if_splits)

lemma onlineCopy_step:
  assumes "sets_ok a" "onlineCopy d s a = Inr (ch, b)"
  shows "step X (if ch then {rf a d} else {}) a b" "edge b s d" "ch \<longrightarrow> is_node a d" "nodes b = nodes a"
proof -
  have "step X (if ch then {rf a d} else {}) a b \<and> edge b s d \<and> (ch \<longrightarrow> is_node a d) \<and> nodes b = nodes a"
  proof (cases "d = s")
    case True
    then show ?thesis using assms by (simp add: onlineCopy_def edge_def step_refl)
  next
    case False
    let ?r = "rf a s" and ?q = "\<lambda>t. (sol a (rf a s))\<lparr>copyTo := t\<rparr>"
    obtain t e where t: "is_node a s" "ns_add (copyTo (sol a ?r)) d = Inr (t, e)"
      and rest: "(if e then bindR (ref_of s (set_sol ?r (?q t) a)) (\<lambda>rs. bindR (ref_of d (set_sol ?r (?q t) a)) (\<lambda>rd.
          add_labels d (rs = rd) (pts (sol (set_sol ?r (?q t) a) rs)) (set_sol ?r (?q t) a)))
        else Inr (False, set_sol ?r (?q t) a)) = Inr (ch, b)"
      using assms(2) False by (auto simp: onlineCopy_def add_edge_def bindR_eq_Inr_iff ref_of_Inr split: prod.splits if_splits)
    let ?a = "set_sol ?r (?q t) a"
    have l: "ns_ok t" "ns_labels t = insert d (Ed a ?r)" "e \<longleftrightarrow> d \<notin> Ed a ?r"
      using ns.add_Inr [OF sets_okD(3) [OF assms(1)] t(2)] by (simp_all add: Ed_def)
    have s: "sets_ok ?a" by (rule sets_ok_set_sol) (simp_all add: assms l sets_okD)
    have L: "Lb ?a = Lb a" by (simp add: fun_eq_iff set_sol_def Lb_def)
    have E: "Ed ?a = (Ed a)(?r := insert d (Ed a ?r))" using l(2) by (simp add: fun_eq_iff set_sol_views)
    have g: "grows a ?a" using s by (auto simp: grows_def L E set_sol_views set_sol_same)
    have W: "Wk ?a = Wk a" by (simp add: set_sol_views)
    show ?thesis
    proof (cases e)
      case False
      then have "Ed ?a = Ed a" using E l(3) by (simp add: insert_absorb)
      then have "step X {} a ?a" using g unfolding step_def tracked_def L by (simp add: set_sol_views)
      moreover have "edge ?a s d" using t(1) l(2) by (simp add: edge_def set_sol_views)
      moreover have "b = ?a" "\<not> ch" using rest False by auto
      ultimately show ?thesis by (simp add: set_sol_views)
    next
      case True
      then have d: "is_node a d"
        "add_labels d (?r = rf a d) (pts (sol ?a ?r)) ?a = Inr (ch, b)"
        using rest by (auto simp: bindR_eq_Inr_iff ref_of_Inr set_sol_views)
      have ln: "ns_labels (pts (sol ?a ?r)) = Lb a ?r" using L by (simp add: fun_eq_iff Lb_def)
      have al: "step X {rf a d} ?a b" "Lb b = (Lb a)(rf a d := Lb a (rf a d) \<union> Lb a ?r)" "Ed b = Ed ?a"
          "\<not> ch \<longrightarrow> Lb b = Lb a" "nodes b = nodes a" "work b = work a"
        using add_labels_step [OF s sets_okD(2) [OF s] _ d(2), of "{rf a d}" X]
        by (simp_all add: set_sol_views L ln del: fun_upd_apply)
      have k: "constraints b = constraints a"
        using d(2) by (auto simp: add_labels_def bindR_eq_Inr_iff set_sol_views split: prod.splits)
      have v: "is_node b = is_node a" "rf b = rf a" "Wk b = Wk a"
        using al(5,6) by (simp_all add: fun_eq_iff is_node_def rf_def Wk_def)
      have cov: "Lb a (rf a s) \<subseteq> Lb b (rf a d)" by (simp add: al(2))
      have t1: "ch" "q = rf a d" if "Lb b q \<noteq> Lb a q" for q
        using that al(4) by (fastforce, auto simp: al(2) split: if_splits)
      have t2: "Lb b (rf a s) \<subseteq> Lb b (rf a d)" by (auto simp: al(2))
      have "tracked X (if ch then {rf a d} else {}) a b"
        unfolding tracked_def carried_def v k al(3) E using t1 t2 cov d(1) by auto
      then have "step X (if ch then {rf a d} else {}) a b"
        using grows_trans [OF g step_grows [OF al(1)]] by (simp add: step_def)
      moreover have "edge b s d" using t(1) by (simp add: edge_def v al(3) E)
      ultimately show ?thesis using d(1) al(5) by simp
    qed
  qed
  then show "step X (if ch then {rf a d} else {}) a b" "edge b s d" "ch \<longrightarrow> is_node a d" "nodes b = nodes a" by simp_all
qed

section \<open>Copying blocks of nodes\<close>

definition edges :: "solver \<Rightarrow> nat \<Rightarrow> nodeid \<Rightarrow> nodeid \<Rightarrow> bool" where
  "edges a n s d \<longleftrightarrow> (\<forall>i<n. edge a (s + of_nat i) (d + of_nat i))"

lemma edges_grows: "grows a b \<Longrightarrow> edges a n s d \<Longrightarrow> edges b n s d"
  using edge_grows [of a b] by (simp add: edges_def)

lemma edges_Suc: "edges a (Suc n) s d \<longleftrightarrow> edge a s d \<and> edges a n (s + 1) (d + 1)"
proof -
  have "edges a (Suc n) s d \<longleftrightarrow> edge a s d \<and> (\<forall>i<n. edge a (s + of_nat (Suc i)) (d + of_nat (Suc i)))"
    by (simp add: edges_def All_less_Suc2)
  then show ?thesis by (simp add: edges_def add.assoc)
qed

lemma onlineCopyN_loop_step:
  "sets_ok a \<Longrightarrow> onlineCopyN_loop n d s a = Inr b \<Longrightarrow> step X {} a b \<and> edges b n s d"
proof (induction n arbitrary: d s a)
  case 0
  then show ?case by (simp add: step_refl edges_def)
next
  case (Suc n)
  obtain ch a1 a2 where o: "onlineCopy d s a = Inr (ch, a1)"
    "(if ch then addWork d a1 else Inr a1) = Inr a2" "onlineCopyN_loop n (d + 1) (s + 1) a2 = Inr b"
    using Suc.prems(2) by (auto simp: bindR_eq_Inr_iff)
  note c = onlineCopy_step [OF Suc.prems(1) o(1)]
  have r: "rf a1 = rf a" "is_node a1 = is_node a" using c(4) by (simp_all add: fun_eq_iff rf_def is_node_def)
  have n: "ch \<longrightarrow> is_node a1 d" using c(3) r by simp
  have s2: "step X {} a a2" by (rule if_addWork_step [OF _ n o(2)]) (unfold r, rule c(1))
  have s12: "step X {} a1 a2" by (rule if_addWork_step [OF step_refl n o(2)]) (rule step_sets [OF c(1)])
  have e: "edge a2 s d" using c(2) edge_grows [OF step_grows [OF s12]] by simp
  have "step X {} a2 b" "edges b n (s + 1) (d + 1)" using Suc.IH [OF step_sets [OF s2] o(3)] by simp_all
  then show ?case using step_trans [OF s2] edge_grows [OF step_grows _] e by (auto simp: edges_Suc)
qed

lemma onlineCopyN_step: "sets_ok a \<Longrightarrow> onlineCopyN d s w a = Inr b \<Longrightarrow> step X {} a b \<and> edges b (unat w) s d"
  unfolding onlineCopyN_def by (rule onlineCopyN_loop_step)

section \<open>The rules\<close>

definition ty_of :: "solver \<Rightarrow> nodeid \<Rightarrow> ty" where
  "ty_of a k = node_typ (nodes a ! unat k)"

text \<open>The callee \<open>f\<close> with object node \<open>fo\<close> is connected to the call with block \<open>ps\<close> and receiver \<open>v\<close>.\<close>

definition called :: "env \<Rightarrow> solver \<Rightarrow> nodeid \<Rightarrow> fn_ref \<Rightarrow> nodeid \<Rightarrow> nodeid \<Rightarrow> bool" where
  "called e a ps f fo v \<longleftrightarrow>
     has_label a ps fo \<and> edges a (unat (recv_size e f)) v (fo + 1) \<and>
     edges a (unat (params_size e f)) (ps + 1) (fo + 1 + recv_size e f) \<and>
     edges a (unat (results_size e f)) (fo + 1 + recv_size e f + params_size e f) (ps + 1 + params_size e f)"

text \<open>What constraint \<open>c\<close> asks for the label \<open>k\<close>; \<open>S\<close> are the functions within the scope of the analysis.\<close>

definition rule_holds :: "env \<Rightarrow> fn_ref set \<Rightarrow> solver \<Rightarrow> constraint \<Rightarrow> nodeid \<Rightarrow> bool" where
  "rule_holds e S a c k \<longleftrightarrow>
     (case c of
        AddrC d s \<Rightarrow> True
      | CopyC d s \<Rightarrow> True
      | LoadC i d s \<Rightarrow> edge a (k + i) d
      | StoreC i d s \<Rightarrow> edge a s (k + i)
      | OffsetAddrC i d s \<Rightarrow> has_label a d (k + i)
      | TypeFilterC t d s \<Rightarrow> is_node a k \<and> (AssignableTo e (ty_of a k) t \<longrightarrow> has_label a d k)
      | UntagC t d s ex \<Rightarrow>
          is_node a k \<and> ((if ex then Identical e else AssignableTo e) (ty_of a k) t \<longrightarrow>
            edges a (unat (sizeof e (ty_of a k))) (k + 1) d)
      | InvokeC m i ps st cl \<Rightarrow>
          is_node a k \<and> (\<forall>f. LookupMethod e (ty_of a k) m = Some f \<longrightarrow> f \<in> S \<longrightarrow>
            (\<exists>fo. fo \<noteq> 0 \<and> called e a ps f fo (k + 1))))"

lemma ty_of_grows: "grows a b \<Longrightarrow> is_node a k \<Longrightarrow> ty_of b k = ty_of a k"
  by (auto simp: grows_def ty_of_def is_node_def nth_append)

lemma called_grows: "grows a b \<Longrightarrow> called e a ps f fo v \<Longrightarrow> called e b ps f fo v"
  using has_label_grows [of a b] edges_grows [of a b] by (simp add: called_def)

lemma rule_grows: "grows a b \<Longrightarrow> rule_holds e S a c k \<Longrightarrow> rule_holds e S b c k"
  using edge_grows [of a b] has_label_grows [of a b] ty_of_grows [of a b k] grows_nodes [of a b k]
    edges_grows [of a b] called_grows [of a b]
  by (cases c) (auto simp: rule_holds_def, metis)

end
