(* ===== verification/Pointer_Rules.thy ===== *)
theory Pointer_Rules
  imports Pointer_Steps
begin

text \<open>
  The rules of the complex constraints, one lemma per \<^verbatim>\<open>solve\<close> method of \<^verbatim>\<open>solve.go\<close>: each is a step, and
  afterwards the rule holds for every label of the delta. \<open>gen_ok\<close> is what is asked of the generator of
  constraints for functions the solver meets first; nothing when no node holds the identity of a callee.
\<close>

definition gen_ok :: "nat set \<Rightarrow> fn_ref set \<Rightarrow> env \<Rightarrow> bool" where
  "gen_ok X S e \<longleftrightarrow> X = {} \<or>
     (\<forall>f cl st a fo b. sets_ok a \<longrightarrow> genMissingFn e f cl st a = Inr (fo, b) \<longrightarrow>
        step X {} a b \<and> (f \<in> S \<longrightarrow> fo \<noteq> 0))"

lemma load_loop_step:
  "sets_ok a \<Longrightarrow> load_loop k d xs c a = Inr (c', b) \<Longrightarrow>
   step X (if c' then {rf a d} else {}) a b \<and> (c \<longrightarrow> c') \<and> (c' \<longrightarrow> c \<or> is_node a d) \<and> nodes b = nodes a \<and>
   (\<forall>x \<in> set xs. edge b (x + k) d)"
proof (induction xs arbitrary: c a)
  case Nil
  then show ?case by (simp add: step_refl)
next
  case (Cons x xs)
  obtain ch a1 where o: "onlineCopy d (x + k) a = Inr (ch, a1)" "load_loop k d xs (if ch then True else c) a1 = Inr (c', b)"
    using Cons.prems(2) by (auto simp: bindR_eq_Inr_iff)
  note s = onlineCopy_step [OF Cons.prems(1) o(1)]
  have r: "rf a1 = rf a" "is_node a1 = is_node a" using s(4) by (simp_all add: fun_eq_iff rf_def is_node_def)
  have i: "step X (if c' then {rf a d} else {}) a1 b" "(if ch then True else c) \<longrightarrow> c'"
    "c' \<longrightarrow> (if ch then True else c) \<or> is_node a d" "nodes b = nodes a" "\<forall>x \<in> set xs. edge b (x + k) d"
    using Cons.IH [OF step_sets [OF s(1)] o(2)] unfolding r s(4) by blast+
  have "step X (if c' then {rf a d} else {}) a a1"
    by (rule step_weaken [OF s(1)]) (use i(2) in auto)
  then have "step X (if c' then {rf a d} else {}) a b" by (rule step_trans [OF _ i(1)])
  moreover have "edge b (x + k) d" using edge_grows [OF step_grows [OF i(1)] s(2)] .
  ultimately show ?case using i s(3) by (auto split: if_splits)
qed

lemma load_solve_step:
  assumes "sets_ok a" "load_solve k d xs a = Inr b"
  shows "step X {} a b \<and> (\<forall>x \<in> set xs. edge b (x + k) d)"
proof -
  obtain c a1 where o: "load_loop k d xs False a = Inr (c, a1)" "(if c then addWork d a1 else Inr a1) = Inr b"
    using assms(2) by (auto simp: load_solve_def bindR_eq_Inr_iff)
  note s = load_loop_step [OF assms(1) o(1)]
  have r: "rf a1 = rf a" "is_node a1 = is_node a" using s by (simp_all add: fun_eq_iff rf_def is_node_def)
  have n: "c \<longrightarrow> is_node a1 d" using s r by simp
  have "step X {} a b" by (rule if_addWork_step [OF _ n o(2)]) (use s in \<open>unfold r, blast\<close>)
  moreover have "step X {} a1 b" by (rule if_addWork_step [OF step_refl n o(2)]) (use step_sets s in blast)
  ultimately show ?thesis using s edge_grows [OF step_grows] by blast
qed

text \<open>One element of a loop, then the others.\<close>

lemma loop_step:
  assumes "step X {} a a1" "P a1 x" "step X {} a1 b \<and> (\<forall>y \<in> set xs. P b y)" "\<And>u v. grows u v \<Longrightarrow> P u x \<Longrightarrow> P v x"
  shows "step X {} a b \<and> (\<forall>y \<in> set (x # xs). P b y)"
  using assms(3) step_trans [OF assms(1)] assms(4) [OF step_grows assms(2)] by auto

lemma store_solve_step:
  "sets_ok a \<Longrightarrow> store_solve k s xs a = Inr b \<Longrightarrow> step X {} a b \<and> (\<forall>x \<in> set xs. edge b s (x + k))"
proof (induction xs arbitrary: a)
  case Nil
  then show ?case by (simp add: step_refl)
next
  case (Cons x xs)
  obtain ch a1 a2 where o: "onlineCopy (x + k) s a = Inr (ch, a1)" "(if ch then addWork (x + k) a1 else Inr a1) = Inr a2"
    "store_solve k s xs a2 = Inr b"
    using Cons.prems(2) by (auto simp: bindR_eq_Inr_iff)
  note c = onlineCopy_step [OF Cons.prems(1) o(1)]
  have r: "rf a1 = rf a" "is_node a1 = is_node a" using c(4) by (simp_all add: fun_eq_iff rf_def is_node_def)
  have n: "ch \<longrightarrow> is_node a1 (x + k)" using c(3) r by simp
  have s2: "step X {} a a2" by (rule if_addWork_step [OF _ n o(2)]) (unfold r, rule c(1))
  have s12: "step X {} a1 a2" by (rule if_addWork_step [OF step_refl n o(2)]) (rule step_sets [OF c(1)])
  have e: "edge a2 s (x + k)" by (rule edge_grows [OF step_grows [OF s12] c(2)])
  show ?case
    by (rule loop_step [where P = "\<lambda>b x. edge b s (x + k)", OF s2 e Cons.IH [OF step_sets [OF s2] o(3)]]) (rule edge_grows)
qed

lemma add_and_work_step:
  assumes "sets_ok a" "add_and_work d l a = Inr b"
  shows "step X {} a b" "has_label b d l"
proof -
  obtain ch a1 where o: "addLabel d l a = Inr (ch, a1)" "(if ch then addWork d a1 else Inr a1) = Inr b"
    using assms(2) by (auto simp: add_and_work_def bindR_eq_Inr_iff)
  have c: "step X (if ch then {rf a d} else {}) a a1" "is_node a d" "has_label a1 d l"
    using addLabel_step [OF assms(1) o(1), of "if ch then {rf a d} else {}" X] by simp_all
  have n: "is_node a1 d" "rf a1 d = rf a d" using grows_nodes [OF step_grows [OF c(1)] c(2)] by simp_all
  show "step X {} a b" by (rule if_addWork_step [OF _ _ o(2)]) (unfold n, use c n in simp_all)
  have "step X {} a1 b" by (rule if_addWork_step [OF step_refl _ o(2)]) (use c(1) n step_sets in blast)+
  then show "has_label b d l" by (rule has_label_grows [OF step_grows c(3)])
qed

lemma offsetAddr_step:
  "sets_ok a \<Longrightarrow> offsetAddr_loop k d xs a = Inr b \<Longrightarrow> step X {} a b \<and> (\<forall>x \<in> set xs. has_label b d (x + k))"
proof (induction xs arbitrary: a)
  case Nil
  then show ?case by (simp add: step_refl)
next
  case (Cons x xs)
  obtain a1 where o: "add_and_work d (x + k) a = Inr a1" "offsetAddr_loop k d xs a1 = Inr b"
    using Cons.prems(2) by (auto simp: bindR_eq_Inr_iff)
  note c = add_and_work_step [OF Cons.prems(1) o(1)]
  show ?case
    by (rule loop_step [where P = "\<lambda>b x. has_label b d (x + k)", OF c Cons.IH [OF step_sets [OF c(1)] o(2)]])
      (rule has_label_grows)
qed

lemma taggedValue_Inr: "taggedValue x a = Inr (t, v, i) \<Longrightarrow> is_node a x \<and> t = ty_of a x \<and> v = x + 1"
  by (auto simp: taggedValue_def bindR_eq_Inr_iff get_node_Inr ty_of_def split: option.splits if_splits)

lemma typeFilter_step:
  "sets_ok a \<Longrightarrow> \<not> reflection e \<Longrightarrow> typeFilter_solve e t d xs a = Inr b \<Longrightarrow>
   step X {} a b \<and> (\<forall>x \<in> set xs. rule_holds e S b (TypeFilterC t d s) x)"
proof (induction xs arbitrary: a)
  case Nil
  then show ?case by (simp add: step_refl)
next
  case (Cons x xs)
  obtain ty v i where o: "taggedValue x a = Inr (ty, v, i)"
    and rest: "(if AssignableTo e ty t then bindR (add_and_work d x a) (typeFilter_solve e t d xs)
       else typeFilter_solve e t d xs a) = Inr b"
    using Cons.prems(2,3) by (auto simp: bindR_eq_Inr_iff split: if_splits)
  note n = taggedValue_Inr [OF o]
  have "\<exists>a1. step X {} a a1 \<and> (AssignableTo e ty t \<longrightarrow> has_label a1 d x) \<and> typeFilter_solve e t d xs a1 = Inr b"
  proof (cases "AssignableTo e ty t")
    case True
    then obtain a1 where a1: "add_and_work d x a = Inr a1" "typeFilter_solve e t d xs a1 = Inr b"
      using rest by (auto simp: bindR_eq_Inr_iff)
    then show ?thesis using add_and_work_step [OF Cons.prems(1) a1(1)] by blast
  next
    case False
    then show ?thesis using rest step_refl [OF Cons.prems(1)] by auto
  qed
  then obtain a1 where a1: "step X {} a a1" "AssignableTo e ty t \<longrightarrow> has_label a1 d x" "typeFilter_solve e t d xs a1 = Inr b"
    by blast
  have p: "rule_holds e S a1 (TypeFilterC t d s) x"
    using a1(2) n grows_nodes [OF step_grows [OF a1(1)]] ty_of_grows [OF step_grows [OF a1(1)]] by (simp add: rule_holds_def)
  show ?case
    by (rule loop_step [where P = "\<lambda>b x. rule_holds e S b (TypeFilterC t d s) x",
          OF a1(1) p Cons.IH [OF step_sets [OF a1(1)] Cons.prems(2) a1(3)]]) (rule rule_grows)
qed

lemma untag_step:
  "sets_ok a \<Longrightarrow> untag_solve e t d ex xs a = Inr b \<Longrightarrow>
   step X {} a b \<and> (\<forall>x \<in> set xs. rule_holds e S b (UntagC t d s ex) x)"
proof (induction xs arbitrary: a)
  case Nil
  then show ?case by (simp add: step_refl)
next
  case (Cons x xs)
  let ?p = "\<lambda>ty. (if ex then Identical e else AssignableTo e) ty t"
  obtain ty v i where tv: "taggedValue x a = Inr (ty, v, i)"
    and rest: "bindR (if ?p ty then onlineCopyN d v (sizeof e ty) a else Inr a) (untag_solve e t d ex xs) = Inr b"
    using Cons.prems(2) unfolding untag_solve.simps bindR_eq_Inr_iff [of "taggedValue x a"]
    by (elim exE conjE, simp only: split: prod.splits) (metis sum.distinct(1))
  obtain a1 where o: "taggedValue x a = Inr (ty, v, i)" "untag_solve e t d ex xs a1 = Inr b"
    "(if ?p ty then onlineCopyN d v (sizeof e ty) a else Inr a) = Inr a1"
    using tv rest unfolding bindR_eq_Inr_iff by blast
  note n = taggedValue_Inr [OF o(1)]
  have a1: "step X {} a a1" "?p ty \<longrightarrow> edges a1 (unat (sizeof e ty)) v d"
    using o(3) onlineCopyN_step [OF Cons.prems(1), of d v "sizeof e ty" a1 X] step_refl [OF Cons.prems(1)]
    by (auto split: if_splits)
  have p: "rule_holds e S a1 (UntagC t d s ex) x"
    using a1(2) n grows_nodes [OF step_grows [OF a1(1)]] ty_of_grows [OF step_grows [OF a1(1)]] by (simp add: rule_holds_def)
  show ?case
    by (rule loop_step [where P = "\<lambda>b x. rule_holds e S b (UntagC t d s ex) x",
          OF a1(1) p Cons.IH [OF step_sets [OF a1(1)] o(2)]]) (rule rule_grows)
qed

lemma eachSolve_step:
  assumes "sets_ok a" "eachSolve e ps fo f v a = Inr b" "rf a ps \<in> X"
  shows "step X {} a b \<and> called e b ps f fo v"
proof -
  obtain ch a1 arg0 a2 a3 where o: "addLabel ps fo a = Inr (ch, a1)" "funcParams fo a1 = Inr arg0"
    "onlineCopyN arg0 v (recv_size e f) a1 = Inr a2"
    "onlineCopyN (arg0 + recv_size e f) (ps + 1) (params_size e f) a2 = Inr a3"
    "onlineCopyN (ps + 1 + params_size e f) (arg0 + recv_size e f + params_size e f) (results_size e f) a3 = Inr b"
    using assms(2) by (auto simp: eachSolve_def bindR_eq_Inr_iff Let_def)
  have p: "arg0 = fo + 1" using o(2) by (auto simp: funcParams_def bindR_eq_Inr_iff split: option.splits if_splits)
  have s1: "step X {} a a1" "has_label a1 ps fo" using addLabel_step [OF assms(1) o(1), of "{}" X] assms(3) by simp_all
  have s2: "step X {} a1 a2" "edges a2 (unat (recv_size e f)) v arg0"
    using onlineCopyN_step [OF step_sets [OF s1(1)] o(3)] by simp_all
  have s3: "step X {} a2 a3" "edges a3 (unat (params_size e f)) (ps + 1) (arg0 + recv_size e f)"
    using onlineCopyN_step [OF step_sets [OF s2(1)] o(4)] by simp_all
  have s4: "step X {} a3 b"
    "edges b (unat (results_size e f)) (arg0 + recv_size e f + params_size e f) (ps + 1 + params_size e f)"
    using onlineCopyN_step [OF step_sets [OF s3(1)] o(5)] by simp_all
  note g4 = step_grows [OF s4(1)]
  note g3 = grows_trans [OF step_grows [OF s3(1)] g4]
  note g2 = grows_trans [OF step_grows [OF s2(1)] g3]
  have "called e b ps f fo v"
    using has_label_grows [OF g2 s1(2)] edges_grows [OF g3 s2(2)] edges_grows [OF g4 s3(2)] s4(2)
    by (simp add: called_def p)
  then show ?thesis using step_trans [OF step_trans [OF step_trans [OF s1(1) s2(1)] s3(1)] s4(1)] by simp
qed

lemma callee_step:
  assumes "gen_ok X S e" "X \<noteq> {}" "sets_ok a" "callee_obj e f cl st a = Inr (fo, b)"
  shows "step X {} a b \<and> (f \<in> S \<longrightarrow> fo \<noteq> 0)"
  using assms step_refl [OF assms(3)] unfolding gen_ok_def callee_obj_def by (auto split: if_splits)

lemma invoke_step:
  "gen_ok X S e \<Longrightarrow> sets_ok a \<Longrightarrow> \<not> skipNewFn a \<Longrightarrow> okc X a (InvokeC m i ps st cl) \<Longrightarrow>
   invoke_solve e m ps st cl xs a = Inr b \<Longrightarrow>
   step X {} a b \<and> (\<forall>x \<in> set xs. rule_holds e S b (InvokeC m i ps st cl) x)"
proof (induction xs arbitrary: a)
  case Nil
  then show ?case by (simp add: step_refl)
next
  case (Cons x xs)
  have sk: "\<not> (globalobj a f = 0 \<and> skipNewFn a)" for f using Cons.prems(3) by simp
  obtain ty v j where tx: "taggedValue x a = Inr (ty, v, j)"
    using Cons.prems(5) by (cases "taggedValue x a") auto
  then obtain f where tv: "taggedValue x a = Inr (ty, v, j)" "LookupMethod e ty m = Some f" and j: "\<not> j"
    using Cons.prems(5) by (auto split: if_split_asm option.split_asm)
  have rest: "bindR (callee_obj e f cl st a) (\<lambda>(fnObj, a).
       bindR (if fnObj = 0 then Inr a else eachSolve e ps fnObj f v a) (invoke_solve e m ps st cl xs)) = Inr b"
    using Cons.prems(5) tv j sk [of f] by simp
  obtain fo a1 a2 where o: "callee_obj e f cl st a = Inr (fo, a1)"
    "(if fo = 0 then Inr a1 else eachSolve e ps fo f v a1) = Inr a2" "invoke_solve e m ps st cl xs a2 = Inr b"
    using rest by (auto simp: bindR_eq_Inr_iff split: if_splits)
  note n = taggedValue_Inr [OF tv(1)]
  have X: "X \<noteq> {}" using Cons.prems(4) by (auto simp: okc_def)
  have s1: "step X {} a a1" "f \<in> S \<longrightarrow> fo \<noteq> 0" using callee_step [OF Cons.prems(1) X Cons.prems(2) o(1)] by simp_all
  have ps: "rf a1 ps \<in> X" using okc_grows [OF step_grows [OF s1(1)] Cons.prems(4)] by (simp add: okc_def)
  have s2: "step X {} a1 a2" "fo \<noteq> 0 \<longrightarrow> called e a2 ps f fo v"
    using o(2) eachSolve_step [OF step_sets [OF s1(1)] _ ps] step_refl [OF step_sets [OF s1(1)]] by (auto split: if_splits)
  note s = step_trans [OF s1(1) s2(1)]
  have k: "\<not> skipNewFn a2" "okc X a2 (InvokeC m i ps st cl)"
    using Cons.prems(3) step_grows [OF s] okc_grows [OF step_grows [OF s] Cons.prems(4)] by (simp_all add: grows_def)
  have p: "rule_holds e S a2 (InvokeC m i ps st cl) x"
    using s1(2) s2(2) n tv(2) grows_nodes [OF step_grows [OF s]] ty_of_grows [OF step_grows [OF s]]
    by (auto simp: rule_holds_def)
  show ?case
    by (rule loop_step [where P = "\<lambda>b x. rule_holds e S b (InvokeC m i ps st cl) x",
          OF s p Cons.IH [OF Cons.prems(1) step_sets [OF s] k o(3)]]) (rule rule_grows)
qed

lemma solve_rule_step:
  assumes "gen_ok X S e" "sets_ok a" "\<not> skipNewFn a" "\<not> reflection e" "okc X a c" "ns_ok delta" "solve_rule e c delta a = Inr b"
  shows "step X {} a b \<and> (\<forall>k \<in> ns_labels delta. rule_holds e S b c k)"
proof -
  have "step X {} a b \<and> (\<forall>k \<in> set (ns_list delta). rule_holds e S b c k)"
  proof (cases c)
    case (LoadC i d s)
    then show ?thesis using load_solve_step [OF assms(2)] assms(7) by (simp add: solve_rule_def rule_holds_def)
  next
    case (StoreC i d s)
    then show ?thesis using store_solve_step [OF assms(2)] assms(7) by (simp add: solve_rule_def rule_holds_def)
  next
    case (OffsetAddrC i d s)
    then show ?thesis using offsetAddr_step [OF assms(2)] assms(7)
      by (auto simp: solve_rule_def rule_holds_def offsetAddr_solve_def bindR_eq_Inr_iff)
  next
    case (TypeFilterC t d s)
    then show ?thesis using typeFilter_step [OF assms(2,4)] assms(7) by (simp add: solve_rule_def)
  next
    case (UntagC t d s ex)
    then show ?thesis using untag_step [OF assms(2)] assms(7) by (simp add: solve_rule_def)
  next
    case (InvokeC m i ps st cl)
    then show ?thesis using invoke_step [OF assms(1-3)] assms(5,7) by (simp add: solve_rule_def)
  qed (use assms(7) in \<open>simp_all add: solve_rule_def\<close>)
  then show ?thesis using ns.list(1) [OF assms(6)] by simp
qed

lemma solve_complex_step:
  "gen_ok X S e \<Longrightarrow> \<not> reflection e \<Longrightarrow> ns_ok delta \<Longrightarrow> sets_ok a \<Longrightarrow> \<not> skipNewFn a \<Longrightarrow> \<forall>c \<in> set cs. okc X a c \<Longrightarrow>
   solve_complex e cs delta a = Inr b \<Longrightarrow>
   step X {} a b \<and> (\<forall>c \<in> set cs. \<forall>k \<in> ns_labels delta. rule_holds e S b c k)"
proof (induction cs arbitrary: a)
  case Nil
  then show ?case by (simp add: step_refl)
next
  case (Cons c cs)
  obtain a1 where o: "solve_rule e c delta a = Inr a1" "solve_complex e cs delta a1 = Inr b"
    using Cons.prems(7) by (auto simp: bindR_eq_Inr_iff)
  have s: "step X {} a a1" "\<forall>k \<in> ns_labels delta. rule_holds e S a1 c k"
    using solve_rule_step [OF Cons.prems(1,4,5,2) _ Cons.prems(3) o(1)] Cons.prems(6) by simp_all
  have k: "\<not> skipNewFn a1" "\<forall>c \<in> set cs. okc X a1 c"
    using Cons.prems(5,6) step_grows [OF s(1)] okc_grows [OF step_grows [OF s(1)]] by (simp_all add: grows_def)
  show ?case
    by (rule loop_step [where P = "\<lambda>b c. \<forall>k \<in> ns_labels delta. rule_holds e S b c k",
          OF s Cons.IH [OF Cons.prems(1-3) step_sets [OF s(1)] k o(2)]]) (use rule_grows in blast)
qed

definition carries :: "solver \<Rightarrow> nodeid \<Rightarrow> nodeid set \<Rightarrow> bool" where
  "carries a m K \<longleftrightarrow> is_node a m \<and> K \<subseteq> Lb a (rf a m)"

lemma carries_grows: "grows a b \<Longrightarrow> carries a m K \<Longrightarrow> carries b m K"
  using grows_nodes [of a b m] grows_labels [of a b "rf a m"] by (auto simp: carries_def)

lemma copy_loop_step:
  "ns_ok delta \<Longrightarrow> ns_ok seen \<Longrightarrow> distinct ms \<Longrightarrow> set ms \<inter> ns_labels seen = {} \<Longrightarrow> sets_ok a \<Longrightarrow>
   copy_loop ms seen delta a = Inr b \<Longrightarrow>
   step X {} a b \<and> (\<forall>m \<in> set ms. carries b m (ns_labels delta)) \<and> Ed b = Ed a"
proof (induction ms arbitrary: seen a)
  case Nil
  then show ?case by (simp add: step_refl)
next
  case (Cons m ms)
  obtain seen' fr where n: "ns_add seen m = Inr (seen', fr)" "ns_ok seen'" "ns_labels seen' = insert m (ns_labels seen)" "fr"
    using ns.add [OF Cons.prems(2), of m] Cons.prems(4) by auto
  obtain ch a1 a2 where o: "add_labels m False delta a = Inr (ch, a1)" "(if ch then addWork m a1 else Inr a1) = Inr a2"
    "copy_loop ms seen' delta a2 = Inr b"
    using Cons.prems(6) n(1,4) by (auto simp: bindR_eq_Inr_iff)
  have c: "step X (if ch then {rf a m} else {}) a a1" "is_node a m" "Lb a1 = (Lb a)(rf a m := Lb a (rf a m) \<union> ns_labels delta)"
    "Ed a1 = Ed a" "nodes a1 = nodes a"
    using add_labels_step [OF Cons.prems(5,1) _ o(1), of "if ch then {rf a m} else {}" X] by (simp_all del: fun_upd_apply)
  have r: "rf a1 = rf a" "is_node a1 = is_node a" using c(5) by (simp_all add: fun_eq_iff rf_def is_node_def)
  have k: "ch \<longrightarrow> is_node a1 m" using c(2) r by simp
  have s2: "step X {} a a2" by (rule if_addWork_step [OF _ k o(2)]) (unfold r, rule c(1))
  have s12: "step X {} a1 a2" by (rule if_addWork_step [OF step_refl k o(2)]) (rule step_sets [OF c(1)])
  have "carries a1 m (ns_labels delta)" using c(2,3) r by (simp add: carries_def)
  then have p: "carries a2 m (ns_labels delta)" by (rule carries_grows [OF step_grows [OF s12]])
  have e: "Ed a2 = Ed a" using o(2) c(4) by (auto simp: addWork_def bindR_eq_Inr_iff Ed_def fun_eq_iff split: if_splits)
  have d: "distinct ms" "set ms \<inter> ns_labels seen' = {}" using Cons.prems(3,4) n(3) by auto
  note IH = Cons.IH [OF Cons.prems(1) n(2) d step_sets [OF s2] o(3)]
  have "step X {} a b \<and> (\<forall>m \<in> set (m # ms). carries b m (ns_labels delta))"
    by (rule loop_step [where P = "\<lambda>b m. carries b m (ns_labels delta)", OF s2 p]) (use IH carries_grows in blast)+
  then show ?case using IH e by simp
qed

lemma solveConstraints_step:
  assumes "gen_ok X S e" "\<not> reflection e" "ns_ok delta" "sets_ok a" "\<not> skipNewFn a" "\<forall>c \<in> Cx a r. okc X a c"
    "solveConstraints e r delta a = Inr b"
  shows "step X {} a b" "\<forall>k \<in> ns_labels delta. (\<forall>c \<in> Cx b r. rule_holds e S b c k) \<and> (\<forall>m \<in> Ed b r. has_label b m k)"
proof -
  have "step X {} a b \<and> (\<forall>k \<in> ns_labels delta. (\<forall>c \<in> Cx b r. rule_holds e S b c k) \<and> (\<forall>m \<in> Ed b r. has_label b m k))"
  proof (cases "ns_IsEmpty delta")
    case True
    then show ?thesis using assms(7) ns.is_empty [OF assms(3)] step_refl [OF assms(4)] by (auto simp: solveConstraints_def)
  next
    case False
    then obtain a1 where o: "solve_complex e (complex (sol a r)) delta a = Inr a1"
      "copy_loop (ns_list (copyTo (sol a1 r))) [] delta a1 = Inr b"
      using assms(7) by (auto simp: solveConstraints_def bindR_eq_Inr_iff)
    have s1: "step X {} a a1" "\<forall>c \<in> Cx a r. \<forall>k \<in> ns_labels delta. rule_holds e S a1 c k"
      using solve_complex_step [OF assms(1-5) _ o(1)] assms(6) by (simp_all add: Cx_def)
    have s2: "step X {} a1 b" "\<forall>m \<in> Ed a1 r. carries b m (ns_labels delta)" "Ed b = Ed a1"
      using copy_loop_step [OF assms(3) ns.emp(1) _ _ step_sets [OF s1(1)] o(2)]
        ns.list [OF sets_okD(3) [OF step_sets [OF s1(1)]]] by (simp_all add: ns.emp Ed_def)
    have c: "Cx b r = Cx a r" using grows_same [OF step_grows [OF step_trans [OF s1(1) s2(1)]]] by simp
    have "rule_holds e S b c k" if "c \<in> Cx b r" "k \<in> ns_labels delta" for c k
      using rule_grows [OF step_grows [OF s2(1)]] s1(2) that c by simp
    moreover have "has_label b m k" if "m \<in> Ed b r" "k \<in> ns_labels delta" for m k
      using that s2(2,3) by (auto simp: carries_def has_label_def)
    ultimately show ?thesis using step_trans [OF s1(1) s2(1)] by blast
  qed
  then show "step X {} a b" "\<forall>k \<in> ns_labels delta. (\<forall>c \<in> Cx b r. rule_holds e S b c k) \<and> (\<forall>m \<in> Ed b r. has_label b m k)"
    by simp_all
qed

end
