(* ===== verification/Pointer_Invariant.thy ===== *)
theory Pointer_Invariant
  imports Pointer_Rules
begin

text \<open>
  The invariant of the worklist algorithm of \<^verbatim>\<open>solve.go\<close>: for every solver state the constraints attached
  to it hold for the labels already propagated, and for all its labels unless it is on the worklist.
\<close>

section \<open>The invariant\<close>

text \<open>The constraint is part of the graph.\<close>

definition registered :: "solver \<Rightarrow> constraint \<Rightarrow> bool" where
  "registered a c \<longleftrightarrow>
     (case c of
        AddrC d s \<Rightarrow> has_label a d s
      | CopyC d s \<Rightarrow> is_node a s \<and> d \<in> Ed a (rf a s)
      | _ \<Rightarrow> is_node a (ptr c) \<and> c \<in> Cx a (rf a (ptr c)))"

text \<open>Everything that is attached to the state \<open>r\<close> holds for its label \<open>k\<close>.\<close>

definition closed_for :: "env \<Rightarrow> fn_ref set \<Rightarrow> solver \<Rightarrow> nat \<Rightarrow> nodeid \<Rightarrow> bool" where
  "closed_for e S a r k \<longleftrightarrow> (\<forall>c \<in> Cx a r. rule_holds e S a c k) \<and> (\<forall>m \<in> Ed a r. has_label a m k)"

text \<open>
  \<open>C\<close> are the constraints processed so far, \<open>R\<close> the states whose old labels a new constraint has not seen,
  \<open>W\<close> the state that was taken from the worklist and is being treated.
\<close>

definition solver_inv :: "nat set \<Rightarrow> fn_ref set \<Rightarrow> env \<Rightarrow> constraint set \<Rightarrow> nat set \<Rightarrow> nat set \<Rightarrow> solver \<Rightarrow> bool" where
  "solver_inv X S e C R W a \<longleftrightarrow>
     sets_ok a \<and> \<not> skipNewFn a \<and> (\<forall>c \<in> C. registered a c) \<and> (\<forall>c \<in> set (constraints a). okc X a c) \<and>
     (\<forall>r. \<forall>c \<in> Cx a r. okc X a c) \<and> (\<forall>r. Pv a r \<subseteq> Lb a r) \<and>
     (\<forall>r. r \<notin> X \<longrightarrow> r \<notin> R \<longrightarrow> (\<forall>k \<in> Pv a r. closed_for e S a r k)) \<and>
     (\<forall>r. r \<notin> X \<longrightarrow> r \<notin> Wk a \<union> W \<longrightarrow> (\<forall>k \<in> Lb a r. closed_for e S a r k))"

lemma registered_grows: "grows a b \<Longrightarrow> registered a c \<Longrightarrow> registered b c"
  using grows_nodes [of a b "ptr c"] grows_nodes [of a b "src c"] has_label_grows [of a b]
    grows_labels [of a b "rf a (src c)"] grows_same [of a b]
  by (cases c) (auto simp: registered_def)

lemma closed_step:
  assumes "step X D a b" "r \<notin> X" "k \<in> Lb a r" "closed_for e S a r k"
  shows "closed_for e S b r k"
proof -
  have "rule_holds e S b c k" if "c \<in> Cx b r" for c
    using that assms(4) grows_same [OF step_grows [OF assms(1)]] rule_grows [OF step_grows [OF assms(1)]]
    by (simp add: closed_for_def)
  moreover have "has_label b m k" if m: "m \<in> Ed b r" for m
  proof (cases "m \<in> Ed a r")
    case True
    then show ?thesis using assms(4) has_label_grows [OF step_grows [OF assms(1)]] by (simp add: closed_for_def)
  next
    case False
    then have "carried D a b r m" using assms(1,2) m by (simp add: step_def tracked_def)
    then show ?thesis using assms(3) by (auto simp: carried_def has_label_def)
  qed
  ultimately show ?thesis by (simp add: closed_for_def)
qed

text \<open>A step of an operation keeps the invariant.\<close>

lemma inv_step:
  assumes J: "solver_inv X S e C R W a" and s: "step X D a b" and D: "\<forall>r \<in> D. \<forall>k. closed_for e S b r k"
  shows "solver_inv X S e C R W b"
proof -
  note g = step_grows [OF s]
  have t: "tracked X D a b" using s by (simp add: step_def)
  have same: "Cx b r = Cx a r" "Pv b r = Pv a r" for r using grows_same [OF g] by simp_all
  have "okc X b c" if "c \<in> set (constraints b)" for c
    using J t okc_grows [OF g] that by (auto simp: solver_inv_def tracked_def)
  moreover have "okc X b c" if "c \<in> Cx b r" for c r
    using J okc_grows [OF g] that same by (auto simp: solver_inv_def)
  moreover have "Pv b r \<subseteq> Lb b r" for r
    using J grows_labels [OF g, of r] unfolding same solver_inv_def by (meson order_trans)
  moreover have "closed_for e S b r k" if "r \<notin> X" "r \<notin> R" "k \<in> Pv b r" for r k
    using J that same by (intro closed_step [OF s that(1)]) (auto simp: solver_inv_def)
  moreover have "closed_for e S b r k" if r: "r \<notin> X" "r \<notin> Wk b \<union> W" "k \<in> Lb b r" for r k
  proof (cases "r \<in> D")
    case False
    then have l: "Lb b r = Lb a r" using t r by (auto simp: tracked_def)
    moreover have "r \<notin> Wk a \<union> W" using r(2) grows_work [OF g] by auto
    ultimately show ?thesis using J r by (intro closed_step [OF s r(1)]) (auto simp: solver_inv_def)
  qed (use D in simp)
  moreover have "\<not> skipNewFn b" using J g by (simp add: solver_inv_def grows_def)
  ultimately show ?thesis using J registered_grows [OF g] step_sets [OF s] by (simp add: solver_inv_def)
qed

lemma inv_step0: "solver_inv X S e C R W a \<Longrightarrow> step X {} a b \<Longrightarrow> solver_inv X S e C R W b"
  using inv_step [of X S e C R W a "{}" b] by simp

lemma inv_sets: "solver_inv X S e C R W a \<Longrightarrow> sets_ok a"
  by (simp add: solver_inv_def)

lemma inv_Pv: "solver_inv X S e C R W a \<Longrightarrow> Pv a r \<subseteq> Lb a r"
  by (simp add: solver_inv_def)

section \<open>New constraints\<close>

lemma inv_insert: "solver_inv X S e C R W a \<Longrightarrow> registered a c \<Longrightarrow> solver_inv X S e (insert c C) R W a"
  by (simp add: solver_inv_def)

lemma add_base_inv:
  assumes J: "solver_inv X S e C R W a" and o: "add_base c a = Inr b" and b: "\<exists>d s. c = AddrC d s"
  shows "solver_inv X S e (insert c C) R W b" "constraints b = constraints a" "nodes b = nodes a"
proof -
  obtain d s where c: "c = AddrC d s" using b by blast
  obtain ch a1 where o1: "addLabel d s a = Inr (ch, a1)" "is_node a1 d"
    "(if \<not> ns_IsEmpty (copyTo (sol a1 (rf a1 d))) \<or> complex (sol a1 (rf a1 d)) \<noteq> [] then addWork d a1 else Inr a1) = Inr b"
    using o by (auto simp: add_base_def c bindR_eq_Inr_iff ref_of_Inr)
  have s1: "step X {rf a1 d} a a1" "has_label a1 d s" "nodes a1 = nodes a" "constraints a1 = constraints a"
  proof -
    have n: "nodes a1 = nodes a" "constraints a1 = constraints a"
      using o1(1) by (auto simp: addLabel_def bindR_eq_Inr_iff set_sol_def split: prod.splits)
    then have "rf a1 d = rf a d" by (simp add: rf_def)
    then show "step X {rf a1 d} a a1" "has_label a1 d s" "nodes a1 = nodes a" "constraints a1 = constraints a"
      using addLabel_step [OF inv_sets [OF J] o1(1), of "{rf a d}" X] n by simp_all
  qed
  have "solver_inv X S e C R W b \<and> registered b c \<and> constraints b = constraints a \<and> nodes b = nodes a"
  proof (cases "\<not> ns_IsEmpty (copyTo (sol a1 (rf a1 d))) \<or> complex (sol a1 (rf a1 d)) \<noteq> []")
    case True
    then have w: "addWork d a1 = Inr b" using o1(3) by simp
    have "step X {} a b" "step X {} a1 b"
      by (rule addWork_step [OF _ o1(2) w]; use s1 step_refl [OF step_sets [OF s1(1)]] in simp)+
    moreover have "nodes b = nodes a" "constraints b = constraints a"
      using w s1 by (auto simp: addWork_def bindR_eq_Inr_iff)
    ultimately show ?thesis using inv_step0 [OF J] has_label_grows [OF step_grows s1(2)] by (simp add: registered_def c)
  next
    case False
    then have "Cx a1 (rf a1 d) = {}" "Ed a1 (rf a1 d) = {}" "b = a1"
      using o1(3) ns.is_empty [OF sets_okD(3) [OF step_sets [OF s1(1)]]] by (auto simp: Cx_def Ed_def)
    then show ?thesis using inv_step [OF J s1(1)] s1 by (simp add: closed_for_def registered_def c)
  qed
  then show "solver_inv X S e (insert c C) R W b" "constraints b = constraints a" "nodes b = nodes a"
    by (simp_all add: inv_insert)
qed

definition is_addr :: "constraint \<Rightarrow> bool" where
  "is_addr c \<longleftrightarrow> (\<exists>d s. c = AddrC d s)"

lemma add_bases_inv:
  "solver_inv X S e C R W a \<Longrightarrow> add_bases cs a = Inr b \<Longrightarrow>
   solver_inv X S e (C \<union> {c \<in> set cs. is_addr c}) R W b \<and> constraints b = constraints a \<and> nodes b = nodes a"
proof (induction cs arbitrary: a C)
  case Nil
  then show ?case by simp
next
  case (Cons c cs)
  obtain a1 where o: "add_base c a = Inr a1" "add_bases cs a1 = Inr b" using Cons.prems(2) by (auto simp: bindR_eq_Inr_iff)
  show ?case
  proof (cases "is_addr c")
    case True
    have "{x \<in> set (c # cs). is_addr x} = insert c {x \<in> set cs. is_addr x}" using True by auto
    then show ?thesis
      using add_base_inv [OF Cons.prems(1) o(1)] Cons.IH [OF _ o(2), of "insert c C"] True by (simp add: is_addr_def)
  next
    case False
    then have "a1 = a" using o(1) by (cases c) (auto simp: add_base_def is_addr_def)
    moreover have "{x \<in> set (c # cs). is_addr x} = {x \<in> set cs. is_addr x}" using False by auto
    ultimately show ?thesis using Cons.IH [OF Cons.prems(1)] o(2) by simp
  qed
qed

text \<open>A constraint is attached to the state of its pointer, or adds an edge there.\<close>

definition same_but :: "nat \<Rightarrow> solver \<Rightarrow> solver \<Rightarrow> bool" where
  "same_but r a b \<longleftrightarrow>
     sets_ok b \<and> nodes b = nodes a \<and> Lb b = Lb a \<and> Pv b = Pv a \<and> constraints b = constraints a \<and>
     work b = work a \<and> skipNewFn b = skipNewFn a \<and> (\<forall>q. q \<noteq> r \<longrightarrow> Ed b q = Ed a q \<and> Cx b q = Cx a q) \<and>
     Ed a r \<subseteq> Ed b r \<and> Cx a r \<subseteq> Cx b r"

lemma same_but_closed:
  assumes s: "same_but r a b"
  shows "is_node b = is_node a" "rf b = rf a" "has_label b = has_label a"
    "rule_holds e S a c k \<Longrightarrow> rule_holds e S b c k" "registered a c \<Longrightarrow> registered b c" "okc X b = okc X a" "Wk b = Wk a"
    "q \<noteq> r \<Longrightarrow> closed_for e S a q k \<Longrightarrow> closed_for e S b q k"
proof -
  show n: "is_node b = is_node a" "rf b = rf a" using s by (simp_all add: same_but_def fun_eq_iff is_node_def rf_def)
  show h: "has_label b = has_label a" using s by (simp add: fun_eq_iff has_label_def n same_but_def)
  have E: "Ed a q \<subseteq> Ed b q" "Cx a q \<subseteq> Cx b q" for q using s by (cases "q = r"; simp add: same_but_def)+
  have e: "edge a u v \<Longrightarrow> edge b u v" for u v using E(1) [of "rf a u"] by (auto simp: edge_def n)
  have es: "edges a i u v \<Longrightarrow> edges b i u v" for i u v using e by (simp add: edges_def)
  have ty: "ty_of b = ty_of a" using s by (simp add: fun_eq_iff ty_of_def same_but_def)
  have cl: "called e a u f fo v \<Longrightarrow> called e b u f fo v" for u f fo v using es by (simp add: called_def h)
  show rule: "rule_holds e S b c k" if "rule_holds e S a c k" for c k
    using that e es cl by (cases c) (auto simp: rule_holds_def n h ty, blast)
  show "registered a c \<Longrightarrow> registered b c"
    using E(1) [of "rf a (src c)"] E(2) [of "rf a (ptr c)"] by (cases c) (auto simp: registered_def n h)
  show "okc X b = okc X a" by (simp add: fun_eq_iff okc_def n split: constraint.splits)
  show "Wk b = Wk a" using s by (simp add: Wk_def n same_but_def)
  show "closed_for e S b q k" if "q \<noteq> r" "closed_for e S a q k"
    using that s rule by (simp add: closed_for_def h same_but_def)
qed

lemma inv_same_but:
  assumes J: "solver_inv X S e C R W a" and s: "same_but r a b" and k: "\<forall>c \<in> Cx b r. okc X b c"
  shows "solver_inv X S e C (insert r R) (insert r W) b"
proof -
  note c = same_but_closed [OF s]
  have "okc X b c" if "c \<in> Cx b q" for c q
    using that J k s by (cases "q = r") (auto simp: solver_inv_def same_but_def c(6))
  then show ?thesis using J s c(5,8) by (simp add: solver_inv_def same_but_def c(6,7))
qed

lemma inv_drop:
  "solver_inv X S e C (insert r R) W a \<Longrightarrow> \<forall>k \<in> Pv a r. closed_for e S a r k \<Longrightarrow> solver_inv X S e C R W a"
  "solver_inv X S e C R (insert r W) a \<Longrightarrow> r \<in> Wk a \<or> (\<forall>k \<in> Lb a r. closed_for e S a r k) \<Longrightarrow> solver_inv X S e C R W a"
  by (auto simp: solver_inv_def)

lemma inv_mono: "solver_inv X S e C R W a \<Longrightarrow> R \<subseteq> R' \<Longrightarrow> W \<subseteq> W' \<Longrightarrow> solver_inv X S e C R' W' a"
  by (auto simp: solver_inv_def)

text \<open>The nodes noted as stale are on the worklist.\<close>

definition stale_ok :: "sparse \<Rightarrow> solver \<Rightarrow> bool" where
  "stale_ok stale a \<longleftrightarrow> ns_ok stale \<and> (\<forall>n \<in> ns_labels stale. is_node a n \<and> n \<in> ns_labels (work a))"

lemma note_stale_cases:
  assumes s: "sets_ok b" "stale_ok stale b" and o: "note_stale n (stale, b) = Inr (stale', b')"
  shows "is_node b n \<and> nodes b' = nodes b \<and> constraints b' = constraints b \<and> step X {} b b' \<and> stale_ok stale' b' \<and>
    (Lb b (rf b n) = {} \<longrightarrow> b' = b \<and> stale' = stale) \<and> (Lb b (rf b n) = {} \<or> rf b n \<in> Wk b') \<and>
    ns_labels stale' \<subseteq> insert n (ns_labels stale) \<and> ns_labels stale \<subseteq> ns_labels stale' \<and>
    (n \<in> ns_labels stale' \<or> Pv b (rf b n) = {} \<or> Lb b (rf b n) = {})"
proof (cases "Lb b (rf b n) = {}")
  case True
  then have "is_node b n" "b' = b" "stale' = stale"
    using o ns.is_empty [OF sets_okD(2) [OF s(1)]] by (auto simp: note_stale_def bindR_eq_Inr_iff ref_of_Inr Lb_def)
  then show ?thesis using True s step_refl by auto
next
  case False
  then have n: "is_node b n" and w: "addWork n b = Inr b'"
    and st: "(if ns_IsEmpty (prevPTS (sol b (rf b n))) then Inr stale else bindR (ns_add stale n) (\<lambda>(t, _). Inr t)) = Inr stale'"
    using o ns.is_empty [OF sets_okD(2) [OF s(1)]] by (auto simp: note_stale_def bindR_eq_Inr_iff ref_of_Inr Lb_def)
  have step: "step X {} b b'" by (rule addWork_step [OF step_refl n w]) (rule s(1))
  obtain wk where wk: "ns_add (work b) n = Inr wk" "b' = b\<lparr>work := fst wk\<rparr>"
    using w by (auto simp: addWork_def bindR_eq_Inr_iff)
  have wl: "ns_labels (work b') = insert n (ns_labels (work b))"
    using ns.add_Inr [OF sets_okD(1) [OF s(1)]] wk by (cases wk) simp
  have nd: "nodes b' = nodes b" "constraints b' = constraints b" using wk(2) by simp_all
  then have v: "is_node b' = is_node b" "rf b' = rf b" by (simp_all add: fun_eq_iff is_node_def rf_def)
  have ns: "ns_ok stale" "\<forall>n \<in> ns_labels stale. is_node b n \<and> n \<in> ns_labels (work b)" using s(2) by (simp_all add: stale_ok_def)
  have "ns_ok stale' \<and> (ns_labels stale' = ns_labels stale \<and> Pv b (rf b n) = {} \<or> ns_labels stale' = insert n (ns_labels stale))"
  proof (cases "ns_IsEmpty (prevPTS (sol b (rf b n)))")
    case True
    then show ?thesis using st ns(1) ns.is_empty [OF sets_okD(4) [OF s(1)]] by (simp add: Pv_def)
  next
    case False
    then show ?thesis using st ns.add_Inr [OF ns(1)] by (auto simp: bindR_eq_Inr_iff)
  qed
  moreover have "rf b n \<in> Wk b'" using n wl by (auto simp: Wk_def v)
  ultimately show ?thesis using n nd step ns wl False by (auto simp: stale_ok_def v)
qed

text \<open>One constraint: it is attached, and its node noted.\<close>

lemma attach_inv_aux:
  assumes J: "solver_inv X S e C (rf a ` ns_labels stale) {} a" and st: "stale_ok stale a"
    and s: "same_but (rf a n) a b" "registered b c" "\<forall>c \<in> Cx b (rf a n). okc X b c"
    and o: "note_stale n (stale, b) = Inr (stale', b')"
  shows "solver_inv X S e (insert c C) (rf b' ` ns_labels stale') {} b' \<and> stale_ok stale' b' \<and> constraints b' = constraints a \<and> nodes b' = nodes a"
proof -
  note v = same_but_closed(1,2) [OF s(1)]
  have sb: "sets_ok b" "nodes b = nodes a" "constraints b = constraints a" "stale_ok stale b"
    using s(1) st by (simp_all add: same_but_def stale_ok_def v)
  note nn = note_stale_cases [OF sb(1,4) o, of X, unfolded v]
  have n: "is_node a n" "nodes b' = nodes b" "constraints b' = constraints b" "step X {} b b'" "stale_ok stale' b'"
    using nn by simp_all
  have nL: "Lb b (rf a n) = {} \<longrightarrow> b' = b \<and> stale' = stale" by (rule nn [THEN conjunct2, THEN conjunct2, THEN conjunct2, THEN conjunct2, THEN conjunct2, THEN conjunct1])
  note n6 = nn [THEN conjunct2, THEN conjunct2, THEN conjunct2, THEN conjunct2, THEN conjunct2, THEN conjunct2]
  have nW: "Lb b (rf a n) = {} \<or> rf a n \<in> Wk b'" by (rule n6 [THEN conjunct1])
  have nS: "ns_labels stale \<subseteq> ns_labels stale'" by (rule n6 [THEN conjunct2, THEN conjunct2, THEN conjunct1])
  have nP: "n \<in> ns_labels stale' \<or> Pv b (rf a n) = {} \<or> Lb b (rf a n) = {}" by (rule n6 [THEN conjunct2, THEN conjunct2, THEN conjunct2])
  have v': "rf b' = rf a" using n(2) sb(2) by (simp add: fun_eq_iff rf_def)
  have J1: "solver_inv X S e C (insert (rf a n) (rf a ` ns_labels stale)) {rf a n} b"
    by (rule inv_same_but [OF J s(1,3)])
  have same: "Pv b' (rf a n) = Pv b (rf a n)" using grows_same [OF step_grows [OF n(4)]] by blast
  have J2: "solver_inv X S e (insert c C) (insert (rf a n) (rf a ` ns_labels stale)) {rf a n} b'"
    by (rule inv_step0 [OF inv_insert [OF J1 s(2)] n(4)])
  show ?thesis
  proof (cases "Lb b (rf a n) = {}")
    case True
    then have b': "b' = b" "stale' = stale" using nL by simp_all
    have "Pv b (rf a n) \<subseteq> Lb b (rf a n)" by (rule inv_Pv [OF J1])
    then have "Pv b (rf a n) = {}" using True by simp
    then have "\<forall>k \<in> Pv b' (rf a n). closed_for e S b' (rf a n) k" by (simp add: b')
    moreover have "solver_inv X S e (insert c C) (insert (rf a n) (rf a ` ns_labels stale)) {} b'"
      by (rule inv_drop(2) [OF J2]) (simp add: b' True)
    ultimately have "solver_inv X S e (insert c C) (rf a ` ns_labels stale) {} b'" by (rule inv_drop(1) [rotated])
    then show ?thesis using n(2,3,5) sb(2,3) by (simp add: v b')
  next
    case False
    then have J3: "solver_inv X S e (insert c C) (insert (rf a n) (rf a ` ns_labels stale)) {} b'"
      by (intro inv_drop(2) [OF J2]) (use nW in simp)
    have "solver_inv X S e (insert c C) (rf a ` ns_labels stale') {} b'"
    proof (cases "n \<in> ns_labels stale'")
      case True
      then show ?thesis by (intro inv_mono [OF J3]) (use nS in auto)
    next
      case F: False
      then have "Pv b' (rf a n) = {}" using nP False same by simp
      then have "solver_inv X S e (insert c C) (rf a ` ns_labels stale) {} b'" by (intro inv_drop(1) [OF J3]) simp
      then show ?thesis by (rule inv_mono) (use nS in auto)
    qed
    then show ?thesis using n(2,3,5) sb(2,3) by (simp add: v')
  qed
qed

lemma add_edge_same_but:
  assumes "sets_ok a" "add_edge s d a = Inr (ch, b)"
  shows "same_but (rf a s) a b" "registered b (CopyC d s)" "Cx b = Cx a"
proof -
  obtain t where t: "is_node a s" "ns_add (copyTo (sol a (rf a s))) d = Inr (t, ch)"
    "b = set_sol (rf a s) ((sol a (rf a s))\<lparr>copyTo := t\<rparr>) a"
    using assms(2) by (auto simp: add_edge_def bindR_eq_Inr_iff ref_of_Inr split: prod.splits)
  have l: "ns_ok t" "ns_labels t = insert d (Ed a (rf a s))"
    using ns.add_Inr [OF sets_okD(3) [OF assms(1)] t(2)] by (simp_all add: Ed_def)
  have "sets_ok b" unfolding t(3) by (rule sets_ok_set_sol) (simp_all add: assms l sets_okD)
  then show "same_but (rf a s) a b"
    using l by (auto simp: same_but_def t(3) fun_eq_iff set_sol_def Lb_def Pv_def Ed_def Cx_def)
  show "registered b (CopyC d s)" using t(1) l by (simp add: registered_def t(3) set_sol_views)
  show "Cx b = Cx a" by (simp add: t(3) fun_eq_iff set_sol_def Cx_def)
qed

lemma add_complex_same_but:
  assumes "sets_ok a" "b = set_sol r ((sol a r)\<lparr>complex := complex (sol a r) @ [c]\<rparr>) a"
  shows "same_but r a b" "c \<in> Cx b r" "Cx b r = insert c (Cx a r)"
proof -
  have "sets_ok b" unfolding assms(2) by (rule sets_ok_set_sol) (simp_all add: assms(1) sets_okD)
  then show "same_but r a b"
    by (auto simp: same_but_def assms(2) fun_eq_iff set_sol_def Lb_def Pv_def Ed_def Cx_def)
  show "c \<in> Cx b r" "Cx b r = insert c (Cx a r)" by (simp_all add: assms(2) Cx_def set_sol_def)
qed

lemma registered_complex:
  "\<not> is_addr c \<Longrightarrow> \<nexists>d s. c = CopyC d s \<Longrightarrow> registered a c \<longleftrightarrow> is_node a (ptr c) \<and> c \<in> Cx a (rf a (ptr c))"
  by (cases c) (auto simp: registered_def is_addr_def)

lemma attach_inv:
  assumes J: "solver_inv X S e C (rf a ` ns_labels stale) {} a" and st: "stale_ok stale a"
    and c: "okc X a c" "is_addr c \<longrightarrow> c \<in> C" and o: "attach c (stale, a) = Inr (stale', b)"
  shows "solver_inv X S e (insert c C) (rf b ` ns_labels stale') {} b \<and> stale_ok stale' b \<and> constraints b = constraints a \<and> nodes b = nodes a"
proof (cases "is_addr c")
  case True
  then have "b = a" "stale' = stale" using o by (auto simp: is_addr_def attach_def)
  then show ?thesis using J st c(2) True by (simp add: insert_absorb)
next
  case False
  show ?thesis
  proof (cases "\<exists>d s. c = CopyC d s")
    case True
    then obtain d s where cs: "c = CopyC d s" by blast
    obtain ch a1 where o1: "add_edge s d a = Inr (ch, a1)" "note_stale s (stale, a1) = Inr (stale', b)"
      using o by (auto simp: attach_def cs bindR_eq_Inr_iff)
    note e = add_edge_same_but [OF inv_sets [OF J] o1(1)]
    have "\<forall>c \<in> Cx a1 (rf a s). okc X a1 c"
      using J by (simp add: e(3) same_but_closed(6) [OF e(1)] solver_inv_def)
    from attach_inv_aux [OF J st e(1) e(2) this o1(2)] show ?thesis by (simp add: cs)
  next
    case nc: False
    let ?r = "rf a (ptr c)" and ?b = "set_sol (rf a (ptr c)) ((sol a (rf a (ptr c)))\<lparr>complex := complex (sol a (rf a (ptr c))) @ [c]\<rparr>) a"
    have n: "is_node a (ptr c)" and o1: "note_stale (ptr c) (stale, ?b) = Inr (stale', b)"
      using o False nc by (cases c; auto simp: attach_def is_addr_def bindR_eq_Inr_iff ref_of_Inr Let_def)+
    note e = add_complex_same_but [where r = ?r and c = c, OF inv_sets [OF J] refl]
    have "registered ?b c"
      unfolding registered_complex [OF False nc] same_but_closed(1,2) [OF e(1)] using n e(2) by simp
    moreover have "\<forall>x \<in> Cx ?b ?r. okc X ?b x"
      using J c(1) by (simp add: e(3) same_but_closed(6) [OF e(1)] solver_inv_def)
    ultimately show ?thesis by (rule attach_inv_aux [OF J st e(1) _ _ o1])
  qed
qed

lemma attach_all_inv:
  "solver_inv X S e C (rf a ` ns_labels stale) {} a \<Longrightarrow> stale_ok stale a \<Longrightarrow> \<forall>c \<in> set cs. okc X a c \<and> (is_addr c \<longrightarrow> c \<in> C) \<Longrightarrow>
   attach_all cs (stale, a) = Inr (stale', b) \<Longrightarrow>
   solver_inv X S e (C \<union> set cs) (rf b ` ns_labels stale') {} b \<and> stale_ok stale' b \<and> constraints b = constraints a \<and> nodes b = nodes a"
proof (induction cs arbitrary: C stale a)
  case Nil
  then show ?case by simp
next
  case (Cons c cs)
  obtain t a1 where o: "attach c (stale, a) = Inr (t, a1)" "attach_all cs (t, a1) = Inr (stale', b)"
    using Cons.prems(4) by (auto simp: bindR_eq_Inr_iff)
  have i: "solver_inv X S e (insert c C) (rf a1 ` ns_labels t) {} a1" "stale_ok t a1" "constraints a1 = constraints a" "nodes a1 = nodes a"
    using attach_inv [OF Cons.prems(1,2) _ _ o(1)] Cons.prems(3) by simp_all
  have "okc X a1 = okc X a" using i(4) by (simp add: fun_eq_iff okc_def is_node_def rf_def split: constraint.splits)
  then show ?case using Cons.IH [OF i(1,2) _ o(2)] Cons.prems(3) i(3,4) by simp
qed

section \<open>Old labels and new constraints\<close>

lemma solveConstraints_inv:
  assumes J: "solver_inv X S e C R W a" and e: "gen_ok X S e" "\<not> reflection e" "ns_ok delta" "solveConstraints e r delta a = Inr b"
  shows "solver_inv X S e C R W b" "step X {} a b" "\<forall>k \<in> ns_labels delta. closed_for e S b r k"
proof -
  have "\<not> skipNewFn a" "\<forall>c \<in> Cx a r. okc X a c" using J by (simp_all add: solver_inv_def)
  note s = solveConstraints_step [OF e(1-3) inv_sets [OF J] this e(4)]
  show "step X {} a b" by (rule s(1))
  then show "solver_inv X S e C R W b" by (rule inv_step0 [OF J])
  show "\<forall>k \<in> ns_labels delta. closed_for e S b r k" using s(2) by (simp add: closed_for_def)
qed

lemma solve_stale_inv:
  "gen_ok X S e \<Longrightarrow> \<not> reflection e \<Longrightarrow> \<forall>n \<in> set ids. is_node a n \<Longrightarrow> solver_inv X S e C (rf a ` set ids) {} a \<Longrightarrow> solve_stale e ids a = Inr b \<Longrightarrow>
   solver_inv X S e C {} {} b \<and> step X {} a b"
proof (induction ids arbitrary: a)
  case Nil
  then show ?case using step_refl inv_sets by auto
next
  case (Cons n ids)
  obtain a1 where o: "is_node a n" "solveConstraints e (rf a n) (prevPTS (sol a (rf a n))) a = Inr a1" "solve_stale e ids a1 = Inr b"
    using Cons.prems(5) by (auto simp: bindR_eq_Inr_iff ref_of_Inr)
  have J: "solver_inv X S e C (insert (rf a n) (rf a ` set ids)) {} a" using Cons.prems(4) by simp
  note s = solveConstraints_inv [OF J Cons.prems(1,2) sets_okD(4) [OF inv_sets [OF J]] o(2)]
  have "\<forall>k \<in> Pv a1 (rf a n). closed_for e S a1 (rf a n) k"
    using s(3) grows_same [OF step_grows [OF s(2)]] by (simp add: Pv_def)
  then have J1: "solver_inv X S e C (rf a ` set ids) {} a1" by (rule inv_drop(1) [OF s(1)])
  have r: "is_node a1 m \<and> rf a1 m = rf a m" if "m \<in> set ids" for m
    using Cons.prems(3) that grows_nodes [OF step_grows [OF s(2)], of m] by simp
  then have "rf a ` set ids = rf a1 ` set ids" by (intro image_cong) simp_all
  then show ?case using Cons.IH [OF Cons.prems(1,2) _ _ o(3)] J1 r step_trans [OF s(2)] by simp
qed

end
