(* ===== verification/Pointer_Sound.thy ===== *)
theory Pointer_Sound
  imports Pointer_Invariant
begin

text \<open>
  The loop of \<^verbatim>\<open>solveDefault\<close>: the invariant between rounds, what it says when the worklist is empty, and
  the termination of the loop.
\<close>

text \<open>What only depends on the nodes, their labels, edges and constraints.\<close>

lemma views_cong:
  assumes "nodes b = nodes a" "Lb b = Lb a" "Ed b = Ed a" "Cx b = Cx a"
  shows "is_node b = is_node a" "rf b = rf a" "okc X b = okc X a" "registered b = registered a"
    "closed_for e S b = closed_for e S a"
proof -
  show n: "is_node b = is_node a" "rf b = rf a" using assms by (simp_all add: fun_eq_iff is_node_def rf_def)
  have h: "has_label b = has_label a" "edge b = edge a" "ty_of b = ty_of a"
    using assms by (simp_all add: fun_eq_iff has_label_def edge_def ty_of_def n)
  have "edges b = edges a" by (simp add: fun_eq_iff edges_def h)
  then have r: "rule_holds e S b = rule_holds e S a"
    by (auto simp: fun_eq_iff rule_holds_def called_def n h split: constraint.splits)
  show "registered b = registered a" using assms by (auto simp: fun_eq_iff registered_def n h split: constraint.splits)
  show "okc X b = okc X a" by (simp add: fun_eq_iff okc_def n split: constraint.splits)
  show "closed_for e S b = closed_for e S a" using assms by (simp add: fun_eq_iff closed_for_def r h)
qed

section \<open>One round\<close>

lemma step_work_nonempty: "step X D a b \<Longrightarrow> ns_labels (work b) = {} \<Longrightarrow> ns_labels (work a) = {}"
  using step_grows by (fastforce simp: grows_def)

lemma processNewConstraints_inv:
  assumes J: "solver_inv X S e C {} {} a" and e: "gen_ok X S e" "\<not> reflection e" and o: "processNewConstraints e a = Inr b"
  shows "solver_inv X S e (C \<union> set (constraints a)) {} {} b" "ns_labels (work b) = {} \<Longrightarrow> constraints b = []"
proof -
  let ?a = "a\<lparr>constraints := []\<rparr>"
  obtain a1 stale a2 where o1: "add_bases (constraints a) ?a = Inr a1" "attach_all (constraints a) ([], a1) = Inr (stale, a2)"
    "solve_stale e (ns_list stale) a2 = Inr b"
    using o by (auto simp: processNewConstraints_def bindR_eq_Inr_iff Let_def)
  have v: "Lb ?a = Lb a" "Ed ?a = Ed a" "Pv ?a = Pv a" "Cx ?a = Cx a" "nodes ?a = nodes a" "sets_ok ?a = sets_ok a"
    by (simp_all add: fun_eq_iff Lb_def Ed_def Pv_def Cx_def sets_ok_def)
  note c = views_cong [of ?a a, OF v(5,1,2,4)]
  have "Wk ?a = Wk a" by (simp add: Wk_def c)
  then have J0: "solver_inv X S e C {} {} ?a" using J by (simp add: solver_inv_def v c)
  have k: "\<forall>c \<in> set (constraints a). okc X a c" using J by (simp add: solver_inv_def)
  note b = add_bases_inv [OF J0 o1(1)]
  have "okc X a1 = okc X a" using b by (simp add: fun_eq_iff okc_def is_node_def rf_def split: constraint.splits)
  moreover have "stale_ok [] a1" by (simp add: stale_ok_def ns.emp)
  ultimately have i: "solver_inv X S e (C \<union> {c \<in> set (constraints a). is_addr c} \<union> set (constraints a)) (rf a2 ` ns_labels stale) {} a2"
    "stale_ok stale a2" "constraints a2 = []"
    using attach_all_inv [OF _ _ _ o1(2), of X S e "C \<union> {c \<in> set (constraints a). is_addr c}"] b k by (simp_all add: ns.emp)
  have C: "C \<union> {c \<in> set (constraints a). is_addr c} \<union> set (constraints a) = C \<union> set (constraints a)" by auto
  have l: "set (ns_list stale) = ns_labels stale" using ns.list(1) i(2) by (simp add: stale_ok_def)
  note s = solve_stale_inv [OF e, of "ns_list stale" a2, unfolded l, OF _ i(1)[unfolded C] o1(3)]
  have n: "\<forall>n \<in> ns_labels stale. is_node a2 n" using i(2) by (simp add: stale_ok_def)
  show "solver_inv X S e (C \<union> set (constraints a)) {} {} b" using s [OF n] by simp
  show "constraints b = []" if "ns_labels (work b) = {}"
  proof -
    have "ns_labels (work a2) = {}" using s [OF n] that step_work_nonempty by blast
    then have "ns_list stale = []" using i(2) l by (auto simp: stale_ok_def)
    then show ?thesis using o1(3) i(3) by simp
  qed
qed

text \<open>\<^verbatim>\<open>TakeMin\<close> on the worklist.\<close>

lemma ns_take:
  assumes "ns_ok s"
  shows "(TakeMin s = Inr None \<and> ns_labels s = {}) \<or>
    (\<exists>x t. TakeMin s = Inr (Some (x, t)) \<and> ns_ok t \<and> word_of_int x \<in> ns_labels s \<and>
      ns_labels t = ns_labels s - {word_of_int x})"
proof -
  have w: "wf_sparse s" "elems s \<subseteq> {0..<2 ^ 32}" using assms by (simp_all add: ns_ok_def)
  show ?thesis
  proof (cases "elems s = {}")
    case True
    then have "TakeMin s = Inr None"
      using TakeMin_spec [OF w(1)] by (auto simp: is_least_def split: sum.splits option.splits)
    then show ?thesis using True by (simp add: ns_labels_def)
  next
    case False
    then obtain x t where t: "TakeMin s = Inr (Some (x, t))" "x \<in> elems s" "wf_sparse t" "elems t = elems s - {x}"
      using TakeMin_spec [OF w(1)] by (auto simp: is_least_def split: sum.splits option.splits)
    have "ns_labels t = ns_labels s - {word_of_int x}"
      unfolding ns_labels_def t(4) image_insert [symmetric, where B = "{}", unfolded image_empty]
      by (rule inj_on_image_set_diff [OF inj_node]) (use w(2) t(2) in blast)+
    then show ?thesis using t w(2) by (auto simp: ns_ok_def ns_labels_def)
  qed
qed

lemma take_work_cases:
  assumes "sets_ok a" "take_work a = Inr w"
  shows "(w = None \<and> ns_labels (work a) = {}) \<or>
    (\<exists>n t. w = Some (n, a\<lparr>work := t\<rparr>) \<and> ns_ok t \<and> n \<in> ns_labels (work a) \<and> ns_labels t = ns_labels (work a) - {n})"
  using ns_take [OF sets_okD(1) [OF assms(1)]] assms(2) by (auto simp: take_work_def)

text \<open>The state without the node \<open>n\<close> on its worklist.\<close>

lemma inv_take:
  assumes J: "solver_inv X S e C {} {} a" and t: "ns_ok t" "ns_labels t = ns_labels (work a) - {n}"
  shows "solver_inv X S e C {} {rf a n} (a\<lparr>work := t\<rparr>)"
proof -
  let ?a = "a\<lparr>work := t\<rparr>"
  have v: "Lb ?a = Lb a" "Ed ?a = Ed a" "Pv ?a = Pv a" "Cx ?a = Cx a" "nodes ?a = nodes a"
    by (simp_all add: fun_eq_iff Lb_def Ed_def Pv_def Cx_def)
  note c = views_cong [of ?a a, OF v(5,1,2,4)]
  have W: "Wk a \<subseteq> insert (rf a n) (Wk ?a)" using t(2) by (auto simp: Wk_def c)
  have "sets_ok ?a" using J t(1) by (simp add: solver_inv_def sets_ok_def)
  then show ?thesis using J W by (auto simp: solver_inv_def v c)
qed

lemma default_node_inv:
  assumes J: "solver_inv X S e C {} {rf a n} a" and e: "gen_ok X S e" "\<not> reflection e"
    and d: "ns_ok delta" and o: "default_node e n (delta, a) = Inr (delta', b)"
  shows "solver_inv X S e C {} {} b \<and> ns_ok delta' \<and> is_node a n \<and>
    ((b = a \<and> ns_labels delta' = {}) \<or>
     ns_labels delta' \<noteq> {} \<and> Pv a (rf a n) \<inter> ns_labels delta' = {} \<and>
     (\<forall>r. Pv b r = (if r = rf a n then Pv a r \<union> ns_labels delta' else Pv a r)))"
proof -
  let ?r = "rf a n" and ?q = "sol a (rf a n)"
  have s: "sets_ok a" by (rule inv_sets [OF J])
  obtain dl where dl: "is_node a n" "ns_diff delta (pts ?q) (prevPTS ?q) = Inr dl"
    and rest: "(if ns_IsEmpty dl then Inr (dl, a) else bindR (ns_copy (prevPTS ?q) (pts ?q)) (\<lambda>prev.
      bindR (solveConstraints e ?r dl (set_sol ?r (?q\<lparr>prevPTS := prev\<rparr>) a)) (\<lambda>a. Inr (dl, a)))) = Inr (delta', b)"
    using o unfolding default_node_def Let_def fst_conv snd_conv bindR_eq_Inr_iff [of "ref_of n a"]
      bindR_eq_Inr_iff [of "ns_diff d x y" for d x y] ref_of_Inr by blast
  have l: "ns_ok dl" "ns_labels dl = Lb a ?r - Pv a ?r"
    using ns.diff_Inr [OF d sets_okD(2,4) [OF s] dl(2)] s by (simp_all add: Lb_def Pv_def)
  show ?thesis
  proof (cases "ns_IsEmpty dl")
    case True
    then have e0: "Lb a ?r \<subseteq> Pv a ?r" "b = a" "delta' = dl" "ns_labels dl = {}"
      using l ns.is_empty [OF l(1)] rest by auto
    have "?r \<in> X \<or> (\<forall>k \<in> Lb a ?r. closed_for e S a ?r k)" using J e0(1) by (auto simp: solver_inv_def)
    then have "solver_inv X S e C {} {} a" using J by (auto simp: solver_inv_def)
    then show ?thesis using e0 l(1) dl(1) by simp
  next
    case False
    then obtain prev where p: "ns_copy (prevPTS ?q) (pts ?q) = Inr prev"
      "solveConstraints e ?r dl (set_sol ?r (?q\<lparr>prevPTS := prev\<rparr>) a) = Inr b" "delta' = dl"
      using rest by (auto simp: bindR_eq_Inr_iff)
    let ?a = "set_sol ?r (?q\<lparr>prevPTS := prev\<rparr>) a"
    have pl: "ns_ok prev" "ns_labels prev = Lb a ?r"
      using ns.copy_Inr [OF sets_okD(4,2) [OF s] p(1)] s by (simp_all add: Lb_def)
    have v: "Lb ?a = Lb a" "Ed ?a = Ed a" "Cx ?a = Cx a" "nodes ?a = nodes a" "Pv ?a = (Pv a)(?r := Lb a ?r)"
      "constraints ?a = constraints a" "skipNewFn ?a = skipNewFn a"
      by (auto simp: fun_eq_iff set_sol_def Lb_def Ed_def Pv_def Cx_def pl)
    note c = views_cong [of ?a a, OF v(4,1-3)]
    have "sets_ok ?a" by (rule sets_ok_set_sol [OF s]) (simp_all add: sets_okD s pl)
    then have J1: "solver_inv X S e C {?r} {?r} ?a" using J by (auto simp: solver_inv_def v c set_sol_views(7))
    note sc = solveConstraints_inv [OF J1 e l(1) p(2)]
    have P: "Pv b = (Pv a)(?r := Lb a ?r)" "Pv a ?r \<subseteq> Lb a ?r"
      using grows_same [OF step_grows [OF sc(2)]] inv_Pv [OF J] v(5) by (simp_all add: fun_eq_iff)
    have old: "closed_for e S b ?r k" if "?r \<notin> X" "k \<in> Pv a ?r" for k
      by (rule closed_step [OF sc(2) that(1)]) (use J that P(2) in \<open>auto simp: v c solver_inv_def\<close>)
    have cl: "?r \<in> X \<or> (\<forall>k \<in> Pv b ?r. closed_for e S b ?r k)" using old sc(3) l(2) P(1) by auto
    have "?r \<in> X \<or> ?r \<in> Wk b \<or> (\<forall>k \<in> Lb b ?r. closed_for e S b ?r k)"
      using cl P(1) sc(2) by (auto simp: step_def tracked_def v)
    then have "solver_inv X S e C {} {} b" using sc(1) cl by (auto simp: solver_inv_def)
    moreover have "ns_labels dl \<noteq> {}" using False ns.is_empty [OF l(1)] by simp
    ultimately show ?thesis using P l dl(1) p(3) by auto
  qed
qed

section \<open>The loop\<close>

definition solved :: "nat set \<Rightarrow> fn_ref set \<Rightarrow> env \<Rightarrow> constraint set \<Rightarrow> solver \<Rightarrow> bool" where
  "solved X S e C a \<longleftrightarrow> solver_inv X S e C {} {} a \<and> ns_labels (work a) = {} \<and> constraints a = []"

lemma solved_mono: "solved X S e C a \<Longrightarrow> D \<subseteq> C \<Longrightarrow> solved X S e D a"
  by (auto simp: solved_def solver_inv_def)

lemma default_round_inv:
  assumes J: "solver_inv X S e C {} {} a" and e: "gen_ok X S e" "\<not> reflection e" and d: "ns_ok delta"
    and o: "default_round e (delta, a) = Inr (w, b)"
  shows "case w of None \<Rightarrow> solved X S e (C \<union> set (constraints a)) b
         | Some (delta', a') \<Rightarrow> a' = b \<and> ns_ok delta' \<and> solver_inv X S e (C \<union> set (constraints a)) {} {} b"
proof -
  obtain a1 v where o1: "processNewConstraints e a = Inr a1" "take_work a1 = Inr v"
    and rest: "(case v of None \<Rightarrow> Inr (None, a1)
       | Some (nid, a2) \<Rightarrow> bindR (default_node e nid (delta, a2)) (\<lambda>s. Inr (Some s, snd s))) = Inr (w, b)"
    using o unfolding default_round_def fst_conv snd_conv bindR_eq_Inr_iff [of "processNewConstraints e a"]
      bindR_eq_Inr_iff [of "take_work x" for x] by blast
  note p = processNewConstraints_inv [OF J e o1(1)]
  show ?thesis
  proof (cases v)
    case None
    then have "ns_labels (work a1) = {}" using take_work_cases [OF inv_sets [OF p(1)] o1(2)] by simp
    then show ?thesis using rest None p by (auto simp: solved_def)
  next
    case (Some y)
    then obtain n t where t: "y = (n, a1\<lparr>work := t\<rparr>)" "ns_ok t" "ns_labels t = ns_labels (work a1) - {n}"
      using take_work_cases [OF inv_sets [OF p(1)] o1(2)] by auto
    note J1 = inv_take [OF p(1) t(2,3)]
    have r: "rf (a1\<lparr>work := t\<rparr>) n = rf a1 n" by (simp add: rf_def)
    obtain delta' where dn: "default_node e n (delta, a1\<lparr>work := t\<rparr>) = Inr (delta', b)" "w = Some (delta', b)"
      using rest Some t(1) by (auto simp: bindR_eq_Inr_iff)
    show ?thesis using default_node_inv [OF _ e d dn(1)] J1 r dn(2) by simp
  qed
qed

lemma solveDefault_inv:
  "solveDefault e s = Some (Inr b) \<Longrightarrow> gen_ok X S e \<Longrightarrow> \<not> reflection e \<Longrightarrow> ns_ok (fst s) \<Longrightarrow>
   solver_inv X S e C {} {} (snd s) \<Longrightarrow> solved X S e (C \<union> set (constraints (snd s))) b"
proof -
  have "solveDefault e s = Some r \<Longrightarrow> r = Inr b \<longrightarrow> gen_ok X S e \<longrightarrow> \<not> reflection e \<longrightarrow> ns_ok (fst s) \<longrightarrow>
    (\<forall>C. solver_inv X S e C {} {} (snd s) \<longrightarrow> solved X S e (C \<union> set (constraints (snd s))) b)" for r
  proof (rule solveDefault.raw_induct [of "\<lambda>e s r. r = Inr b \<longrightarrow> gen_ok X S e \<longrightarrow> \<not> reflection e \<longrightarrow> ns_ok (fst s) \<longrightarrow>
      (\<forall>C. solver_inv X S e C {} {} (snd s) \<longrightarrow> solved X S e (C \<union> set (constraints (snd s))) b)" e s r])
    fix sd e s r
    assume IH: "\<And>e s r. sd e s = Some r \<Longrightarrow> r = Inr b \<longrightarrow> gen_ok X S e \<longrightarrow> \<not> reflection e \<longrightarrow> ns_ok (fst s) \<longrightarrow>
        (\<forall>C. solver_inv X S e C {} {} (snd s) \<longrightarrow> solved X S e (C \<union> set (constraints (snd s))) b)"
      and body: "(case default_round e s of Inl p \<Rightarrow> Some (Inl p) | Inr (None, a) \<Rightarrow> Some (Inr a) | Inr (Some s, _) \<Rightarrow> sd e s) = Some r"
    show "r = Inr b \<longrightarrow> gen_ok X S e \<longrightarrow> \<not> reflection e \<longrightarrow> ns_ok (fst s) \<longrightarrow>
      (\<forall>C. solver_inv X S e C {} {} (snd s) \<longrightarrow> solved X S e (C \<union> set (constraints (snd s))) b)"
    proof (intro impI allI)
      fix C assume r: "r = Inr b" and e: "gen_ok X S e" "\<not> reflection e" and d: "ns_ok (fst s)"
        and J: "solver_inv X S e C {} {} (snd s)"
      obtain w c where w: "default_round e (fst s, snd s) = Inr (w, c)"
        using body r by (cases "default_round e s") auto
      note i = default_round_inv [OF J e d w]
      show "solved X S e (C \<union> set (constraints (snd s))) b"
      proof (cases w)
        case None
        then show ?thesis using body r w i by simp
      next
        case (Some s')
        then have "sd e s' = Some (Inr b)" using body r w by simp
        then have "solved X S e (C \<union> set (constraints (snd s)) \<union> set (constraints (snd s'))) b"
          using IH e i Some by (auto split: prod.splits)
        then show ?thesis by (rule solved_mono) auto
      qed
    qed
  qed
  then show "solveDefault e s = Some (Inr b) \<Longrightarrow> gen_ok X S e \<Longrightarrow> \<not> reflection e \<Longrightarrow> ns_ok (fst s) \<Longrightarrow>
    solver_inv X S e C {} {} (snd s) \<Longrightarrow> solved X S e (C \<union> set (constraints (snd s))) b" by blast
qed

end
