(* ===== verification/Pointer_Termination.thy ===== *)
theory Pointer_Termination
  imports Pointer_Sound
begin

text \<open>
  Termination of the main loops when every method that is called already has its constraints: a round
  adds labels to the propagated ones, gives up a node, or shortens the worklist. Nothing is asked of the
  constraints.
\<close>

section \<open>No new nodes and constraints\<close>

text \<open>
  \<open>z\<close> is a state with the nodes, pending constraints, propagated labels and given-up nodes of \<open>a\<close>, and no
  more labels.
\<close>

definition quiet :: "solver \<Rightarrow> solver \<Rightarrow> bool" where
  "quiet z a \<longleftrightarrow>
     sets_ok a \<and> nodes a = nodes z \<and> constraints a = constraints z \<and> skipIDs a = skipIDs z \<and>
     (\<forall>r. prevPTS (sol a r) = prevPTS (sol z r)) \<and> (\<forall>r. Lb z r \<subseteq> Lb a r)"

definition gen_quiet :: "env \<Rightarrow> bool" where
  "gen_quiet e \<longleftrightarrow> (\<forall>f cl st a fo b. sets_ok a \<longrightarrow> genMissingFn e f cl st a = Inr (fo, b) \<longrightarrow> quiet a b)"

lemma quiet_refl: "sets_ok a \<Longrightarrow> quiet a a"
  by (simp add: quiet_def)

lemma quiet_trans: "quiet z a \<Longrightarrow> quiet a b \<Longrightarrow> quiet z b"
  unfolding quiet_def by (simp, meson order_trans)

lemma quiet_sets: "quiet z a \<Longrightarrow> sets_ok a"
  by (simp add: quiet_def)

lemma quiet_set_sol:
  "quiet z a \<Longrightarrow> ns_ok (pts q) \<Longrightarrow> ns_ok (copyTo q) \<Longrightarrow> prevPTS q = prevPTS (sol a r) \<Longrightarrow> Lb a r \<subseteq> ns_labels (pts q) \<Longrightarrow>
   quiet z (set_sol r q a)"
proof -
  assume q: "quiet z a" "ns_ok (pts q)" "ns_ok (copyTo q)" "prevPTS q = prevPTS (sol a r)" "Lb a r \<subseteq> ns_labels (pts q)"
  have "sets_ok (set_sol r q a)"
    by (rule sets_ok_set_sol [OF quiet_sets [OF q(1)] q(2,3)]) (simp add: q(4) sets_okD quiet_sets [OF q(1)])
  moreover have "Lb a i \<subseteq> Lb (set_sol r q a) i" for i using q(5) by (simp add: set_sol_views)
  ultimately have "quiet a (set_sol r q a)" using q(4) by (simp add: quiet_def set_sol_def)
  then show "quiet z (set_sol r q a)" by (rule quiet_trans [OF q(1)])
qed

lemma quiet_pts: "quiet z a \<Longrightarrow> ns_ok t \<Longrightarrow> Lb a r \<subseteq> ns_labels t \<Longrightarrow> quiet z (set_sol r ((sol a r)\<lparr>pts := t\<rparr>) a)"
  by (rule quiet_set_sol) (simp_all add: sets_okD quiet_sets)

lemma quiet_copyTo: "quiet z a \<Longrightarrow> ns_ok t \<Longrightarrow> quiet z (set_sol r ((sol a r)\<lparr>copyTo := t\<rparr>) a)"
  by (rule quiet_set_sol) (simp_all add: sets_okD quiet_sets Lb_def)

lemma quiet_complex: "quiet z a \<Longrightarrow> quiet z (set_sol r ((sol a r)\<lparr>complex := cs\<rparr>) a)"
  by (rule quiet_set_sol) (simp_all add: sets_okD quiet_sets Lb_def)

lemma quiet_work: "quiet z a \<Longrightarrow> ns_ok w \<Longrightarrow> quiet z (a\<lparr>work := w\<rparr>)"
proof -
  assume q: "quiet z a" "ns_ok w"
  have "sets_ok (a\<lparr>work := w\<rparr>)" using quiet_sets [OF q(1)] q(2) by (simp add: sets_ok_def)
  then show "quiet z (a\<lparr>work := w\<rparr>)" using q(1) by (simp add: quiet_def Lb_def)
qed

lemma ns_add_ok: "ns_ok s \<Longrightarrow> okR (\<lambda>x. ns_ok (fst x)) (ns_add s n)"
  using ns.add_Inr [of s n] by (auto simp: okR_def)

lemma addLabel_quiet: "quiet z a \<Longrightarrow> okR (\<lambda>x. quiet z (snd x)) (addLabel p k a)"
proof -
  assume q: "quiet z a"
  have "quiet z (set_sol (rf a p) ((sol a (rf a p))\<lparr>pts := t\<rparr>) a)" if "ns_add (pts (sol a (rf a p))) k = Inr (t, b)" for t b
    using ns.add_Inr [OF sets_okD(2) [OF quiet_sets [OF q]] that] by (intro quiet_pts [OF q]) (auto simp: Lb_def)
  then show "okR (\<lambda>x. quiet z (snd x)) (addLabel p k a)" by (auto simp: okR_def addLabel_def bindR_eq_Inr_iff ref_of_Inr)
qed

lemma add_edge_quiet: "quiet z a \<Longrightarrow> okR (\<lambda>x. quiet z (snd x)) (add_edge s d a)"
  unfolding add_edge_def
  by (rule okR_bind [OF okR_True], rule okR_bind [OF ns_add_ok])
    (auto intro: quiet_copyTo simp: sets_okD quiet_sets split: prod.splits)

lemma addWork_quiet: "quiet z a \<Longrightarrow> okR (quiet z) (addWork n a)"
  unfolding addWork_def
  by (rule okR_bind [OF ns_add_ok]) (auto intro: quiet_work simp: sets_okD quiet_sets split: prod.splits)

lemma add_labels_quiet:
  assumes "quiet z a" "ns_ok dl" "same \<Longrightarrow> pts (sol a (rf a m)) = dl"
  shows "okR (\<lambda>x. quiet z (snd x)) (add_labels m same dl a)"
proof -
  have "quiet z (set_sol (rf a m) ((sol a (rf a m))\<lparr>pts := t\<rparr>) a)"
    if "ns_addAll same (pts (sol a (rf a m))) dl = Inr (t, b)" for t b
    using ns.addAll_Inr [OF sets_okD(2) [OF quiet_sets [OF assms(1)]] assms(2,3) that]
    by (intro quiet_pts [OF assms(1)]) (auto simp: Lb_def)
  then show ?thesis by (auto simp: okR_def add_labels_def bindR_eq_Inr_iff ref_of_Inr)
qed

lemma onlineCopy_quiet: "quiet z a \<Longrightarrow> okR (\<lambda>x. quiet z (snd x)) (onlineCopy d s a)"
proof -
  have "okR (\<lambda>x. quiet z (snd x)) (add_labels d (rf b s = rf b d) (pts (sol b (rf b s))) b)" if "quiet z b" for b
    using that by (intro add_labels_quiet) (simp_all add: sets_okD quiet_sets)
  then have "okR (\<lambda>x. quiet z (snd x)) (bindR (ref_of s b) (\<lambda>rs. bindR (ref_of d b) (\<lambda>rd. add_labels d (rs = rd) (pts (sol b rs)) b)))"
    if "quiet z b" for b
    using that by (auto simp: okR_def bindR_eq_Inr_iff ref_of_Inr)
  then show "quiet z a \<Longrightarrow> okR (\<lambda>x. quiet z (snd x)) (onlineCopy d s a)"
    unfolding onlineCopy_def by (intro okR_if okR_bind_pair [OF add_edge_quiet]) simp_all
qed

lemma onlineCopyN_quiet: "quiet z a \<Longrightarrow> okR (quiet z) (onlineCopyN d s w a)"
proof -
  have "quiet z a \<Longrightarrow> okR (quiet z) (onlineCopyN_loop n d s a)" for n
  proof (induction n arbitrary: d s a)
    case (Suc n)
    show ?case unfolding onlineCopyN_loop.simps
      by (intro okR_bind_pair [OF onlineCopy_quiet [OF Suc.prems]] okR_bind [where Q = "quiet z"] okR_if addWork_quiet Suc.IH)
        simp_all
  qed simp
  then show "quiet z a \<Longrightarrow> okR (quiet z) (onlineCopyN d s w a)" by (simp add: onlineCopyN_def)
qed

lemma load_quiet: "quiet z a \<Longrightarrow> okR (quiet z) (load_solve k d xs a)"
proof -
  have "quiet z a \<Longrightarrow> okR (\<lambda>x. quiet z (snd x)) (load_loop k d xs c a)" for c
  proof (induction xs arbitrary: c a)
    case (Cons x xs)
    show ?case unfolding load_loop.simps by (intro okR_bind_pair [OF onlineCopy_quiet [OF Cons.prems]] Cons.IH)
  qed simp
  then show "quiet z a \<Longrightarrow> okR (quiet z) (load_solve k d xs a)"
    unfolding load_solve_def by (intro okR_bind_pair [where Q = "quiet z"] okR_if addWork_quiet) simp_all
qed

lemma store_quiet: "quiet z a \<Longrightarrow> okR (quiet z) (store_solve k s xs a)"
proof (induction xs arbitrary: a)
  case (Cons x xs)
  show ?case unfolding store_solve.simps
    by (intro okR_bind_pair [OF onlineCopy_quiet [OF Cons.prems]] okR_bind [where Q = "quiet z"] okR_if addWork_quiet Cons.IH)
      simp_all
qed simp

lemma add_and_work_quiet: "quiet z a \<Longrightarrow> okR (quiet z) (add_and_work d l a)"
  unfolding add_and_work_def by (intro okR_bind_pair [OF addLabel_quiet] okR_if addWork_quiet) simp_all

lemma offsetAddr_quiet: "quiet z a \<Longrightarrow> okR (quiet z) (offsetAddr_loop k d xs a)"
proof (induction xs arbitrary: a)
  case (Cons x xs)
  show ?case unfolding offsetAddr_loop.simps by (intro okR_bind [OF add_and_work_quiet [OF Cons.prems]] Cons.IH)
qed simp

lemma typeFilter_quiet: "quiet z a \<Longrightarrow> okR (quiet z) (typeFilter_solve e t d xs a)"
proof (induction xs arbitrary: a)
  case (Cons x xs)
  show ?case unfolding typeFilter_solve.simps
    by (intro okR_bind [OF okR_True] okR_prod okR_if okR_bind [OF add_and_work_quiet] Cons.IH Cons.prems) (simp_all add: Cons.prems)
qed simp

lemma untag_quiet: "quiet z a \<Longrightarrow> okR (quiet z) (untag_solve e t d ex xs a)"
proof (induction xs arbitrary: a)
  case (Cons x xs)
  show ?case unfolding untag_solve.simps
    by (intro okR_bind [OF okR_True] okR_prod okR_if [of _ "quiet z"] okR_bind [where Q = "quiet z"] onlineCopyN_quiet Cons.IH Cons.prems)
      (simp_all add: Cons.prems onlineCopyN_quiet)
qed simp

lemma eachSolve_quiet: "quiet z a \<Longrightarrow> okR (quiet z) (eachSolve e ps fo f v a)"
  unfolding eachSolve_def Let_def
  by (intro okR_bind_pair [OF addLabel_quiet] okR_bind [OF okR_True] okR_bind [OF onlineCopyN_quiet] onlineCopyN_quiet)

lemma invoke_quiet: "gen_quiet e \<Longrightarrow> quiet z a \<Longrightarrow> okR (quiet z) (invoke_solve e m ps st cl xs a)"
proof (induction xs arbitrary: a)
  case (Cons x xs)
  have "okR (\<lambda>x. quiet z (snd x)) (callee_obj e f cl st a)" for f
    using Cons.prems quiet_trans [OF Cons.prems(2)] quiet_sets [OF Cons.prems(2)] by (auto simp: callee_obj_def gen_quiet_def okR_def)
  then show ?case unfolding invoke_solve.simps
    by (intro okR_bind [OF okR_True [where r = "taggedValue x a"]] okR_prod okR_if okR_option okR_bind_pair [where Q = "quiet z"]
        okR_bind [where Q = "quiet z"] eachSolve_quiet Cons.IH Cons.prems) (simp_all add: Cons.prems)
qed simp

lemma solve_rule_quiet: "gen_quiet e \<Longrightarrow> quiet z a \<Longrightarrow> okR (quiet z) (solve_rule e c dl a)"
  unfolding solve_rule_def offsetAddr_solve_def
  by (cases c) (simp_all add: load_quiet store_quiet offsetAddr_quiet typeFilter_quiet untag_quiet invoke_quiet okR_bind [OF okR_True])

lemma solve_complex_quiet: "gen_quiet e \<Longrightarrow> quiet z a \<Longrightarrow> okR (quiet z) (solve_complex e cs dl a)"
proof (induction cs arbitrary: a)
  case (Cons c cs)
  show ?case unfolding solve_complex.simps
    by (rule okR_bind [OF solve_rule_quiet [OF Cons.prems] Cons.IH [OF Cons.prems(1)]])
qed simp

lemma copy_loop_quiet: "quiet z a \<Longrightarrow> ns_ok dl \<Longrightarrow> okR (quiet z) (copy_loop ms seen dl a)"
proof (induction ms arbitrary: seen a)
  case (Cons m ms)
  have "okR (\<lambda>x. quiet z (snd x)) (add_labels m False dl a)" by (rule add_labels_quiet [OF Cons.prems]) simp
  then have "okR (quiet z) (if fr then bindR (add_labels m False dl a) (\<lambda>(b, a). if b then addWork m a else Inr a) else Inr a)" for fr
    using Cons.prems(1) by (auto intro!: okR_bind_pair addWork_quiet)
  then have s: "okR (quiet z) (bindR (if fr then bindR (add_labels m False dl a) (\<lambda>(b, a). if b then addWork m a else Inr a) else Inr a)
      (copy_loop ms s dl))" for fr s
    by (rule okR_bind) (rule Cons.IH, use Cons.prems in simp_all)
  show ?case unfolding copy_loop.simps by (rule okR_bind [OF okR_True]) (rule okR_prod, rule s)
qed simp

lemma solveConstraints_quiet: "gen_quiet e \<Longrightarrow> quiet z a \<Longrightarrow> ns_ok dl \<Longrightarrow> okR (quiet z) (solveConstraints e r dl a)"
  unfolding solveConstraints_def
  by (intro okR_if okR_bind [OF solve_complex_quiet] copy_loop_quiet) simp_all

lemma add_bases_quiet: "quiet z a \<Longrightarrow> okR (quiet z) (add_bases cs a)"
proof (induction cs arbitrary: a)
  case (Cons c cs)
  have "okR (quiet z) (add_base c a)"
    by (cases c) (simp_all add: add_base_def Cons.prems
        okR_bind_pair [OF addLabel_quiet [OF Cons.prems]] okR_bind [OF okR_True] okR_if addWork_quiet)
  then show ?case unfolding add_bases.simps by (rule okR_bind) (rule Cons.IH)
qed simp

lemma note_stale_quiet:
  "quiet z a \<Longrightarrow> ns_ok t \<Longrightarrow> okR (\<lambda>x. quiet z (snd x) \<and> ns_ok (fst x)) (note_stale n (t, a))"
proof -
  assume q: "quiet z a" "ns_ok t"
  have "okR ns_ok (if c then Inr t else bindR (ns_add t n) (\<lambda>(t, _). Inr t))" for c
    using q(2) okR_bind [OF ns_add_ok [OF q(2), of n], of ns_ok "\<lambda>(t, _). Inr t"] by auto
  then have "okR (\<lambda>x. quiet z (snd x) \<and> ns_ok (fst x))
      (bindR (if c then Inr t else bindR (ns_add t n) (\<lambda>(t, _). Inr t)) (\<lambda>st. bindR (addWork n a) (\<lambda>a. Inr (st, a))))" for c
    by (rule okR_bind) (rule okR_bind [OF addWork_quiet [OF q(1)]], simp)
  then show "okR (\<lambda>x. quiet z (snd x) \<and> ns_ok (fst x)) (note_stale n (t, a))" unfolding note_stale_def fst_conv snd_conv
    by (intro okR_bind [OF okR_True [where r = "ref_of n a"]] okR_if) (simp_all add: q)
qed

lemma attach_quiet:
  assumes "quiet z a" "ns_ok t"
  shows "okR (\<lambda>x. quiet z (snd x) \<and> ns_ok (fst x)) (attach c (t, a))"
proof -
  have "okR (\<lambda>x. quiet z (snd x) \<and> ns_ok (fst x)) (bindR (add_edge s d a) (\<lambda>(_, a). note_stale s (t, a)))" for s d
    by (rule okR_bind_pair [OF add_edge_quiet [OF assms(1)]]) (rule note_stale_quiet [OF _ assms(2)])
  then show ?thesis
    by (cases c) (simp_all add: attach_def Let_def assms note_stale_quiet [OF quiet_complex] okR_bind [OF okR_True])
qed

lemma attach_all_quiet:
  "quiet z a \<Longrightarrow> ns_ok t \<Longrightarrow> okR (\<lambda>x. quiet z (snd x) \<and> ns_ok (fst x)) (attach_all cs (t, a))"
proof (induction cs arbitrary: t a)
  case (Cons c cs)
  show ?case unfolding attach_all.simps
    by (rule okR_bind [OF attach_quiet [OF Cons.prems]]) (use Cons.IH in \<open>auto split: prod.splits\<close>)
qed simp

lemma solve_stale_quiet: "gen_quiet e \<Longrightarrow> quiet z a \<Longrightarrow> okR (quiet z) (solve_stale e ids a)"
proof (induction ids arbitrary: a)
  case (Cons n ids)
  show ?case unfolding solve_stale.simps
    by (rule okR_bind [OF okR_True], rule okR_bind [OF solveConstraints_quiet [OF Cons.prems sets_okD(4) [OF quiet_sets [OF Cons.prems(2)]]]])
      (rule Cons.IH [OF Cons.prems(1)])
qed simp

lemma processNewConstraints_quiet:
  assumes "gen_quiet e" "sets_ok a"
  shows "okR (quiet (a\<lparr>constraints := []\<rparr>)) (processNewConstraints e a)"
proof -
  have q: "quiet (a\<lparr>constraints := []\<rparr>) (a\<lparr>constraints := []\<rparr>)" using assms(2) by (simp add: quiet_def sets_ok_def Lb_def)
  have "okR (quiet (a\<lparr>constraints := []\<rparr>)) (bindR (attach_all (constraints a) ([], b)) (\<lambda>(st, a). solve_stale e (ns_list st) a))"
    if "quiet (a\<lparr>constraints := []\<rparr>) b" for b
    by (rule okR_bind [OF attach_all_quiet [OF that ns.emp(1)]]) (auto intro: solve_stale_quiet [OF assms(1)])
  then show ?thesis unfolding processNewConstraints_def Let_def by (rule okR_bind [OF add_bases_quiet [OF q]])
qed

text \<open>Without new constraints there is nothing to process.\<close>

lemma processNewConstraints_none: "constraints a = [] \<Longrightarrow> processNewConstraints e a = Inr a"
proof -
  assume k: "constraints a = []"
  have "ns_list [] = []" using ns.list(1) [OF ns.emp(1)] by (simp add: ns.emp)
  moreover have "a\<lparr>constraints := []\<rparr> = a" using k by (cases a) simp
  ultimately show ?thesis using k by (simp add: processNewConstraints_def)
qed

section \<open>The measure\<close>

definition refs :: "solver \<Rightarrow> nat set" where
  "refs a = set (map solve_ref (nodes a))"

text \<open>How many labels can still be propagated, and how many nodes are not given up.\<close>

definition room :: "solver \<Rightarrow> nat" where
  "room a = (\<Sum>r \<in> refs a. 2 ^ 32 - card (Pv a r))"

definition active :: "solver \<Rightarrow> nat" where
  "active a = card {n. is_node a n \<and> n \<notin> skipIDs a}"

definition progress :: "(solver \<times> solver) set" where
  "progress = measures [active, room, \<lambda>a. card (ns_labels (work a))]"

lemma wf_progress: "wf progress"
  by (simp add: progress_def)

text \<open>The invariant of the loops that the measure needs.\<close>

definition labels_ok :: "solver \<Rightarrow> bool" where
  "labels_ok a \<longleftrightarrow> sets_ok a \<and> (\<forall>r. Pv a r \<subseteq> Lb a r)"

lemma labels_ok_quiet: "labels_ok z \<Longrightarrow> quiet z a \<Longrightarrow> labels_ok a"
  unfolding labels_ok_def quiet_def Pv_def by (simp, meson order_trans)

lemma quiet_same: "quiet z a \<Longrightarrow> refs a = refs z \<and> active a = active z \<and> room a = room z \<and> Pv a r = Pv z r"
  by (simp add: quiet_def refs_def active_def room_def Pv_def is_node_def)

lemma card_labels: "card (A :: nodeid set) \<le> 2 ^ 32"
proof -
  have "card A \<le> card (UNIV :: nodeid set)" by (rule card_mono) simp_all
  then show ?thesis by (simp add: card_word)
qed

lemma room_less:
  assumes r: "r \<in> refs a" "refs b = refs a" and P: "\<And>q. q \<noteq> r \<Longrightarrow> Pv b q = Pv a q" "Pv a r \<subset> Pv b r"
  shows "room b < room a"
proof -
  have c: "card (Pv b q) \<ge> card (Pv a q)" for q using P by (cases "q = r") (auto intro: card_mono)
  have l: "card (Pv a r) < card (Pv b r)" using P(2) by (intro psubset_card_mono) simp_all
  have "(\<Sum>q \<in> refs a. 2 ^ 32 - card (Pv b q)) < (\<Sum>q \<in> refs a. 2 ^ 32 - card (Pv a q))"
  proof (rule sum_strict_mono_ex1)
    show "finite (refs a)" by (simp add: refs_def)
    show "\<forall>q \<in> refs a. 2 ^ 32 - card (Pv b q) \<le> 2 ^ 32 - card (Pv a q)" using c by (simp add: diff_le_mono2)
    show "\<exists>q \<in> refs a. 2 ^ 32 - card (Pv b q) < 2 ^ 32 - card (Pv a q)"
      using r(1) l card_labels [of "Pv b r"] by (intro bexI [of _ r] diff_less_mono2) simp_all
  qed
  then show ?thesis by (simp add: room_def r(2))
qed

section \<open>Rounds\<close>

text \<open>The part both loops share: the labels not yet propagated are remembered and solved.\<close>

lemma propagate:
  assumes g: "gen_quiet e" and a: "labels_ok a" "is_node a n" and d: "ns_ok dl" "ns_labels dl = Lb a (rf a n) - Pv a (rf a n)" "ns_labels dl \<noteq> {}"
    and p: "ns_ok prev" "ns_labels prev = Lb a (rf a n)"
    and o: "solveConstraints e (rf a n) dl (set_sol (rf a n) ((sol a (rf a n))\<lparr>prevPTS := prev\<rparr>) a) = Inr b"
  shows "labels_ok b \<and> constraints b = constraints a \<and> active b = active a \<and> room b < room a"
proof -
  let ?r = "rf a n" and ?a = "set_sol (rf a n) ((sol a (rf a n))\<lparr>prevPTS := prev\<rparr>) a"
  have s: "sets_ok a" using a(1) by (simp add: labels_ok_def)
  have sa: "sets_ok ?a" by (rule sets_ok_set_sol [OF s]) (simp_all add: sets_okD s p(1))
  have q: "quiet ?a b" by (rule okR_D [OF solveConstraints_quiet [OF g quiet_refl [OF sa] d(1)] o])
  have v: "Lb ?a = Lb a" "Pv ?a = (Pv a)(?r := Lb a ?r)"
    using p(2) by (auto simp: fun_eq_iff set_sol_def Lb_def Pv_def)
  have "labels_ok ?a" using a(1) sa by (simp add: labels_ok_def v)
  then have l: "labels_ok b" by (rule labels_ok_quiet [OF _ q])
  have "Pv a ?r \<subset> Lb a ?r" using a(1) d(2,3) by (auto simp: labels_ok_def)
  moreover have "?r \<in> refs a" using a(2) by (auto simp: refs_def rf_def is_node_def)
  moreover have "refs ?a = refs a" "active ?a = active a" by (simp_all add: refs_def active_def set_sol_def is_node_def)
  ultimately have "room ?a < room a" by (intro room_less [where r = "rf a n"]) (simp_all add: v)
  then show ?thesis using l q quiet_same [OF q] \<open>active ?a = active a\<close> by (simp add: quiet_def set_sol_views)
qed

lemma default_node_progress:
  assumes "gen_quiet e" "labels_ok a" "ns_ok d" "default_node e n (d, a) = Inr (d', b)"
  shows "ns_ok d' \<and> (b = a \<or> labels_ok b \<and> constraints b = constraints a \<and> active b = active a \<and> room b < room a)"
proof -
  let ?r = "rf a n" and ?q = "sol a (rf a n)"
  have s: "sets_ok a" using assms(2) by (simp add: labels_ok_def)
  obtain dl where dl: "is_node a n" "ns_diff d (pts ?q) (prevPTS ?q) = Inr dl"
    and rest: "(if ns_IsEmpty dl then Inr (dl, a) else bindR (ns_copy (prevPTS ?q) (pts ?q)) (\<lambda>prev.
      bindR (solveConstraints e ?r dl (set_sol ?r (?q\<lparr>prevPTS := prev\<rparr>) a)) (\<lambda>a. Inr (dl, a)))) = Inr (d', b)"
    using assms(4) unfolding default_node_def Let_def fst_conv snd_conv bindR_eq_Inr_iff [of "ref_of n a"]
      bindR_eq_Inr_iff [of "ns_diff d x y" for d x y] ref_of_Inr by blast
  have l: "ns_ok dl" "ns_labels dl = Lb a ?r - Pv a ?r"
    using ns.diff_Inr [OF assms(3) sets_okD(2,4) [OF s] dl(2)] s by (simp_all add: Lb_def Pv_def)
  show ?thesis
  proof (cases "ns_IsEmpty dl")
    case False
    then obtain prev where p: "ns_copy (prevPTS ?q) (pts ?q) = Inr prev"
      "solveConstraints e ?r dl (set_sol ?r (?q\<lparr>prevPTS := prev\<rparr>) a) = Inr b" "d' = dl"
      using rest by (auto simp: bindR_eq_Inr_iff)
    have pl: "ns_ok prev" "ns_labels prev = Lb a ?r"
      using ns.copy_Inr [OF sets_okD(4,2) [OF s] p(1)] s by (simp_all add: Lb_def)
    have ne: "ns_labels dl \<noteq> {}" using False ns.is_empty [OF l(1)] by simp
    show ?thesis using propagate [OF assms(1,2) dl(1) l ne pl p(2)] l(1) p(3) by simp
  qed (use rest l(1) in auto)
qed

lemma limit_node_progress:
  assumes "gen_quiet e" "labels_ok a" "ns_ok d" "limit_node e n (d, a) = Inr (d', b)"
  shows "ns_ok d' \<and> (b = a \<or> labels_ok b \<and> constraints b = constraints a \<and>
    (active b < active a \<or> active b = active a \<and> room b < room a))"
proof (cases "n \<in> skipIDs a")
  case True
  then show ?thesis using assms(3,4) by (simp add: limit_node_def)
next
  case new: False
  let ?r = "rf a n" and ?q = "sol a (rf a n)" and ?u = "a\<lparr>skipIDs := insert n (skipIDs a)\<rparr>"
  have s: "sets_ok a" using assms(2) by (simp add: labels_ok_def)
  obtain dl where dl: "is_node a n" "ns_diff d (pts ?q) (prevPTS ?q) = Inr dl"
    and rest: "(if ns_IsEmpty dl then Inr (dl, a)
      else if Len False (pts ?q) \<ge> ptsLimit a then Inr (dl, set_sol ?r (?q\<lparr>prevPTS := []\<rparr>) ?u)
      else bindR (ns_copy (prevPTS ?q) (pts ?q)) (\<lambda>prev.
        bindR (solveConstraints e ?r dl (set_sol ?r (?q\<lparr>prevPTS := prev\<rparr>) a)) (\<lambda>a. Inr (dl, a)))) = Inr (d', b)"
    using assms(4) new unfolding limit_node_def Let_def fst_conv snd_conv bindR_eq_Inr_iff [of "ref_of n a"]
      bindR_eq_Inr_iff [of "ns_diff d x y" for d x y] ref_of_Inr if_not_P [OF new] by blast
  have l: "ns_ok dl" "ns_labels dl = Lb a ?r - Pv a ?r"
    using ns.diff_Inr [OF assms(3) sets_okD(2,4) [OF s] dl(2)] s by (simp_all add: Lb_def Pv_def)
  show ?thesis
  proof (cases "ns_IsEmpty dl")
    case full: False
    show ?thesis
    proof (cases "Len False (pts ?q) \<ge> ptsLimit a")
      case True
      let ?b = "set_sol ?r (?q\<lparr>prevPTS := []\<rparr>) ?u"
      have b: "d' = dl" "b = ?b" using rest full True by auto
      have "sets_ok ?u" using s by (simp add: sets_ok_def)
      then have "sets_ok ?b" by (rule sets_ok_set_sol) (simp_all add: sets_okD s ns.emp)
      moreover have "Pv ?b i \<subseteq> Lb ?b i" for i
        using assms(2) by (simp add: labels_ok_def set_sol_def Pv_def Lb_def ns.emp)
      moreover have "active ?b < active a"
        unfolding active_def using dl(1) new
        by (intro psubset_card_mono) (auto simp: set_sol_def is_node_def)
      ultimately show ?thesis using l(1) b by (simp add: labels_ok_def set_sol_views)
    next
      case False
      then obtain prev where p: "ns_copy (prevPTS ?q) (pts ?q) = Inr prev"
        "solveConstraints e ?r dl (set_sol ?r (?q\<lparr>prevPTS := prev\<rparr>) a) = Inr b" "d' = dl"
        using rest full by (auto simp: bindR_eq_Inr_iff)
      have pl: "ns_ok prev" "ns_labels prev = Lb a ?r"
        using ns.copy_Inr [OF sets_okD(4,2) [OF s] p(1)] s by (simp_all add: Lb_def)
      have ne: "ns_labels dl \<noteq> {}" using full ns.is_empty [OF l(1)] by simp
      show ?thesis using propagate [OF assms(1,2) dl(1) l ne pl p(2)] l(1) p(3) by simp
    qed
  qed (use rest l(1) in auto)
qed

section \<open>The loops\<close>

text \<open>
  Both loops have the shape \<^verbatim>\<open>for \{ a.processNewConstraints(); if !a.work.TakeMin(&x) \{ break \}; ... \}\<close> and
  differ in what they do with the node; each node that changes anything makes progress.
\<close>

locale worklist_loop =
  fixes node :: "env \<Rightarrow> nodeid \<Rightarrow> sparse \<times> solver \<Rightarrow> (sparse \<times> solver) go_result"
    and loop :: "env \<Rightarrow> sparse \<times> solver \<Rightarrow> solver go_result option"
  assumes node: "gen_quiet e \<Longrightarrow> labels_ok a \<Longrightarrow> ns_ok d \<Longrightarrow> node e n (d, a) = Inr (d', b) \<Longrightarrow>
      ns_ok d' \<and> (b = a \<or> labels_ok b \<and> constraints b = constraints a \<and>
        (active b < active a \<or> active b = active a \<and> room b < room a))"
    and loop: "loop e s =
      (case bindR (processNewConstraints e (snd s)) (\<lambda>a. bindR (take_work a) (\<lambda>w. case w of
          None \<Rightarrow> Inr (None, a)
        | Some (nid, a) \<Rightarrow> bindR (node e nid (fst s, a)) (\<lambda>s. Inr (Some s, snd s)))) of
         Inl p \<Rightarrow> Some (Inl p)
       | Inr (None, a) \<Rightarrow> Some (Inr a)
       | Inr (Some s, _) \<Rightarrow> loop e s)"
begin

lemma round_cases:
  assumes e: "gen_quiet e" and a: "labels_ok a" "ns_ok d"
  shows "(\<exists>r. loop e (d, a) = Some r) \<or>
    (\<exists>d' a1 b. loop e (d, a) = loop e (d', b) \<and> processNewConstraints e a = Inr a1 \<and> ns_ok d' \<and> labels_ok b \<and>
       constraints b = constraints a1 \<and> (b, a1) \<in> progress)" (is "?R \<or> ?N")
proof (cases "processNewConstraints e a")
  case (Inr a1)
  have s: "sets_ok a" using a by (simp add: labels_ok_def)
  have "labels_ok (a\<lparr>constraints := []\<rparr>)" using a(1) by (simp add: labels_ok_def sets_ok_def Lb_def Pv_def)
  then have l1: "labels_ok a1" by (rule labels_ok_quiet [OF _ okR_D [OF processNewConstraints_quiet [OF e s] Inr]])
  then have s1: "sets_ok a1" by (simp add: labels_ok_def)
  show ?thesis
  proof (cases "take_work a1")
    case w: (Inr w)
    show ?thesis
    proof (cases w)
      case None
      then have ?R using loop [of e "(d, a)"] Inr w by simp
      then show ?thesis ..
    next
      case (Some y)
      then obtain n t where t: "y = (n, a1\<lparr>work := t\<rparr>)" "ns_ok t" "n \<in> ns_labels (work a1)" "ns_labels t = ns_labels (work a1) - {n}"
        using take_work_cases [OF s1 w] by auto
      let ?a = "a1\<lparr>work := t\<rparr>"
      have la: "labels_ok ?a" using l1 t(2) by (simp add: labels_ok_def sets_ok_def Lb_def Pv_def)
      show ?thesis
      proof (cases "node e n (d, ?a)")
        case (Inl p)
        then have ?R using loop [of e "(d, a)"] Inr w Some t(1) by simp
        then show ?thesis ..
      next
        case nd: (Inr z)
        then obtain d' b where z: "node e n (d, ?a) = Inr (d', b)" by (cases z) simp
        note p = node [OF e la a(2) z]
        have eq: "loop e (d, a) = loop e (d', b)" using loop [of e "(d, a)"] Inr w Some t(1) z by simp
        have same: "active ?a = active a1" "room ?a = room a1" by (simp_all add: active_def room_def refs_def is_node_def Pv_def)
        have "card (ns_labels (work a1) - {n}) < card (ns_labels (work a1))" using t(3) by (intro card_Diff1_less) simp_all
        then have pr: "(b, a1) \<in> progress" using p t(4) same by (elim conjE disjE) (simp_all add: progress_def)
        have b: "ns_ok d'" "labels_ok b" "constraints b = constraints a1" using p la by (elim conjE disjE; simp)+
        have ?N by (rule exI [of _ d'], rule exI [of _ a1], rule exI [of _ b]) (intro conjI eq Inr b pr)
        then show ?thesis ..
      qed
    qed
  next
    case (Inl p)
    then have ?R using loop [of e "(d, a)"] Inr by simp
    then show ?thesis ..
  qed
next
  case (Inl p)
  then have ?R using loop [of e "(d, a)"] by simp
  then show ?thesis ..
qed

lemma returns_no_constraints:
  assumes e: "gen_quiet e"
  shows "labels_ok a \<Longrightarrow> ns_ok d \<Longrightarrow> constraints a = [] \<Longrightarrow> \<exists>r. loop e (d, a) = Some r"
proof (induction a arbitrary: d rule: wf_induct_rule [OF wf_progress])
  case (1 a)
  show ?case using round_cases [OF e 1(2,3)]
  proof
    assume "\<exists>d' a1 b. loop e (d, a) = loop e (d', b) \<and> processNewConstraints e a = Inr a1 \<and> ns_ok d' \<and> labels_ok b \<and>
       constraints b = constraints a1 \<and> (b, a1) \<in> progress"
    then obtain d' b where "loop e (d, a) = loop e (d', b)" "ns_ok d'" "labels_ok b" "constraints b = []" "(b, a) \<in> progress"
      using 1(4) by (auto simp: processNewConstraints_none)
    then show ?thesis using 1(1) by simp
  qed
qed

lemma loop_returns:
  assumes "gen_quiet e" "labels_ok a" "ns_ok d"
  shows "\<exists>r. loop e (d, a) = Some r"
  using round_cases [OF assms]
proof
  assume "\<exists>d' a1 b. loop e (d, a) = loop e (d', b) \<and> processNewConstraints e a = Inr a1 \<and> ns_ok d' \<and> labels_ok b \<and>
       constraints b = constraints a1 \<and> (b, a1) \<in> progress"
  then obtain d' a1 b where b: "loop e (d, a) = loop e (d', b)" "processNewConstraints e a = Inr a1" "ns_ok d'" "labels_ok b"
    "constraints b = constraints a1" by blast
  have "sets_ok a" using assms(2) by (simp add: labels_ok_def)
  then have "constraints a1 = []" using okR_D [OF processNewConstraints_quiet [OF assms(1)] b(2)] by (simp add: quiet_def)
  then show ?thesis using returns_no_constraints [OF assms(1) b(4,3)] b(1,5) by simp
qed

end

interpretation dl: worklist_loop default_node solveDefault
proof unfold_locales
  show "ns_ok d' \<and> (b = a \<or> labels_ok b \<and> constraints b = constraints a \<and> (active b < active a \<or> active b = active a \<and> room b < room a))"
    if "gen_quiet e" "labels_ok a" "ns_ok d" "default_node e n (d, a) = Inr (d', b)" for e a d n d' b
    using default_node_progress [OF that] by blast
qed (subst solveDefault.simps, unfold default_round_def, rule refl)

interpretation ll: worklist_loop limit_node solveLimit_loop
proof unfold_locales
  show "ns_ok d' \<and> (b = a \<or> labels_ok b \<and> constraints b = constraints a \<and> (active b < active a \<or> active b = active a \<and> room b < room a))"
    if "gen_quiet e" "labels_ok a" "ns_ok d" "limit_node e n (d, a) = Inr (d', b)" for e a d n d' b
    by (rule limit_node_progress [OF that])
qed (subst solveLimit_loop.simps, unfold limit_round_def, rule refl)

end
