(* ===== verification/Pointer_Least.thy ===== *)
theory Pointer_Least
  imports Pointer_Termination
begin

text \<open>
  Precision of the solver: no label is in a points-to set, and no edge in the graph, that the constraints do
  not ask for. The constraints are read as rules that derive labels of solver states and flows between
  them; for systems without invoke constraints the solver computes exactly the derivable labels.
\<close>

section \<open>Derivation\<close>

definition ref_in :: "node list \<Rightarrow> nodeid \<Rightarrow> nat" where
  "ref_in N n = solve_ref (N ! unat n)"

definition ty_in :: "node list \<Rightarrow> nodeid \<Rightarrow> ty" where
  "ty_in N n = node_typ (N ! unat n)"

inductive derives :: "env \<Rightarrow> node list \<Rightarrow> constraint set \<Rightarrow> nat \<Rightarrow> nodeid \<Rightarrow> bool"
  and flow :: "env \<Rightarrow> node list \<Rightarrow> constraint set \<Rightarrow> nat \<Rightarrow> nat \<Rightarrow> bool"
  for e N K where
  d_addr: "AddrC d s \<in> K \<Longrightarrow> derives e N K (ref_in N d) s"
| d_offset: "OffsetAddrC i d s \<in> K \<Longrightarrow> derives e N K (ref_in N s) x \<Longrightarrow> derives e N K (ref_in N d) (x + i)"
| d_filter: "TypeFilterC t d s \<in> K \<Longrightarrow> derives e N K (ref_in N s) x \<Longrightarrow> AssignableTo e (ty_in N x) t \<Longrightarrow>
    derives e N K (ref_in N d) x"
| d_flow: "flow e N K r q \<Longrightarrow> derives e N K r x \<Longrightarrow> derives e N K q x"
| f_copy: "CopyC d s \<in> K \<Longrightarrow> flow e N K (ref_in N s) (ref_in N d)"
| f_load: "LoadC i d s \<in> K \<Longrightarrow> derives e N K (ref_in N s) x \<Longrightarrow> flow e N K (ref_in N (x + i)) (ref_in N d)"
| f_store: "StoreC i d s \<in> K \<Longrightarrow> derives e N K (ref_in N d) x \<Longrightarrow> flow e N K (ref_in N s) (ref_in N (x + i))"
| f_untag: "UntagC t d s ex \<in> K \<Longrightarrow> derives e N K (ref_in N s) x \<Longrightarrow>
    (if ex then Identical e else AssignableTo e) (ty_in N x) t \<Longrightarrow> j < unat (sizeof e (ty_in N x)) \<Longrightarrow>
    flow e N K (ref_in N (x + 1 + of_nat j)) (ref_in N (d + of_nat j))"

section \<open>The solver only adds what is derivable\<close>

definition justified :: "env \<Rightarrow> node list \<Rightarrow> constraint set \<Rightarrow> solver \<Rightarrow> bool" where
  "justified e N K a \<longleftrightarrow>
     sets_ok a \<and> nodes a = N \<and> set (constraints a) \<subseteq> K \<and>
     (\<forall>r. \<forall>k \<in> Lb a r. derives e N K r k) \<and> (\<forall>r. \<forall>m \<in> Ed a r. flow e N K r (ref_in N m)) \<and>
     (\<forall>r. \<forall>c \<in> Cx a r. c \<in> K \<and> r = ref_in N (ptr c)) \<and> (\<forall>r. Pv a r \<subseteq> Lb a r)"

definition is_invoke :: "constraint \<Rightarrow> bool" where
  "is_invoke c \<longleftrightarrow> (\<exists>m i ps st cl. c = InvokeC m i ps st cl)"

lemma justified_ref: "justified e N K a \<Longrightarrow> rf a n = ref_in N n" "justified e N K a \<Longrightarrow> ty_of a n = ty_in N n"
  by (simp_all add: justified_def rf_def ref_in_def ty_of_def ty_in_def)

lemma justified_sets: "justified e N K a \<Longrightarrow> sets_ok a"
  by (simp add: justified_def)

lemma justified_pts:
  assumes "justified e N K a" "ns_ok t" "Lb a r \<subseteq> ns_labels t" "\<forall>k \<in> ns_labels t. derives e N K r k"
  shows "justified e N K (set_sol r ((sol a r)\<lparr>pts := t\<rparr>) a)"
proof -
  let ?b = "set_sol r ((sol a r)\<lparr>pts := t\<rparr>) a"
  have v: "Ed ?b = Ed a" "Pv ?b = Pv a" "Cx ?b = Cx a" "Lb ?b = (Lb a)(r := ns_labels t)"
    by (auto simp: fun_eq_iff set_sol_def Ed_def Pv_def Cx_def Lb_def)
  have "sets_ok ?b" by (rule sets_ok_set_sol) (simp_all add: assms(2) sets_okD justified_sets [OF assms(1)])
  moreover have "Pv a q \<subseteq> Lb a q" for q using assms(1) by (simp add: justified_def)
  then have "Pv a q \<subseteq> ((Lb a)(r := ns_labels t)) q" for q using order_trans [OF _ assms(3)] by simp
  ultimately show ?thesis using assms(1,4) unfolding justified_def v by (simp add: set_sol_views(8,10))
qed

lemma justified_copyTo:
  assumes "justified e N K a" "ns_ok t" "ns_labels t = insert m (Ed a r)" "flow e N K r (ref_in N m)"
  shows "justified e N K (set_sol r ((sol a r)\<lparr>copyTo := t\<rparr>) a)"
proof -
  let ?b = "set_sol r ((sol a r)\<lparr>copyTo := t\<rparr>) a"
  have v: "Lb ?b = Lb a" "Pv ?b = Pv a" "Cx ?b = Cx a" "Ed ?b = (Ed a)(r := ns_labels t)"
    by (auto simp: fun_eq_iff set_sol_def Ed_def Pv_def Cx_def Lb_def)
  have "sets_ok ?b" by (rule sets_ok_set_sol) (simp_all add: assms(2) sets_okD justified_sets [OF assms(1)])
  then show ?thesis using assms unfolding justified_def v by (auto simp: set_sol_views(8,10))
qed

lemma justified_work: "justified e N K a \<Longrightarrow> ns_ok w \<Longrightarrow> justified e N K (a\<lparr>work := w\<rparr>)"
  by (simp add: justified_def sets_ok_def Lb_def Ed_def Cx_def Pv_def)

lemma addWork_just: "justified e N K a \<Longrightarrow> okR (justified e N K) (addWork n a)"
proof -
  assume j: "justified e N K a"
  have "ns_ok w" if "ns_add (work a) n = Inr (w, b)" for w b
    using ns.add_Inr [OF sets_okD(1) [OF justified_sets [OF j]] that] by simp
  then show ?thesis using justified_work [OF j] by (auto simp: okR_def addWork_def bindR_eq_Inr_iff)
qed

lemma addLabel_just:
  assumes "justified e N K a" "derives e N K (ref_in N p) k"
  shows "okR (\<lambda>x. justified e N K (snd x)) (addLabel p k a)"
proof -
  have "justified e N K (set_sol (rf a p) ((sol a (rf a p))\<lparr>pts := t\<rparr>) a)" if "ns_add (pts (sol a (rf a p))) k = Inr (t, b)" for t b
    by (rule justified_pts [OF assms(1)])
      (use ns.add_Inr [OF sets_okD(2) [OF justified_sets [OF assms(1)]] that] assms justified_ref(1) [OF assms(1)]
        in \<open>auto simp: Lb_def justified_def\<close>)
  then show ?thesis by (auto simp: okR_def addLabel_def bindR_eq_Inr_iff ref_of_Inr)
qed

lemma add_edge_just:
  assumes "justified e N K a" "flow e N K (ref_in N s) (ref_in N d)"
  shows "okR (\<lambda>x. justified e N K (snd x)) (add_edge s d a)"
proof -
  have "justified e N K (set_sol (rf a s) ((sol a (rf a s))\<lparr>copyTo := t\<rparr>) a)" if "ns_add (copyTo (sol a (rf a s))) d = Inr (t, b)" for t b
    by (rule justified_copyTo [OF assms(1)])
      (use ns.add_Inr [OF sets_okD(3) [OF justified_sets [OF assms(1)]] that] assms justified_ref(1) [OF assms(1)]
        in \<open>auto simp: Ed_def\<close>)
  then show ?thesis by (auto simp: okR_def add_edge_def bindR_eq_Inr_iff ref_of_Inr)
qed

lemma add_labels_just:
  assumes "justified e N K a" "ns_ok dl" "same \<Longrightarrow> pts (sol a (rf a m)) = dl" "\<forall>k \<in> ns_labels dl. derives e N K (ref_in N m) k"
  shows "okR (\<lambda>x. justified e N K (snd x)) (add_labels m same dl a)"
proof -
  have "justified e N K (set_sol (rf a m) ((sol a (rf a m))\<lparr>pts := t\<rparr>) a)"
    if "ns_addAll same (pts (sol a (rf a m))) dl = Inr (t, b)" for t b
    by (rule justified_pts [OF assms(1)])
      (use ns.addAll_Inr [OF sets_okD(2) [OF justified_sets [OF assms(1)]] assms(2,3) that] assms(1,4) justified_ref(1) [OF assms(1)]
        in \<open>auto simp: Lb_def justified_def\<close>)
  then show ?thesis by (auto simp: okR_def add_labels_def bindR_eq_Inr_iff ref_of_Inr)
qed

lemma onlineCopy_just:
  assumes "justified e N K a" "flow e N K (ref_in N s) (ref_in N d)"
  shows "okR (\<lambda>x. justified e N K (snd x)) (onlineCopy d s a)"
proof -
  have "okR (\<lambda>x. justified e N K (snd x)) (add_labels d (rf a1 s = rf a1 d) (pts (sol a1 (rf a1 s))) a1)" if j: "justified e N K a1" for a1
  proof (rule add_labels_just [OF j])
    show "ns_ok (pts (sol a1 (rf a1 s)))" by (rule sets_okD(2) [OF justified_sets [OF j]])
    show "pts (sol a1 (rf a1 d)) = pts (sol a1 (rf a1 s))" if "rf a1 s = rf a1 d" using that by simp
    show "\<forall>k \<in> ns_labels (pts (sol a1 (rf a1 s))). derives e N K (ref_in N d) k"
      using j assms(2) d_flow justified_ref(1) [OF j] by (auto simp: justified_def Lb_def)
  qed
  then have "okR (\<lambda>x. justified e N K (snd x)) (bindR (ref_of s a1) (\<lambda>rs. bindR (ref_of d a1) (\<lambda>rd.
      add_labels d (rs = rd) (pts (sol a1 rs)) a1)))" if "justified e N K a1" for a1
    using that by (auto simp: okR_def bindR_eq_Inr_iff ref_of_Inr)
  then show ?thesis unfolding onlineCopy_def
    by (intro okR_if okR_bind_pair [OF add_edge_just [OF assms]]) (simp_all add: assms(1))
qed

section \<open>The operations\<close>

lemma if_addWork_just: "(b \<Longrightarrow> justified e N K a) \<Longrightarrow> (\<not> b \<Longrightarrow> justified e N K a) \<Longrightarrow> okR (justified e N K) (if b then addWork n a else Inr a)"
  by (simp add: addWork_just)

lemma onlineCopyN_just:
  assumes "justified e N K a" "\<And>j. j < unat w \<Longrightarrow> flow e N K (ref_in N (s + of_nat j)) (ref_in N (d + of_nat j))"
  shows "okR (justified e N K) (onlineCopyN d s w a)"
proof -
  have "justified e N K a \<Longrightarrow> (\<And>j. j < n \<Longrightarrow> flow e N K (ref_in N (s + of_nat j)) (ref_in N (d + of_nat j))) \<Longrightarrow>
    okR (justified e N K) (onlineCopyN_loop n d s a)" for n
  proof (induction n arbitrary: d s a)
    case (Suc n)
    have f: "flow e N K (ref_in N s) (ref_in N d)" using Suc.prems(2) [of 0] by simp
    have "flow e N K (ref_in N (s + 1 + of_nat j)) (ref_in N (d + 1 + of_nat j))" if "j < n" for j
      using Suc.prems(2) [of "Suc j"] that by (simp add: add.assoc)
    then show ?case unfolding onlineCopyN_loop.simps
      by (intro okR_bind_pair [OF onlineCopy_just [OF Suc.prems(1) f]] okR_bind [OF if_addWork_just] Suc.IH) simp_all
  qed simp
  then show ?thesis using assms by (simp add: onlineCopyN_def)
qed

lemma load_just:
  assumes "LoadC k d s \<in> K" "justified e N K a" "\<forall>x \<in> set xs. derives e N K (ref_in N s) x"
  shows "okR (justified e N K) (load_solve k d xs a)"
proof -
  have "justified e N K a \<Longrightarrow> \<forall>x \<in> set xs. derives e N K (ref_in N s) x \<Longrightarrow>
    okR (\<lambda>x. justified e N K (snd x)) (load_loop k d xs c a)" for c
  proof (induction xs arbitrary: c a)
    case (Cons x xs)
    have f: "flow e N K (ref_in N (x + k)) (ref_in N d)" using f_load [OF assms(1)] Cons.prems(2) by simp
    show ?case unfolding load_loop.simps
      by (intro okR_bind_pair [OF onlineCopy_just [OF Cons.prems(1) f]] Cons.IH) (use Cons.prems in simp_all)
  qed simp
  then show ?thesis
    unfolding load_solve_def by (intro okR_bind_pair [where Q = "justified e N K"] if_addWork_just) (use assms in simp_all)
qed

lemma store_just:
  assumes "StoreC k d s \<in> K"
  shows "justified e N K a \<Longrightarrow> \<forall>x \<in> set xs. derives e N K (ref_in N d) x \<Longrightarrow> okR (justified e N K) (store_solve k s xs a)"
proof (induction xs arbitrary: a)
  case (Cons x xs)
  have f: "flow e N K (ref_in N s) (ref_in N (x + k))" using f_store [OF assms] Cons.prems(2) by simp
  show ?case unfolding store_solve.simps
    by (intro okR_bind_pair [OF onlineCopy_just [OF Cons.prems(1) f]] okR_bind [OF if_addWork_just] Cons.IH) (use Cons.prems in simp_all)
qed simp

lemma add_and_work_just:
  assumes "justified e N K a" "derives e N K (ref_in N d) l"
  shows "okR (justified e N K) (add_and_work d l a)"
  unfolding add_and_work_def by (intro okR_bind_pair [OF addLabel_just [OF assms]] if_addWork_just)

lemma offsetAddr_just:
  assumes "OffsetAddrC k d s \<in> K"
  shows "justified e N K a \<Longrightarrow> \<forall>x \<in> set xs. derives e N K (ref_in N s) x \<Longrightarrow> okR (justified e N K) (offsetAddr_loop k d xs a)"
proof (induction xs arbitrary: a)
  case (Cons x xs)
  have f: "derives e N K (ref_in N d) (x + k)" using d_offset [OF assms] Cons.prems(2) by simp
  show ?case unfolding offsetAddr_loop.simps
    by (intro okR_bind [OF add_and_work_just [OF Cons.prems(1) f]] Cons.IH) (use Cons.prems in simp_all)
qed simp

lemma typeFilter_just:
  assumes "TypeFilterC t d s \<in> K"
  shows "justified e N K a \<Longrightarrow> \<forall>x \<in> set xs. derives e N K (ref_in N s) x \<Longrightarrow> okR (justified e N K) (typeFilter_solve e t d xs a)"
proof (induction xs arbitrary: a)
  case (Cons x xs)
  show ?case
  proof (cases "taggedValue x a")
    case (Inr y)
    then obtain ty v i where y: "taggedValue x a = Inr (ty, v, i)" by (cases y) simp
    have ty: "ty = ty_in N x" using taggedValue_Inr [OF y] justified_ref(2) [OF Cons.prems(1)] by simp
    have IH: "okR (justified e N K) (typeFilter_solve e t d xs b)" if "justified e N K b" for b
      using Cons.IH [OF that] Cons.prems(2) by simp
    have "derives e N K (ref_in N d) x" if "AssignableTo e ty t" using d_filter [OF assms] that Cons.prems(2) ty by simp
    then show ?thesis unfolding typeFilter_solve.simps y
      using Cons.prems(1) IH by (auto intro!: okR_bind [OF add_and_work_just])
  qed simp
qed simp

lemma untag_just:
  assumes "UntagC t d s ex \<in> K"
  shows "justified e N K a \<Longrightarrow> \<forall>x \<in> set xs. derives e N K (ref_in N s) x \<Longrightarrow> okR (justified e N K) (untag_solve e t d ex xs a)"
proof (induction xs arbitrary: a)
  case (Cons x xs)
  show ?case
  proof (cases "taggedValue x a")
    case (Inr y)
    then obtain ty v i where y: "taggedValue x a = Inr (ty, v, i)" by (cases y) simp
    have ty: "ty = ty_in N x" "v = x + 1" using taggedValue_Inr [OF y] justified_ref(2) [OF Cons.prems(1)] by simp_all
    have IH: "okR (justified e N K) (untag_solve e t d ex xs b)" if "justified e N K b" for b
      using Cons.IH [OF that] Cons.prems(2) by simp
    let ?p = "(if ex then Identical e else AssignableTo e) ty t"
    have "okR (justified e N K) (onlineCopyN d v (sizeof e ty) a)" if p: ?p
      unfolding ty by (rule onlineCopyN_just [OF Cons.prems(1)], rule f_untag [OF assms]) (use p ty Cons.prems(2) in simp_all)
    then have "okR (justified e N K) (if ?p then onlineCopyN d v (sizeof e ty) a else Inr a)" using Cons.prems(1) by simp
    then have "okR (justified e N K) (bindR (if ?p then onlineCopyN d v (sizeof e ty) a else Inr a) (untag_solve e t d ex xs))"
      by (rule okR_bind) (rule IH)
    then show ?thesis unfolding untag_solve.simps y by simp
  qed simp
qed simp

lemma solve_rule_just:
  assumes "c \<in> K" "\<not> is_invoke c" "justified e N K a" "\<forall>x \<in> set (ns_list dl). derives e N K (ref_in N (ptr c)) x"
  shows "okR (justified e N K) (solve_rule e c dl a)"
  using assms load_just store_just offsetAddr_just typeFilter_just untag_just
  by (cases c) (auto simp: solve_rule_def offsetAddr_solve_def is_invoke_def intro!: okR_bind [OF okR_True])

lemma solve_complex_just:
  "\<forall>c \<in> set cs. c \<in> K \<and> \<not> is_invoke c \<and> (\<forall>x \<in> set (ns_list dl). derives e N K (ref_in N (ptr c)) x) \<Longrightarrow> justified e N K a \<Longrightarrow>
   okR (justified e N K) (solve_complex e cs dl a)"
proof (induction cs arbitrary: a)
  case (Cons c cs)
  have "okR (justified e N K) (solve_rule e c dl a)" using solve_rule_just [OF _ _ Cons.prems(2)] Cons.prems(1) by simp
  then show ?case unfolding solve_complex.simps by (rule okR_bind) (rule Cons.IH, use Cons.prems in simp_all)
qed simp

lemma copy_loop_just:
  assumes "ns_ok dl"
  shows "\<forall>m \<in> set ms. \<forall>k \<in> ns_labels dl. derives e N K (ref_in N m) k \<Longrightarrow> justified e N K a \<Longrightarrow>
   okR (justified e N K) (copy_loop ms seen dl a)"
proof (induction ms arbitrary: seen a)
  case (Cons m ms)
  have "okR (\<lambda>x. justified e N K (snd x)) (add_labels m False dl a)"
    by (rule add_labels_just [OF Cons.prems(2) assms]) (use Cons.prems(1) in simp_all)
  then have "okR (justified e N K) (if fr then bindR (add_labels m False dl a) (\<lambda>(b, a). if b then addWork m a else Inr a) else Inr a)" for fr
    using Cons.prems(2) by (auto intro!: okR_bind_pair if_addWork_just)
  then have s: "okR (justified e N K) (bindR (if fr then bindR (add_labels m False dl a) (\<lambda>(b, a). if b then addWork m a else Inr a) else Inr a)
      (copy_loop ms s dl))" for fr s
    by (rule okR_bind) (rule Cons.IH, use Cons.prems in simp_all)
  show ?case unfolding copy_loop.simps by (rule okR_bind [OF okR_True]) (rule okR_prod, rule s)
qed simp

lemma solveConstraints_just:
  assumes "justified e N K a" "\<forall>c \<in> K. \<not> is_invoke c" "ns_ok dl" "\<forall>k \<in> ns_labels dl. derives e N K r k"
  shows "okR (justified e N K) (solveConstraints e r dl a)"
proof -
  have "\<forall>c \<in> set (complex (sol a r)). c \<in> K \<and> \<not> is_invoke c \<and> (\<forall>x \<in> set (ns_list dl). derives e N K (ref_in N (ptr c)) x)"
  proof
    fix c assume "c \<in> set (complex (sol a r))"
    then have "c \<in> K" "r = ref_in N (ptr c)" using assms(1) by (auto simp: justified_def Cx_def)
    then show "c \<in> K \<and> \<not> is_invoke c \<and> (\<forall>x \<in> set (ns_list dl). derives e N K (ref_in N (ptr c)) x)"
      using assms(2,4) ns.list(1) [OF assms(3)] by simp
  qed
  note s = solve_complex_just [OF this assms(1)]
  have "okR (justified e N K) (copy_loop (ns_list (copyTo (sol b r))) [] dl b)" if j: "justified e N K b" for b
  proof (rule copy_loop_just [OF assms(3) _ j], intro ballI)
    fix m k assume "m \<in> set (ns_list (copyTo (sol b r)))" "k \<in> ns_labels dl"
    then have m: "m \<in> Ed b r" "derives e N K r k" using ns.list(1) [OF sets_okD(3) [OF justified_sets [OF j]]] assms(4) by (simp_all add: Ed_def)
    have "flow e N K r (ref_in N m)" using j m(1) by (simp add: justified_def)
    then show "derives e N K (ref_in N m) k" using m(2) by (rule d_flow)
  qed
  then show ?thesis unfolding solveConstraints_def by (intro okR_if okR_bind [OF s]) (simp_all add: assms(1))
qed

lemma justified_complex:
  assumes "justified e N K a" "c \<in> K" "r = ref_in N (ptr c)"
  shows "justified e N K (set_sol r ((sol a r)\<lparr>complex := complex (sol a r) @ [c]\<rparr>) a)"
proof -
  let ?b = "set_sol r ((sol a r)\<lparr>complex := complex (sol a r) @ [c]\<rparr>) a"
  have v: "Lb ?b = Lb a" "Pv ?b = Pv a" "Ed ?b = Ed a" "Cx ?b = (Cx a)(r := insert c (Cx a r))"
    by (auto simp: fun_eq_iff set_sol_def Ed_def Pv_def Cx_def Lb_def)
  have "sets_ok ?b" by (rule sets_ok_set_sol) (simp_all add: sets_okD justified_sets [OF assms(1)])
  then show ?thesis using assms unfolding justified_def v by (auto simp: set_sol_views(8,10))
qed

lemma add_bases_just: "set cs \<subseteq> K \<Longrightarrow> justified e N K a \<Longrightarrow> okR (justified e N K) (add_bases cs a)"
proof (induction cs arbitrary: a)
  case (Cons c cs)
  have "okR (justified e N K) (add_base c a)"
  proof (cases "is_addr c")
    case True
    then obtain d s where c: "c = AddrC d s" by (auto simp: is_addr_def)
    then have "derives e N K (ref_in N d) s" using Cons.prems(1) by (auto intro: d_addr)
    then show ?thesis unfolding add_base_def c constraint.case
      by (intro okR_bind_pair [OF addLabel_just [OF Cons.prems(2)]] okR_bind [OF okR_True] if_addWork_just)
  qed (use Cons.prems(2) in \<open>cases c; simp add: add_base_def is_addr_def\<close>)
  then show ?case unfolding add_bases.simps by (rule okR_bind) (rule Cons.IH, use Cons.prems in simp_all)
qed simp

lemma note_stale_just:
  assumes "justified e N K a" "ns_ok t"
  shows "okR (\<lambda>x. justified e N K (snd x) \<and> ns_ok (fst x)) (note_stale n (t, a))"
proof -
  have "ns_ok u" if "ns_add t n = Inr (u, b)" for u b using ns.add_Inr [OF assms(2) that] by simp
  then have "okR ns_ok (if c then Inr t else bindR (ns_add t n) (\<lambda>(t, _). Inr t))" for c
    using assms(2) by (auto simp: okR_def bindR_eq_Inr_iff)
  then have "okR (\<lambda>x. justified e N K (snd x) \<and> ns_ok (fst x))
      (bindR (if c then Inr t else bindR (ns_add t n) (\<lambda>(t, _). Inr t)) (\<lambda>st. bindR (addWork n a) (\<lambda>a. Inr (st, a))))" for c
    by (rule okR_bind) (rule okR_bind [OF addWork_just [OF assms(1)]], simp)
  then show ?thesis unfolding note_stale_def fst_conv snd_conv
    by (intro okR_bind [OF okR_True [where r = "ref_of n a"]] okR_if) (simp_all add: assms)
qed

lemma attach_just:
  assumes "c \<in> K" "justified e N K a" "ns_ok t"
  shows "okR (\<lambda>x. justified e N K (snd x) \<and> ns_ok (fst x)) (attach c (t, a))"
proof -
  have cx: "okR (\<lambda>x. justified e N K (snd x) \<and> ns_ok (fst x))
     (bindR (ref_of (ptr c) a) (\<lambda>r. note_stale (ptr c) (t, set_sol r ((sol a r)\<lparr>complex := complex (sol a r) @ [c]\<rparr>) a)))"
  proof (cases "ref_of (ptr c) a")
    case (Inr r)
    then have "r = ref_in N (ptr c)" using justified_ref(1) [OF assms(2)] by (simp add: ref_of_Inr)
    then show ?thesis using Inr note_stale_just [OF justified_complex [OF assms(2,1)] assms(3)] by simp
  qed simp
  show ?thesis
  proof (cases c)
    case (CopyC d s)
    have "okR (\<lambda>x. justified e N K (snd x)) (add_edge s d a)"
      by (rule add_edge_just [OF assms(2)], rule f_copy) (use assms(1) CopyC in simp)
    then show ?thesis unfolding attach_def CopyC constraint.case fst_conv snd_conv
      by (rule okR_bind_pair) (rule note_stale_just [OF _ assms(3)])
  qed (use cx assms in \<open>simp_all add: attach_def Let_def\<close>)
qed

lemma attach_all_just:
  "set cs \<subseteq> K \<Longrightarrow> justified e N K a \<Longrightarrow> ns_ok t \<Longrightarrow> okR (\<lambda>x. justified e N K (snd x) \<and> ns_ok (fst x)) (attach_all cs (t, a))"
proof (induction cs arbitrary: t a)
  case (Cons c cs)
  have "okR (\<lambda>x. justified e N K (snd x) \<and> ns_ok (fst x)) (attach c (t, a))" by (rule attach_just) (use Cons.prems in simp_all)
  then show ?case unfolding attach_all.simps
    by (rule okR_bind) (use Cons.IH Cons.prems(1) in \<open>auto split: prod.splits\<close>)
qed simp

lemma solve_stale_just:
  assumes "\<forall>c \<in> K. \<not> is_invoke c"
  shows "justified e N K a \<Longrightarrow> okR (justified e N K) (solve_stale e ids a)"
proof (induction ids arbitrary: a)
  case (Cons n ids)
  have "\<forall>k \<in> ns_labels (prevPTS (sol a r)). derives e N K r k" for r
    using Cons.prems unfolding justified_def Pv_def by blast
  then have "okR (justified e N K) (solveConstraints e r (prevPTS (sol a r)) a)" for r
    by (intro solveConstraints_just [OF Cons.prems assms sets_okD(4) [OF justified_sets [OF Cons.prems]]])
  then show ?case unfolding solve_stale.simps by (rule okR_bind [OF okR_True okR_bind]) (rule Cons.IH)
qed simp

lemma processNewConstraints_just:
  assumes "\<forall>c \<in> K. \<not> is_invoke c" "justified e N K a"
  shows "okR (justified e N K) (processNewConstraints e a)"
proof -
  have K: "set (constraints a) \<subseteq> K" "justified e N K (a\<lparr>constraints := []\<rparr>)"
    using assms(2) by (simp_all add: justified_def sets_ok_def Lb_def Ed_def Cx_def Pv_def)
  have "okR (justified e N K) (bindR (attach_all (constraints a) ([], b)) (\<lambda>(st, a). solve_stale e (ns_list st) a))"
    if "justified e N K b" for b
    by (rule okR_bind [OF attach_all_just [OF K(1) that ns.emp(1)]]) (auto intro: solve_stale_just [OF assms(1)])
  then show ?thesis unfolding processNewConstraints_def Let_def by (rule okR_bind [OF add_bases_just [OF K]])
qed

lemma default_node_just:
  assumes "\<forall>c \<in> K. \<not> is_invoke c" "justified e N K a" "ns_ok d"
  shows "okR (\<lambda>x. justified e N K (snd x) \<and> ns_ok (fst x)) (default_node e n (d, a))"
proof -
  have s: "okR (\<lambda>x. justified e N K (snd x) \<and> ns_ok (fst x))
     (bindR (solveConstraints e r dl (set_sol r ((sol a r)\<lparr>prevPTS := prev\<rparr>) a)) (\<lambda>a. Inr (dl, a)))"
    if dl: "ns_diff d (pts (sol a r)) (prevPTS (sol a r)) = Inr dl"
      and prev: "ns_copy (prevPTS (sol a r)) (pts (sol a r)) = Inr prev" for r dl prev
  proof -
    let ?b = "set_sol r ((sol a r)\<lparr>prevPTS := prev\<rparr>) a"
    have so: "sets_ok a" by (rule justified_sets [OF assms(2)])
    have d: "ns_ok dl" "ns_labels dl \<subseteq> Lb a r" using ns.diff_Inr [OF assms(3) sets_okD(2,4) [OF so] dl] so by (auto simp: Lb_def)
    have p: "ns_ok prev" "ns_labels prev = Lb a r" using ns.copy_Inr [OF sets_okD(4,2) [OF so] prev] so by (simp_all add: Lb_def)
    have v: "Lb ?b = Lb a" "Ed ?b = Ed a" "Cx ?b = Cx a" "Pv ?b = (Pv a)(r := Lb a r)"
      by (auto simp: fun_eq_iff set_sol_def Ed_def Pv_def Cx_def Lb_def p(2) [unfolded Lb_def])
    have "sets_ok ?b" by (rule sets_ok_set_sol) (simp_all add: p(1) sets_okD so)
    then have j: "justified e N K ?b" using assms(2) unfolding justified_def v by (simp add: set_sol_views(8,10))
    have "\<forall>k \<in> ns_labels dl. derives e N K r k" using assms(2) d(2) unfolding justified_def by blast
    then show ?thesis by (intro okR_bind [OF solveConstraints_just [OF j assms(1) d(1)]]) (simp_all add: d(1))
  qed
  show ?thesis
  proof (cases "ref_of n a")
    case (Inr r)
    have so: "sets_ok a" by (rule justified_sets [OF assms(2)])
    obtain dl where dl: "ns_diff d (pts (sol a r)) (prevPTS (sol a r)) = Inr dl" "ns_ok dl"
      using ns.diff [OF assms(3) sets_okD(2,4) [OF so]] so by blast
    obtain prev where prev: "ns_copy (prevPTS (sol a r)) (pts (sol a r)) = Inr prev"
      using ns.copy [OF sets_okD(4,2) [OF so]] so by blast
    show ?thesis using s [OF dl(1) prev] assms(2) dl prev by (simp add: default_node_def Inr Let_def)
  qed (simp add: default_node_def)
qed

lemma limit_node_just:
  assumes "\<forall>c \<in> K. \<not> is_invoke c" "justified e N K a" "ns_ok d"
  shows "okR (\<lambda>x. justified e N K (snd x) \<and> ns_ok (fst x)) (limit_node e n (d, a))"
proof (cases "n \<in> skipIDs a")
  case True
  then show ?thesis using assms by (simp add: limit_node_def)
next
  case new: False
  have so: "sets_ok a" by (rule justified_sets [OF assms(2)])
  show ?thesis
  proof (cases "ref_of n a")
    case (Inr r)
    obtain dl where dl: "ns_diff d (pts (sol a r)) (prevPTS (sol a r)) = Inr dl" "ns_ok dl"
      using ns.diff [OF assms(3) sets_okD(2,4) [OF so]] so by blast
    let ?b = "set_sol r ((sol a r)\<lparr>prevPTS := []\<rparr>) (a\<lparr>skipIDs := insert n (skipIDs a)\<rparr>)"
    have v: "Lb ?b = Lb a" "Ed ?b = Ed a" "Cx ?b = Cx a" "Pv ?b = (Pv a)(r := {})"
      by (auto simp: fun_eq_iff set_sol_def Ed_def Pv_def Cx_def Lb_def ns.emp)
    have "sets_ok (a\<lparr>skipIDs := insert n (skipIDs a)\<rparr>)" using so by (simp add: sets_ok_def)
    then have "sets_ok ?b" by (rule sets_ok_set_sol) (simp_all add: ns.emp sets_okD so)
    then have gu: "justified e N K ?b" using assms(2) unfolding justified_def v by (simp add: set_sol_views(8,10))
    show ?thesis
    proof (cases "\<not> ns_IsEmpty dl \<and> ptsLimit a \<le> Len False (pts (sol a r))")
      case True
      then have "limit_node e n (d, a) = Inr (dl, ?b)" using new Inr dl by (simp add: limit_node_def Let_def)
      then show ?thesis using gu dl(2) by simp
    next
      case False
      then have "limit_node e n (d, a) = default_node e n (d, a)"
        using new Inr dl by (auto simp: limit_node_def default_node_def Let_def)
      then show ?thesis using default_node_just [OF assms] by simp
    qed
  qed (simp add: limit_node_def new)
qed

text \<open>A round of either loop.\<close>

lemma round_just:
  assumes K: "\<forall>c \<in> K. \<not> is_invoke c" "justified e N K a"
    and node: "\<And>n b. justified e N K b \<Longrightarrow> okR (\<lambda>x. justified e N K (snd x) \<and> ns_ok (fst x)) (node n b)"
  shows "okR (\<lambda>(w, b). justified e N K b \<and> (\<forall>dl' a'. w = Some (dl', a') \<longrightarrow> justified e N K a' \<and> ns_ok dl'))
    (bindR (processNewConstraints e a) (\<lambda>a. bindR (take_work a) (\<lambda>w. case w of
        None \<Rightarrow> Inr (None, a)
      | Some (nid, a) \<Rightarrow> bindR (node nid a) (\<lambda>s. Inr (Some s, snd s)))))"
proof -
  have tw: "okR (\<lambda>w. \<forall>n b. w = Some (n, b) \<longrightarrow> justified e N K b) (take_work b)" if "justified e N K b" for b
    using take_work_cases [OF justified_sets [OF that]] justified_work [OF that] by (auto simp: okR_def)
  have dn: "okR (\<lambda>(w, b). justified e N K b \<and> (\<forall>dl' a'. w = Some (dl', a') \<longrightarrow> justified e N K a' \<and> ns_ok dl'))
     (bindR (node n b) (\<lambda>s. Inr (Some s, snd s)))" if "justified e N K b" for n b
    by (rule okR_bind [OF node [OF that]]) auto
  show ?thesis
    by (rule okR_bind [OF processNewConstraints_just [OF K]], rule okR_bind [OF tw], assumption)
      (auto split: option.splits intro: dn)
qed

lemma default_round_just:
  assumes "\<forall>c \<in> K. \<not> is_invoke c" "justified e N K a" "ns_ok d"
  shows "okR (\<lambda>(w, b). justified e N K b \<and> (\<forall>dl' a'. w = Some (dl', a') \<longrightarrow> justified e N K a' \<and> ns_ok dl')) (default_round e (d, a))"
  unfolding default_round_def fst_conv snd_conv
  by (rule round_just [OF assms(1,2)]) (rule default_node_just [OF assms(1) _ assms(3)])

lemma limit_round_just:
  assumes "\<forall>c \<in> K. \<not> is_invoke c" "justified e N K a" "ns_ok d"
  shows "okR (\<lambda>(w, b). justified e N K b \<and> (\<forall>dl' a'. w = Some (dl', a') \<longrightarrow> justified e N K a' \<and> ns_ok dl')) (limit_round e (d, a))"
  unfolding limit_round_def fst_conv snd_conv
  by (rule round_just [OF assms(1,2)]) (rule limit_node_just [OF assms(1) _ assms(3)])

lemma solveDefault_just:
  assumes "solveDefault e s = Some (Inr b)" "\<forall>c \<in> K. \<not> is_invoke c" "justified e N K (snd s)" "ns_ok (fst s)"
  shows "justified e N K b"
proof -
  let ?P = "\<lambda>e s r. r = Inr b \<longrightarrow> justified e N K (snd s) \<longrightarrow> ns_ok (fst s) \<longrightarrow> justified e N K b"
  have "solveDefault e s = Some r \<Longrightarrow> ?P e s r" for r
  proof (rule solveDefault.raw_induct [of ?P e s r])
    fix sd e s r
    assume IH: "\<And>e s r. sd e s = Some r \<Longrightarrow> ?P e s r"
      and body: "(case default_round e s of Inl p \<Rightarrow> Some (Inl p) | Inr (None, a) \<Rightarrow> Some (Inr a) | Inr (Some s, _) \<Rightarrow> sd e s) = Some r"
    show "?P e s r"
    proof (intro impI)
      assume r: "r = Inr b" and j: "justified e N K (snd s)" "ns_ok (fst s)"
      obtain w c where w: "default_round e (fst s, snd s) = Inr (w, c)" using body r by (cases "default_round e s") auto
      note i = okR_D [OF default_round_just [OF assms(2) j] w, simplified]
      show "justified e N K b"
      proof (cases w)
        case None
        then show ?thesis using body r w i by simp
      next
        case (Some s')
        then have "sd e s' = Some (Inr b)" using body r w by simp
        then show ?thesis using IH i Some by (cases s') auto
      qed
    qed
  qed
  from this [OF assms(1)] show ?thesis using assms(3,4) by simp
qed

lemma solveLimit_loop_just:
  assumes "solveLimit_loop e s = Some (Inr b)" "\<forall>c \<in> K. \<not> is_invoke c" "justified e N K (snd s)" "ns_ok (fst s)"
  shows "justified e N K b"
proof -
  let ?P = "\<lambda>e s r. r = Inr b \<longrightarrow> justified e N K (snd s) \<longrightarrow> ns_ok (fst s) \<longrightarrow> justified e N K b"
  have "solveLimit_loop e s = Some r \<Longrightarrow> ?P e s r" for r
  proof (rule solveLimit_loop.raw_induct [of ?P e s r])
    fix sd e s r
    assume IH: "\<And>e s r. sd e s = Some r \<Longrightarrow> ?P e s r"
      and body: "(case limit_round e s of Inl p \<Rightarrow> Some (Inl p) | Inr (None, a) \<Rightarrow> Some (Inr a) | Inr (Some s, _) \<Rightarrow> sd e s) = Some r"
    show "?P e s r"
    proof (intro impI)
      assume r: "r = Inr b" and j: "justified e N K (snd s)" "ns_ok (fst s)"
      obtain w c where w: "limit_round e (fst s, snd s) = Inr (w, c)" using body r by (cases "limit_round e s") auto
      note i = okR_D [OF limit_round_just [OF assms(2) j] w, simplified]
      show "justified e N K b"
      proof (cases w)
        case None
        then show ?thesis using body r w i by simp
      next
        case (Some s')
        then have "sd e s' = Some (Inr b)" using body r w by simp
        then show ?thesis using IH i Some by (cases s') auto
      qed
    qed
  qed
  from this [OF assms(1)] show ?thesis using assms(3,4) by simp
qed

section \<open>What is derivable is computed\<close>

lemma solved_edge:
  assumes "solved {} S e K b" "edge b s d" "k \<in> Lb b (rf b s)"
  shows "k \<in> Lb b (rf b d)"
proof (cases "d = s")
  case False
  then have "d \<in> Ed b (rf b s)" using assms(2) by (simp add: edge_def)
  then have "has_label b d k" using assms(1,3) by (auto simp: solved_def solver_inv_def closed_for_def Wk_def)
  then show ?thesis by (simp add: has_label_def)
qed (use assms in simp)

lemma solved_rule:
  assumes "solved {} S e K b" "c \<in> K" "\<not> is_addr c" "\<nexists>d s. c = CopyC d s" "k \<in> Lb b (rf b (ptr c))"
  shows "rule_holds e S b c k"
proof -
  have "registered b c" using assms(1,2) by (simp add: solved_def solver_inv_def)
  then have "c \<in> Cx b (rf b (ptr c))" using registered_complex [OF assms(3,4)] by simp
  then show ?thesis using assms(1,5) by (simp add: solved_def solver_inv_def closed_for_def Wk_def)
qed

lemma solved_derives:
  assumes s: "solved {} S e K b" and N: "nodes b = N"
  shows "derives e N K r k \<Longrightarrow> k \<in> Lb b r" "flow e N K r q \<Longrightarrow> Lb b r \<subseteq> Lb b q"
proof (induction rule: derives_flow.inducts)
  have R: "ref_in N n = rf b n" "ty_in N n = ty_of b n" for n by (simp_all add: N rf_def ref_in_def ty_of_def ty_in_def)
  have reg: "registered b c" if "c \<in> K" for c using that s by (simp add: solved_def solver_inv_def)
  note rule = solved_rule [OF s]
  {
    case (d_addr d s)
    then show ?case using reg [OF d_addr] by (simp add: registered_def has_label_def R)
  next
    case (d_offset i d s x)
    then show ?case using rule [of "OffsetAddrC i d s" x] by (simp add: rule_holds_def has_label_def R is_addr_def)
  next
    case (d_filter t d s x)
    then show ?case using rule [of "TypeFilterC t d s" x] by (simp add: rule_holds_def has_label_def R is_addr_def)
  next
    case (d_flow r q x)
    then show ?case by blast
  next
    case (f_copy d s')
    have "edge b s' d" using reg [OF f_copy] by (simp add: registered_def edge_def)
    then show ?case using solved_edge [OF s] by (auto simp: R)
  next
    case (f_load i d s' x)
    then have "edge b (x + i) d" using rule [of "LoadC i d s'" x] by (simp add: rule_holds_def R is_addr_def)
    then show ?case using solved_edge [OF s] by (auto simp: R)
  next
    case (f_store i d s' x)
    then have "edge b s' (x + i)" using rule [of "StoreC i d s'" x] by (simp add: rule_holds_def R is_addr_def)
    then show ?case using solved_edge [OF s] by (auto simp: R)
  next
    case (f_untag t d s' ex x j)
    then have "edges b (unat (sizeof e (ty_of b x))) (x + 1) d"
      using rule [of "UntagC t d s' ex" x] by (simp add: rule_holds_def R is_addr_def split: if_splits)
    then have "edge b (x + 1 + of_nat j) (d + of_nat j)" using f_untag(5) by (simp add: edges_def R)
    then show ?case using solved_edge [OF s] by (auto simp: R)
  }
qed

lemma solved_justified_iff:
  "solved {} S e K b \<Longrightarrow> justified e N K b \<Longrightarrow> k \<in> Lb b r \<longleftrightarrow> derives e N K r k"
  using solved_derives(1) [of S e K b N r k] by (auto simp: justified_def)

end
