(* ===== verification/Pointer_Renumber.thy ===== *)
theory Pointer_Renumber
  imports Pointer_Context Pointer_Least "HOL-Library.AList"
begin

text \<open>
  The renumbering of nodes before the solver runs (\<^verbatim>\<open>gopta/go/pointer/opt.go\<close>, and the \<^verbatim>\<open>renumber\<close>
  methods of \<^verbatim>\<open>constraint.go\<close> and \<^verbatim>\<open>callgraph.go\<close>): the nodes of addressable objects move in front of
  the others, and every node number the analysis holds is replaced. Each pass returns \<^const>\<open>None\<close> when
  its loop does not end.
\<close>

section \<open>Numbering the nodes\<close>

record numbering =
  next_old :: nodeid
  next_new :: nodeid
  newNodes :: "node option list"
  renumbering :: "nodeid list"

definition set_nth_go :: "'a list \<Rightarrow> int \<Rightarrow> 'a \<Rightarrow> 'a list go_result" where
  "set_nth_go xs i v = (if 0 \<le> i \<and> i < int (length xs) then Inr (xs[nat i := v]) else Inl IndexOutOfRange)"

text \<open>\<^verbatim>\<open>newNodes[j] = a.nodes[i]; renumbering[i] = j; i++; j++\<close>\<close>

definition place :: "node list \<Rightarrow> numbering \<Rightarrow> numbering go_result" where
  "place ns s =
     bindR (nth_go ns (uint (next_old s))) (\<lambda>n.
     bindR (set_nth_go (newNodes s) (uint (next_new s)) (Some n)) (\<lambda>nn.
     bindR (set_nth_go (renumbering s) (uint (next_old s)) (next_new s)) (\<lambda>rn.
       Inr \<lparr>next_old = next_old s + 1, next_new = next_new s + 1, newNodes = nn, renumbering = rn\<rparr>)))"

fun place_block :: "node list \<Rightarrow> nat \<Rightarrow> numbering \<Rightarrow> numbering go_result" where
  "place_block ns 0 s = Inr s"
| "place_block ns (Suc k) s = bindR (place ns s) (place_block ns k)"

text \<open>One iteration of each pass; \<^const>\<open>None\<close> when \<open>i\<close> has reached the number of nodes.\<close>

definition pass1_round :: "node list \<Rightarrow> numbering \<Rightarrow> numbering option go_result" where
  "pass1_round ns s =
     (if next_old s < of_nat (length ns)
      then bindR (nth_go ns (uint (next_old s))) (\<lambda>n.
             case obj n of
               None \<Rightarrow> Inr (Some (s\<lparr>next_old := next_old s + 1\<rparr>))
             | Some ob \<Rightarrow>
                 let stop = next_old s + obj_size ob
                 in bindR (place_block ns (unat stop - unat (next_old s)) s) (\<lambda>s. Inr (Some s)))
      else Inr None)"

definition pass2_round :: "node list \<Rightarrow> numbering \<Rightarrow> numbering option go_result" where
  "pass2_round ns s =
     (if next_old s < of_nat (length ns)
      then bindR (nth_go ns (uint (next_old s))) (\<lambda>n.
             case obj n of
               Some ob \<Rightarrow> Inr (Some (s\<lparr>next_old := next_old s + obj_size ob\<rparr>))
             | None \<Rightarrow> bindR (place ns s) (\<lambda>s. Inr (Some s)))
      else Inr None)"

partial_function (option) pass_loop :: "(numbering \<Rightarrow> numbering option go_result) \<Rightarrow> numbering \<Rightarrow> numbering go_result option" where
  "pass_loop f s =
     (case f s of
        Inl p \<Rightarrow> Some (Inl p)
      | Inr None \<Rightarrow> Some (Inr s)
      | Inr (Some t) \<Rightarrow> pass_loop f t)"

declare pass_loop.simps [code]

text \<open>Composition for results of loops that may not return.\<close>

fun bindL :: "'a go_result option \<Rightarrow> ('a \<Rightarrow> 'b go_result option) \<Rightarrow> 'b go_result option" where
  "bindL None f = None"
| "bindL (Some (Inl p)) f = Some (Inl p)"
| "bindL (Some (Inr x)) f = f x"

definition number_nodes :: "node list \<Rightarrow> numbering go_result option" where
  "number_nodes ns =
     (let N = of_nat (length ns) :: nodeid;
          s0 = \<lparr>next_old = 0, next_new = 0, newNodes = replicate (unat N) None, renumbering = replicate (unat N) 0\<rparr>
      in bindL (Some (place ns s0)) (\<lambda>s.
         bindL (pass_loop (pass1_round ns) s) (\<lambda>s.
         bindL (pass_loop (pass2_round ns) (s\<lparr>next_old := 1\<rparr>)) (\<lambda>s.
           if next_new s \<noteq> N then Some (Inl (ExplicitPanic ''internal error'')) else Some (Inr s)))))"

section \<open>Replacing node numbers\<close>

text \<open>\<^verbatim>\<open>mapping[n]\<close>\<close>

definition renum :: "nodeid list \<Rightarrow> nodeid \<Rightarrow> nodeid go_result" where
  "renum m n = nth_go m (uint n)"

definition renum2 :: "nodeid list \<Rightarrow> nodeid \<Rightarrow> nodeid \<Rightarrow> (nodeid \<Rightarrow> nodeid \<Rightarrow> 'a) \<Rightarrow> 'a go_result" where
  "renum2 m d s f = bindR (renum m d) (\<lambda>d. bindR (renum m s) (\<lambda>s. Inr (f d s)))"

fun renumber_constraint :: "nodeid list \<Rightarrow> constraint \<Rightarrow> constraint go_result" where
  "renumber_constraint m (AddrC d s) = renum2 m d s AddrC"
| "renumber_constraint m (CopyC d s) = renum2 m d s CopyC"
| "renumber_constraint m (LoadC k d s) = renum2 m d s (LoadC k)"
| "renumber_constraint m (StoreC k d s) = renum2 m d s (StoreC k)"
| "renumber_constraint m (OffsetAddrC k d s) = renum2 m d s (OffsetAddrC k)"
| "renumber_constraint m (TypeFilterC t d s) = renum2 m d s (TypeFilterC t)"
| "renumber_constraint m (UntagC t d s ex) = renum2 m d s (\<lambda>d s. UntagC t d s ex)"
| "renumber_constraint m (InvokeC mt i ps st cl) = renum2 m i ps (\<lambda>i ps. InvokeC mt i ps st cl)"

fun mapR :: "('a \<Rightarrow> 'b go_result) \<Rightarrow> 'a list \<Rightarrow> 'b list go_result" where
  "mapR f [] = Inr []"
| "mapR f (x # xs) = bindR (f x) (\<lambda>y. bindR (mapR f xs) (\<lambda>ys. Inr (y # ys)))"

text \<open>The maps from values to node numbers; the order of iteration does not matter.\<close>

definition renumber_entry :: "nodeid list \<Rightarrow> 'a \<times> nodeid \<Rightarrow> ('a \<times> nodeid) go_result" where
  "renumber_entry m e = bindR (renum m (snd e)) (\<lambda>n. Inr (fst e, n))"

fun renumber_globals :: "nodeid list \<Rightarrow> fn_ref list \<Rightarrow> (fn_ref \<Rightarrow> nodeid) \<Rightarrow> (fn_ref \<Rightarrow> nodeid) go_result" where
  "renumber_globals m [] g = Inr g"
| "renumber_globals m (v # vs) g = bindR (renum m (g v)) (\<lambda>n. renumber_globals m vs (g(v := n)))"

text \<open>\<^verbatim>\<open>Ctx2nodeid\<close>\<close>

definition renumber_ctx2nodeid :: "nodeid list \<Rightarrow> ('a \<times> nodeid list) list \<Rightarrow> ('a \<times> nodeid list) list go_result" where
  "renumber_ctx2nodeid m = mapR (\<lambda>(site, ids). bindR (mapR (renum m) ids) (\<lambda>ids. Inr (site, ids)))"

text \<open>\<^verbatim>\<open>site.targets = renumbering[site.targets]\<close>, in place.\<close>

fun renumber_sites :: "nodeid list \<Rightarrow> site_ptr list \<Rightarrow> site_heap \<Rightarrow> site_heap go_result" where
  "renumber_sites m [] h = Inr h"
| "renumber_sites m (p # ps) h =
     (case p of
        None \<Rightarrow> Inl NilDereference
      | Some x \<Rightarrow>
          bindR (renum m (targets (h x))) (\<lambda>n. renumber_sites m ps (h(x := (h x)\<lparr>targets := n\<rparr>))))"

definition renumber_locals :: "nodeid list \<Rightarrow> cgnode \<Rightarrow> cgnode go_result" where
  "renumber_locals m c =
     bindR (mapR (renumber_entry m) (slice (localval c))) (\<lambda>lv.
     bindR (mapR (renumber_entry m) (slice (localobj c))) (\<lambda>lo.
       Inr (c\<lparr>localval := map_option (\<lambda>_. lv) (localval c), localobj := map_option (\<lambda>_. lo) (localobj c)\<rparr>)))"

definition renumber_cgnode :: "nodeid list \<Rightarrow> cgnode \<Rightarrow> site_heap \<Rightarrow> (cgnode \<times> site_heap) go_result" where
  "renumber_cgnode m c h =
     bindR (renum m (cg_obj c)) (\<lambda>n.
     bindR (renumber_sites m (map Some (sites c)) h) (\<lambda>h.
     bindR (renumber_sites m (concat (map slice (slice (actualCallerSite c)))) h) (\<lambda>h.
     bindR (renumber_locals m (c\<lparr>cg_obj := n\<rparr>)) (\<lambda>c. Inr (c, h)))))"

fun renumber_cgnodes :: "nodeid list \<Rightarrow> cgnode list \<Rightarrow> site_heap \<Rightarrow> (cgnode list \<times> site_heap) go_result" where
  "renumber_cgnodes m [] h = Inr ([], h)"
| "renumber_cgnodes m (c # cs) h =
     bindR (renumber_cgnode m c h) (\<lambda>(c, h).
     bindR (renumber_cgnodes m cs h) (\<lambda>(cs, h). Inr (c # cs, h)))"

fun renumber_closureWOGo :: "nodeid list \<Rightarrow> (nodeid \<times> nodeid) list \<Rightarrow> (nodeid \<times> nodeid) list \<Rightarrow> (nodeid \<times> nodeid) list go_result" where
  "renumber_closureWOGo m [] tmp = Inr tmp"
| "renumber_closureWOGo m ((k, v) # es) tmp =
     bindR (renum m v) (\<lambda>v. bindR (renum m k) (\<lambda>k. renumber_closureWOGo m es (AList.update k v tmp)))"

section \<open>The whole step\<close>

text \<open>What holds node numbers: \<open>fn_keys\<close> are the keys of \<open>globalobj\<close>.\<close>

record pta =
  graph :: solver
  fn_keys :: "fn_ref list"
  globalval :: "(nat \<times> nodeid) list"
  cgnodes :: "cgnode list"
  site_store :: site_heap
  closureWOGo :: "(nodeid \<times> nodeid) list"
  closures :: "(fn_ref \<times> (site_ptr \<times> nodeid list) list) list"
  callbacks :: "(fn_ref \<times> (site_ptr \<times> nodeid list) list) list"
  DoCallback :: bool

definition renumber_closures :: "nodeid list \<Rightarrow> (fn_ref \<times> (site_ptr \<times> nodeid list) list) list \<Rightarrow> (fn_ref \<times> (site_ptr \<times> nodeid list) list) list go_result" where
  "renumber_closures m = mapR (\<lambda>(f, c). bindR (renumber_ctx2nodeid m c) (\<lambda>c. Inr (f, c)))"

definition renumber_ids :: "nodeid list \<Rightarrow> pta \<Rightarrow> pta go_result" where
  "renumber_ids m a =
     bindR (renumber_globals m (fn_keys a) (globalobj (graph a))) (\<lambda>go.
     bindR (mapR (renumber_entry m) (globalval a)) (\<lambda>gv.
     bindR (mapR (renumber_constraint m) (constraints (graph a))) (\<lambda>cs.
     bindR (renumber_cgnodes m (cgnodes a) (site_store a)) (\<lambda>(cgs, h).
     bindR (renumber_closureWOGo m (closureWOGo a) []) (\<lambda>wo.
     bindR (renumber_closures m (closures a)) (\<lambda>cl.
     bindR (if DoCallback a then renumber_closures m (callbacks a) else Inr (callbacks a)) (\<lambda>cb.
       Inr (a\<lparr>graph := (graph a)\<lparr>globalobj := go, constraints := cs\<rparr>, globalval := gv, cgnodes := cgs,
              site_store := h, closureWOGo := wo, closures := cl, callbacks := cb\<rparr>))))))))"

definition renumber :: "pta \<Rightarrow> pta go_result option" where
  "renumber a =
     bindL (number_nodes (nodes (graph a))) (\<lambda>s.
     bindL (Some (renumber_ids (renumbering s) a)) (\<lambda>a.
       Some (Inr (a\<lparr>graph := (graph a)\<lparr>nodes := map the (newNodes s)\<rparr>\<rparr>))))"

end
