(* ===== verification/Pointer_Layout.thy ===== *)
theory Pointer_Layout
  imports Pointer_Renumber
begin

text \<open>
  The layout of nodes that node creation produces, blocks of addressable objects among other nodes, and the
  order the renumbering gives them. The passes over the nodes return, and compute this order.
\<close>

section \<open>Blocks of nodes\<close>

function laid_out :: "node list \<Rightarrow> bool" where
  "laid_out [] = True"
| "laid_out (n # ns) =
     (case obj n of
        None \<Rightarrow> laid_out ns
      | Some ob \<Rightarrow>
          0 < obj_size ob \<and> unat (obj_size ob) \<le> Suc (length ns) \<and> laid_out (drop (unat (obj_size ob) - 1) ns))"
  by pat_completeness auto
termination by (relation "measure length") auto

text \<open>The positions inside objects and outside, for a list that starts at position \<open>i\<close>.\<close>

function inside :: "nat \<Rightarrow> node list \<Rightarrow> nat list" where
  "inside i [] = []"
| "inside i (n # ns) =
     (case obj n of
        None \<Rightarrow> inside (Suc i) ns
      | Some ob \<Rightarrow> [i..<i + unat (obj_size ob)] @ inside (i + unat (obj_size ob)) (drop (unat (obj_size ob) - 1) ns))"
  by pat_completeness auto
termination by (relation "measure (\<lambda>p. length (snd p))") auto

function outside :: "nat \<Rightarrow> node list \<Rightarrow> nat list" where
  "outside i [] = []"
| "outside i (n # ns) =
     (case obj n of
        None \<Rightarrow> i # outside (Suc i) ns
      | Some ob \<Rightarrow> outside (i + unat (obj_size ob)) (drop (unat (obj_size ob) - 1) ns))"
  by pat_completeness auto
termination by (relation "measure (\<lambda>p. length (snd p))") auto

definition new_order :: "node list \<Rightarrow> nat list" where
  "new_order ns = 0 # inside 1 (tl ns) @ outside 1 (tl ns)"

lemma laid_out_block: "laid_out (n # ns) \<Longrightarrow> obj n = Some ob \<Longrightarrow>
    0 < unat (obj_size ob) \<and> unat (obj_size ob) \<le> length (n # ns) \<and> laid_out (drop (unat (obj_size ob)) (n # ns)) \<and>
    drop (unat (obj_size ob)) (n # ns) = drop (unat (obj_size ob) - 1) ns"
  by (auto simp: drop_Cons' unat_gt_0)

lemma inside_ge: "x \<in> set (inside i ns) \<Longrightarrow> i \<le> x"
proof (induction i ns rule: inside.induct)
  case (2 i n ns)
  then show ?case by (cases "obj n") fastforce+
qed simp

lemma outside_ge: "x \<in> set (outside i ns) \<Longrightarrow> i \<le> x"
proof (induction i ns rule: outside.induct)
  case (2 i n ns)
  then show ?case by (cases "obj n") fastforce+
qed simp

lemma inside_outside_set:
  "laid_out ns \<Longrightarrow> set (inside i ns) \<union> set (outside i ns) = {i..<i + length ns} \<and> set (inside i ns) \<inter> set (outside i ns) = {}"
proof (induction ns arbitrary: i rule: laid_out.induct)
  case (2 n ns)
  show ?case
  proof (cases "obj n")
    case None
    then have "set (inside (Suc i) ns) \<union> set (outside (Suc i) ns) = {Suc i..<i + length (n # ns)} \<and>
        set (inside (Suc i) ns) \<inter> set (outside (Suc i) ns) = {}"
      using 2(1) [OF None, of "Suc i"] 2(3) by simp
    moreover have "insert i {Suc i..<i + length (n # ns)} = {i..<i + length (n # ns)}" by auto
    moreover have "i \<notin> set (inside (Suc i) ns)" using inside_ge [of i "Suc i" ns] by auto
    ultimately show ?thesis using None by auto
  next
    case (Some ob)
    let ?k = "unat (obj_size ob)"
    have k: "0 < ?k" "?k \<le> Suc (length ns)" "laid_out (drop (?k - 1) ns)" using laid_out_block [OF 2(3) Some] 2(3) Some by auto
    have "set (inside (i + ?k) (drop (?k - 1) ns)) \<union> set (outside (i + ?k) (drop (?k - 1) ns)) = {i + ?k..<i + length (n # ns)} \<and>
        set (inside (i + ?k) (drop (?k - 1) ns)) \<inter> set (outside (i + ?k) (drop (?k - 1) ns)) = {}"
      using 2(2) [OF Some k(3), of "i + ?k"] k(1,2) by simp
    moreover have "{i..<i + ?k} \<union> {i + ?k..<i + length (n # ns)} = {i..<i + length (n # ns)}" using k(2) by auto
    moreover have "{i..<i + ?k} \<inter> {i + ?k..<i + length (n # ns)} = {}" by auto
    ultimately show ?thesis using Some by auto
  qed
qed simp

lemma inside_sorted: "sorted_wrt (<) (inside i ns)"
proof (induction i ns rule: inside.induct)
  case (2 i n ns)
  show ?case
  proof (cases "obj n")
    case (Some ob)
    then show ?thesis using 2(2) [OF Some] inside_ge by (force simp: sorted_wrt_append)
  qed (use 2(1) in simp)
qed simp

lemma outside_sorted: "sorted_wrt (<) (outside i ns)"
proof (induction i ns rule: outside.induct)
  case (2 i n ns)
  show ?case
  proof (cases "obj n")
    case None
    then show ?thesis using 2(1) [OF None] outside_ge by (force simp: Suc_le_eq)
  qed (use 2(2) in simp)
qed simp

lemma new_order_perm:
  assumes "ns \<noteq> []" "laid_out (tl ns)"
  shows "distinct (new_order ns)" "set (new_order ns) = {..<length ns}" "length (new_order ns) = length ns"
proof -
  have s: "set (inside 1 (tl ns)) \<union> set (outside 1 (tl ns)) = {1..<length ns}" "set (inside 1 (tl ns)) \<inter> set (outside 1 (tl ns)) = {}"
    using inside_outside_set [OF assms(2), of 1] assms(1) by (cases ns; simp)+
  show d: "distinct (new_order ns)"
    using s inside_sorted [of 1 "tl ns"] outside_sorted [of 1 "tl ns"]
    by (auto simp: new_order_def strict_sorted_iff dest: inside_ge outside_ge)
  have "{..<length ns} = insert 0 {1..<length ns}" using assms(1) by (cases ns) auto
  then show e: "set (new_order ns) = {..<length ns}" using s(1) by (simp add: new_order_def)
  show "length (new_order ns) = length ns" using distinct_card [OF d] e by simp
qed

section \<open>The passes\<close>

text \<open>The nodes at the positions \<open>ps\<close> have been placed, in this order.\<close>

definition placed :: "node list \<Rightarrow> nat list \<Rightarrow> numbering \<Rightarrow> bool" where
  "placed ns ps s \<longleftrightarrow>
     length ns < 2 ^ 32 \<and> distinct ps \<and> set ps \<subseteq> {..<length ns} \<and> unat (next_new s) = length ps \<and>
     newNodes s = map (\<lambda>i. Some (ns ! i)) ps @ replicate (length ns - length ps) None \<and>
     length (renumbering s) = length ns \<and> (\<forall>q < length ps. renumbering s ! (ps ! q) = of_nat q)"

lemma placed_length: "placed ns ps s \<Longrightarrow> length ps = card (set ps)"
  by (simp add: placed_def distinct_card)

lemma placed_room: "placed ns ps s \<Longrightarrow> i < length ns \<Longrightarrow> i \<notin> set ps \<Longrightarrow> length ps < length ns"
proof -
  assume p: "placed ns ps s" "i < length ns" "i \<notin> set ps"
  then have "set ps \<subset> {..<length ns}" by (auto simp: placed_def)
  then have "card (set ps) < card {..<length ns}" by (rule psubset_card_mono [rotated]) simp
  then show ?thesis using placed_length [OF p(1)] by simp
qed

lemma unat_Suc_node: "unat (n :: nodeid) < k \<Longrightarrow> k < 2 ^ 32 \<Longrightarrow> unat (n + 1) = Suc (unat n)"
  using unat_add_lem [of n 1] by simp

lemma nth_go_node: "unat (n :: nodeid) < length xs \<Longrightarrow> nth_go xs (uint n) = Inr (xs ! unat n)"
proof -
  have "i < length xs \<Longrightarrow> nth_go xs (int i) = Inr (xs ! i)" for i by (simp add: nth_go_def)
  from this [of "unat n"] show "unat n < length xs \<Longrightarrow> nth_go xs (uint n) = Inr (xs ! unat n)" by (simp only: uint_nat)
qed

lemma set_nth_go_node: "unat (n :: nodeid) < length xs \<Longrightarrow> set_nth_go xs (uint n) v = Inr (xs[unat n := v])"
proof -
  have "i < length xs \<Longrightarrow> set_nth_go xs (int i) v = Inr (xs[i := v])" for i by (simp add: set_nth_go_def)
  from this [of "unat n"] show "unat n < length xs \<Longrightarrow> set_nth_go xs (uint n) v = Inr (xs[unat n := v])" by (simp only: uint_nat)
qed

lemma place_placed:
  assumes p: "placed ns ps s" and i: "unat (next_old s) < length ns" "unat (next_old s) \<notin> set ps"
  shows "\<exists>t. place ns s = Inr t \<and> placed ns (ps @ [unat (next_old s)]) t \<and> unat (next_old t) = Suc (unat (next_old s))"
proof -
  let ?i = "unat (next_old s)" and ?j = "length ps"
  have j: "?j < length ns" "unat (next_new s) = ?j" by (rule placed_room [OF p i]) (use p in \<open>simp add: placed_def\<close>)
  have l: "length (newNodes s) = length ns" "length (renumbering s) = length ns" "length ns < 2 ^ 32"
    using p j by (simp_all add: placed_def)
  define t where "t = \<lparr>next_old = next_old s + 1, next_new = next_new s + 1,
      newNodes = (newNodes s)[?j := Some (ns ! ?i)], renumbering = (renumbering s)[?i := next_new s]\<rparr>"
  have r: "place ns s = Inr t"
    using i(1) j l by (simp add: place_def t_def nth_go_node set_nth_go_node)
  have u: "unat (next_old t) = Suc ?i" "unat (next_new t) = Suc ?j"
    using unat_Suc_node [OF i(1) l(3)] unat_Suc_node [of "next_new s" "length ns"] j l by (simp_all add: t_def)
  have nn: "newNodes t = map (\<lambda>i. Some (ns ! i)) (ps @ [?i]) @ replicate (length ns - Suc ?j) None"
  proof -
    have "replicate (length ns - ?j) (None :: node option) = None # replicate (length ns - Suc ?j) None"
      using Suc_diff_Suc [OF j(1)] by (simp flip: replicate_Suc)
    then show ?thesis using p by (simp add: t_def placed_def list_update_append)
  qed
  have rn: "renumbering t ! ((ps @ [?i]) ! q) = of_nat q" if "q < Suc ?j" for q
  proof (cases "q = ?j")
    case True
    have "next_new s = of_nat ?j" by (simp add: word_unat_eq_iff j(2) [symmetric] unat_of_nat)
    then show ?thesis using i(1) l(2) True by (simp add: t_def)
  next
    case False
    then have q: "q < ?j" using that by simp
    then have "ps ! q \<noteq> ?i" using i(2) by (metis nth_mem)
    then show ?thesis using p q by (simp add: t_def placed_def nth_append)
  qed
  have "distinct (ps @ [?i])" "set (ps @ [?i]) \<subseteq> {..<length ns}" using p i by (simp_all add: placed_def)
  moreover have "length (renumbering t) = length ns" using l(2) by (simp add: t_def)
  ultimately have "placed ns (ps @ [?i]) t" using u(2) nn rn l(3) unfolding placed_def by simp
  then show ?thesis using r u(1) by blast
qed

lemma place_block_placed:
  "placed ns ps s \<Longrightarrow> unat (next_old s) + k \<le> length ns \<Longrightarrow> set ps \<inter> {unat (next_old s)..<unat (next_old s) + k} = {} \<Longrightarrow>
   \<exists>t. place_block ns k s = Inr t \<and> placed ns (ps @ [unat (next_old s)..<unat (next_old s) + k]) t \<and>
     unat (next_old t) = unat (next_old s) + k"
proof (induction k arbitrary: s ps)
  case (Suc k)
  have i: "unat (next_old s) < length ns" "unat (next_old s) \<notin> set ps" using Suc.prems(2,3) by auto
  obtain t where t: "place ns s = Inr t" "placed ns (ps @ [unat (next_old s)]) t" "unat (next_old t) = Suc (unat (next_old s))"
    using place_placed [OF Suc.prems(1) i] by blast
  have "unat (next_old t) + k \<le> length ns" "set (ps @ [unat (next_old s)]) \<inter> {unat (next_old t)..<unat (next_old t) + k} = {}"
    using Suc.prems(2,3) t(3) by auto
  from Suc.IH [OF t(2) this]
  obtain u where u: "place_block ns k t = Inr u" "unat (next_old u) = unat (next_old t) + k"
      "placed ns ((ps @ [unat (next_old s)]) @ [unat (next_old t)..<unat (next_old t) + k]) u"
    by blast
  moreover have "[unat (next_old s)..<unat (next_old s) + Suc k] = unat (next_old s) # [unat (next_old t)..<unat (next_old t) + k]"
    using upt_conv_Cons [of "unat (next_old s)" "unat (next_old s) + Suc k"] by (simp add: t(3) del: upt_Suc)
  ultimately show ?case using t(1,3) by simp
qed simp

lemma placed_cursor: "placed ns ps (s\<lparr>next_old := i\<rparr>) = placed ns ps s"
  by (simp add: placed_def)

lemma in_range_node: "length (ns :: node list) < 2 ^ 32 \<Longrightarrow> (i :: nodeid) < of_nat (length ns) \<longleftrightarrow> unat i < length ns"
  by (simp add: word_less_nat_alt unat_of_nat)

lemma unat_add_node: "unat (i :: nodeid) + unat k \<le> N \<Longrightarrow> N < 2 ^ 32 \<Longrightarrow> unat (i + k) = unat i + unat k"
  using unat_add_lem [of i k] by simp

text \<open>What the two passes have in common: the next round, with the node at the cursor.\<close>

lemma cursor_node:
  assumes "placed ns ps s" "drop (unat (next_old s)) ns = n # rest"
  shows "unat (next_old s) < length ns" "ns ! unat (next_old s) = n" "next_old s < of_nat (length ns)"
    "nth_go ns (uint (next_old s)) = Inr n" "drop (Suc (unat (next_old s))) ns = rest"
proof -
  show l: "unat (next_old s) < length ns" using assms(2) by (metis drop_all list.discI not_less)
  show n: "ns ! unat (next_old s) = n" using assms(2) l by (metis Cons_nth_drop_Suc list.inject)
  show "next_old s < of_nat (length ns)" using l assms(1) by (simp add: placed_def in_range_node)
  show "nth_go ns (uint (next_old s)) = Inr n" using nth_go_node [OF l] n by simp
  show "drop (Suc (unat (next_old s))) ns = rest" using assms(2) l by (metis Cons_nth_drop_Suc list.inject)
qed

lemma pass_end:
  assumes "placed ns ps s" "drop (unat (next_old s)) ns = []"
  shows "pass_loop (pass1_round ns) s = Some (Inr s)" "pass_loop (pass2_round ns) s = Some (Inr s)"
proof -
  have "\<not> next_old s < of_nat (length ns)" using assms by (simp add: placed_def in_range_node)
  then have "pass1_round ns s = Inr None" "pass2_round ns s = Inr None" by (simp_all add: pass1_round_def pass2_round_def)
  then show "pass_loop (pass1_round ns) s = Some (Inr s)" "pass_loop (pass2_round ns) s = Some (Inr s)"
    by (simp_all add: pass_loop.simps)
qed

lemma pass_step: "f s = Inr (Some t) \<Longrightarrow> pass_loop f s = pass_loop f t"
  by (simp add: pass_loop.simps [of f s])

text \<open>The object at the cursor lies in the list, so adding its size does not wrap.\<close>

lemma block_end:
  assumes p: "placed ns ps s" and d: "drop (unat (next_old s)) ns = n # rest" and l: "laid_out (n # rest)" "obj n = Some ob"
  shows "unat (next_old s + obj_size ob) = unat (next_old s) + unat (obj_size ob)"
    "unat (next_old s) + unat (obj_size ob) \<le> length ns"
    "drop (unat (next_old s) + unat (obj_size ob)) ns = drop (unat (obj_size ob) - 1) rest" "laid_out (drop (unat (obj_size ob) - 1) rest)"
proof -
  have k: "0 < unat (obj_size ob)" "unat (obj_size ob) \<le> length (n # rest)" "laid_out (drop (unat (obj_size ob)) (n # rest))"
    "drop (unat (obj_size ob)) (n # rest) = drop (unat (obj_size ob) - 1) rest" using laid_out_block [OF l] by auto
  have "length (n # rest) = length ns - unat (next_old s)" using d by (metis length_drop)
  then show e: "unat (next_old s) + unat (obj_size ob) \<le> length ns" using k(2) cursor_node(1) [OF p d] by simp
  show "unat (next_old s + obj_size ob) = unat (next_old s) + unat (obj_size ob)"
    by (rule unat_add_node [OF e]) (use p in \<open>simp add: placed_def\<close>)
  show "drop (unat (next_old s) + unat (obj_size ob)) ns = drop (unat (obj_size ob) - 1) rest"
    using k(4) d by (metis add.commute drop_drop)
  show "laid_out (drop (unat (obj_size ob) - 1) rest)" using k(3,4) by simp
qed

lemma pass1_placed:
  "laid_out rest \<Longrightarrow> placed ns ps s \<Longrightarrow> drop (unat (next_old s)) ns = rest \<Longrightarrow> set ps \<inter> {unat (next_old s)..<length ns} = {} \<Longrightarrow>
   \<exists>t. pass_loop (pass1_round ns) s = Some (Inr t) \<and> placed ns (ps @ inside (unat (next_old s)) rest) t"
proof (induction rest arbitrary: ps s rule: laid_out.induct)
  case 1
  then show ?case using pass_end(1) by simp
next
  case (2 n rest)
  note c = cursor_node [OF 2(4,5)]
  show ?case
  proof (cases "obj n")
    case None
    let ?s = "s\<lparr>next_old := next_old s + 1\<rparr>"
    have u: "unat (next_old ?s) = Suc (unat (next_old s))" using unat_Suc_node [OF c(1)] 2(4) by (simp add: placed_def)
    have "pass1_round ns s = Inr (Some ?s)" using c(3,4) None by (simp add: pass1_round_def)
    moreover have "\<exists>t. pass_loop (pass1_round ns) ?s = Some (Inr t) \<and> placed ns (ps @ inside (unat (next_old ?s)) rest) t"
      by (rule 2(1) [OF None]) (use 2(3,4,6) None c(5) u in \<open>auto simp: placed_cursor\<close>)
    ultimately show ?thesis using None u by (simp add: pass_step)
  next
    case (Some ob)
    note b = block_end [OF 2(4,5,3) Some]
    have i: "set ps \<inter> {unat (next_old s)..<unat (next_old s) + unat (obj_size ob)} = {}" using 2(6) b(2) by auto
    obtain t where t: "place_block ns (unat (obj_size ob)) s = Inr t" "unat (next_old t) = unat (next_old s) + unat (obj_size ob)"
        "placed ns (ps @ [unat (next_old s)..<unat (next_old s) + unat (obj_size ob)]) t"
      using place_block_placed [OF 2(4) b(2) i] by blast
    have "pass1_round ns s = Inr (Some t)" using c(3,4) Some t(1) b(1) by (simp add: pass1_round_def Let_def)
    moreover have "\<exists>u. pass_loop (pass1_round ns) t = Some (Inr u) \<and>
        placed ns ((ps @ [unat (next_old s)..<unat (next_old s) + unat (obj_size ob)]) @
          inside (unat (next_old t)) (drop (unat (obj_size ob) - 1) rest)) u"
      by (rule 2(2) [OF Some b(4) t(3)]) (use t(2) b(2,3) 2(6) in auto)
    ultimately show ?thesis using Some t(2) by (simp add: pass_step)
  qed
qed

lemma pass2_placed:
  "laid_out rest \<Longrightarrow> placed ns ps s \<Longrightarrow> drop (unat (next_old s)) ns = rest \<Longrightarrow>
   set ps \<inter> set (outside (unat (next_old s)) rest) = {} \<Longrightarrow>
   \<exists>t. pass_loop (pass2_round ns) s = Some (Inr t) \<and> placed ns (ps @ outside (unat (next_old s)) rest) t"
proof (induction rest arbitrary: ps s rule: laid_out.induct)
  case 1
  then show ?case using pass_end(2) by simp
next
  case (2 n rest)
  note c = cursor_node [OF 2(4,5)]
  show ?case
  proof (cases "obj n")
    case None
    have "unat (next_old s) \<notin> set ps" using 2(6) None by auto
    then obtain t where t: "place ns s = Inr t" "placed ns (ps @ [unat (next_old s)]) t" "unat (next_old t) = Suc (unat (next_old s))"
      using place_placed [OF 2(4) c(1)] by blast
    have "pass2_round ns s = Inr (Some t)" using c(3,4) None t(1) by (simp add: pass2_round_def)
    moreover have "set (ps @ [unat (next_old s)]) \<inter> set (outside (unat (next_old t)) rest) = {}"
      using 2(6) None t(3) outside_ge [of "unat (next_old s)" "unat (next_old t)" rest] by auto
    then have "\<exists>u. pass_loop (pass2_round ns) t = Some (Inr u) \<and>
        placed ns ((ps @ [unat (next_old s)]) @ outside (unat (next_old t)) rest) u"
      by (intro 2(1) [OF None _ t(2)]) (use 2(3) None c(5) t(3) in simp_all)
    ultimately show ?thesis using None t(3) by (simp add: pass_step)
  next
    case (Some ob)
    note b = block_end [OF 2(4,5,3) Some]
    let ?s = "s\<lparr>next_old := next_old s + obj_size ob\<rparr>"
    have "pass2_round ns s = Inr (Some ?s)" using c(3,4) Some by (simp add: pass2_round_def)
    moreover have "\<exists>u. pass_loop (pass2_round ns) ?s = Some (Inr u) \<and>
        placed ns (ps @ outside (unat (next_old ?s)) (drop (unat (obj_size ob) - 1) rest)) u"
      by (rule 2(2) [OF Some b(4)]) (use b 2(4,6) Some in \<open>simp_all add: placed_cursor\<close>)
    ultimately show ?thesis using Some b(1) by (simp add: pass_step)
  qed
qed

text \<open>The numbering returns and is the order \<open>new_order\<close>.\<close>

lemma number_nodes_order:
  assumes ns: "ns \<noteq> []" "length ns < 2 ^ 32" and l: "laid_out (tl ns)"
  shows "\<exists>s. number_nodes ns = Some (Inr s) \<and> placed ns (new_order ns) s"
proof -
  let ?N = "of_nat (length ns) :: nodeid"
  have N: "unat ?N = length ns" using ns(2) by (simp add: unat_of_nat)
  define s0 where "s0 = \<lparr>next_old = 0, next_new = 0, newNodes = replicate (unat ?N) None, renumbering = replicate (unat ?N) 0\<rparr>"
  have "placed ns [] s0" using ns(2) N by (simp add: placed_def s0_def)
  then obtain s1 where s1: "place ns s0 = Inr s1" "placed ns [0] s1" "unat (next_old s1) = 1"
    using place_placed [of ns "[]" s0] ns(1) by (auto simp: s0_def)
  have d: "drop 1 ns = tl ns" by (simp add: drop_Suc)
  obtain s2 where s2: "pass_loop (pass1_round ns) s1 = Some (Inr s2)" "placed ns (0 # inside 1 (tl ns)) s2"
    using pass1_placed [OF l s1(2)] s1(3) d by auto
  have "set (inside 1 (tl ns)) \<inter> set (outside 1 (tl ns)) = {}" using inside_outside_set [OF l, of 1] by simp
  then have "set (0 # inside 1 (tl ns)) \<inter> set (outside 1 (tl ns)) = {}" using outside_ge [of 0 1 "tl ns"] by auto
  then obtain s3 where s3: "pass_loop (pass2_round ns) (s2\<lparr>next_old := 1\<rparr>) = Some (Inr s3)" "placed ns (new_order ns) s3"
    using pass2_placed [OF l, of ns "0 # inside 1 (tl ns)" "s2\<lparr>next_old := 1\<rparr>"] s2(2) d by (auto simp: placed_cursor new_order_def)
  have "unat (next_new s3) = length ns" using s3(2) new_order_perm(3) [OF ns(1) l] by (simp add: placed_def)
  then have "next_new s3 = ?N" using N by (simp add: word_unat_eq_iff)
  then show ?thesis using s1(1) s2(1) s3 by (simp add: number_nodes_def Let_def s0_def)
qed

end
