(* ===== verification/Pointer_Permute.thy ===== *)
theory Pointer_Permute
  imports Pointer_Layout
begin

text \<open>
  The renumbering as a permutation: it keeps the distance of nodes in one object, and of neighbours outside
  the objects. So a constraint system whose offsets stay inside objects derives the same labels before and
  after it, up to the numbers.
\<close>

section \<open>The permutation\<close>

definition new_id :: "node list \<Rightarrow> nodeid \<Rightarrow> nodeid" where
  "new_id ns n = of_nat (length (takeWhile (\<lambda>i. i \<noteq> unat n) (new_order ns)))"

text \<open>The positions \<open>x\<close> to \<open>x + k\<close> are all inside objects or all outside.\<close>

definition same_part :: "node list \<Rightarrow> nat \<Rightarrow> nat \<Rightarrow> bool" where
  "same_part ns x k \<longleftrightarrow>
     (k = 0 \<and> x < length ns) \<or> set [x..<Suc (x + k)] \<subseteq> set (inside 1 (tl ns)) \<or> set [x..<Suc (x + k)] \<subseteq> set (outside 1 (tl ns))"

definition numbered :: "node list \<Rightarrow> bool" where
  "numbered ns \<longleftrightarrow> ns \<noteq> [] \<and> length ns < 2 ^ 32 \<and> laid_out (tl ns)"

lemma takeWhile_split: "x \<notin> set us \<Longrightarrow> takeWhile (\<lambda>i. i \<noteq> x) (us @ x # vs) = us"
  by (induction us) auto

lemma id_split:
  assumes "new_order ns = us @ unat n # vs" "numbered ns"
  shows "new_id ns n = of_nat (length us)" "unat (new_id ns n) = length us"
proof -
  have d: "distinct (new_order ns)" "length (new_order ns) < 2 ^ 32" using new_order_perm assms(2) by (simp_all add: numbered_def)
  then have "unat n \<notin> set us" using assms(1) by auto
  then show i: "new_id ns n = of_nat (length us)" using takeWhile_split [of "unat n" us vs] assms(1) by (simp add: new_id_def)
  show "unat (new_id ns n) = length us" using d(2) assms(1) i by (simp add: unat_of_nat)
qed

lemma id_position:
  assumes "numbered ns" "unat n < length ns"
  shows "unat (new_id ns n) < length ns" "new_order ns ! unat (new_id ns n) = unat n"
proof -
  have o: "length (new_order ns) = length ns" "set (new_order ns) = {..<length ns}"
    using new_order_perm assms(1) by (simp_all add: numbered_def)
  then obtain us vs where s: "new_order ns = us @ unat n # vs" using assms(2) by (metis lessThan_iff split_list)
  show "unat (new_id ns n) < length ns" "new_order ns ! unat (new_id ns n) = unat n"
    using id_split(2) [OF s assms(1)] s o(1) by simp_all
qed

lemma id_inj: "numbered ns \<Longrightarrow> unat n < length ns \<Longrightarrow> unat k < length ns \<Longrightarrow> new_id ns n = new_id ns k \<Longrightarrow> n = k"
  using id_position(2) by (metis word_unat_eq_iff)

lemma sorted_neighbours:
  assumes s: "sorted_wrt (<) (xs :: nat list)" "x \<in> set xs" "Suc x \<in> set xs"
  shows "\<exists>us vs. xs = us @ x # Suc x # vs"
proof -
  obtain us ws where w: "xs = us @ x # ws" using s(2) by (meson split_list)
  then have "Suc x \<in> set ws" using s(1,3) by (auto simp: sorted_wrt_append)
  then obtain y vs where y: "ws = y # vs" "x < y" "y \<le> Suc x"
    using s(1) w by (cases ws) (auto simp: sorted_wrt_append)
  then have "y = Suc x" by simp
  then show ?thesis using w y(1) by blast
qed

lemma order_neighbours:
  assumes "set [x, Suc x] \<subseteq> set (inside 1 (tl ns)) \<or> set [x, Suc x] \<subseteq> set (outside 1 (tl ns))"
  shows "\<exists>us vs. new_order ns = us @ x # Suc x # vs"
  using assms
proof
  assume "set [x, Suc x] \<subseteq> set (inside 1 (tl ns))"
  then obtain us vs where "inside 1 (tl ns) = us @ x # Suc x # vs"
    using sorted_neighbours [OF inside_sorted [of 1 "tl ns"], of x] by fastforce
  then have "new_order ns = (0 # us) @ x # Suc x # (vs @ outside 1 (tl ns))" by (simp add: new_order_def)
  then show ?thesis by blast
next
  assume "set [x, Suc x] \<subseteq> set (outside 1 (tl ns))"
  then obtain us vs where "outside 1 (tl ns) = us @ x # Suc x # vs"
    using sorted_neighbours [OF outside_sorted [of 1 "tl ns"], of x] by fastforce
  then have "new_order ns = (0 # inside 1 (tl ns) @ us) @ x # Suc x # vs" by (simp add: new_order_def)
  then show ?thesis by blast
qed

lemma same_part_range: "numbered ns \<Longrightarrow> same_part ns x k \<Longrightarrow> x + k < length ns"
proof -
  assume n: "numbered ns" and s: "same_part ns x k"
  have "set (inside 1 (tl ns)) \<union> set (outside 1 (tl ns)) \<subseteq> {..<length ns}"
    using inside_outside_set [of "tl ns" 1] n by (auto simp: numbered_def)
  moreover have "x + k \<in> set [x..<Suc (x + k)]" by simp
  ultimately show "x + k < length ns" using s unfolding same_part_def by auto
qed

lemma same_part_less: "same_part ns x (Suc k) \<Longrightarrow> numbered ns \<Longrightarrow> same_part ns x k"
  by (auto simp: same_part_def)

text \<open>Offsets survive the renumbering.\<close>

lemma id_shift_nat:
  assumes n: "numbered ns"
  shows "same_part ns (unat x) k \<Longrightarrow> new_id ns (x + of_nat k) = new_id ns x + of_nat k \<and> unat (x + of_nat k) = unat x + k"
proof (induction k)
  case (Suc k)
  let ?y = "x + of_nat k"
  have y: "new_id ns ?y = new_id ns x + of_nat k" "unat ?y = unat x + k" using Suc.IH same_part_less [OF Suc.prems n] by auto
  have r: "unat x + Suc k < length ns" by (rule same_part_range [OF n Suc.prems])
  then have z: "unat (?y + 1) = Suc (unat ?y)" using unat_Suc_node [of ?y "length ns"] n y(2) by (simp add: numbered_def)
  have "set [unat ?y, Suc (unat ?y)] \<subseteq> set [unat x..<Suc (unat x + Suc k)]" using y(2) by auto
  then have "set [unat ?y, Suc (unat ?y)] \<subseteq> set (inside 1 (tl ns)) \<or> set [unat ?y, Suc (unat ?y)] \<subseteq> set (outside 1 (tl ns))"
    using Suc.prems unfolding same_part_def by (meson Suc_neq_Zero order_trans)
  then obtain us vs where s: "new_order ns = us @ unat ?y # Suc (unat ?y) # vs" using order_neighbours by blast
  then have "new_order ns = (us @ [unat ?y]) @ unat (?y + 1) # vs" using z by simp
  then have "new_id ns (?y + 1) = of_nat (length us) + 1" using id_split(1) n by (metis length_append_singleton of_nat_Suc add.commute)
  then have "new_id ns (?y + 1) = new_id ns ?y + 1" using id_split(1) [OF s n] by simp
  then show ?case using y z by (simp add: ac_simps)
qed simp

lemma id_shift:
  assumes "numbered ns" "same_part ns (unat x) (unat k)"
  shows "new_id ns (x + k) = new_id ns x + k" "unat (x + k) = unat x + unat k" "unat (x + k) < length ns"
  using id_shift_nat [OF assms(1), of x "unat k"] assms(2) same_part_range [OF assms] by simp_all

section \<open>Renumbered constraint systems\<close>

definition new_nodes :: "node list \<Rightarrow> node list" where
  "new_nodes ns = map (nth ns) (new_order ns)"

fun relabel :: "(nodeid \<Rightarrow> nodeid) \<Rightarrow> constraint \<Rightarrow> constraint" where
  "relabel f (AddrC d s) = AddrC (f d) (f s)"
| "relabel f (CopyC d s) = CopyC (f d) (f s)"
| "relabel f (LoadC k d s) = LoadC k (f d) (f s)"
| "relabel f (StoreC k d s) = StoreC k (f d) (f s)"
| "relabel f (OffsetAddrC k d s) = OffsetAddrC k (f d) (f s)"
| "relabel f (TypeFilterC t d s) = TypeFilterC t (f d) (f s)"
| "relabel f (UntagC t d s ex) = UntagC t (f d) (f s) ex"
| "relabel f (InvokeC m i ps st cl) = InvokeC m (f i) (f ps) st cl"

text \<open>The nodes a constraint names.\<close>

fun operands :: "constraint \<Rightarrow> nodeid set" where
  "operands (AddrC d s) = {d, s}"
| "operands (CopyC d s) = {d, s}"
| "operands (LoadC k d s) = {d, s}"
| "operands (StoreC k d s) = {d, s}"
| "operands (OffsetAddrC k d s) = {d, s}"
| "operands (TypeFilterC t d s) = {d, s}"
| "operands (UntagC t d s ex) = {d, s}"
| "operands (InvokeC m i ps st cl) = {i, ps}"

definition closed_constraints :: "node list \<Rightarrow> constraint set \<Rightarrow> bool" where
  "closed_constraints ns K \<longleftrightarrow> (\<forall>c \<in> K. \<forall>n \<in> operands c. unat n < length ns)"

text \<open>
  Whatever label a pointer can have, the offsets its constraints add to the label lead to a node of the same
  object.
\<close>

definition offsets_inside :: "env \<Rightarrow> node list \<Rightarrow> constraint set \<Rightarrow> bool" where
  "offsets_inside e ns K \<longleftrightarrow>
     (\<forall>c \<in> K. \<forall>x. derives e ns K (ref_in ns (ptr c)) x \<longrightarrow>
       (case c of
          LoadC i d s \<Rightarrow> same_part ns (unat x) (unat i)
        | StoreC i d s \<Rightarrow> same_part ns (unat x) (unat i)
        | OffsetAddrC i d s \<Rightarrow> same_part ns (unat x) (unat i)
        | UntagC t d s ex \<Rightarrow>
            (if ex then Identical e else AssignableTo e) (ty_in ns x) t \<longrightarrow>
              (\<forall>j < unat (sizeof e (ty_in ns x)). same_part ns (unat x) (Suc j) \<and> same_part ns (unat d) j)
        | _ \<Rightarrow> True))"

lemma new_nodes_nth: "numbered ns \<Longrightarrow> unat n < length ns \<Longrightarrow> new_nodes ns ! unat (new_id ns n) = ns ! unat n"
  using id_position [of ns n] new_order_perm(3) [of ns] by (simp add: new_nodes_def numbered_def)

lemma new_nodes_ref: "numbered ns \<Longrightarrow> unat n < length ns \<Longrightarrow> ref_in (new_nodes ns) (new_id ns n) = ref_in ns n"
  and new_nodes_ty: "numbered ns \<Longrightarrow> unat n < length ns \<Longrightarrow> ty_in (new_nodes ns) (new_id ns n) = ty_in ns n"
  by (simp_all add: ref_in_def ty_in_def new_nodes_nth)

lemma shift_ref:
  assumes "numbered ns" "same_part ns (unat x) (unat k)"
  shows "ref_in (new_nodes ns) (new_id ns x + k) = ref_in ns (x + k)"
  using id_shift [OF assms] new_nodes_ref [OF assms(1), of "x + k"] by simp

lemma shift_ref_nat:
  assumes "numbered ns" "same_part ns (unat x) k"
  shows "ref_in (new_nodes ns) (new_id ns x + of_nat k) = ref_in ns (x + of_nat k)"
  using id_shift_nat [OF assms] same_part_range [OF assms] new_nodes_ref [OF assms(1), of "x + of_nat k"] by simp

lemma operand_less: "closed_constraints ns K \<Longrightarrow> c \<in> K \<Longrightarrow> n \<in> operands c \<Longrightarrow> unat n < length ns"
  by (simp add: closed_constraints_def)

lemma offsets_insideD:
  assumes "offsets_inside e ns K"
  shows "LoadC i d s \<in> K \<Longrightarrow> derives e ns K (ref_in ns s) x \<Longrightarrow> same_part ns (unat x) (unat i)"
    "StoreC i d s \<in> K \<Longrightarrow> derives e ns K (ref_in ns d) x \<Longrightarrow> same_part ns (unat x) (unat i)"
    "OffsetAddrC i d s \<in> K \<Longrightarrow> derives e ns K (ref_in ns s) x \<Longrightarrow> same_part ns (unat x) (unat i)"
    "UntagC t d s ex \<in> K \<Longrightarrow> derives e ns K (ref_in ns s) x \<Longrightarrow>
      (if ex then Identical e else AssignableTo e) (ty_in ns x) t \<Longrightarrow> j < unat (sizeof e (ty_in ns x)) \<Longrightarrow>
      same_part ns (unat x) (Suc j) \<and> same_part ns (unat d) j"
  using assms unfolding offsets_inside_def by (fastforce simp del: One_nat_def)+

definition movable :: "env \<Rightarrow> node list \<Rightarrow> constraint set \<Rightarrow> bool" where
  "movable e ns K \<longleftrightarrow> numbered ns \<and> closed_constraints ns K \<and> offsets_inside e ns K"

lemma movable_forward:
  assumes m: "movable e ns K"
  defines "ns' \<equiv> new_nodes ns" and "K' \<equiv> relabel (new_id ns) ` K"
  shows "derives e ns K r k \<Longrightarrow> unat k < length ns \<and> derives e ns' K' r (new_id ns k)"
    and "flow e ns K r q \<Longrightarrow> flow e ns' K' r q"
proof (induction rule: derives_flow.inducts)
  have n: "numbered ns" and cl: "closed_constraints ns K" and off: "offsets_inside e ns K" using m by (simp_all add: movable_def)
  note ref = new_nodes_ref [OF n, folded ns'_def] and ty = new_nodes_ty [OF n, folded ns'_def] and
    shift = shift_ref [OF n, folded ns'_def] and shift_n = shift_ref_nat [OF n, folded ns'_def] and opd = operand_less [OF cl] and D = offsets_insideD [OF off]
  have K': "c \<in> K \<Longrightarrow> relabel (new_id ns) c \<in> K'" for c by (simp add: K'_def)
  {
    case (d_addr d s)
    have o: "unat d < length ns" "unat s < length ns" using opd [OF d_addr] by simp_all
    have "derives e ns' K' (ref_in ns' (new_id ns d)) (new_id ns s)" using K' [OF d_addr] by (simp add: derives_flow.d_addr)
    then show ?case using o by (simp add: ref)
  next
    case (d_offset i d s x)
    have o: "unat d < length ns" "unat s < length ns" using opd [OF d_offset(1)] by simp_all
    have x: "derives e ns' K' (ref_in ns' (new_id ns s)) (new_id ns x)" using d_offset(3) o by (simp add: ref)
    have "derives e ns' K' (ref_in ns' (new_id ns d)) (new_id ns x + i)"
      by (rule derives_flow.d_offset [OF _ x]) (use K' [OF d_offset(1)] in simp)
    then show ?case using id_shift [OF n D(3) [OF d_offset(1,2)]] o by (simp add: ref)
  next
    case (d_filter t d s x)
    have o: "unat d < length ns" "unat s < length ns" using opd [OF d_filter(1)] by simp_all
    have x: "derives e ns' K' (ref_in ns' (new_id ns s)) (new_id ns x)" "unat x < length ns" using d_filter(3) o by (simp_all add: ref)
    have "derives e ns' K' (ref_in ns' (new_id ns d)) (new_id ns x)"
      by (rule derives_flow.d_filter [OF _ x(1)]) (use K' [OF d_filter(1)] d_filter(4) x(2) in \<open>simp_all add: ty\<close>)
    then show ?case using x(2) o by (simp add: ref)
  next
    case (d_flow r q x)
    then show ?case using derives_flow.d_flow by blast
  next
    case (f_copy d s)
    have o: "unat d < length ns" "unat s < length ns" using opd [OF f_copy] by simp_all
    have "flow e ns' K' (ref_in ns' (new_id ns s)) (ref_in ns' (new_id ns d))" using K' [OF f_copy] by (simp add: derives_flow.f_copy)
    then show ?case using o by (simp add: ref)
  next
    case (f_load i d s x)
    have o: "unat d < length ns" "unat s < length ns" using opd [OF f_load(1)] by simp_all
    have x: "derives e ns' K' (ref_in ns' (new_id ns s)) (new_id ns x)" using f_load(3) o by (simp add: ref)
    have "flow e ns' K' (ref_in ns' (new_id ns x + i)) (ref_in ns' (new_id ns d))"
      by (rule derives_flow.f_load [OF _ x]) (use K' [OF f_load(1)] in simp)
    then show ?case using shift [OF D(1) [OF f_load(1,2)]] o by (simp add: ref)
  next
    case (f_store i d s x)
    have o: "unat d < length ns" "unat s < length ns" using opd [OF f_store(1)] by simp_all
    have x: "derives e ns' K' (ref_in ns' (new_id ns d)) (new_id ns x)" using f_store(3) o by (simp add: ref)
    have "flow e ns' K' (ref_in ns' (new_id ns s)) (ref_in ns' (new_id ns x + i))"
      by (rule derives_flow.f_store [OF _ x]) (use K' [OF f_store(1)] in simp)
    then show ?case using shift [OF D(2) [OF f_store(1,2)]] o by (simp add: ref)
  next
    case (f_untag t d s ex x j)
    have o: "unat d < length ns" "unat s < length ns" using opd [OF f_untag(1)] by simp_all
    have x: "derives e ns' K' (ref_in ns' (new_id ns s)) (new_id ns x)" "unat x < length ns" using f_untag(3) o by (simp_all add: ref)
    have sp: "same_part ns (unat x) (Suc j)" "same_part ns (unat d) j" using D(4) [OF f_untag(1,2,4,5)] by simp_all
    have "flow e ns' K' (ref_in ns' (new_id ns x + 1 + of_nat j)) (ref_in ns' (new_id ns d + of_nat j))"
      by (rule derives_flow.f_untag [OF _ x(1)]) (use K' [OF f_untag(1)] f_untag(4,5) x(2) in \<open>simp_all add: ty\<close>)
    then show ?case using shift_n [OF sp(1)] shift_n [OF sp(2)] by (simp add: add.assoc)
  }
qed

lemma relabel_cases:
  "AddrC d' s' = relabel f c \<longleftrightarrow> (\<exists>d s. c = AddrC d s \<and> d' = f d \<and> s' = f s)"
  "CopyC d' s' = relabel f c \<longleftrightarrow> (\<exists>d s. c = CopyC d s \<and> d' = f d \<and> s' = f s)"
  "LoadC i d' s' = relabel f c \<longleftrightarrow> (\<exists>d s. c = LoadC i d s \<and> d' = f d \<and> s' = f s)"
  "StoreC i d' s' = relabel f c \<longleftrightarrow> (\<exists>d s. c = StoreC i d s \<and> d' = f d \<and> s' = f s)"
  "OffsetAddrC i d' s' = relabel f c \<longleftrightarrow> (\<exists>d s. c = OffsetAddrC i d s \<and> d' = f d \<and> s' = f s)"
  "TypeFilterC t d' s' = relabel f c \<longleftrightarrow> (\<exists>d s. c = TypeFilterC t d s \<and> d' = f d \<and> s' = f s)"
  "UntagC t d' s' ex = relabel f c \<longleftrightarrow> (\<exists>d s. c = UntagC t d s ex \<and> d' = f d \<and> s' = f s)"
  by (cases c; auto)+

lemma relabel_mem:
  "AddrC d' s' \<in> relabel f ` K \<Longrightarrow> \<exists>d s. AddrC d s \<in> K \<and> d' = f d \<and> s' = f s"
  "CopyC d' s' \<in> relabel f ` K \<Longrightarrow> \<exists>d s. CopyC d s \<in> K \<and> d' = f d \<and> s' = f s"
  "LoadC i d' s' \<in> relabel f ` K \<Longrightarrow> \<exists>d s. LoadC i d s \<in> K \<and> d' = f d \<and> s' = f s"
  "StoreC i d' s' \<in> relabel f ` K \<Longrightarrow> \<exists>d s. StoreC i d s \<in> K \<and> d' = f d \<and> s' = f s"
  "OffsetAddrC i d' s' \<in> relabel f ` K \<Longrightarrow> \<exists>d s. OffsetAddrC i d s \<in> K \<and> d' = f d \<and> s' = f s"
  "TypeFilterC t d' s' \<in> relabel f ` K \<Longrightarrow> \<exists>d s. TypeFilterC t d s \<in> K \<and> d' = f d \<and> s' = f s"
  "UntagC t d' s' ex \<in> relabel f ` K \<Longrightarrow> \<exists>d s. UntagC t d s ex \<in> K \<and> d' = f d \<and> s' = f s"
  by (auto simp: relabel_cases image_iff)

lemma movable_backward:
  assumes m: "movable e ns K"
  defines "ns' \<equiv> new_nodes ns" and "K' \<equiv> relabel (new_id ns) ` K"
  shows "derives e ns' K' r y \<Longrightarrow> \<exists>k. y = new_id ns k \<and> unat k < length ns \<and> derives e ns K r k"
    and "flow e ns' K' r q \<Longrightarrow> flow e ns K r q"
proof (induction rule: derives_flow.inducts)
  have n: "numbered ns" and cl: "closed_constraints ns K" and off: "offsets_inside e ns K" using m by (simp_all add: movable_def)
  note ref = new_nodes_ref [OF n, folded ns'_def] and ty = new_nodes_ty [OF n, folded ns'_def] and
    shift = shift_ref [OF n, folded ns'_def] and shift_n = shift_ref_nat [OF n, folded ns'_def] and opd = operand_less [OF cl] and
    D = offsets_insideD [OF off]
  {
    case (d_addr d' s')
    obtain d s where c: "AddrC d s \<in> K" "d' = new_id ns d" "s' = new_id ns s" using relabel_mem(1) d_addr unfolding K'_def by blast
    have o: "unat d < length ns" "unat s < length ns" using opd [OF c(1)] by simp_all
    then show ?case using derives_flow.d_addr [OF c(1)] c by (auto simp: ref)
  next
    case (d_offset i d' s' y)
    obtain d s where c: "OffsetAddrC i d s \<in> K" "d' = new_id ns d" "s' = new_id ns s" using relabel_mem(5) d_offset(1) unfolding K'_def by blast
    have o: "unat d < length ns" "unat s < length ns" using opd [OF c(1)] by simp_all
    obtain x where x: "y = new_id ns x" "unat x < length ns" "derives e ns K (ref_in ns s) x" using d_offset(3) o c(3) by (auto simp: ref)
    have "derives e ns K (ref_in ns d) (x + i)" by (rule derives_flow.d_offset [OF c(1) x(3)])
    moreover note id_shift [OF n D(3) [OF c(1) x(3)]]
    ultimately show ?case using x(1) c(2) o(1) by (intro exI [of _ "x + i"]) (simp add: ref)
  next
    case (d_filter t d' s' y)
    obtain d s where c: "TypeFilterC t d s \<in> K" "d' = new_id ns d" "s' = new_id ns s" using relabel_mem(6) d_filter(1) unfolding K'_def by blast
    have o: "unat d < length ns" "unat s < length ns" using opd [OF c(1)] by simp_all
    obtain x where x: "y = new_id ns x" "unat x < length ns" "derives e ns K (ref_in ns s) x" using d_filter(3) o c(3) by (auto simp: ref)
    have "derives e ns K (ref_in ns d) x" by (rule derives_flow.d_filter [OF c(1) x(3)]) (use d_filter(4) x in \<open>simp add: ty\<close>)
    then show ?case using x(1,2) c(2) o by (auto simp: ref)
  next
    case (d_flow r q y)
    then show ?case using derives_flow.d_flow by blast
  next
    case (f_copy d' s')
    obtain d s where c: "CopyC d s \<in> K" "d' = new_id ns d" "s' = new_id ns s" using relabel_mem(2) f_copy unfolding K'_def by blast
    have o: "unat d < length ns" "unat s < length ns" using opd [OF c(1)] by simp_all
    then show ?case using derives_flow.f_copy [OF c(1)] c(2,3) by (simp add: ref)
  next
    case (f_load i d' s' y)
    obtain d s where c: "LoadC i d s \<in> K" "d' = new_id ns d" "s' = new_id ns s" using relabel_mem(3) f_load(1) unfolding K'_def by blast
    have o: "unat d < length ns" "unat s < length ns" using opd [OF c(1)] by simp_all
    obtain x where x: "y = new_id ns x" "derives e ns K (ref_in ns s) x" using f_load(3) o c(3) by (auto simp: ref)
    show ?case using derives_flow.f_load [OF c(1) x(2)] shift [OF D(1) [OF c(1) x(2)]] x(1) c(2) o by (simp add: ref)
  next
    case (f_store i d' s' y)
    obtain d s where c: "StoreC i d s \<in> K" "d' = new_id ns d" "s' = new_id ns s" using relabel_mem(4) f_store(1) unfolding K'_def by blast
    have o: "unat d < length ns" "unat s < length ns" using opd [OF c(1)] by simp_all
    obtain x where x: "y = new_id ns x" "derives e ns K (ref_in ns d) x" using f_store(3) o c(2) by (auto simp: ref)
    show ?case using derives_flow.f_store [OF c(1) x(2)] shift [OF D(2) [OF c(1) x(2)]] x(1) c(3) o by (simp add: ref)
  next
    case (f_untag t d' s' ex y j)
    obtain d s where c: "UntagC t d s ex \<in> K" "d' = new_id ns d" "s' = new_id ns s" using relabel_mem(7) f_untag(1) unfolding K'_def by blast
    have o: "unat d < length ns" "unat s < length ns" using opd [OF c(1)] by simp_all
    obtain x where x: "y = new_id ns x" "unat x < length ns" "derives e ns K (ref_in ns s) x" using f_untag(3) o c(3) by (auto simp: ref)
    have t: "(if ex then Identical e else AssignableTo e) (ty_in ns x) t" "j < unat (sizeof e (ty_in ns x))" using f_untag(4,5) x by (simp_all add: ty)
    have sp: "same_part ns (unat x) (Suc j)" "same_part ns (unat d) j" using D(4) [OF c(1) x(3) t] by simp_all
    show ?case using derives_flow.f_untag [OF c(1) x(3) t] shift_n [OF sp(1)] shift_n [OF sp(2)] x(1) c(2) by (simp add: add.assoc)
  }
qed

text \<open>Renumbering does not change what is derivable.\<close>

lemma movable_derives:
  assumes m: "movable e ns K" and k: "unat k < length ns"
  shows "derives e (new_nodes ns) (relabel (new_id ns) ` K) r (new_id ns k) \<longleftrightarrow> derives e ns K r k"
proof
  assume "derives e (new_nodes ns) (relabel (new_id ns) ` K) r (new_id ns k)"
  then obtain x where "new_id ns k = new_id ns x" "unat x < length ns" "derives e ns K r x" using movable_backward(1) [OF m] by blast
  then show "derives e ns K r k" using id_inj [of ns k x] k m by (simp add: movable_def)
qed (use movable_forward(1) [OF m] in blast)

section \<open>The renumbered analysis\<close>

lemma renum_new_id: "placed ns (new_order ns) s \<Longrightarrow> numbered ns \<Longrightarrow> renum (renumbering s) n = Inr k \<Longrightarrow> unat n < length ns \<and> k = new_id ns n"
proof -
  assume p: "placed ns (new_order ns) s" and n: "numbered ns" and r: "renum (renumbering s) n = Inr k"
  have "nth_go xs (int i) = Inr k \<longleftrightarrow> i < length xs \<and> k = xs ! i" for xs i by (auto simp: nth_go_def)
  from this [of "renumbering s" "unat n"] have u: "unat n < length ns" "k = renumbering s ! unat n"
    using r p unfolding renum_def by (simp_all only: uint_nat placed_def)
  obtain q where q: "q = unat (new_id ns n)" "q < length ns" "new_order ns ! q = unat n" using id_position [OF n u(1)] by blast
  have "renumbering s ! unat n = of_nat q" using p q new_order_perm(3) [of ns] n by (auto simp: placed_def numbered_def)
  then show "unat n < length ns \<and> k = new_id ns n" using u q(1) by simp
qed

lemma renumber_constraint_Inr:
  assumes "placed ns (new_order ns) s" "numbered ns" "renumber_constraint (renumbering s) c = Inr c'"
  shows "c' = relabel (new_id ns) c \<and> (\<forall>n \<in> operands c. unat n < length ns)"
  using assms(3) by (cases c) (auto simp: renum2_def bindR_eq_Inr_iff dest!: renum_new_id [OF assms(1,2)])

lemma mapR_Inr: "mapR f xs = Inr ys \<Longrightarrow> (\<And>x y. f x = Inr y \<Longrightarrow> y = g x \<and> P x) \<Longrightarrow> ys = map g xs \<and> (\<forall>x \<in> set xs. P x)"
  by (induction xs arbitrary: ys) (auto simp: bindR_eq_Inr_iff)

lemma bindL_Inr: "bindL m f = Some (Inr y) \<longleftrightarrow> (\<exists>x. m = Some (Inr x) \<and> f x = Some (Inr y))"
  by (cases "(m, f)" rule: bindL.cases) auto

lemma renumber_Inr:
  assumes r: "renumber a = Some (Inr b)" and n: "numbered (nodes (graph a))"
  defines "ns \<equiv> nodes (graph a)"
  shows "nodes (graph b) = new_nodes ns" "constraints (graph b) = map (relabel (new_id ns)) (constraints (graph a))"
    "closed_constraints ns (set (constraints (graph a)))"
    "sol (graph b) = sol (graph a)" "work (graph b) = work (graph a)" "skipNewFn (graph b) = skipNewFn (graph a)"
proof -
  obtain s where s: "number_nodes ns = Some (Inr s)" "placed ns (new_order ns) s"
    using number_nodes_order n by (auto simp: numbered_def ns_def)
  obtain c where c: "renumber_ids (renumbering s) a = Inr c" "b = c\<lparr>graph := (graph c)\<lparr>nodes := map the (newNodes s)\<rparr>\<rparr>"
    using r s(1) by (auto simp: renumber_def bindL_Inr ns_def)
  obtain cs where cs: "mapR (renumber_constraint (renumbering s)) (constraints (graph a)) = Inr cs"
      "constraints (graph c) = cs" "sol (graph c) = sol (graph a)" "work (graph c) = work (graph a)"
      "skipNewFn (graph c) = skipNewFn (graph a)"
    using c(1) unfolding renumber_ids_def by (fastforce simp: bindR_eq_Inr_iff split: prod.splits)
  have "cs = map (relabel (new_id ns)) (constraints (graph a)) \<and> (\<forall>c \<in> set (constraints (graph a)). \<forall>n \<in> operands c. unat n < length ns)"
    by (rule mapR_Inr [OF cs(1)]) (rule renumber_constraint_Inr [OF s(2)], use n in \<open>simp add: ns_def\<close>)
  then show "constraints (graph b) = map (relabel (new_id ns)) (constraints (graph a))" "closed_constraints ns (set (constraints (graph a)))"
    using cs(2) c(2) by (simp_all add: closed_constraints_def)
  have "newNodes s = map (\<lambda>i. Some (ns ! i)) (new_order ns)" using s(2) new_order_perm(3) [of ns] n by (simp add: placed_def numbered_def ns_def)
  then show "nodes (graph b) = new_nodes ns" using c(2) by (simp add: new_nodes_def)
  show "sol (graph b) = sol (graph a)" "work (graph b) = work (graph a)" "skipNewFn (graph b) = skipNewFn (graph a)"
    using cs(3-5) c(2) by simp_all
qed

end
