(* ===== verification/Pointer_Sample.thy ===== *)
theory Pointer_Sample
  imports Pointer_Least
begin

text \<open>
  Small constraint systems on which the solver is run. The representation of a set of nodes is canonical,
  so the sets of a run are written as the lists they hold, and the operations computed on the lists.
\<close>

section \<open>Sets given by lists\<close>

fun ns_of :: "nodeid list \<Rightarrow> sparse" where
  "ns_of [] = []"
| "ns_of (n # ns) = (case ns_add (ns_of ns) n of Inr (s, _) \<Rightarrow> s | Inl _ \<Rightarrow> [])"

lemma ns_of_ok: "ns_ok (ns_of xs) \<and> ns_labels (ns_of xs) = set xs"
proof (induction xs)
  case Nil
  then show ?case by (simp add: ns.emp)
next
  case (Cons n xs)
  then obtain t where "ns_add (ns_of xs) n = Inr (t, n \<notin> set xs)" "ns_ok t" "ns_labels t = insert n (set xs)"
    using ns.add [of "ns_of xs" n] by auto
  then show ?case by simp
qed

lemma elems_labels: "ns_ok s \<Longrightarrow> elems s = uint ` ns_labels s"
proof -
  assume s: "ns_ok s"
  have "uint (word_of_int x :: nodeid) = x" if "x \<in> elems s" for x
    using s that by (intro uint_node) (auto simp: ns_ok_def)
  then show ?thesis by (force simp: ns_labels_def image_image)
qed

lemma ns_eq: "ns_ok s \<Longrightarrow> ns_labels s = set xs \<Longrightarrow> s = ns_of xs"
  using sparse_canonical [of s "ns_of xs"] elems_labels [of s] elems_labels [of "ns_of xs"] ns_of_ok [of xs]
  by (simp add: ns_ok_def)

lemma ns_of_cong: "set xs = set ys \<Longrightarrow> ns_of xs = ns_of ys"
  using ns_eq [of "ns_of xs" ys] ns_of_ok [of xs] by simp

declare ns_of.simps [simp del]

lemma ns_of_oks [simp]: "ns_ok (ns_of xs)" "ns_labels (ns_of xs) = set xs"
  using ns_of_ok by simp_all

lemma ns_of_IsEmpty: "ns_IsEmpty (ns_of xs) \<longleftrightarrow> xs = []"
  using ns.is_empty [of "ns_of xs"] by simp

lemma ns_of_add: "ns_add (ns_of xs) n = Inr (ns_of (n # xs), n \<notin> set xs)"
  using ns.add [of "ns_of xs" n] ns_eq [of _ "n # xs"] by auto

lemma ns_of_diff: "ns_ok d \<Longrightarrow> ns_diff d (ns_of xs) (ns_of ys) = Inr (ns_of (filter (\<lambda>n. n \<notin> set ys) xs))"
proof -
  assume "ns_ok d"
  then obtain t where t: "ns_diff d (ns_of xs) (ns_of ys) = Inr t" "ns_ok t" "ns_labels t = set xs - set ys"
    using ns.diff [of d "ns_of xs" "ns_of ys"] by auto
  have "set xs - set ys = set (filter (\<lambda>n. n \<notin> set ys) xs)" by auto
  then show ?thesis using t ns_eq [of t] by simp
qed

lemma ns_of_copy: "ns_ok d \<Longrightarrow> ns_copy d (ns_of xs) = Inr (ns_of xs)"
  using ns.copy [of d "ns_of xs"] ns_eq [of _ xs] by auto

text \<open>\<^verbatim>\<open>addAll\<close> of labels that are not all present.\<close>

lemma ns_of_addAll: "\<not> set ys \<subseteq> set xs \<Longrightarrow> ns_addAll False (ns_of xs) (ns_of ys) = Inr (ns_of (ys @ xs), True)"
proof -
  assume n: "\<not> set ys \<subseteq> set xs"
  obtain t b where t: "ns_addAll False (ns_of xs) (ns_of ys) = Inr (t, b)" "ns_ok t" "ns_labels t = set (ys @ xs)"
    "ns_labels t \<noteq> set xs \<longrightarrow> b"
    using ns.addAll [of "ns_of xs" "ns_of ys" False] by auto
  then show ?thesis using ns_eq [OF t(2,3)] n by auto
qed

lemma ns_of_list: "ns_list (ns_of xs) = map word_of_int (sort (remdups (map uint xs)))"
proof -
  have w: "wf_sparse (ns_of xs)" using ns_of_oks(1) [of xs] by (simp add: ns_ok_def)
  have "elems (ns_of xs) = set (map uint xs)" using elems_labels [OF ns_of_oks(1) [of xs]] by simp
  then show ?thesis unfolding ns_list_def AppendTo_eq forEach_sorted_list [OF w]
    by (simp only: sorted_list_of_set_sort_remdups append_Nil)
qed

lemma ns_of_take_empty: "TakeMin (ns_of []) = Inr None"
  using ns_take [of "ns_of []"] by simp

lemma ns_of_take:
  "TakeMin (ns_of (x # xs)) = Inr (Some (fold min (map uint xs) (uint x), ns_of (filter (\<lambda>n. uint n \<noteq> fold min (map uint xs) (uint x)) (x # xs))))"
proof -
  let ?m = "fold min (map uint xs) (uint x)" and ?s = "ns_of (x # xs)"
  have w: "wf_sparse ?s" using ns_of_oks(1) [of "x # xs"] by (simp add: ns_ok_def)
  have e: "elems ?s = set (uint x # map uint xs)" using elems_labels [OF ns_of_oks(1) [of "x # xs"]] by simp
  then obtain m t where t: "TakeMin ?s = Inr (Some (m, t))" "is_least m (elems ?s)" "wf_sparse t" "elems t = elems ?s - {m}"
    using TakeMin_spec [OF w] by (auto split: sum.splits option.splits)
  have "m = Min (set (uint x # map uint xs))"
    using t(2) e by (intro Min_eqI [symmetric]) (auto simp: is_least_def)
  also have "\<dots> = ?m" by (rule Min.set_eq_fold)
  finally have m: "m = ?m" .
  have "elems t = uint ` set (filter (\<lambda>n. uint n \<noteq> ?m) (x # xs))" unfolding t(4) e m by auto
  then have "t = ns_of (filter (\<lambda>n. uint n \<noteq> ?m) (x # xs))"
    using sparse_canonical [OF t(3)] elems_labels [OF ns_of_oks(1)] ns_of_oks(1) by (simp add: ns_ok_def)
  then show ?thesis using t(1) m by simp
qed

lemma ns_of_Len: "Len False (ns_of xs) = int (length (remdups xs))"
proof -
  have s: "ns_ok (ns_of xs)" by simp
  then have "Len False (ns_of xs) = int (card (elems (ns_of xs)))" by (simp add: Len_card ns_ok_def)
  also have "card (elems (ns_of xs)) = card (set xs)"
    unfolding elems_labels [OF s] ns_of_oks(2)
    by (rule card_image) (rule inj_on_inverseI [where g = word_of_int], simp)
  finally show ?thesis by (simp add: length_remdups_card_conv)
qed

text \<open>The empty sets the code starts from.\<close>

lemma ns_of_start:
  "copy_loop ms [] dl a = copy_loop ms (ns_of []) dl a" "attach_all cs ([], a) = attach_all cs (ns_of [], a)"
  by (simp_all add: ns_of.simps)

lemmas ns_eval = ns_of_IsEmpty ns_of_add ns_of_diff ns_of_copy ns_of_addAll ns_of_Len ns_of_list ns_of_take_empty ns_of_take ns_of_start

lemmas op_eval = nth_go_def get_node_def ref_of_def addLabel_def addWork_def taggedValue_def funcParams_def
  add_edge_def add_labels_def onlineCopy_def onlineCopyN_def load_solve_def add_and_work_def offsetAddr_solve_def
  eachSolve_def callee_obj_def solve_rule_def solveConstraints_def add_base_def note_stale_def attach_def
  processNewConstraints_def take_work_def default_node_def default_round_def limit_node_def limit_round_def solveLimit_def Let_def otTagged_def otIndirect_def otFunction_def

section \<open>States\<close>

definition no_labels :: solver_state where
  "no_labels = \<lparr>complex = [], copyTo = ns_of [], pts = ns_of [], prevPTS = ns_of []\<rparr>"

text \<open>A solver state that is given by lists.\<close>

definition run_state ::
  "node list \<Rightarrow> solver_state list \<Rightarrow> constraint list \<Rightarrow> nodeid list \<Rightarrow> nodeid \<Rightarrow> int \<times> nodeid set \<Rightarrow> solver" where
  "run_state N ss cs w f l =
     \<lparr>nodes = N, sol = (\<lambda>r. if r < length ss then ss ! r else no_labels), constraints = cs, work = ns_of w,
      globalobj = (\<lambda>_. f), ptsLimit = fst l, skipIDs = snd l, skipNewFn = False\<rparr>"

lemma run_state_sel:
  "nodes (run_state N ss cs w f l) = N" "sol (run_state N ss cs w f l) r = (if r < length ss then ss ! r else no_labels)"
  "constraints (run_state N ss cs w f l) = cs" "work (run_state N ss cs w f l) = ns_of w" "globalobj (run_state N ss cs w f l) g = f"
  "skipNewFn (run_state N ss cs w f l) = False" "ptsLimit (run_state N ss cs w f l) = fst l" "skipIDs (run_state N ss cs w f l) = snd l"
  by (simp_all add: run_state_def)

lemma run_state_upd:
  "r < length ss \<Longrightarrow> set_sol r s (run_state N ss cs w f l) = run_state N (ss[r := s]) cs w f l"
  "run_state N ss cs w f l\<lparr>work := ns_of w'\<rparr> = run_state N ss cs w' f l"
  "run_state N ss cs w f l\<lparr>constraints := cs'\<rparr> = run_state N ss cs' w f l"
  "run_state N ss cs w f l\<lparr>skipIDs := k\<rparr> = run_state N ss cs w f (fst l, k)"
  "run_state N ss cs w f l\<lparr>ptsLimit := m, skipIDs := k, skipNewFn := False\<rparr> = run_state N ss cs w f (m, k)"
  by (auto simp: run_state_def set_sol_def fun_eq_iff)

lemmas run_eval = ns_eval op_eval run_state_sel run_state_upd

definition plain_node :: "nat \<Rightarrow> node" where
  "plain_node r = \<lparr>obj = None, node_typ = 0, solve_ref = r\<rparr>"

text \<open>\<^verbatim>\<open>p = &x; q = p; *p = r; r = &y; t = *q\<close>, with the nodes p, x, q, r, y, t from 1 on.\<close>

definition pointer_env :: env where
  "pointer_env = \<lparr>AssignableTo = (\<lambda>s t. s = t), Identical = (\<lambda>s t. s = t), is_pointer = (\<lambda>t. True), sizeof = (\<lambda>t. 1),
     LookupMethod = (\<lambda>t m. Some 0), recv_size = (\<lambda>f. 1), params_size = (\<lambda>f. 0), results_size = (\<lambda>f. 1),
     genMissingFn = (\<lambda>f cl st a. Inr (0, a)), reflection = False, flagPTSLimit = 0\<rparr>"

definition pointer_system :: solver where
  "pointer_system = run_state (map plain_node [0, 1, 2, 3, 4, 5, 6]) (replicate 7 no_labels)
     [AddrC 1 2, CopyC 3 1, StoreC 0 1 4, AddrC 4 5, LoadC 0 6 3] [] 0 (0, {})"

text \<open>
  A call \<open>i.m()\<close> whose receiver, node 1, holds the tagged object 2 with the payload 3; the method's object
  block starts at node 4, the block of the call at node 7.
\<close>

definition invoke_env :: env where
  "invoke_env = pointer_env\<lparr>genMissingFn := (\<lambda>f cl st a. Inr (4, a))\<rparr>"

definition invoke_system :: solver where
  "invoke_system = run_state
     ([plain_node 0, plain_node 1, \<lparr>obj = Some \<lparr>flags = 1, obj_size = 2\<rparr>, node_typ = 5, solve_ref = 2\<rparr>, plain_node 3,
       \<lparr>obj = Some \<lparr>flags = 4, obj_size = 3\<rparr>, node_typ = 6, solve_ref = 4\<rparr>] @ map plain_node [5, 6, 7, 8, 9, 10])
     (replicate 11 no_labels) [AddrC 1 2, AddrC 3 9, AddrC 6 10, InvokeC 0 1 7 0 0] [] 4 (0, {})"

text \<open>Two systems for the limit and for the zero node.\<close>

definition limit_env :: env where
  "limit_env = pointer_env\<lparr>flagPTSLimit := 1\<rparr>"

definition zero_system :: solver where
  "zero_system = run_state (map plain_node [0, 1]) (replicate 2 no_labels) [AddrC 0 1] [] 0 (0, {})"

lemmas system_eval = pointer_env_def invoke_env_def limit_env_def pointer_system_def invoke_system_def zero_system_def
  run_eval no_labels_def plain_node_def finish_solve_def solve_def ns.emp(1)

lemma pointer_run: "\<exists>b. solve pointer_env pointer_system = Some (Inr b)"
  by (simp add: system_eval solveDefault.simps)

lemma invoke_run: "\<exists>b. solve invoke_env invoke_system = Some (Inr b)"
  by (simp add: system_eval solveDefault.simps)

text \<open>With the limit 1 the first node is given up: its label does not reach node 3.\<close>

lemma limit_run: "\<exists>b. solve limit_env pointer_system = Some (Inr b) \<and> has_label b 1 2 \<and> \<not> has_label b 3 2"
  by (simp add: system_eval solveLimit_loop.simps has_label_def is_node_def rf_def Lb_def release_def)

end
