(* ===== verification/Pointer_Known.thy ===== *)
theory Pointer_Known
  imports Pointer_Solve
begin

text \<open>
  Runs of the solver in which every method an interface call can reach has its object node from the
  start: then the generator of constraints for missing functions is never asked, the table of function
  objects never changes, and the run is the same for every generator.
\<close>

section \<open>Operations keep the table of function objects\<close>

definition known :: "env \<Rightarrow> solver \<Rightarrow> bool" where
  "known e a \<longleftrightarrow> (\<forall>t m f. LookupMethod e t m = Some f \<longrightarrow> globalobj a f \<noteq> 0)"

text \<open>An environment that refuses to generate anything.\<close>

definition no_gen :: "env \<Rightarrow> env" where
  "no_gen e = e\<lparr>genMissingFn := (\<lambda>_ _ _ _. Inl NilDereference)\<rparr>"

lemma no_gen_simps [simp]:
  "AssignableTo (no_gen e) = AssignableTo e" "Identical (no_gen e) = Identical e" "is_pointer (no_gen e) = is_pointer e"
  "sizeof (no_gen e) = sizeof e" "LookupMethod (no_gen e) = LookupMethod e" "recv_size (no_gen e) = recv_size e"
  "params_size (no_gen e) = params_size e" "results_size (no_gen e) = results_size e" "reflection (no_gen e) = reflection e"
  "flagPTSLimit (no_gen e) = flagPTSLimit e"
  by (simp_all add: no_gen_def)

text \<open>\<open>keeps st go r\<close>: the state in the result, read by \<open>st\<close>, has the table \<open>go\<close>; \<open>agree\<close>: and \<open>r\<close> is \<open>q\<close>.\<close>

definition keeps :: "('a \<Rightarrow> solver) \<Rightarrow> (fn_ref \<Rightarrow> nodeid) \<Rightarrow> 'a go_result \<Rightarrow> bool" where
  "keeps st go r \<longleftrightarrow> okR (\<lambda>x. globalobj (st x) = go) r"

definition agree :: "('a \<Rightarrow> solver) \<Rightarrow> (fn_ref \<Rightarrow> nodeid) \<Rightarrow> 'a go_result \<Rightarrow> 'a go_result \<Rightarrow> bool" where
  "agree st go r q \<longleftrightarrow> r = q \<and> keeps st go q"

named_theorems keeps

lemma keeps_Inr [simp]: "keeps st go (Inr x) \<longleftrightarrow> globalobj (st x) = go" "keeps st go (Inl p)"
  by (simp_all add: keeps_def)

lemma keeps_bind: "keeps st go r \<Longrightarrow> (\<And>x. globalobj (st x) = go \<Longrightarrow> keeps sr go (f x)) \<Longrightarrow> keeps sr go (bindR r f)"
  unfolding keeps_def by (rule okR_bind)

lemma keeps_pure: "(\<And>x. keeps sr go (f x)) \<Longrightarrow> keeps sr go (bindR r f)"
  unfolding keeps_def by (rule okR_bind [OF okR_True])

lemma keeps_pair: "keeps snd go r \<Longrightarrow> (\<And>v a. globalobj a = go \<Longrightarrow> keeps sr go (f v a)) \<Longrightarrow> keeps sr go (bindR r (case_prod f))"
  by (rule keeps_bind) (auto split: prod.splits)

lemma agree_keeps: "keeps st go r \<Longrightarrow> agree st go r r"
  by (simp add: agree_def)

lemma agree_bind:
  "agree st go r q \<Longrightarrow> (\<And>x. globalobj (st x) = go \<Longrightarrow> agree sr go (f x) (h x)) \<Longrightarrow> agree sr go (bindR r f) (bindR q h)"
  unfolding agree_def keeps_def by (cases q) simp_all

lemma agree_pair:
  "agree snd go r q \<Longrightarrow> (\<And>v a. globalobj a = go \<Longrightarrow> agree sr go (f v a) (h v a)) \<Longrightarrow>
   agree sr go (bindR r (case_prod f)) (bindR q (case_prod h))"
  by (rule agree_bind) (auto split: prod.splits)

lemma agree_pure: "(\<And>x. r = Inr x \<Longrightarrow> agree sr go (f x) (h x)) \<Longrightarrow> agree sr go (bindR r f) (bindR r h)"
  by (cases r) (simp_all add: agree_def)

lemma agree_if: "(c \<Longrightarrow> agree st go r q) \<Longrightarrow> (\<not> c \<Longrightarrow> agree st go r' q') \<Longrightarrow> agree st go (if c then r else r') (if c then q else q')"
  by simp

lemma agree_prod: "(\<And>v w. x = (v, w) \<Longrightarrow> agree st go (f v w) (h v w)) \<Longrightarrow> agree st go (case_prod f x) (case_prod h x)"
  by (cases x) simp

lemma agree_Inl [simp]: "agree st go (Inl p) (Inl p)"
  by (simp add: agree_def)

lemma set_sol_globalobj [simp]: "globalobj (set_sol r q a) = globalobj a"
  by (simp add: set_sol_def)

lemma addLabel_keeps: "keeps snd (globalobj a) (addLabel p l a)"
  unfolding addLabel_def by (intro keeps_pure) (auto split: prod.splits)

lemma addWork_keeps: "keeps (\<lambda>a. a) (globalobj a) (addWork n a)"
  unfolding addWork_def by (intro keeps_pure) (auto split: prod.splits)

lemma add_edge_keeps: "keeps snd (globalobj a) (add_edge s d a)"
  unfolding add_edge_def by (intro keeps_pure) (auto split: prod.splits)

lemma add_labels_keeps: "keeps snd (globalobj a) (add_labels m same dl a)"
  unfolding add_labels_def by (intro keeps_pure) (auto split: prod.splits)

text \<open>The same with the table as an equation, which chains.\<close>

lemma op_keeps [keeps]:
  "globalobj a = go \<Longrightarrow> keeps snd go (addLabel p l a)" "globalobj a = go \<Longrightarrow> keeps (\<lambda>a. a) go (addWork n a)"
  "globalobj a = go \<Longrightarrow> keeps snd go (add_edge s d a)" "globalobj a = go \<Longrightarrow> keeps snd go (add_labels m same dl a)"
  using addLabel_keeps addWork_keeps add_edge_keeps add_labels_keeps by blast+

lemma work_if_keeps [keeps]: "globalobj a = go \<Longrightarrow> keeps (\<lambda>a. a) go (if c then addWork n a else Inr a)"
  using op_keeps(2) by simp

lemma onlineCopy_keeps [keeps]: "globalobj a = go \<Longrightarrow> keeps snd go (onlineCopy d s a)"
proof -
  assume a: "globalobj a = go"
  have "keeps snd go (if b then bindR (ref_of s c) (\<lambda>rs. bindR (ref_of d c) (\<lambda>rd. add_labels d (rs = rd) (pts (sol c rs)) c)) else Inr (False, c))"
    if "globalobj c = go" for b c
    using that by (auto intro!: keeps_pure op_keeps)
  then show "keeps snd go (onlineCopy d s a)" unfolding onlineCopy_def using a by (auto intro!: keeps_pair op_keeps)
qed

lemma onlineCopyN_keeps [keeps]: "globalobj a = go \<Longrightarrow> keeps (\<lambda>a. a) go (onlineCopyN d s w a)"
proof -
  have "globalobj a = go \<Longrightarrow> keeps (\<lambda>a. a) go (onlineCopyN_loop n d s a)" for n
  proof (induction n arbitrary: d s a)
    case (Suc n)
    show ?case unfolding onlineCopyN_loop.simps
      by (rule keeps_pair [OF onlineCopy_keeps [OF Suc.prems]], rule keeps_bind [OF work_if_keeps]) (simp_all add: Suc.IH)
  qed simp
  then show "globalobj a = go \<Longrightarrow> keeps (\<lambda>a. a) go (onlineCopyN d s w a)" by (simp add: onlineCopyN_def)
qed

lemma load_keeps [keeps]: "globalobj a = go \<Longrightarrow> keeps (\<lambda>a. a) go (load_solve k d xs a)"
proof -
  have "globalobj a = go \<Longrightarrow> keeps snd go (load_loop k d xs c a)" for c
  proof (induction xs arbitrary: c a)
    case (Cons x xs)
    show ?case unfolding load_loop.simps by (rule keeps_pair [OF onlineCopy_keeps [OF Cons.prems] Cons.IH])
  qed simp
  then show "globalobj a = go \<Longrightarrow> keeps (\<lambda>a. a) go (load_solve k d xs a)"
    unfolding load_solve_def by (intro keeps_pair work_if_keeps)
qed

lemma store_keeps [keeps]: "globalobj a = go \<Longrightarrow> keeps (\<lambda>a. a) go (store_solve k s xs a)"
proof (induction xs arbitrary: a)
  case (Cons x xs)
  show ?case unfolding store_solve.simps
    by (rule keeps_pair [OF onlineCopy_keeps [OF Cons.prems]], rule keeps_bind [OF work_if_keeps]) (simp_all add: Cons.IH)
qed simp

lemma add_and_work_keeps [keeps]: "globalobj a = go \<Longrightarrow> keeps (\<lambda>a. a) go (add_and_work d l a)"
  unfolding add_and_work_def by (intro keeps_pair op_keeps work_if_keeps)

lemma offsetAddr_keeps [keeps]: "globalobj a = go \<Longrightarrow> keeps (\<lambda>a. a) go (offsetAddr_loop k d xs a)"
proof (induction xs arbitrary: a)
  case (Cons x xs)
  show ?case unfolding offsetAddr_loop.simps by (rule keeps_bind [OF add_and_work_keeps [OF Cons.prems]]) (simp add: Cons.IH)
qed simp

lemma eachSolve_keeps [keeps]: "globalobj a = go \<Longrightarrow> keeps (\<lambda>a. a) go (eachSolve e ps fo f v a)"
  unfolding eachSolve_def Let_def
  by (rule keeps_pair [OF op_keeps(1)], assumption, rule keeps_pure, rule keeps_bind [OF onlineCopyN_keeps], assumption,
      rule keeps_bind [OF onlineCopyN_keeps], simp, rule onlineCopyN_keeps, simp)

lemma eachSolve_no_gen [simp]: "eachSolve (no_gen e) ps fo f v a = eachSolve e ps fo f v a"
  by (simp add: eachSolve_def)

section \<open>The rules agree\<close>

lemma typeFilter_agree:
  "globalobj a = go \<Longrightarrow> agree (\<lambda>a. a) go (typeFilter_solve e t d xs a) (typeFilter_solve (no_gen e) t d xs a)"
proof (induction xs arbitrary: a)
  case (Cons x xs)
  note ih = Cons.IH [OF Cons.prems] and w = agree_bind [OF agree_keeps [OF add_and_work_keeps [OF Cons.prems]]]
  have "agree (\<lambda>a. a) go (Inr a) (Inr a)" using Cons.prems by (simp add: agree_def)
  then show ?case unfolding typeFilter_solve.simps no_gen_simps
    by (intro agree_pure agree_prod agree_if agree_Inl ih w Cons.IH)
qed (simp add: agree_def)

lemma untag_agree: "globalobj a = go \<Longrightarrow> agree (\<lambda>a. a) go (untag_solve e t d ex xs a) (untag_solve (no_gen e) t d ex xs a)"
proof (induction xs arbitrary: a)
  case (Cons x xs)
  have c: "keeps (\<lambda>a. a) go (if c then onlineCopyN d v w a else Inr a)" for c v w
    using Cons.prems by (simp add: onlineCopyN_keeps)
  show ?case unfolding untag_solve.simps no_gen_simps
    by (intro agree_pure agree_prod) (rule agree_if, rule agree_Inl, rule agree_bind [OF agree_keeps [OF c]], rule Cons.IH)
qed (simp add: agree_def)

lemma invoke_agree:
  assumes "known e a0"
  shows "globalobj a = globalobj a0 \<Longrightarrow>
    agree (\<lambda>a. a) (globalobj a0) (invoke_solve e m ps st cl xs a) (invoke_solve (no_gen e) m ps st cl xs a)"
proof (induction xs arbitrary: a)
  case (Cons x xs)
  let ?go = "globalobj a0"
  have call: "agree (\<lambda>a. a) ?go
      (bindR (callee_obj e f cl st a) (\<lambda>(fo, a). bindR (if fo = 0 then Inr a else eachSolve e ps fo f v a) (invoke_solve e m ps st cl xs)))
      (bindR (callee_obj (no_gen e) f cl st a) (\<lambda>(fo, a). bindR (if fo = 0 then Inr a else eachSolve (no_gen e) ps fo f v a) (invoke_solve (no_gen e) m ps st cl xs)))"
    if f: "LookupMethod e ty m = Some f" for ty f v
  proof -
    have n: "globalobj a f \<noteq> 0" using assms f Cons.prems by (auto simp: known_def)
    then have "callee_obj e f cl st a = Inr (globalobj a f, a)" "callee_obj (no_gen e) f cl st a = Inr (globalobj a f, a)"
      by (simp_all add: callee_obj_def)
    moreover have "agree (\<lambda>a. a) ?go (bindR (eachSolve e ps (globalobj a f) f v a) (invoke_solve e m ps st cl xs))
       (bindR (eachSolve e ps (globalobj a f) f v a) (invoke_solve (no_gen e) m ps st cl xs))"
      by (rule agree_bind [OF agree_keeps [OF eachSolve_keeps [OF Cons.prems]]]) (simp add: Cons.IH)
    ultimately show ?thesis using n by simp
  qed
  show ?case unfolding invoke_solve.simps no_gen_simps
    by (rule agree_pure) (use call Cons.prems in \<open>auto simp: agree_def split: prod.splits option.splits\<close>)
qed (simp add: agree_def)

lemma solve_rule_agree:
  assumes "known e a0" "globalobj a = globalobj a0"
  shows "agree (\<lambda>a. a) (globalobj a0) (solve_rule e c dl a) (solve_rule (no_gen e) c dl a)"
  using assms unfolding solve_rule_def offsetAddr_solve_def
  by (cases c) (auto intro!: typeFilter_agree untag_agree invoke_agree agree_keeps keeps keeps_pure)

lemma solve_complex_agree:
  assumes "known e a0"
  shows "globalobj a = globalobj a0 \<Longrightarrow> agree (\<lambda>a. a) (globalobj a0) (solve_complex e cs dl a) (solve_complex (no_gen e) cs dl a)"
proof (induction cs arbitrary: a)
  case (Cons c cs)
  show ?case unfolding solve_complex.simps
    by (rule agree_bind [OF solve_rule_agree [OF assms Cons.prems]]) (simp add: Cons.IH)
qed (simp add: agree_def)

lemma copy_loop_keeps [keeps]: "globalobj a = go \<Longrightarrow> keeps (\<lambda>a. a) go (copy_loop ms seen dl a)"
proof (induction ms arbitrary: seen a)
  case (Cons m ms)
  have s: "keeps (\<lambda>a. a) go (if fr then bindR (add_labels m False dl a) (\<lambda>(b, a). if b then addWork m a else Inr a) else Inr a)" for fr
    using Cons.prems by (auto intro!: keeps_pair op_keeps work_if_keeps)
  have "keeps (\<lambda>a. a) go (bindR (if fr then bindR (add_labels m False dl a) (\<lambda>(b, a). if b then addWork m a else Inr a) else Inr a)
      (copy_loop ms sn dl))" for fr sn
    by (rule keeps_bind [OF s]) (simp add: Cons.IH)
  then show ?case unfolding copy_loop.simps by (intro keeps_pure) (simp split: prod.splits)
qed simp

lemma solveConstraints_agree:
  assumes "known e a0" "globalobj a = globalobj a0"
  shows "agree (\<lambda>a. a) (globalobj a0) (solveConstraints e r dl a) (solveConstraints (no_gen e) r dl a)"
  unfolding solveConstraints_def
  by (intro agree_if agree_bind [OF solve_complex_agree [OF assms]] agree_keeps copy_loop_keeps) (simp_all add: assms)

lemma add_base_keeps [keeps]: "globalobj a = go \<Longrightarrow> keeps (\<lambda>a. a) go (add_base c a)"
  unfolding add_base_def by (cases c) (simp_all add: keeps_pair [OF op_keeps(1) keeps_pure [OF work_if_keeps]])

lemma add_bases_keeps [keeps]: "globalobj a = go \<Longrightarrow> keeps (\<lambda>a. a) go (add_bases cs a)"
proof (induction cs arbitrary: a)
  case (Cons c cs)
  show ?case unfolding add_bases.simps by (rule keeps_bind [OF add_base_keeps [OF Cons.prems]]) (rule Cons.IH)
qed simp

lemma note_stale_keeps [keeps]: "globalobj (snd s) = go \<Longrightarrow> keeps snd go (note_stale n s)"
proof -
  assume s: "globalobj (snd s) = go"
  have w: "keeps snd go (bindR r (\<lambda>st. bindR (addWork n (snd s)) (\<lambda>a. Inr (st, a))))" for r
    by (rule keeps_pure, rule keeps_bind [OF op_keeps(2) [OF s]]) simp
  show "keeps snd go (note_stale n s)" unfolding note_stale_def
    by (rule keeps_pure) (simp only: w s keeps_Inr split: if_split, simp)
qed

lemma attach_keeps [keeps]: "globalobj (snd s) = go \<Longrightarrow> keeps snd go (attach c s)"
proof -
  assume s: "globalobj (snd s) = go"
  have e: "keeps snd go (bindR (add_edge d r (snd s)) (\<lambda>(_, a). note_stale d (fst s, a)))" for d r
    by (rule keeps_pair [OF op_keeps(3) [OF s]]) (rule note_stale_keeps, simp)
  have "keeps snd go (bindR (ref_of n (snd s)) (\<lambda>r. note_stale n (fst s, set_sol r (q r) (snd s))))" for n q
    by (rule keeps_pure, rule note_stale_keeps) (simp add: s)
  then show "keeps snd go (attach c s)" unfolding attach_def Let_def by (cases c) (simp_all add: s e)
qed

lemma attach_all_keeps [keeps]: "globalobj (snd s) = go \<Longrightarrow> keeps snd go (attach_all cs s)"
proof (induction cs arbitrary: s)
  case (Cons c cs)
  show ?case unfolding attach_all.simps by (rule keeps_bind [OF attach_keeps [OF Cons.prems]]) (rule Cons.IH)
qed simp

lemma solve_stale_agree:
  assumes "known e a0"
  shows "globalobj a = globalobj a0 \<Longrightarrow> agree (\<lambda>a. a) (globalobj a0) (solve_stale e ids a) (solve_stale (no_gen e) ids a)"
proof (induction ids arbitrary: a)
  case (Cons n ids)
  show ?case unfolding solve_stale.simps
    by (rule agree_pure, rule agree_bind [OF solveConstraints_agree [OF assms Cons.prems]]) (simp add: Cons.IH)
qed (simp add: agree_def)

lemma processNewConstraints_agree:
  assumes "known e a0" "globalobj a = globalobj a0"
  shows "agree (\<lambda>a. a) (globalobj a0) (processNewConstraints e a) (processNewConstraints (no_gen e) a)"
proof -
  have "globalobj (a\<lparr>constraints := []\<rparr>) = globalobj a0" using assms(2) by simp
  note b = agree_keeps [OF add_bases_keeps [OF this]]
  show ?thesis unfolding processNewConstraints_def Let_def
    by (rule agree_bind [OF b], rule agree_pair [OF agree_keeps [OF attach_all_keeps]]) (simp_all add: solve_stale_agree [OF assms(1)])
qed

section \<open>The loops agree\<close>

lemma take_work_keeps: "take_work a = Inr (Some (n, b)) \<Longrightarrow> globalobj b = globalobj a"
  by (auto simp: take_work_def bindR_eq_Inr_iff)

lemma default_node_agree:
  assumes "known e a0" "globalobj (snd s) = globalobj a0"
  shows "agree snd (globalobj a0) (default_node e n s) (default_node (no_gen e) n s)"
proof -
  have "agree snd (globalobj a0) (bindR (solveConstraints e r dl (set_sol r q (snd s))) (\<lambda>a. Inr (dl, a)))
      (bindR (solveConstraints (no_gen e) r dl (set_sol r q (snd s))) (\<lambda>a. Inr (dl, a)))" for r q dl
    by (rule agree_bind [OF solveConstraints_agree [OF assms(1)]]) (simp_all add: assms(2) agree_def)
  then show ?thesis unfolding default_node_def Let_def
    by (intro agree_pure agree_if) (simp_all add: assms(2) agree_def)
qed

lemma default_round_agree:
  assumes "known e a0" "globalobj (snd s) = globalobj a0"
  shows "agree snd (globalobj a0) (default_round e s) (default_round (no_gen e) s)"
  unfolding default_round_def
proof (rule agree_bind [OF processNewConstraints_agree [OF assms]], rule agree_pure)
  fix a w assume a: "globalobj a = globalobj a0" "take_work a = Inr w"
  show "agree snd (globalobj a0)
      (case w of None \<Rightarrow> Inr (None, a) | Some (n, a) \<Rightarrow> bindR (default_node e n (fst s, a)) (\<lambda>s. Inr (Some s, snd s)))
      (case w of None \<Rightarrow> Inr (None, a) | Some (n, a) \<Rightarrow> bindR (default_node (no_gen e) n (fst s, a)) (\<lambda>s. Inr (Some s, snd s)))"
  proof (cases w)
    case (Some y)
    obtain n b where y: "y = (n, b)" by (rule prod.exhaust)
    have "globalobj (snd (fst s, b)) = globalobj a0" using take_work_keeps a Some y by simp
    then show ?thesis unfolding Some y option.case prod.case
      by (intro agree_bind [OF default_node_agree [OF assms(1)]]) (simp_all add: agree_def)
  qed (use a in \<open>simp add: agree_def\<close>)
qed

lemma default_round_state: "default_round e s = Inr (Some t, b) \<Longrightarrow> b = snd t"
  by (auto simp: default_round_def bindR_eq_Inr_iff split: option.splits prod.splits)

text \<open>A run that returns is a run of the environment that refuses to generate.\<close>

lemma solveDefault_no_gen:
  assumes "solveDefault e s = Some r" "known e (snd s)"
  shows "solveDefault (no_gen e) s = Some r"
proof -
  let ?P = "\<lambda>e s r. \<forall>a0. known e a0 \<longrightarrow> globalobj (snd s) = globalobj a0 \<longrightarrow> solveDefault (no_gen e) s = Some r"
  have "?P e s r"
  proof (rule solveDefault.raw_induct [of ?P e s r])
    fix sd e s r
    assume IH: "\<And>e s r. sd e s = Some r \<Longrightarrow> ?P e s r"
      and body: "(case default_round e s of Inl p \<Rightarrow> Some (Inl p) | Inr (None, a) \<Rightarrow> Some (Inr a) | Inr (Some s, _) \<Rightarrow> sd e s) = Some r"
    show "?P e s r"
    proof (intro allI impI)
      fix a0 assume k: "known e a0" "globalobj (snd s) = globalobj a0"
      have eq: "default_round (no_gen e) s = default_round e s" and kp: "keeps snd (globalobj a0) (default_round e s)"
        using default_round_agree [OF k] by (simp_all add: agree_def)
      show "solveDefault (no_gen e) s = Some r"
      proof (cases "default_round e s")
        case (Inr y)
        obtain w b where y: "y = (w, b)" by (rule prod.exhaust)
        show ?thesis
        proof (cases w)
          case (Some t)
          have "globalobj (snd t) = globalobj a0" using kp default_round_state [of e s t b] Inr y Some by simp
          moreover have "sd e t = Some r" using body Inr y Some by simp
          ultimately have "solveDefault (no_gen e) t = Some r" using IH k(1) by blast
          then show ?thesis using eq Inr y Some by (simp add: solveDefault.simps [of "no_gen e" s])
        qed (use body eq Inr y in \<open>simp add: solveDefault.simps\<close>)
      qed (use body eq in \<open>simp add: solveDefault.simps\<close>)
    qed
  qed (rule assms(1))
  then show ?thesis using assms(2) by blast
qed

end
