(* ===== verification/Pointer_Properties.thy ===== *)
theory Pointer_Properties
  imports Pointer_Sample Pointer_Known
begin

text \<open>
  The properties of the constraint solver of the pointer analysis: what \<^verbatim>\<open>solve\<close> returns satisfies every
  constraint, contains nothing the constraints do not ask for, and is returned after finitely many rounds.
\<close>

section \<open>The result of a run\<close>

definition empty_state :: solver_state where
  "empty_state = \<lparr>complex = [], copyTo = [], pts = [], prevPTS = []\<rparr>"

text \<open>The state \<^verbatim>\<open>generate\<close> leaves: constraints, and no labels yet.\<close>

definition fresh :: "solver \<Rightarrow> bool" where
  "fresh a \<longleftrightarrow> sol a = (\<lambda>_. empty_state) \<and> work a = [] \<and> \<not> skipNewFn a"

text \<open>
  The labels of \<open>s\<close> are labels of \<open>d\<close>; those of the nodes in \<open>X\<close>, which hold the identities of callees, are
  not copied.
\<close>

definition copied :: "nat set \<Rightarrow> solver \<Rightarrow> nodeid \<Rightarrow> nodeid \<Rightarrow> bool" where
  "copied X b s d \<longleftrightarrow> s = d \<or> is_node b s \<and> (rf b s \<in> X \<or> (\<forall>k \<in> Lb b (rf b s). has_label b d k))"

definition copied_block :: "nat set \<Rightarrow> solver \<Rightarrow> 32 word \<Rightarrow> nodeid \<Rightarrow> nodeid \<Rightarrow> bool" where
  "copied_block X b w s d \<longleftrightarrow> (\<forall>i < unat w. copied X b (s + of_nat i) (d + of_nat i))"

definition rule_met :: "nat set \<Rightarrow> fn_ref set \<Rightarrow> env \<Rightarrow> solver \<Rightarrow> constraint \<Rightarrow> nodeid \<Rightarrow> bool" where
  "rule_met X S e b c x \<longleftrightarrow>
     (case c of
        AddrC d s \<Rightarrow> True
      | CopyC d s \<Rightarrow> True
      | LoadC i d s \<Rightarrow> copied X b (x + i) d
      | StoreC i d s \<Rightarrow> copied X b s (x + i)
      | OffsetAddrC i d s \<Rightarrow> has_label b d (x + i)
      | TypeFilterC t d s \<Rightarrow> AssignableTo e (ty_of b x) t \<longrightarrow> has_label b d x
      | UntagC t d s ex \<Rightarrow>
          (if ex then Identical e else AssignableTo e) (ty_of b x) t \<longrightarrow>
            copied_block X b (sizeof e (ty_of b x)) (x + 1) d
      | InvokeC m i ps st cl \<Rightarrow>
          (\<forall>f. LookupMethod e (ty_of b x) m = Some f \<longrightarrow> f \<in> S \<longrightarrow>
            (\<exists>fo. fo \<noteq> 0 \<and> has_label b ps fo \<and> copied_block X b (recv_size e f) (x + 1) (fo + 1) \<and>
               copied_block X b (params_size e f) (ps + 1) (fo + 1 + recv_size e f) \<and>
               copied_block X b (results_size e f) (fo + 1 + recv_size e f + params_size e f) (ps + 1 + params_size e f))))"

text \<open>The points-to sets of \<open>b\<close> satisfy the constraint.\<close>

definition satisfied :: "nat set \<Rightarrow> fn_ref set \<Rightarrow> env \<Rightarrow> solver \<Rightarrow> constraint \<Rightarrow> bool" where
  "satisfied X S e b c \<longleftrightarrow>
     (case c of
        AddrC d s \<Rightarrow> has_label b d s
      | CopyC d s \<Rightarrow> copied X b s d
      | _ \<Rightarrow> rf b (ptr c) \<in> X \<or> (\<forall>x \<in> Lb b (rf b (ptr c)). rule_met X S e b c x))"

lemma edge_copied: "solved X S e C b \<Longrightarrow> edge b s d \<Longrightarrow> copied X b s d"
  by (auto simp: copied_def edge_def solved_def solver_inv_def closed_for_def Wk_def)

lemma edges_copied: "solved X S e C b \<Longrightarrow> edges b (unat w) s d \<Longrightarrow> copied_block X b w s d"
  using edge_copied by (simp add: edges_def copied_block_def)

lemma rule_held_met: "solved X S e C b \<Longrightarrow> rule_holds e S b c x \<Longrightarrow> rule_met X S e b c x"
  using edge_copied [of X S e C b] edges_copied [of X S e C b]
  by (cases c) (auto simp: rule_holds_def rule_met_def called_def, blast)

lemma solved_satisfied:
  assumes s: "solved X S e C b" and c: "c \<in> C"
  shows "satisfied X S e b c"
proof -
  have reg: "registered b c" using s c by (simp add: solved_def solver_inv_def)
  show ?thesis
  proof (cases "is_addr c \<or> (\<exists>d s. c = CopyC d s)")
    case True
    then show ?thesis using reg edge_copied [OF s] by (auto simp: is_addr_def satisfied_def registered_def edge_def)
  next
    case False
    then have "c \<in> Cx b (rf b (ptr c))" using reg registered_complex [of c b] by blast
    then have "rf b (ptr c) \<in> X \<or> (\<forall>x \<in> Lb b (rf b (ptr c)). rule_holds e S b c x)"
      using s by (auto simp: solved_def solver_inv_def closed_for_def Wk_def)
    then have "rf b (ptr c) \<in> X \<or> (\<forall>x \<in> Lb b (rf b (ptr c)). rule_met X S e b c x)" using rule_held_met [OF s] by blast
    then show ?thesis using False by (cases c) (simp_all add: satisfied_def is_addr_def)
  qed
qed

text \<open>The release of the working state keeps the points-to sets.\<close>

lemma release_views: "nodes (release b) = nodes b" "Lb (release b) = Lb b"
  by (auto simp: release_def Lb_def fun_eq_iff)

lemma satisfied_release: "satisfied X S e (release b) c = satisfied X S e b c"
proof -
  have n: "is_node (release b) = is_node b" "rf (release b) = rf b" "ty_of (release b) = ty_of b"
    by (simp_all add: fun_eq_iff is_node_def rf_def ty_of_def release_views)
  have h: "has_label (release b) = has_label b" by (simp add: fun_eq_iff has_label_def n release_views)
  have "copied X (release b) = copied X b" by (simp add: fun_eq_iff copied_def n h release_views)
  then have "rule_met X S e (release b) = rule_met X S e b"
    by (simp add: fun_eq_iff rule_met_def copied_block_def n h split: constraint.splits)
  then show ?thesis using \<open>copied X (release b) = copied X b\<close>
    by (simp add: satisfied_def n h release_views split: constraint.splits)
qed

lemma finish_Inr: "finish_solve c = Inr b \<Longrightarrow> b = release c \<and> ns_IsEmpty (pts (sol c (rf c 0))) \<and> is_node c 0"
  by (auto simp: finish_solve_def bindR_eq_Inr_iff ref_of_Inr split: if_splits)

section \<open>The start\<close>

lemma fresh_views: "fresh a \<Longrightarrow> Lb a r = {} \<and> Ed a r = {} \<and> Pv a r = {} \<and> Cx a r = {} \<and> Wk a = {} \<and> sets_ok a"
  by (simp add: fresh_def Lb_def Ed_def Pv_def Cx_def Wk_def empty_state_def ns.emp sets_ok_def)

lemma fresh_inv: "fresh a \<Longrightarrow> \<forall>c \<in> set (constraints a). okc X a c \<Longrightarrow> solver_inv X S e {} {} {} a"
  using fresh_views by (simp add: solver_inv_def fresh_def)

lemma fresh_just: "fresh a \<Longrightarrow> justified e (nodes a) (set (constraints a)) a"
  using fresh_views by (simp add: justified_def)

lemma no_invoke_okc: "\<forall>c \<in> set (constraints a). \<not> is_invoke c \<Longrightarrow> \<forall>c \<in> set (constraints a). okc {} a c"
  by (auto simp: okc_def is_invoke_def split: constraint.splits)

lemma solve_default: "flagPTSLimit e = 0 \<Longrightarrow> solve e a = Some (Inr b) \<Longrightarrow>
    \<exists>c. solveDefault e ([], a) = Some (Inr c) \<and> finish_solve c = Inr b"
  by (auto simp: solve_def bindR_eq_Inr_iff)

lemma solve_solved:
  assumes "fresh a" "gen_ok X S e" "\<not> reflection e" "\<forall>c \<in> set (constraints a). okc X a c" "solveDefault e ([], a) = Some (Inr c)"
  shows "solved X S e (set (constraints a)) c"
  using solveDefault_inv [OF assms(5,2,3), of "{}"] fresh_inv [OF assms(1,4)] ns.emp(1) by simp

lemma gen_ok_empty: "gen_ok {} S e"
  by (simp add: gen_ok_def)

lemma fresh_labels_ok: "fresh a \<Longrightarrow> labels_ok a"
  using fresh_views by (simp add: labels_ok_def)

lemma start_limit:
  "fresh a \<Longrightarrow> justified e (nodes a) (set (constraints a)) (a\<lparr>ptsLimit := l, skipIDs := k, skipNewFn := b\<rparr>)"
  "fresh a \<Longrightarrow> labels_ok (a\<lparr>ptsLimit := l, skipIDs := k, skipNewFn := b\<rparr>)"
  using fresh_views [of a]
  by (simp_all add: justified_def labels_ok_def sets_ok_def Lb_def Ed_def Cx_def Pv_def)

section \<open>The sample systems\<close>

lemma no_labels_empty: "no_labels = empty_state"
  by (simp add: no_labels_def empty_state_def ns_of.simps)

lemma fresh_run_state: "fresh (run_state N (replicate n no_labels) cs [] f l)"
  by (auto simp: fresh_def run_state_def no_labels_empty ns_of.simps)

lemma sample_fresh: "fresh pointer_system" "fresh invoke_system" "fresh zero_system"
  unfolding pointer_system_def invoke_system_def zero_system_def by (rule fresh_run_state)+

lemma sample_quiet: "gen_quiet pointer_env" "gen_quiet limit_env" "gen_quiet invoke_env"
  by (simp_all add: gen_quiet_def pointer_env_def limit_env_def invoke_env_def quiet_refl)

lemma sample_env: "\<not> reflection pointer_env" "\<not> reflection invoke_env" "flagPTSLimit pointer_env = 0" "flagPTSLimit invoke_env = 0"
  by (simp_all add: pointer_env_def invoke_env_def)

lemma sample_constraints: "\<forall>c \<in> set (constraints pointer_system). \<not> is_invoke c" "\<forall>c \<in> set (constraints zero_system). \<not> is_invoke c"
  by (simp_all add: pointer_system_def zero_system_def run_state_sel is_invoke_def)

section \<open>Runs and derivations\<close>

text \<open>Whatever the limit, a result is justified: every label is derived from the constraints.\<close>

lemma solve_justified:
  assumes "fresh a" "\<forall>c \<in> set (constraints a). \<not> is_invoke c" "solve e a = Some (Inr b)"
  shows "\<exists>d. justified e (nodes a) (set (constraints a)) d \<and> finish_solve d = Inr b"
proof (cases "flagPTSLimit e = 0")
  case True
  then obtain d where d: "solveDefault e ([], a) = Some (Inr d)" "finish_solve d = Inr b" using solve_default assms(3) by blast
  have "justified e (nodes a) (set (constraints a)) d"
    by (rule solveDefault_just [OF d(1) assms(2)]) (simp_all add: fresh_just [OF assms(1)] ns.emp)
  then show ?thesis using d(2) by blast
next
  case False
  then obtain d l k c where d: "solveLimit_loop e ([], a\<lparr>ptsLimit := l, skipIDs := k, skipNewFn := c\<rparr>) = Some (Inr d)" "finish_solve d = Inr b"
    using assms(3) by (auto simp: solve_def solveLimit_def bindR_eq_Inr_iff)
  have "justified e (nodes a) (set (constraints a)) d"
    by (rule solveLimit_loop_just [OF d(1) assms(2)]) (simp_all add: start_limit(1) [OF assms(1)] ns.emp)
  then show ?thesis using d(2) by blast
qed

lemma solved_labels_derived:
  assumes "fresh a" "\<forall>c \<in> set (constraints a). \<not> is_invoke c" "solve e a = Some (Inr b)" "has_label b n k"
  shows "is_node a n \<and> derives e (nodes a) (set (constraints a)) (ref_in (nodes a) n) k"
proof -
  obtain d where d: "justified e (nodes a) (set (constraints a)) d" "finish_solve d = Inr b"
    using solve_justified [OF assms(1-3)] by blast
  then have n: "nodes b = nodes a" "Lb b = Lb d" using finish_Inr [OF d(2)] by (simp_all add: release_views justified_def)
  then show ?thesis using d(1) assms(4) by (simp add: has_label_def is_node_def justified_def rf_def ref_in_def)
qed

text \<open>Without a limit they are exactly the derivable ones.\<close>

lemma solved_labels_exact:
  assumes "fresh a" "\<not> reflection e" "flagPTSLimit e = 0" "\<forall>c \<in> set (constraints a). \<not> is_invoke c"
    and "solve e a = Some (Inr b)"
  shows "has_label b n k \<longleftrightarrow>
    is_node a n \<and> derives e (nodes a) (set (constraints a)) (ref_in (nodes a) n) k"
proof -
  obtain d where d: "solveDefault e ([], a) = Some (Inr d)" "finish_solve d = Inr b"
    using solve_default [OF assms(3,5)] by blast
  have s: "solved {} UNIV e (set (constraints a)) d"
    by (rule solve_solved [OF assms(1) gen_ok_empty assms(2) no_invoke_okc [OF assms(4)] d(1)])
  have j: "justified e (nodes a) (set (constraints a)) d"
    using solveDefault_just [OF d(1) assms(4)] fresh_just [OF assms(1)] ns.emp(1) by simp
  then have n: "nodes b = nodes a" "Lb b = Lb d" using finish_Inr [OF d(2)] by (simp_all add: release_views justified_def)
  then show ?thesis using solved_justified_iff [OF s j]
    by (simp add: has_label_def is_node_def rf_def ref_in_def)
qed

text \<open>
  With a generator for missing functions that meets the contract \<^const>\<open>gen_ok\<close> the solver is sound for the
  callees \<open>S\<close> it does not leave out.
\<close>

lemma solve_sound_with_generator:
  assumes "fresh a" "gen_ok X S e" "\<not> reflection e" "flagPTSLimit e = 0" "\<forall>c \<in> set (constraints a). okc X a c"
    and "solve e a = Some (Inr b)" "c \<in> set (constraints a)"
  shows "satisfied X S e b c"
proof -
  obtain d where d: "solveDefault e ([], a) = Some (Inr d)" "finish_solve d = Inr b"
    using solve_default [OF assms(4,6)] by blast
  have "satisfied X S e d c" using solved_satisfied [OF solve_solved [OF assms(1-3,5) d(1)]] assms(7) by simp
  then show ?thesis using finish_Inr [OF d(2)] by (simp add: satisfied_release)
qed

text \<open>When every method has its function object the generator does not matter.\<close>

lemma satisfied_no_gen: "satisfied X S (no_gen e) b c = satisfied X S e b c"
proof -
  have "rule_met X S (no_gen e) b c x = rule_met X S e b c x" for x
    by (cases c) (simp_all add: rule_met_def)
  then show ?thesis by (cases c) (simp_all add: satisfied_def)
qed

lemma gen_ok_no_gen: "gen_ok X S (no_gen e)"
  by (simp add: gen_ok_def no_gen_def)

lemma solve_no_gen:
  assumes "solve e a = Some r" "flagPTSLimit e = 0" "known e a"
  shows "solve (no_gen e) a = Some r"
  using assms solveDefault_no_gen [of e "([], a)"] by (auto simp: solve_def)

text \<open>
  \<open>call_states\<close> are the solver states of the identity nodes of the call blocks, to which the solver adds the
  callees without treating the node again.
\<close>

definition call_states :: "solver \<Rightarrow> nat set" where
  "call_states a = {rf a ps | m i ps st cl. InvokeC m i ps st cl \<in> set (constraints a)}"

definition calls_ok :: "solver \<Rightarrow> bool" where
  "calls_ok a \<longleftrightarrow> (\<forall>m i ps st cl. InvokeC m i ps st cl \<in> set (constraints a) \<longrightarrow> is_node a ps)"

lemma calls_okc: "calls_ok a \<Longrightarrow> c \<in> set (constraints a) \<Longrightarrow> okc (call_states a) a c"
  unfolding calls_ok_def okc_def call_states_def by (cases c) (simp_all, blast)

section \<open>The properties\<close>

text \<open>
  C11. The solver is sound when no points-to limit is set, reflection is off and every method that an
  interface call can look up has its function object before solving (\<^const>\<open>known\<close>; the generator of missing
  functions is then never asked). When \<^verbatim>\<open>solve\<close> returns, its points-to sets satisfy every constraint it was
  given: address, copy, load, store, field offset, type filter and untag constraints, and interface calls,
  for which the receiver, the parameters and the results of every callee are connected to the call. Exempt are
  the identity nodes of call blocks: what is copied from them or attached to them need not hold.
\<close>
theorem solve_sound:
  assumes "fresh a" "\<not> reflection e" "flagPTSLimit e = 0" "known e a" "calls_ok a"
    and "solve e a = Some (Inr b)" "c \<in> set (constraints a)"
  shows "satisfied (call_states a) UNIV e b c"
proof -
  have "satisfied (call_states a) UNIV (no_gen e) b c"
    by (rule solve_sound_with_generator [OF assms(1) gen_ok_no_gen _ _ _ solve_no_gen [OF assms(6,3,4)] assms(7)])
      (simp_all add: assms(2,3) calls_okc [OF assms(5)])
  then show ?thesis by (simp add: satisfied_no_gen)
qed

theorem solve_sound_witness:
  "\<exists>b. solve invoke_env invoke_system = Some (Inr b) \<and> satisfied {7} UNIV invoke_env b (InvokeC 0 1 7 0 0)"
proof -
  obtain b where b: "solve invoke_env invoke_system = Some (Inr b)" using invoke_run by blast
  have k: "known invoke_env invoke_system" by (simp add: known_def invoke_system_def run_state_sel)
  have c: "calls_ok invoke_system" by (auto simp: calls_ok_def invoke_system_def run_state_sel is_node_def)
  have x: "call_states invoke_system = {7}" by (auto simp: call_states_def invoke_system_def run_state_sel rf_def plain_node_def)
  have "InvokeC 0 1 7 0 0 \<in> set (constraints invoke_system)" by (simp add: invoke_system_def run_state_sel)
  then show ?thesis using solve_sound [OF sample_fresh(2) sample_env(2,4) k c b] b unfolding x by blast
qed

text \<open>
  C12. For constraints without interface calls, the labels of the result are derived from the constraints,
  whatever the points-to limit and whether reflection is on or off: a label is in the points-to set of a node
  only when it is derivable. When no limit is set and reflection is off the converse holds too, so the result
  is exact: a node has a label if and only if it is derivable, for nodes that share a solver state too.
\<close>
theorem solve_exact:
  assumes "fresh a" "\<forall>c \<in> set (constraints a). \<not> is_invoke c" "solve e a = Some (Inr b)"
  shows "(has_label b n k \<longrightarrow> is_node a n \<and> derives e (nodes a) (set (constraints a)) (ref_in (nodes a) n) k) \<and>
    (flagPTSLimit e = 0 \<and> \<not> reflection e \<longrightarrow>
      (has_label b n k \<longleftrightarrow> is_node a n \<and> derives e (nodes a) (set (constraints a)) (ref_in (nodes a) n) k))"
  using solved_labels_derived [OF assms] solved_labels_exact [OF assms(1) _ _ assms(2,3)] by blast

theorem solve_exact_witness:
  "(\<exists>b. solve pointer_env pointer_system = Some (Inr b) \<and> has_label b 6 5) \<and>
   (\<exists>b. solve limit_env pointer_system = Some (Inr b) \<and>
      derives limit_env (nodes pointer_system) (set (constraints pointer_system)) (ref_in (nodes pointer_system) 1) 2)"
proof -
  let ?N = "nodes pointer_system" and ?K = "set (constraints pointer_system)"
  obtain b where b: "solve pointer_env pointer_system = Some (Inr b)" using pointer_run by blast
  have r: "ref_in ?N 1 = 1" "ref_in ?N 2 = 2" "ref_in ?N 3 = 3" "ref_in ?N 4 = 4" "ref_in ?N 6 = 6"
    by (simp_all add: ref_in_def pointer_system_def run_state_sel plain_node_def)
  have K: "AddrC 1 2 \<in> ?K" "CopyC 3 1 \<in> ?K" "StoreC 0 1 4 \<in> ?K" "AddrC 4 5 \<in> ?K" "LoadC 0 6 3 \<in> ?K"
    by (simp_all add: pointer_system_def run_state_sel)
  note d = d_addr [where e = pointer_env and N = ?N and K = ?K]
  have p: "derives pointer_env ?N ?K 1 2" and y: "derives pointer_env ?N ?K 4 5" using d [OF K(1)] d [OF K(4)] by (simp_all add: r)
  have "flow pointer_env ?N ?K 1 3" using f_copy [OF K(2), of pointer_env ?N] by (simp add: r)
  then have q: "derives pointer_env ?N ?K 3 2" using p by (rule d_flow)
  have "flow pointer_env ?N ?K 4 2" using f_store [OF K(3), of pointer_env ?N 2] p by (simp add: r)
  then have x: "derives pointer_env ?N ?K 2 5" using y by (rule d_flow)
  have "flow pointer_env ?N ?K 2 6" using f_load [OF K(5), of pointer_env ?N 2] q by (simp add: r)
  then have "derives pointer_env ?N ?K 6 5" using x by (rule d_flow)
  moreover have n: "is_node pointer_system 6" by (simp add: is_node_def pointer_system_def run_state_sel)
  ultimately have "has_label b 6 5"
    using solve_exact [OF sample_fresh(1) sample_constraints(1) b, of 6 5] sample_env(1,3)
    by (simp add: r n)
  moreover obtain c where c: "solve limit_env pointer_system = Some (Inr c)" "has_label c 1 2" using limit_run by blast
  ultimately show ?thesis
    using b solve_exact [OF sample_fresh(1) sample_constraints(1) c(1), of 1 2] by blast
qed

text \<open>
  C13. The solver terminates, with or without a limit on the sizes of the points-to sets, when the
  constraints of every callee are already generated: some round finds the worklist empty, or the code panics.
\<close>
theorem solve_returns:
  assumes "fresh a" "gen_quiet e"
  shows "\<exists>r. solve e a = Some r"
proof (cases "flagPTSLimit e = 0")
  case True
  then show ?thesis using dl.loop_returns [OF assms(2) fresh_labels_ok [OF assms(1)] ns.emp(1)] by (auto simp: solve_def)
next
  case False
  then show ?thesis using ll.loop_returns [OF assms(2) start_limit(2) [OF assms(1)] ns.emp(1)] by (auto simp: solve_def solveLimit_def)
qed

theorem solve_returns_witness: "\<exists>r. solve limit_env invoke_system = Some r"
  by (rule solve_returns [OF sample_fresh(2) sample_quiet(2)])

text \<open>
  A constraint system that gives the zero node a label is refused: \<^verbatim>\<open>solve\<close> ends in a panic.
\<close>
theorem solve_zero_node:
  assumes "fresh a" "gen_quiet e" "\<not> reflection e" "flagPTSLimit e = 0" "\<forall>c \<in> set (constraints a). \<not> is_invoke c"
    and "derives e (nodes a) (set (constraints a)) (ref_in (nodes a) 0) k"
  shows "\<exists>p. solve e a = Some (Inl p)"
proof -
  obtain r where r: "solveDefault e ([], a) = Some r"
    using dl.loop_returns [OF assms(2) fresh_labels_ok [OF assms(1)] ns.emp(1)] by blast
  have "\<exists>p. bindR r finish_solve = Inl p"
  proof (cases r)
    case (Inr d)
    have s: "solved {} UNIV e (set (constraints a)) d"
      by (rule solve_solved [OF assms(1) gen_ok_empty assms(3) no_invoke_okc [OF assms(5)]]) (use r Inr in simp)
    have j: "justified e (nodes a) (set (constraints a)) d"
      using solveDefault_just [OF _ assms(5)] r Inr fresh_just [OF assms(1)] ns.emp(1) by simp
    have "k \<in> Lb d (rf d 0)" using solved_justified_iff [OF s j] assms(6) j by (simp add: justified_def rf_def ref_in_def)
    then have "finish_solve d \<noteq> Inr b" for b
      using finish_Inr [of d b] ns.is_empty [OF sets_okD(2) [OF justified_sets [OF j]]] by (auto simp: Lb_def)
    then show ?thesis using Inr by (cases "finish_solve d") auto
  qed simp
  then show ?thesis using r assms(4) by (simp add: solve_def)
qed

theorem solve_zero_node_witness: "\<exists>p. solve pointer_env zero_system = Some (Inl p)"
proof (rule solve_zero_node [OF sample_fresh(3) sample_quiet(1) sample_env(1,3) sample_constraints(2)])
  show "derives pointer_env (nodes zero_system) (set (constraints zero_system)) (ref_in (nodes zero_system) 0) 1"
    by (rule d_addr) (simp add: zero_system_def run_state_sel)
qed

end
