(* ===== verification/Pointer_Objects.thy ===== *)
theory Pointer_Objects
  imports Pointer_Types Pointer_Permute Pointer_Properties
begin

text \<open>
  The creation of nodes, objects and constraints in \<^verbatim>\<open>gopta/go/pointer/gen.go\<close>. Nodes are only appended;
  an object is marked on its first node once its last node exists. The nodes of a type are those of its
  flattening \<open>L\<close>. The call-graph node and the datum of an object are not represented here.
\<close>

section \<open>Nodes\<close>

type_synonym layout = "ty \<Rightarrow> ty list"

text \<open>The layout given by \<^verbatim>\<open>flatten\<close>, for types that are nested at most \<open>k\<close> deep.\<close>

definition layout_of :: "nat \<Rightarrow> ty_store \<Rightarrow> layout" where
  "layout_of k s t = map fi_typ (case flatten k s t of None \<Rightarrow> [] | Some fs \<Rightarrow> fs)"

definition nextNode :: "solver \<Rightarrow> nodeid" where
  "nextNode a = of_nat (length (nodes a))"

text \<open>\<^verbatim>\<open>new(solverState)\<close> is a solver state that no node has: that of the position of the new node.\<close>

definition addOneNode :: "ty \<Rightarrow> solver \<Rightarrow> nodeid \<times> solver" where
  "addOneNode t a =
     (nextNode a,
      a\<lparr>nodes := nodes a @ [\<lparr>obj = None, node_typ = t, solve_ref = length (nodes a)\<rparr>],
        sol := (sol a)(length (nodes a) := empty_state)\<rparr>)"

fun addNodes_loop :: "ty list \<Rightarrow> solver \<Rightarrow> solver" where
  "addNodes_loop [] a = a"
| "addNodes_loop (t # ts) a = addNodes_loop ts (snd (addOneNode t a))"

definition addNodes :: "layout \<Rightarrow> ty \<Rightarrow> solver \<Rightarrow> nodeid \<times> solver" where
  "addNodes L t a =
     (let b = addNodes_loop (L t) a in (if nextNode a = nextNode b then 0 else nextNode a, b))"

text \<open>The types of the universe.\<close>

definition tInvalid :: ty where "tInvalid = 0"

text \<open>\<open>fl\<close> are the flags the callers add to the object.\<close>

definition endObject :: "nodeid \<Rightarrow> 32 word \<Rightarrow> solver \<Rightarrow> solver go_result" where
  "endObject n fl a =
     (let size = nextNode a - n;
          b = (if size = 0 then snd (addOneNode tInvalid a) else a)
      in bindR (get_node n b) (\<lambda>nd.
           Inr (b\<lparr>nodes := (nodes b)[unat n := nd\<lparr>obj := Some \<lparr>flags = fl, obj_size = size\<rparr>\<rparr>]\<rparr>)))"

definition makeTagged :: "layout \<Rightarrow> ty \<Rightarrow> solver \<Rightarrow> (nodeid \<times> solver) go_result" where
  "makeTagged L t a =
     (let (n, b) = addOneNode t a; (_, c) = addNodes L t b
      in bindR (endObject n otTagged c) (\<lambda>d. Inr (n, d)))"

record signature =
  sig_ty :: ty
  sig_recv :: "ty option"
  sig_params :: ty
  sig_results :: ty

text \<open>The block of a function: identity, receiver, parameters, results.\<close>

definition makeParamResultNodes :: "layout \<Rightarrow> signature \<Rightarrow> nodeid \<Rightarrow> solver \<Rightarrow> solver go_result" where
  "makeParamResultNodes L sg n a =
     (let b = snd (addOneNode (sig_ty sg) a);
          c = (case sig_recv sg of None \<Rightarrow> b | Some t \<Rightarrow> snd (addNodes L t b));
          d = snd (addNodes L (sig_params sg) c)
      in endObject n otFunction (snd (addNodes L (sig_results sg) d)))"

definition makeFunctionNodes :: "layout \<Rightarrow> signature \<Rightarrow> solver \<Rightarrow> (nodeid \<times> solver) go_result" where
  "makeFunctionNodes L sg a = bindR (makeParamResultNodes L sg (nextNode a) a) (\<lambda>b. Inr (nextNode a, b))"

section \<open>Constraints\<close>

definition addConstraint :: "constraint \<Rightarrow> solver \<Rightarrow> solver" where
  "addConstraint c a = a\<lparr>constraints := constraints a @ [c]\<rparr>"

fun copy_nodes :: "nat \<Rightarrow> nodeid \<Rightarrow> nodeid \<Rightarrow> solver \<Rightarrow> solver" where
  "copy_nodes 0 d s a = a"
| "copy_nodes (Suc k) d s a = copy_nodes k (d + 1) (s + 1) (addConstraint (CopyC d s) a)"

definition copy_ids :: "nodeid \<Rightarrow> nodeid \<Rightarrow> 32 word \<Rightarrow> solver \<Rightarrow> solver go_result" where
  "copy_ids d s w a =
     (if s = d \<or> w = 0 then Inr a
      else if s = 0 \<or> d = 0 then Inl (ExplicitPanic ''ill-typed copy'')
      else Inr (copy_nodes (unat w) d s a))"

text \<open>
  The analysis tracks every type (\<^verbatim>\<open>a.track = trackAll\<close>, set before constraints are generated), so
  \<^verbatim>\<open>shouldTrack\<close> answers by its fast path.
\<close>

record track_env =
  TrackMore :: bool
  isWithinScope :: bool

definition shouldTrack :: "ty \<Rightarrow> bool" where
  "shouldTrack t = True"

definition tracked_address :: "track_env \<Rightarrow> ty \<Rightarrow> bool" where
  "tracked_address v t = (if TrackMore v then isWithinScope v \<or> shouldTrack t else shouldTrack t)"

definition addressOf :: "track_env \<Rightarrow> ty \<Rightarrow> nodeid \<Rightarrow> nodeid \<Rightarrow> solver \<Rightarrow> solver go_result" where
  "addressOf v t n ob a =
     (if n = 0 then Inl (ExplicitPanic ''addressOf: zero id'')
      else if ob = 0 then Inl (ExplicitPanic ''addressOf: zero obj'')
      else Inr (if tracked_address v t then addConstraint (AddrC n ob) a else a))"

fun load_nodes :: "nat \<Rightarrow> 32 word \<Rightarrow> nodeid \<Rightarrow> nodeid \<Rightarrow> solver \<Rightarrow> solver" where
  "load_nodes 0 i d s a = a"
| "load_nodes (Suc k) i d s a = load_nodes k (i + 1) (d + 1) s (addConstraint (LoadC i d s) a)"

definition load_ids :: "nodeid \<Rightarrow> nodeid \<Rightarrow> 32 word \<Rightarrow> 32 word \<Rightarrow> solver \<Rightarrow> solver go_result" where
  "load_ids d s i w a =
     (if d = 0 then Inr a
      else if s = 0 \<and> d = 0 then Inr a
      else if s = 0 \<or> d = 0 then Inl (ExplicitPanic ''ill-typed load'')
      else Inr (load_nodes (unat w) i d s a))"

fun store_nodes :: "nat \<Rightarrow> 32 word \<Rightarrow> nodeid \<Rightarrow> nodeid \<Rightarrow> solver \<Rightarrow> solver" where
  "store_nodes 0 i d s a = a"
| "store_nodes (Suc k) i d s a = store_nodes k (i + 1) d (s + 1) (addConstraint (StoreC i d s) a)"

definition store_ids :: "nodeid \<Rightarrow> nodeid \<Rightarrow> 32 word \<Rightarrow> 32 word \<Rightarrow> solver \<Rightarrow> solver go_result" where
  "store_ids d s i w a =
     (if s = 0 then Inr a
      else if s = 0 \<and> d = 0 then Inr a
      else if s = 0 \<or> d = 0 then Inl (ExplicitPanic ''ill-typed store'')
      else Inr (store_nodes (unat w) i d s a))"

definition offsetAddr :: "track_env \<Rightarrow> ty \<Rightarrow> nodeid \<Rightarrow> nodeid \<Rightarrow> 32 word \<Rightarrow> solver \<Rightarrow> solver go_result" where
  "offsetAddr v t d s i a =
     (if \<not> tracked_address v t then Inr a
      else if i = 0 then copy_ids d s 1 a
      else Inr (addConstraint (OffsetAddrC i d s) a))"

definition typeAssert :: "ty_store \<Rightarrow> ty \<Rightarrow> nodeid \<Rightarrow> nodeid \<Rightarrow> bool \<Rightarrow> solver \<Rightarrow> solver" where
  "typeAssert s t d sr ex a =
     addConstraint (if isInterface s t then TypeFilterC t d sr else UntagC t d sr ex) a"

section \<open>Layout\<close>

lemma laid_out_plain: "\<forall>n \<in> set ys. obj n = None \<Longrightarrow> laid_out ys"
  by (induction ys) auto

lemma laid_out_append: "laid_out xs \<Longrightarrow> laid_out ys \<Longrightarrow> laid_out (xs @ ys)"
proof (induction xs rule: laid_out.induct)
  case (2 n ns)
  then show ?case by (cases "obj n") auto
qed simp

lemma laid_out_object:
  "obj n = Some ob \<Longrightarrow> unat (obj_size ob) = Suc (length ys) \<Longrightarrow> laid_out (n # ys)"
  by (auto simp: word_gt_0 unat_eq_zero)

text \<open>\<open>b\<close> has the nodes of \<open>a\<close> and new ones of the types \<open>ts\<close> that belong to no object yet.\<close>

definition plain_ext :: "ty list \<Rightarrow> solver \<Rightarrow> solver \<Rightarrow> bool" where
  "plain_ext ts a b \<longleftrightarrow>
     (\<exists>new. nodes b = nodes a @ new \<and> map node_typ new = ts \<and> (\<forall>n \<in> set new. obj n = None)) \<and>
     constraints b = constraints a \<and> work b = work a \<and> skipNewFn b = skipNewFn a \<and>
     (sol a = (\<lambda>_. empty_state) \<longrightarrow> sol b = (\<lambda>_. empty_state))"

lemma plain_ext_refl: "plain_ext [] a a"
  by (simp add: plain_ext_def)

lemma plain_ext_trans: "plain_ext ts a b \<Longrightarrow> plain_ext us b c \<Longrightarrow> plain_ext (ts @ us) a c"
  by (force simp: plain_ext_def)

lemma plain_ext_addOneNode: "plain_ext [t] a (snd (addOneNode t a))"
  by (auto simp: plain_ext_def addOneNode_def)

lemma plain_ext_loop: "plain_ext ts a (addNodes_loop ts a)"
proof (induction ts arbitrary: a)
  case (Cons t ts)
  show ?case using plain_ext_trans [OF plain_ext_addOneNode Cons.IH] by simp
qed (simp add: plain_ext_refl)

lemma plain_ext_addNodes: "plain_ext (L t) a (snd (addNodes L t a))"
  using plain_ext_loop by (simp add: addNodes_def Let_def)

lemma plain_ext_length: "plain_ext ts a b \<Longrightarrow> length (nodes b) = length (nodes a) + length ts"
  by (auto simp: plain_ext_def)

lemma plain_ext_fresh: "plain_ext ts a b \<Longrightarrow> fresh a \<Longrightarrow> fresh b"
  by (simp add: plain_ext_def fresh_def)

text \<open>A finished object at the end of the nodes.\<close>

definition object_added :: "32 word \<Rightarrow> ty list \<Rightarrow> solver \<Rightarrow> solver \<Rightarrow> bool" where
  "object_added fl ts a b \<longleftrightarrow>
     (\<exists>n ns. nodes b = nodes a @ n # ns \<and> map node_typ (n # ns) = ts \<and> (\<forall>m \<in> set ns. obj m = None) \<and>
        obj n = Some \<lparr>flags = fl, obj_size = of_nat (length ts)\<rparr>) \<and>
     constraints b = constraints a \<and> (fresh a \<longrightarrow> fresh b)"

lemma endObject_added:
  assumes e: "plain_ext ts a b" "ts \<noteq> []" and l: "length (nodes b) < 2 ^ 32"
  shows "\<exists>c. endObject (nextNode a) fl b = Inr c \<and> object_added fl ts a c"
proof -
  obtain n ns where n: "nodes b = nodes a @ n # ns" "map node_typ (n # ns) = ts" "\<forall>m \<in> set (n # ns). obj m = None"
    using e unfolding plain_ext_def by (metis append_Nil2 list.exhaust list.simps(8))
  have len: "length ts = Suc (length ns)" using n(2) by auto
  have u: "unat (nextNode a) = length (nodes a)" using l n(1) by (simp add: nextNode_def unat_of_nat)
  have s: "nextNode b - nextNode a = of_nat (length ts)" using n(1) len by (simp add: nextNode_def)
  have z: "(of_nat (length ts) :: nodeid) \<noteq> 0"
  proof
    assume "(of_nat (length ts) :: nodeid) = 0"
    then have "unat (of_nat (length ts) :: nodeid) = 0" by simp
    then show False using l n(1) len by (simp add: unat_of_nat del: of_nat_Suc)
  qed
  have "get_node (nextNode a) b = Inr n" using u n(1) by (simp add: get_node_Inr is_node_def)
  then have "endObject (nextNode a) fl b = Inr (b\<lparr>nodes := nodes a @ n\<lparr>obj := Some \<lparr>flags = fl, obj_size = of_nat (length ts)\<rparr>\<rparr> # ns\<rparr>)"
    using s z n(1) u by (simp add: endObject_def Let_def)
  moreover have "fresh a \<longrightarrow> fresh (b\<lparr>nodes := xs\<rparr>)" for xs using plain_ext_fresh [OF e(1)] by (simp add: fresh_def)
  ultimately show ?thesis using n e(1) by (auto simp: object_added_def plain_ext_def)
qed

lemma object_added_numbered:
  assumes o: "object_added fl ts a b" and n: "numbered (nodes a)" and l: "length (nodes a) + length ts < 2 ^ 32"
  shows "numbered (nodes b)"
proof -
  obtain m ns where b: "nodes b = nodes a @ m # ns" "map node_typ (m # ns) = ts" "obj m = Some \<lparr>flags = fl, obj_size = of_nat (length ts)\<rparr>"
    using o by (auto simp: object_added_def)
  have len: "length ts = Suc (length ns)" using b(2) by auto
  have "laid_out (m # ns)" by (rule laid_out_object [OF b(3)]) (use l len in \<open>simp add: unat_of_nat del: of_nat_Suc\<close>)
  then have "laid_out (tl (nodes a) @ m # ns)" using n by (intro laid_out_append) (simp_all add: numbered_def)
  then show ?thesis using n b(1) l len by (cases "nodes a") (simp_all add: numbered_def)
qed

definition sig_fields :: "layout \<Rightarrow> signature \<Rightarrow> ty list" where
  "sig_fields L sg = sig_ty sg # (case sig_recv sg of None \<Rightarrow> [] | Some t \<Rightarrow> L t) @ L (sig_params sg) @ L (sig_results sg)"

lemma makeFunctionNodes_added:
  assumes "length (nodes a) + length (sig_fields L sg) < 2 ^ 32"
  shows "\<exists>b. makeFunctionNodes L sg a = Inr (nextNode a, b) \<and> object_added otFunction (sig_fields L sg) a b"
proof -
  define b where "b = snd (addOneNode (sig_ty sg) a)"
  define c where "c = (case sig_recv sg of None \<Rightarrow> b | Some t \<Rightarrow> snd (addNodes L t b))"
  define d where "d = snd (addNodes L (sig_params sg) c)"
  define f where "f = snd (addNodes L (sig_results sg) d)"
  have 1: "plain_ext [sig_ty sg] a b" unfolding b_def by (rule plain_ext_addOneNode)
  have 2: "plain_ext (case sig_recv sg of None \<Rightarrow> [] | Some t \<Rightarrow> L t) b c"
    unfolding c_def by (cases "sig_recv sg") (simp_all add: plain_ext_refl plain_ext_addNodes)
  have 3: "plain_ext (L (sig_params sg)) c d" "plain_ext (L (sig_results sg)) d f"
    unfolding d_def f_def by (rule plain_ext_addNodes)+
  have e: "plain_ext (sig_fields L sg) a f"
    using plain_ext_trans [OF plain_ext_trans [OF plain_ext_trans [OF 1 2] 3(1)] 3(2)] by (simp add: sig_fields_def)
  obtain g where "endObject (nextNode a) otFunction f = Inr g" "object_added otFunction (sig_fields L sg) a g"
    using endObject_added [OF e] assms plain_ext_length [OF e] by (auto simp: sig_fields_def)
  moreover have "makeFunctionNodes L sg a = bindR (endObject (nextNode a) otFunction f) (\<lambda>b. Inr (nextNode a, b))"
    by (simp only: makeFunctionNodes_def makeParamResultNodes_def Let_def b_def c_def d_def f_def)
  ultimately show ?thesis by simp
qed

lemma makeTagged_added:
  assumes "length (nodes a) + Suc (length (L t)) < 2 ^ 32"
  shows "\<exists>b. makeTagged L t a = Inr (nextNode a, b) \<and> object_added otTagged (t # L t) a b"
proof -
  have e: "plain_ext ([t] @ L t) a (snd (addNodes L t (snd (addOneNode t a))))"
    by (rule plain_ext_trans [OF plain_ext_addOneNode plain_ext_addNodes])
  obtain g where "endObject (nextNode a) otTagged (snd (addNodes L t (snd (addOneNode t a)))) = Inr g" "object_added otTagged (t # L t) a g"
    using endObject_added [OF e] assms plain_ext_length [OF e] by auto
  then show ?thesis by (simp add: makeTagged_def Let_def split_def) (simp add: addOneNode_def)
qed

end
