(* ===== verification/Pointer_Origins.thy ===== *)
theory Pointer_Origins
  imports Pointer_Loops Pointer_Objects
begin

text \<open>
  The creation of call-graph nodes in calling contexts (\<^verbatim>\<open>gopta/go/pointer/gen.go\<close>): a new origin starts at
  a go statement, with or without a closure; other functions run in the context of their caller. Existing
  contexts are found again by comparing call sites.
\<close>

section \<open>State\<close>

text \<open>
  \<open>genq\<close> holds indices of call-graph nodes; \<open>IsFromApp\<close> is the field of the functions; \<open>next_site\<close> is the first call site not allocated.
\<close>

record origins = pta +
  genq :: "int list"
  IsFromApp :: "fn_ref \<Rightarrow> bool"
  fn2cgnodeIdx :: "fn_ref \<Rightarrow> int list option"
  numOrigins :: int
  next_site :: nat

record origin_env =
  o_text :: call_text
  o_prog :: ssa_program
  cfg_Origin :: bool
  cfg_CallSiteSensitive :: bool
  cfg_K :: int
  main_fn :: fn_ref
  sig_of :: "fn_ref \<Rightarrow> signature"
  o_layout :: layout

section \<open>Contexts\<close>

definition createSingleCallSite :: "site_ptr \<Rightarrow> ctx" where
  "createSingleCallSite p = Some [p]"

text \<open>The call site in front of those of the caller, at most \<open>K\<close> in all.\<close>

definition createKCallSite :: "origin_env \<Rightarrow> ctx \<Rightarrow> site_ptr \<Rightarrow> ctx go_result" where
  "createKCallSite e clr2sites p =
     (if cfg_K e = 1 then Inr (createSingleCallSite p)
      else let size = min (cfg_K e) (1 + int (length (slice clr2sites)))
           in if size < 0 then Inl (ExplicitPanic ''makeslice: len out of range'')
              else Inr (Some (take (nat size) (p # slice clr2sites))))"

definition new_site :: "callsite \<Rightarrow> origins \<Rightarrow> nat \<times> origins" where
  "new_site s a = (next_site a, a\<lparr>site_store := (site_store a)(next_site a := s), next_site := next_site a + 1\<rparr>)"

section \<open>Existing contexts\<close>

text \<open>The first call-graph node of the list that the test accepts.\<close>

fun find_context :: "(cgnode \<Rightarrow> bool go_result) \<Rightarrow> cgnode list \<Rightarrow> int list \<Rightarrow> (int \<times> nodeid) option go_result" where
  "find_context f cgs [] = Inr None"
| "find_context f cgs (i # is) =
     bindR (nth_go cgs i) (\<lambda>c. bindR (f c) (\<lambda>b. if b then Inr (Some (i, cg_obj c)) else find_context f cgs is))"

text \<open>The four results: indices, whether the function has nodes, the object found, whether it is new.\<close>

type_synonym exist_result = "int list \<times> bool \<times> nodeid \<times> bool"

definition exist_with :: "(cgnode \<Rightarrow> bool go_result) \<Rightarrow> fn_ref \<Rightarrow> origins \<Rightarrow> exist_result go_result" where
  "exist_with f fn a =
     (case fn2cgnodeIdx a fn of
        None \<Rightarrow> Inr ([], False, 0, True)
      | Some idxs \<Rightarrow>
          bindR (find_context f (cgnodes a) idxs) (\<lambda>r.
            case r of None \<Rightarrow> Inr (idxs, True, 0, True) | Some (i, n) \<Rightarrow> Inr ([i], True, n, False)))"

definition existContextFor :: "origin_env \<Rightarrow> fn_ref \<Rightarrow> cgnode \<Rightarrow> origins \<Rightarrow> exist_result go_result" where
  "existContextFor e fn clr a =
     exist_with (\<lambda>c. Inr (equalCallSite (o_text e) (site_store a) (callersite c) (callersite clr))) fn a"

fun equalContextForComb_loop ::
  "origin_env \<Rightarrow> site_heap \<Rightarrow> nat \<Rightarrow> site_ptr list \<Rightarrow> site_ptr \<Rightarrow> site_ptr list \<Rightarrow> int \<Rightarrow> bool go_result" where
  "equalContextForComb_loop e h i [] csite curs l = Inr True"
| "equalContextForComb_loop e h i (x # xs) csite curs l =
     (case i of
        0 \<Rightarrow>
          if l = 0 then Inr (equal_site (o_text e) h x csite)
          else if loopEqual (o_text e) h csite x then bindR (site_of h x) (\<lambda>s. Inr (loopID s = l)) else Inr False
      | Suc j \<Rightarrow>
          bindR (nth_go curs (int j)) (\<lambda>c.
            if \<not> equal_site (o_text e) h x c then Inr False else equalContextForComb_loop e h (Suc i) xs csite curs l))"

definition equalContextForComb :: "origin_env \<Rightarrow> site_heap \<Rightarrow> ctx \<Rightarrow> site_ptr \<Rightarrow> ctx \<Rightarrow> int \<Rightarrow> bool go_result" where
  "equalContextForComb e h existCSs csite curCallerCSs l =
     equalContextForComb_loop e h 0 (slice existCSs) csite (slice curCallerCSs) l"

definition existContextForComb :: "origin_env \<Rightarrow> fn_ref \<Rightarrow> site_ptr \<Rightarrow> cgnode \<Rightarrow> int \<Rightarrow> origins \<Rightarrow> exist_result go_result" where
  "existContextForComb e fn cs clr l a =
     exist_with (\<lambda>c. equalContextForComb e (site_store a) (callersite c) cs (callersite clr) l) fn a"

definition is_go :: "origin_env \<Rightarrow> nat option \<Rightarrow> bool" where
  "is_go e i = (case i of None \<Rightarrow> False | Some x \<Rightarrow> (case ssa_program.obj (o_prog e) x of Go _ \<Rightarrow> True | _ \<Rightarrow> False))"

text \<open>The code reads the instruction of the call site before it tests that for nil.\<close>

definition existContext :: "origin_env \<Rightarrow> fn_ref \<Rightarrow> site_ptr \<Rightarrow> cgnode \<Rightarrow> int \<Rightarrow> origins \<Rightarrow> exist_result go_result" where
  "existContext e fn cs clr l a =
     bindR (site_of (site_store a) cs) (\<lambda>s.
       if is_go e (instr s) then existContextForComb e fn cs clr l a else existContextFor e fn clr a)"

text \<open>The closure objects made for a call site; \<^verbatim>\<open>goEqual\<close> sites count towards the limit of two.\<close>

type_synonym closure_ids = "(site_ptr \<times> nodeid list) list"

fun existClosure_loop ::
  "call_text \<Rightarrow> site_heap \<Rightarrow> site_ptr \<Rightarrow> nat \<times> nodeid list \<Rightarrow> closure_ids \<Rightarrow> nodeid list option" where
  "existClosure_loop t h cs (cnt, goIDs) [] = (if cnt \<ge> 2 then Some goIDs else None)"
| "existClosure_loop t h cs (cnt, goIDs) ((st, ids) # es) =
     (if cs = st \<or> loopEqual t h cs st then Some ids
      else existClosure_loop t h cs (if goEqual h cs st then (cnt + 1, ids) else (cnt, goIDs)) es)"

definition existClosure :: "origin_env \<Rightarrow> fn_ref \<Rightarrow> site_ptr \<Rightarrow> origins \<Rightarrow> nodeid list \<times> bool \<times> closure_ids option" where
  "existClosure e fn cs a =
     (case map_of (closures a) fn of
        None \<Rightarrow> ([], False, None)
      | Some c2id \<Rightarrow>
          (case existClosure_loop (o_text e) (site_store a) cs (0, []) c2id of
             Some ids \<Rightarrow> (ids, True, Some c2id)
           | None \<Rightarrow> ([], False, Some c2id)))"

section \<open>New call-graph nodes\<close>

definition blank_cgnode :: "fn_ref \<Rightarrow> nodeid \<Rightarrow> ctx \<Rightarrow> cgnode" where
  "blank_cgnode fn n c =
     \<lparr>cg_fn = fn, cg_obj = n, sites = [], callersite = c, cg_idx = 0, actualCallerSite = None, localval = None, localobj = None\<rparr>"

text \<open>The context of a closure that a go statement runs next, or that of the caller.\<close>

definition closure_context :: "origin_env \<Rightarrow> cgnode \<Rightarrow> ref option \<Rightarrow> nodeid \<Rightarrow> int \<Rightarrow> origins \<Rightarrow> (ctx \<times> origins) go_result" where
  "closure_context e clr cl n l a =
     (case cl of
        None \<Rightarrow> Inl NilDereference
      | Some c \<Rightarrow>
          bindR (isGoNext (o_prog e) c) (\<lambda>g.
            case g of
              Some gi \<Rightarrow>
                (case new_site \<lparr>targets = n, instr = None, loopID = l, goInstr = Some gi\<rparr> a of
                   (p, a) \<Rightarrow> bindR (createKCallSite e (callersite clr) (Some p)) (\<lambda>k. Inr (k, a)))
            | None \<Rightarrow>
                bindR (consumeMakeClosureNext (o_prog e) c) (\<lambda>consumed.
                  Inr (callersite clr, if consumed then a else a\<lparr>closureWOGo := AList.update n n (closureWOGo a)\<rparr>))))"

text \<open>A go statement without a closure marks its call site; in a loop the context gets a copy of it.\<close>

definition go_context :: "origin_env \<Rightarrow> cgnode \<Rightarrow> nat \<Rightarrow> int \<Rightarrow> origins \<Rightarrow> (ctx \<times> origins) go_result" where
  "go_context e clr x l a =
     (let a = a\<lparr>site_store := (site_store a)(x := (site_store a x)\<lparr>goInstr := instr (site_store a x)\<rparr>)\<rparr>;
          s = site_store a x;
          (p, a) = (if l > 0 then new_site \<lparr>targets = targets s, instr = instr s, loopID = l, goInstr = goInstr s\<rparr> a else (x, a))
      in bindR (createKCallSite e (callersite clr) (Some p)) (\<lambda>k. Inr (k, a\<lparr>numOrigins := numOrigins a + 1\<rparr>)))"

definition origin_context :: "origin_env \<Rightarrow> cgnode \<Rightarrow> site_ptr \<Rightarrow> ref option \<Rightarrow> nodeid \<Rightarrow> int \<Rightarrow> origins \<Rightarrow> (ctx \<times> origins) go_result" where
  "origin_context e clr cs cl n l a =
     (case cs of
        None \<Rightarrow> closure_context e clr cl n l a
      | Some x \<Rightarrow>
          if is_go e (instr (site_store a x)) then go_context e clr x l a else Inr (callersite clr, a))"

definition kcfa_context :: "origin_env \<Rightarrow> cgnode \<Rightarrow> site_ptr \<Rightarrow> nodeid \<Rightarrow> origins \<Rightarrow> (ctx \<times> origins) go_result" where
  "kcfa_context e clr cs n a =
     (case cs of
        None \<Rightarrow>
          (case new_site \<lparr>targets = n, instr = None, loopID = 0, goInstr = None\<rparr> a of
             (p, a) \<Rightarrow> bindR (createKCallSite e (callersite clr) (Some p)) (\<lambda>k. Inr (k, a)))
      | Some x \<Rightarrow>
          bindR (first_site (callersite clr)) (\<lambda>c.
            if c = None then Inr (createSingleCallSite cs, a)
            else bindR (createKCallSite e (callersite clr) cs) (\<lambda>k. Inr (k, a))))"

definition fn_context :: "origin_env \<Rightarrow> fn_ref \<Rightarrow> cgnode \<Rightarrow> site_ptr \<Rightarrow> ref option \<Rightarrow> nodeid \<Rightarrow> int \<Rightarrow> origins \<Rightarrow> (ctx \<times> origins) go_result" where
  "fn_context e fn clr cs cl n l a =
     (if main_fn e = fn then Inr (createSingleCallSite cs, a)
      else if cfg_Origin e then origin_context e clr cs cl n l a
      else if cfg_CallSiteSensitive e then kcfa_context e clr cs n a
      else Inl (ExplicitPanic ''NO SELECTED MY CONTEXT IN a.config. GO SELECT ONE.''))"

definition makeCGNodeAndRelated ::
  "origin_env \<Rightarrow> fn_ref \<Rightarrow> cgnode \<Rightarrow> site_ptr \<Rightarrow> ref option \<Rightarrow> int \<Rightarrow> origins \<Rightarrow> (nodeid \<times> int \<times> origins) go_result" where
  "makeCGNodeAndRelated e fn clr cs cl l a =
     (let n = nextNode (graph a)
      in bindR (fn_context e fn clr cs cl n l a) (\<lambda>(k, a).
           let idx = int (length (cgnodes a));
               a = a\<lparr>IsFromApp := (IsFromApp a)(fn := True), cgnodes := cgnodes a @ [(blank_cgnode fn n k)\<lparr>cg_idx := idx\<rparr>]\<rparr>
           in bindR (makeParamResultNodes (o_layout e) (sig_of e fn) n (graph a)) (\<lambda>g.
                Inr (n, idx, a\<lparr>graph := g, genq := genq a @ [idx]\<rparr>))))"

definition updateFn2NodeID :: "fn_ref \<Rightarrow> bool \<Rightarrow> int list \<Rightarrow> int list \<Rightarrow> origins \<Rightarrow> origins" where
  "updateFn2NodeID fn multiFn newIdx existIdx a =
     a\<lparr>fn2cgnodeIdx := (fn2cgnodeIdx a)(fn \<mapsto> if multiFn then existIdx @ filter (\<lambda>i. i \<noteq> 0) newIdx else newIdx)\<rparr>"

definition makeFunctionObjectWithContext ::
  "origin_env \<Rightarrow> cgnode \<Rightarrow> fn_ref \<Rightarrow> site_ptr \<Rightarrow> ref option \<Rightarrow> int \<Rightarrow> origins \<Rightarrow> (nodeid \<times> bool \<times> origins) go_result" where
  "makeFunctionObjectWithContext e clr fn cs cl l a =
     (if cfg_Origin e \<and> cs = None \<and> cl \<noteq> None
      then bindR (makeCGNodeAndRelated e fn clr None cl l a) (\<lambda>(n, _, a). Inr (n, True, a))
      else bindR (if cfg_Origin e then existContext e fn cs clr l a
                  else if cfg_CallSiteSensitive e then existContextForComb e fn cs clr (-1) a
                  else Inl (ExplicitPanic ''NO SELECTED MY CONTEXT IN a.config. GO SELECT ONE.'')) (\<lambda>(idxs, multi, found, isNew).
             if \<not> isNew then Inr (found, isNew, a)
             else bindR (makeCGNodeAndRelated e fn clr cs None l a) (\<lambda>(n, idx, a).
                    Inr (n, True, updateFn2NodeID fn multi [idx] idxs a))))"

section \<open>Comparisons\<close>

lemma equal_site_refl: "equal_site t h c c"
  by (auto simp: equal_site_def split: option.splits)

lemma equal_prefix_refl: "equal_prefix t h cs cs"
  by (induction cs) (simp_all add: equal_site_refl)

lemma equalCallSite_refl: "equalCallSite t h c c"
  by (simp add: equalCallSite_def equal_prefix_refl)

text \<open>The heaps agree on what the comparisons read of the call sites below \<open>n\<close>.\<close>

definition same_sites :: "nat \<Rightarrow> site_heap \<Rightarrow> site_heap \<Rightarrow> bool" where
  "same_sites n h h' \<longleftrightarrow> (\<forall>x < n. targets (h' x) = targets (h x) \<and> instr (h' x) = instr (h x) \<and> loopID (h' x) = loopID (h x))"

definition below :: "nat \<Rightarrow> site_ptr list \<Rightarrow> bool" where
  "below n ps \<longleftrightarrow> (\<forall>x. Some x \<in> set ps \<longrightarrow> x < n)"

lemma equal_site_cong:
  assumes "same_sites n h h'" "below n [c, o']"
  shows "equal_site t h' c o' = equal_site t h c o'" "loopEqual t h' c o' = loopEqual t h c o'"
  using assms by (auto simp: equal_site_def loopEqual_def same_sites_def below_def split: option.splits)

lemma equal_prefix_cong:
  "same_sites n h h' \<Longrightarrow> below n cs \<Longrightarrow> below n ds \<Longrightarrow> equal_prefix t h' cs ds = equal_prefix t h cs ds"
proof (induction t h cs ds rule: equal_prefix.induct)
  case (1 t h a as b bs)
  have "equal_site t h' a b = equal_site t h a b" by (rule equal_site_cong(1) [OF 1(2)]) (use 1(3,4) in \<open>auto simp: below_def\<close>)
  then show ?case using 1 by (auto simp: below_def)
qed simp_all

text \<open>Only the most recent call site of a context is compared with that of the go statement.\<close>

lemma comb_first: "equalContextForComb_loop e h 0 (x # xs) cs curs l = equalContextForComb_loop e h 0 [x] cs [] l"
  by simp

lemma comb_cong:
  assumes "same_sites n h h'" "below n (cs # slice ctx)"
  shows "equalContextForComb e h' ctx cs c2 l = equalContextForComb e h ctx cs c2 l"
proof (cases "slice ctx")
  case (Cons x xs)
  have b: "below n [x, cs]" "below n [cs, x]" using assms(2) Cons by (auto simp: below_def)
  have "site_of h' x = Inr s' \<Longrightarrow> \<exists>s. site_of h x = Inr s \<and> loopID s = loopID s'" for s'
    using assms(1) b by (auto simp: site_of_def same_sites_def below_def split: option.splits)
  then have "bindR (site_of h' x) (\<lambda>s. Inr (loopID s = l)) = bindR (site_of h x) (\<lambda>s. Inr (loopID s = l))"
    by (cases x) (use assms(1) b in \<open>auto simp: site_of_def same_sites_def below_def\<close>)
  then show ?thesis using equal_site_cong [OF assms(1) b(1)] equal_site_cong [OF assms(1) b(2)] Cons
    by (simp add: equalContextForComb_def)
qed (simp add: equalContextForComb_def)

section \<open>Contexts are found again\<close>

lemma find_context_append:
  assumes f: "\<And>c. c \<in> set cgs \<Longrightarrow> f' c = f c"
  shows "find_context f cgs idxs = Inr None \<Longrightarrow> find_context f' (cgs @ [d]) (idxs @ [int (length cgs)]) =
    bindR (f' d) (\<lambda>b. Inr (if b then Some (int (length cgs), cg_obj d) else None))"
proof (induction idxs)
  case Nil
  have "nth_go (cgs @ [d]) (int (length cgs)) = Inr d" by (simp add: nth_go_def)
  then show ?case by (cases "f' d") auto
next
  case (Cons i idxs)
  then obtain c where c: "nth_go cgs i = Inr c" "f c = Inr False" "find_context f cgs idxs = Inr None"
    by (auto simp: bindR_eq_Inr_iff split: if_splits)
  then have "c \<in> set cgs" "nth_go (cgs @ [d]) i = Inr c" by (auto simp: nth_go_def nth_append split: if_splits)
  then show ?case using Cons.IH [OF c(3)] c(2) f by simp
qed

lemma exist_with_new:
  assumes "exist_with f fn a = Inr (idxs, multi, n, True)"
  shows "find_context f (cgnodes a) (if multi then idxs else []) = Inr None"
proof (cases "fn2cgnodeIdx a fn")
  case (Some js)
  then obtain r where r: "find_context f (cgnodes a) js = Inr r"
      "(case r of None \<Rightarrow> Inr (js, True, 0, True) | Some (i, n) \<Rightarrow> Inr ([i], True, n, False)) = (Inr (idxs, multi, n, True) :: exist_result go_result)"
    using assms by (auto simp: exist_with_def bindR_eq_Inr_iff)
  then show ?thesis by (cases r) auto
qed (use assms in \<open>simp add: exist_with_def\<close>)

text \<open>The contexts of all nodes only hold allocated call sites.\<close>

definition sites_ok :: "origins \<Rightarrow> bool" where
  "sites_ok a \<longleftrightarrow> (\<forall>c \<in> set (cgnodes a). below (next_site a) (slice (callersite c)))"

lemma createKCallSite_first: "1 \<le> cfg_K e \<Longrightarrow> createKCallSite e c p = Inr k \<Longrightarrow> \<exists>rest. k = Some (p # rest)"
proof -
  assume K: "1 \<le> cfg_K e" and o: "createKCallSite e c p = Inr k"
  have "0 < nat (min (cfg_K e) (1 + int (length (slice c))))" using K by simp
  then obtain m where m: "nat (min (cfg_K e) (1 + int (length (slice c)))) = Suc m" by (auto simp: gr0_conv_Suc)
  show "\<exists>rest. k = Some (p # rest)"
    using o m unfolding createKCallSite_def Let_def createSingleCallSite_def by (auto split: if_splits)
qed

definition copy_of :: "int \<Rightarrow> callsite \<Rightarrow> callsite \<Rightarrow> bool" where
  "copy_of l s s' \<longleftrightarrow> targets s' = targets s \<and> instr s' = instr s \<and> loopID s' = l"

lemma go_context_facts:
  assumes o: "go_context e clr x l a = Inr (k, b)" and x: "x < next_site a" and K: "1 \<le> cfg_K e"
  shows "cgnodes b = cgnodes a" "fn2cgnodeIdx b = fn2cgnodeIdx a" "graph b = graph a" "genq b = genq a"
    "same_sites (next_site a) (site_store a) (site_store b)"
    "\<exists>p rest. k = Some (Some p # rest) \<and> (if l > 0 then copy_of l (site_store a x) (site_store b p) else p = x)"
proof -
  show "cgnodes b = cgnodes a" "fn2cgnodeIdx b = fn2cgnodeIdx a" "graph b = graph a" "genq b = genq a"
    "same_sites (next_site a) (site_store a) (site_store b)"
    using o x by (auto simp: go_context_def new_site_def Let_def same_sites_def bindR_eq_Inr_iff split: if_splits)
  show "\<exists>p rest. k = Some (Some p # rest) \<and> (if l > 0 then copy_of l (site_store a x) (site_store b p) else p = x)"
  proof (cases "l > 0")
    case True
    then have "createKCallSite e (callersite clr) (Some (next_site a)) = Inr k"
      using o by (auto simp: go_context_def new_site_def Let_def bindR_eq_Inr_iff)
    then obtain rest where "k = Some (Some (next_site a) # rest)" using createKCallSite_first [OF K] by blast
    moreover have "copy_of l (site_store a x) (site_store b (next_site a))"
      using o x True by (auto simp: go_context_def new_site_def Let_def bindR_eq_Inr_iff copy_of_def)
    ultimately show ?thesis using True by auto
  next
    case False
    then have "createKCallSite e (callersite clr) (Some x) = Inr k" using o by (auto simp: go_context_def Let_def bindR_eq_Inr_iff)
    then show ?thesis using False createKCallSite_first [OF K] by auto
  qed
qed

text \<open>The context made for a go statement is found again by its comparison.\<close>

lemma go_context_found:
  assumes o: "go_context e clr x l a = Inr (k, b)" and x: "x < next_site a" and K: "1 \<le> cfg_K e"
    and l: "0 \<le> l" "0 < l \<Longrightarrow> loopID (site_store a x) = 0"
  shows "equalContextForComb e (site_store b) k (Some x) c2 l = Inr True"
proof -
  note f = go_context_facts [OF o x K]
  obtain p rest where k: "k = Some (Some p # rest)" "if l > 0 then copy_of l (site_store a x) (site_store b p) else p = x"
    using f(6) by blast
  have h: "instr (site_store b x) = instr (site_store a x)" "loopID (site_store b x) = loopID (site_store a x)"
    "targets (site_store b x) = targets (site_store a x)" using f(5) x by (simp_all add: same_sites_def)
  show ?thesis
  proof (cases "l = 0")
    case True
    then show ?thesis using k equal_site_refl by (simp add: equalContextForComb_def slice_def)
  next
    case False
    then have c: "copy_of l (site_store a x) (site_store b p)" "loopID (site_store a x) = 0" using k(2) l by auto
    then have "loopEqual (o_text e) (site_store b) (Some x) (Some p)"
      using h by (simp add: loopEqual_def copy_of_def split: option.splits)
    then show ?thesis using k(1) c(1) False by (simp add: equalContextForComb_def slice_def site_of_def copy_of_def)
  qed
qed

text \<open>A new node: what was there before, and the node at the end.\<close>

lemma makeCGNode_facts:
  assumes o: "makeCGNodeAndRelated e fn clr cs cl l a = Inr (n, idx, b)"
  shows "\<exists>k a1 d. fn_context e fn clr cs cl n l a = Inr (k, a1) \<and> n = nextNode (graph a) \<and> cgnodes b = cgnodes a1 @ [d] \<and>
    callersite d = k \<and> cg_obj d = n \<and> cg_idx d = idx \<and> idx = int (length (cgnodes a1)) \<and> site_store b = site_store a1 \<and>
    fn2cgnodeIdx b = fn2cgnodeIdx a1 \<and> makeParamResultNodes (o_layout e) (sig_of e fn) n (graph a1) = Inr (graph b)"
  using o by (auto simp: makeCGNodeAndRelated_def Let_def bindR_eq_Inr_iff blank_cgnode_def)

section \<open>The same call, again\<close>

definition test_for :: "origin_env \<Rightarrow> site_heap \<Rightarrow> nat \<Rightarrow> cgnode \<Rightarrow> int \<Rightarrow> cgnode \<Rightarrow> bool go_result" where
  "test_for e h x clr l c =
     (if is_go e (instr (h x)) then equalContextForComb e h (callersite c) (Some x) (callersite clr) l
      else Inr (equalCallSite (o_text e) h (callersite c) (callersite clr)))"

lemma existContext_test: "existContext e fn (Some x) clr l a = exist_with (test_for e (site_store a) x clr l) fn a"
  by (simp add: existContext_def site_of_def existContextForComb_def existContextFor_def test_for_def [abs_def])

text \<open>The origin context of a call: the heap keeps what comparisons read, and the comparison accepts it.\<close>

lemma origin_context_facts:
  assumes o: "origin_context e clr (Some x) None n l a = Inr (k, b)" and x: "x < next_site a" and K: "1 \<le> cfg_K e"
    and l: "0 \<le> l" "0 < l \<Longrightarrow> loopID (site_store a x) = 0"
  shows "cgnodes b = cgnodes a" "fn2cgnodeIdx b = fn2cgnodeIdx a" "graph b = graph a" "genq b = genq a"
    "same_sites (next_site a) (site_store a) (site_store b)"
    "callersite d = k \<Longrightarrow> test_for e (site_store b) x clr l d = Inr True"
proof -
  have "instr (site_store b x) = instr (site_store a x)" if "go_context e clr x l a = Inr (k, b)"
    using go_context_facts(5) [OF that x K] x by (simp add: same_sites_def)
  then show "cgnodes b = cgnodes a" "fn2cgnodeIdx b = fn2cgnodeIdx a" "graph b = graph a" "genq b = genq a"
    "same_sites (next_site a) (site_store a) (site_store b)"
    "callersite d = k \<Longrightarrow> test_for e (site_store b) x clr l d = Inr True"
    using o go_context_facts [OF _ x K, of clr l k b] go_context_found [OF _ x K l, of clr k b]
    by (auto simp: origin_context_def test_for_def equalCallSite_refl same_sites_def split: if_splits)
qed

lemma test_for_cong:
  assumes "same_sites n h h'" "below n (slice (callersite c))" "below n (slice (callersite clr))" "x < n"
  shows "test_for e h' x clr l c = test_for e h x clr l c"
proof -
  have "instr (h' x) = instr (h x)" using assms(1,4) by (simp add: same_sites_def)
  moreover have "below n (Some x # slice (callersite c))" using assms(2,4) by (auto simp: below_def)
  ultimately show ?thesis
    using comb_cong [OF assms(1)] equal_prefix_cong [OF assms(1-3)] by (simp add: test_for_def equalCallSite_def)
qed

lemma context_found_again:
  assumes e: "cfg_Origin e" "1 \<le> cfg_K e" "fn \<noteq> main_fn e"
    and a: "sites_ok a" "cgnodes a \<noteq> []" "below (next_site a) (slice (callersite clr))" "x < next_site a"
    and l: "0 \<le> l" "0 < l \<Longrightarrow> loopID (site_store a x) = 0"
    and o: "makeFunctionObjectWithContext e clr fn (Some x) cl l a = Inr (n, new, b)"
  shows "makeFunctionObjectWithContext e clr fn (Some x) cl l b = Inr (n, False, b)"
proof -
  obtain idxs multi found isNew where ex: "exist_with (test_for e (site_store a) x clr l) fn a = Inr (idxs, multi, found, isNew)"
    using o e(1) by (auto simp: makeFunctionObjectWithContext_def existContext_test bindR_eq_Inr_iff)
  show ?thesis
  proof (cases isNew)
    case False
    then have "n = found" "b = a" using o e(1) ex by (auto simp: makeFunctionObjectWithContext_def existContext_test)
    then show ?thesis using ex False e(1) by (simp add: makeFunctionObjectWithContext_def existContext_test)
  next
    case True
    then obtain idx b0 where m: "makeCGNodeAndRelated e fn clr (Some x) None l a = Inr (n, idx, b0)" "b = updateFn2NodeID fn multi [idx] idxs b0"
      using o e(1) ex by (auto simp: makeFunctionObjectWithContext_def existContext_test bindR_eq_Inr_iff)
    obtain k a1 d where d: "fn_context e fn clr (Some x) None n l a = Inr (k, a1)" "cgnodes b0 = cgnodes a1 @ [d]" "callersite d = k"
        "cg_obj d = n" "idx = int (length (cgnodes a1))" "site_store b0 = site_store a1" "fn2cgnodeIdx b0 = fn2cgnodeIdx a1"
      using makeCGNode_facts [OF m(1)] by blast
    have oc: "origin_context e clr (Some x) None n l a = Inr (k, a1)" using d(1) e by (simp add: fn_context_def)
    note f = origin_context_facts [OF oc a(4) e(2) l]
    have cong: "test_for e (site_store b) x clr l c = test_for e (site_store a) x clr l c" if "c \<in> set (cgnodes a)" for c
      using test_for_cong [OF f(5) _ a(3,4)] that a(1) d(6) m(2) by (simp add: sites_ok_def updateFn2NodeID_def)
    have old: "find_context (test_for e (site_store a) x clr l) (cgnodes a) (if multi then idxs else []) = Inr None"
      using exist_with_new ex True by simp
    have tr: "test_for e (site_store b) x clr l d = Inr True" using f(6) [of d] d(3,6) m(2) by (simp add: updateFn2NodeID_def)
    have i: "idx = int (length (cgnodes a))" "idx \<noteq> 0" using d(5) f(1) a(2) by simp_all
    have fc: "find_context (test_for e (site_store b) x clr l) (cgnodes b) ((if multi then idxs else []) @ [idx]) = Inr (Some (idx, n))"
      using find_context_append [OF cong old, of d] tr d(2,4) f(1) i(1) m(2) by (simp add: updateFn2NodeID_def)
    have "fn2cgnodeIdx b fn = Some ((if multi then idxs else []) @ [idx])" using m(2) i(2) by (simp add: updateFn2NodeID_def)
    then have "exist_with (test_for e (site_store b) x clr l) fn b = Inr ([idx], True, n, False)"
      using fc by (simp add: exist_with_def)
    then show ?thesis using e(1) by (simp add: makeFunctionObjectWithContext_def existContext_test)
  qed
qed

section \<open>Function objects\<close>

definition function_at :: "solver \<Rightarrow> nodeid \<Rightarrow> bool" where
  "function_at g n \<longleftrightarrow> is_node g n \<and> (\<exists>ob. obj (nodes g ! unat n) = Some ob \<and> flags ob = otFunction)"

text \<open>
  The nodes are blocks of objects among others, and the call-graph nodes are numbered by their positions and
  point to function objects; the root has none.
\<close>

definition contours_ok :: "origins \<Rightarrow> bool" where
  "contours_ok a \<longleftrightarrow>
     numbered (nodes (graph a)) \<and>
     (\<forall>i < length (cgnodes a). cg_idx (cgnodes a ! i) = int i \<and>
        (cg_obj (cgnodes a ! i) = 0 \<or> function_at (graph a) (cg_obj (cgnodes a ! i))))"

lemma fn_context_frame:
  assumes "fn_context e fn clr cs cl n l a = Inr (k, b)"
  shows "cgnodes b = cgnodes a" "graph b = graph a" "fn2cgnodeIdx b = fn2cgnodeIdx a"
  using assms
  by (auto simp: fn_context_def origin_context_def closure_context_def go_context_def kcfa_context_def new_site_def
      Let_def bindR_eq_Inr_iff split: if_splits option.splits)

lemma object_added_function:
  assumes o: "object_added otFunction ts a b" "length (nodes a) + length ts < 2 ^ 32"
  shows "function_at b (nextNode a)" "function_at a m \<Longrightarrow> function_at b m"
proof -
  obtain n ns where n: "nodes b = nodes a @ n # ns" "obj n = Some \<lparr>flags = otFunction, obj_size = of_nat (length ts)\<rparr>"
    using o(1) by (auto simp: object_added_def)
  have "unat (nextNode a) = length (nodes a)" using o(2) by (simp add: nextNode_def unat_of_nat)
  then show "function_at b (nextNode a)" using n by (simp add: function_at_def is_node_def)
  show "function_at a m \<Longrightarrow> function_at b m" using n(1) by (auto simp: function_at_def is_node_def nth_append)
qed

lemma makeCGNode_contours:
  assumes o: "makeCGNodeAndRelated e fn clr cs cl l a = Inr (n, idx, b)" and c: "contours_ok a"
    and l: "length (nodes (graph a)) + length (sig_fields (o_layout e) (sig_of e fn)) < 2 ^ 32"
  shows "contours_ok b" "n = nextNode (graph a)" "function_at (graph b) n" "fresh (graph a) \<Longrightarrow> fresh (graph b)"
    "constraints (graph b) = constraints (graph a)"
proof -
  obtain k a1 d where d: "fn_context e fn clr cs cl n l a = Inr (k, a1)" "n = nextNode (graph a)" "cgnodes b = cgnodes a1 @ [d]"
      "cg_obj d = n" "cg_idx d = idx" "idx = int (length (cgnodes a1))"
      "makeParamResultNodes (o_layout e) (sig_of e fn) n (graph a1) = Inr (graph b)"
    using makeCGNode_facts [OF o] by blast
  note f = fn_context_frame [OF d(1)]
  have "makeFunctionNodes (o_layout e) (sig_of e fn) (graph a) = Inr (nextNode (graph a), graph b)"
    using d(2,7) f(2) by (simp add: makeFunctionNodes_def)
  then have ad: "object_added otFunction (sig_fields (o_layout e) (sig_of e fn)) (graph a) (graph b)"
    using makeFunctionNodes_added [OF l] by auto
  show "n = nextNode (graph a)" by (rule d(2))
  show fn: "function_at (graph b) n" using object_added_function(1) [OF ad l] d(2) by simp
  show "fresh (graph a) \<Longrightarrow> fresh (graph b)" "constraints (graph b) = constraints (graph a)" using ad by (simp_all add: object_added_def)
  have "numbered (nodes (graph b))" by (rule object_added_numbered [OF ad _ l]) (use c in \<open>simp add: contours_ok_def\<close>)
  moreover have "cg_idx (cgnodes b ! i) = int i \<and> (cg_obj (cgnodes b ! i) = 0 \<or> function_at (graph b) (cg_obj (cgnodes b ! i)))"
    if i: "i < length (cgnodes b)" for i
  proof (cases "i < length (cgnodes a)")
    case True
    then show ?thesis using c d(3) f(1) object_added_function(2) [OF ad l] by (simp add: contours_ok_def nth_append) blast
  next
    case False
    then have "i = length (cgnodes a)" using i d(3) f(1) by simp
    then show ?thesis using d(3-6) f(1) fn by simp
  qed
  ultimately show "contours_ok b" by (simp add: contours_ok_def)
qed

lemma updateFn2NodeID_contours: "contours_ok (updateFn2NodeID fn m i j a) = contours_ok a" "graph (updateFn2NodeID fn m i j a) = graph a"
  by (simp_all add: contours_ok_def updateFn2NodeID_def)

lemma makeFunctionObject_cases:
  assumes o: "makeFunctionObjectWithContext e clr fn cs cl l a = Inr (n, new, b)"
  shows "(\<not> new \<and> b = a) \<or>
    (new \<and> (\<exists>cl' idx b0. makeCGNodeAndRelated e fn clr cs cl' l a = Inr (n, idx, b0) \<and> (b = b0 \<or> (\<exists>m i j. b = updateFn2NodeID fn m i j b0))))"
proof (cases "cfg_Origin e \<and> cs = None \<and> cl \<noteq> None")
  case True
  then show ?thesis using o by (auto simp: makeFunctionObjectWithContext_def bindR_eq_Inr_iff)
next
  case False
  then obtain idxs m found isNew where
    r: "(if \<not> isNew then Inr (found, isNew, a)
         else bindR (makeCGNodeAndRelated e fn clr cs None l a) (\<lambda>(n, idx, a). Inr (n, True, updateFn2NodeID fn m [idx] idxs a))) = Inr (n, new, b)"
    using o unfolding makeFunctionObjectWithContext_def by (auto simp: bindR_eq_Inr_iff)
  show ?thesis
  proof (cases isNew)
    case True
    then obtain idx b0 where "makeCGNodeAndRelated e fn clr cs None l a = Inr (n, idx, b0)" "new" "b = updateFn2NodeID fn m [idx] idxs b0"
      using r by (auto simp: bindR_eq_Inr_iff)
    then show ?thesis by blast
  qed (use r in simp)
qed

lemma makeFunctionObject_contours:
  assumes o: "makeFunctionObjectWithContext e clr fn cs cl l a = Inr (n, new, b)" and c: "contours_ok a"
    and l: "length (nodes (graph a)) + length (sig_fields (o_layout e) (sig_of e fn)) < 2 ^ 32"
  shows "contours_ok b \<and> (fresh (graph a) \<longrightarrow> fresh (graph b)) \<and> constraints (graph b) = constraints (graph a) \<and>
    (if new then n = nextNode (graph a) \<and> function_at (graph b) n else b = a)"
proof -
  from makeFunctionObject_cases [OF o] show ?thesis
  proof
    assume "\<not> new \<and> b = a"
    then show ?thesis using c by simp
  next
    assume "new \<and> (\<exists>cl' idx b0. makeCGNodeAndRelated e fn clr cs cl' l a = Inr (n, idx, b0) \<and> (b = b0 \<or> (\<exists>m i j. b = updateFn2NodeID fn m i j b0)))"
    then obtain cl' idx b0 where new: "new" "makeCGNodeAndRelated e fn clr cs cl' l a = Inr (n, idx, b0)"
      and b: "b = b0 \<or> (\<exists>m i j. b = updateFn2NodeID fn m i j b0)" by blast
    have "contours_ok b = contours_ok b0" "graph b = graph b0" using b updateFn2NodeID_contours by auto
    then show ?thesis using makeCGNode_contours [OF new(2) c l] new(1) by simp
  qed
qed

end
