(* ===== verification/Pointer_Callgraph.thy ===== *)
theory Pointer_Callgraph
  imports Pointer_Origins
begin

text \<open>
  The call graph for the clients of the pointer analysis (\<^verbatim>\<open>GraphWCtx\<close> of
  \<^verbatim>\<open>gopta/go/pointer/callgraph.go\<close>) and the propagation of actual calling contexts along it
  (\<^verbatim>\<open>analysis.go\<close>). Nodes and edges are records on a heap; an edge is listed by its caller and its callee.
  Call-graph nodes of the analysis are indices into its list of them.
\<close>

section \<open>The graph\<close>

record gnode =
  g_cgn :: nat
  g_id :: int
  g_in :: "nat list"
  g_out :: "nat list"

record gedge =
  e_caller :: nat
  e_site :: "nat option"
  e_callee :: nat

record callgraph =
  g_root :: nat
  g_nodes :: "(nat \<times> nat) list"
  Fn2CGNode :: "(fn_ref \<times> nat list) list"
  numEdges :: int
  node_at :: "nat \<Rightarrow> gnode"
  edge_at :: "nat \<Rightarrow> gedge"
  next_gnode :: nat
  next_gedge :: nat

definition set_node :: "nat \<Rightarrow> gnode \<Rightarrow> callgraph \<Rightarrow> callgraph" where
  "set_node n v g = g\<lparr>node_at := (node_at g)(n := v)\<rparr>"

definition GetNodeWCtx :: "callgraph \<Rightarrow> nat \<Rightarrow> nat option" where
  "GetNodeWCtx g c = map_of (g_nodes g) c"

definition CreateNodeWCtx :: "nat \<Rightarrow> callgraph \<Rightarrow> nat \<times> callgraph" where
  "CreateNodeWCtx c g =
     (case GetNodeWCtx g c of
        Some n \<Rightarrow> (n, g)
      | None \<Rightarrow>
          let n = next_gnode g
          in (n, (set_node n \<lparr>g_cgn = c, g_id = int (length (g_nodes g)), g_in = [], g_out = []\<rparr> g)
                   \<lparr>g_nodes := g_nodes g @ [(c, n)], next_gnode := n + 1\<rparr>))"

definition empty_graph :: callgraph where
  "empty_graph = \<lparr>g_root = 0, g_nodes = [], Fn2CGNode = [], numEdges = 0, node_at = (\<lambda>_. \<lparr>g_cgn = 0, g_id = 0, g_in = [], g_out = []\<rparr>),
     edge_at = (\<lambda>_. \<lparr>e_caller = 0, e_site = None, e_callee = 0\<rparr>), next_gnode = 0, next_gedge = 0\<rparr>"

definition NewWCtx :: "nat \<Rightarrow> callgraph" where
  "NewWCtx root = (case CreateNodeWCtx root empty_graph of (n, g) \<Rightarrow> g\<lparr>g_root := n\<rparr>)"

definition AddEdge :: "nat \<Rightarrow> nat option \<Rightarrow> nat \<Rightarrow> callgraph \<Rightarrow> callgraph" where
  "AddEdge clr st cle g =
     (let ed = next_gedge g;
          g = g\<lparr>edge_at := (edge_at g)(ed := \<lparr>e_caller = clr, e_site = st, e_callee = cle\<rparr>), next_gedge := ed + 1\<rparr>;
          g = set_node cle ((node_at g cle)\<lparr>g_in := g_in (node_at g cle) @ [ed]\<rparr>) g;
          g = set_node clr ((node_at g clr)\<lparr>g_out := g_out (node_at g clr) @ [ed]\<rparr>) g
      in g\<lparr>numEdges := numEdges g + 1\<rparr>)"

text \<open>The first position of an edge is overwritten by the last, and the slice shrinks.\<close>

fun index_of :: "nat \<Rightarrow> nat list \<Rightarrow> nat option" where
  "index_of x [] = None"
| "index_of x (y # ys) = (if y = x then Some 0 else map_option Suc (index_of x ys))"

definition swap_remove :: "nat \<Rightarrow> nat list \<Rightarrow> nat list option" where
  "swap_remove x xs = map_option (\<lambda>i. butlast (xs[i := last xs])) (index_of x xs)"

definition removeOutEdge :: "nat \<Rightarrow> callgraph \<Rightarrow> callgraph go_result" where
  "removeOutEdge ed g =
     (let c = e_caller (edge_at g ed)
      in case swap_remove ed (g_out (node_at g c)) of
           None \<Rightarrow> Inl (ExplicitPanic ''edge not found'')
         | Some es \<Rightarrow> Inr (set_node c ((node_at g c)\<lparr>g_out := es\<rparr>) g))"

definition removeInEdge :: "nat \<Rightarrow> callgraph \<Rightarrow> callgraph go_result" where
  "removeInEdge ed g =
     (let c = e_callee (edge_at g ed)
      in case swap_remove ed (g_in (node_at g c)) of
           None \<Rightarrow> Inl (ExplicitPanic ''edge not found'')
         | Some es \<Rightarrow> Inr (set_node c ((node_at g c)\<lparr>g_in := es\<rparr>) g))"

fun remove_edges :: "(nat \<Rightarrow> callgraph \<Rightarrow> callgraph go_result) \<Rightarrow> nat list \<Rightarrow> callgraph \<Rightarrow> callgraph go_result" where
  "remove_edges f [] g = Inr g"
| "remove_edges f (ed # eds) g = bindR (f ed g) (remove_edges f eds)"

definition deleteIns :: "nat \<Rightarrow> callgraph \<Rightarrow> callgraph go_result" where
  "deleteIns n g =
     bindR (remove_edges removeOutEdge (g_in (node_at g n)) g) (\<lambda>g. Inr (set_node n ((node_at g n)\<lparr>g_in := []\<rparr>) g))"

definition deleteOuts :: "nat \<Rightarrow> callgraph \<Rightarrow> callgraph go_result" where
  "deleteOuts n g =
     bindR (remove_edges removeInEdge (g_out (node_at g n)) g) (\<lambda>g. Inr (set_node n ((node_at g n)\<lparr>g_out := []\<rparr>) g))"

definition DeleteNode :: "nat \<Rightarrow> callgraph \<Rightarrow> callgraph go_result" where
  "DeleteNode n g =
     bindR (deleteIns n g) (\<lambda>g. bindR (deleteOuts n g) (\<lambda>g.
       Inr (g\<lparr>g_nodes := AList.delete (g_cgn (node_at g n)) (g_nodes g)\<rparr>)))"

text \<open>\<open>fn_of\<close> gives the function of a call-graph node.\<close>

fun computeFn2CGNode_loop :: "(nat \<Rightarrow> fn_ref) \<Rightarrow> nat list \<Rightarrow> (fn_ref \<times> nat list) list \<Rightarrow> (fn_ref \<times> nat list) list" where
  "computeFn2CGNode_loop fn_of [] m = m"
| "computeFn2CGNode_loop fn_of (c # cs) m =
     computeFn2CGNode_loop fn_of cs
       (AList.update (fn_of c) ((case map_of m (fn_of c) of None \<Rightarrow> [] | Some xs \<Rightarrow> xs) @ [c]) m)"

definition computeFn2CGNode :: "(nat \<Rightarrow> fn_ref) \<Rightarrow> callgraph \<Rightarrow> callgraph" where
  "computeFn2CGNode fn_of g = g\<lparr>Fn2CGNode := computeFn2CGNode_loop fn_of (map fst (g_nodes g)) (Fn2CGNode g)\<rparr>"

definition GetNodesForFn :: "callgraph \<Rightarrow> fn_ref \<Rightarrow> nat list" where
  "GetNodesForFn g f =
     List.map_filter (GetNodeWCtx g) (case map_of (Fn2CGNode g) f of None \<Rightarrow> [] | Some cs \<Rightarrow> cs)"

section \<open>Call edges and actual contexts\<close>

text \<open>\<open>obj_cgn\<close> is the call-graph node that the object of a node holds.\<close>

record calls = origins +
  obj_cgn :: "nodeid \<Rightarrow> nat option"
  CallGraph :: callgraph

definition cgnode_of :: "calls \<Rightarrow> nat \<Rightarrow> cgnode go_result" where
  "cgnode_of a c = nth_go (cgnodes a) (int c)"

definition set_cgnode :: "nat \<Rightarrow> cgnode \<Rightarrow> calls \<Rightarrow> calls" where
  "set_cgnode c v a = a\<lparr>cgnodes := (cgnodes a)[c := v]\<rparr>"

definition callEdge :: "call_text \<Rightarrow> nat \<Rightarrow> site_ptr \<Rightarrow> nodeid \<Rightarrow> calls \<Rightarrow> calls go_result" where
  "callEdge t clr st calleeid a =
     bindR (get_node calleeid (graph a)) (\<lambda>nd.
       case obj nd of
         None \<Rightarrow> Inl NilDereference
       | Some ob \<Rightarrow>
           if and (flags ob) otFunction = 0 then Inl (ExplicitPanic ''not a function object'')
           else case obj_cgn a calleeid of
                  None \<Rightarrow> Inl NilDereference
                | Some cle \<Rightarrow>
                    bindR (cgnode_of a clr) (\<lambda>c1. bindR (cgnode_of a cle) (\<lambda>c2.
                    bindR (site_of (site_store a) st) (\<lambda>s.
                      let waits = (case map_of (closureWOGo a) calleeid of None \<Rightarrow> False | Some v \<Rightarrow> v \<noteq> 0);
                          a = (if waits \<and> \<not> equalCallSite t (site_store a) (callersite c1) (callersite c2)
                               then set_cgnode cle (updateActualCallerSite t (site_store a) (callersite c1) c2) a else a);
                          (n1, g) = CreateNodeWCtx clr (CallGraph a);
                          (n2, g) = CreateNodeWCtx cle g
                      in Inr (a\<lparr>CallGraph := AddEdge n1 (instr s) n2 g\<rparr>)))))"

fun pass_contexts :: "call_text \<Rightarrow> site_heap \<Rightarrow> ctx list \<Rightarrow> cgnode \<Rightarrow> cgnode" where
  "pass_contexts t h [] n = n"
| "pass_contexts t h (c # cs) n = pass_contexts t h cs (updateActualCallerSite t h c n)"

definition pass_edge :: "call_text \<Rightarrow> nat \<Rightarrow> nat \<Rightarrow> sparse \<times> nodeid list \<times> calls \<Rightarrow> (sparse \<times> nodeid list \<times> calls) go_result" where
  "pass_edge t c ed s =
     (case s of (tot, nxt, a) \<Rightarrow>
        let tg = g_cgn (node_at (CallGraph a) (e_callee (edge_at (CallGraph a) ed)))
        in bindR (cgnode_of a c) (\<lambda>cn. bindR (cgnode_of a tg) (\<lambda>target.
             if Has tot (cg_idx target) \<or> actualCallerSite cn = None then Inr s
             else Inr (tot, if cg_obj target \<in> set nxt then nxt else nxt @ [cg_obj target],
               set_cgnode tg (pass_contexts t (site_store a) (slice (actualCallerSite cn)) target) a))))"

fun pass_edges :: "call_text \<Rightarrow> nat \<Rightarrow> nat list \<Rightarrow> sparse \<times> nodeid list \<times> calls \<Rightarrow> (sparse \<times> nodeid list \<times> calls) go_result" where
  "pass_edges t c [] s = Inr s"
| "pass_edges t c (ed # eds) s = bindR (pass_edge t c ed s) (pass_edges t c eds)"

text \<open>One node of \<^verbatim>\<open>waiting\<close>. The map \<^verbatim>\<open>next\<close> from nodes to themselves is the list of its keys.\<close>

definition pass_node :: "call_text \<Rightarrow> nodeid \<Rightarrow> sparse \<times> nodeid list \<times> calls \<Rightarrow> (sparse \<times> nodeid list \<times> calls) go_result" where
  "pass_node t n s =
     (case s of (tot, nxt, a) \<Rightarrow>
        bindR (get_node n (graph a)) (\<lambda>nd.
          case obj_cgn a n of
            None \<Rightarrow> Inl NilDereference
          | Some c \<Rightarrow>
              bindR (cgnode_of a c) (\<lambda>cn.
              bindR (Insert tot (cg_idx cn)) (\<lambda>(tot, _).
                case GetNodeWCtx (CallGraph a) c of
                  None \<Rightarrow> Inl NilDereference
                | Some g \<Rightarrow> pass_edges t c (g_out (node_at (CallGraph a) g)) (tot, nxt, a)))))"

fun pass_nodes :: "call_text \<Rightarrow> nodeid list \<Rightarrow> sparse \<times> nodeid list \<times> calls \<Rightarrow> (sparse \<times> nodeid list \<times> calls) go_result" where
  "pass_nodes t [] s = Inr s"
| "pass_nodes t (n # ns) s = bindR (pass_node t n s) (pass_nodes t ns)"

partial_function (option) pass_rounds :: "call_text \<Rightarrow> nodeid list \<Rightarrow> sparse \<Rightarrow> calls \<Rightarrow> calls go_result option" where
  "pass_rounds t waiting tot a =
     (if waiting = [] then Some (Inr a)
      else case pass_nodes t waiting (tot, [], a) of
             Inl p \<Rightarrow> Some (Inl p)
           | Inr (tot, nxt, a) \<Rightarrow> pass_rounds t nxt tot a)"

declare pass_rounds.simps [code]

definition updateActualCallSites :: "call_text \<Rightarrow> calls \<Rightarrow> calls go_result option" where
  "updateActualCallSites t a = pass_rounds t (map snd (closureWOGo a)) [] a"

section \<open>Well-formed graphs\<close>

text \<open>Every edge is listed once by its caller and once by its callee.\<close>

definition graph_ok :: "callgraph \<Rightarrow> bool" where
  "graph_ok g \<longleftrightarrow>
     (\<forall>n. distinct (g_out (node_at g n)) \<and> distinct (g_in (node_at g n)) \<and>
        (\<forall>ed \<in> set (g_out (node_at g n)).
           ed < next_gedge g \<and> e_caller (edge_at g ed) = n \<and> ed \<in> set (g_in (node_at g (e_callee (edge_at g ed))))) \<and>
        (\<forall>ed \<in> set (g_in (node_at g n)).
           ed < next_gedge g \<and> e_callee (edge_at g ed) = n \<and> ed \<in> set (g_out (node_at g (e_caller (edge_at g ed))))))"

lemma graph_okD:
  assumes "graph_ok g"
  shows "distinct (g_out (node_at g n))" "distinct (g_in (node_at g n))"
    "ed \<in> set (g_out (node_at g n)) \<Longrightarrow> ed < next_gedge g \<and> e_caller (edge_at g ed) = n \<and> ed \<in> set (g_in (node_at g (e_callee (edge_at g ed))))"
    "ed \<in> set (g_in (node_at g n)) \<Longrightarrow> ed < next_gedge g \<and> e_callee (edge_at g ed) = n \<and> ed \<in> set (g_out (node_at g (e_caller (edge_at g ed))))"
  using assms unfolding graph_ok_def by blast+

lemma AddEdge_views:
  "node_at (AddEdge c st d g) n = (node_at g n)\<lparr>
     g_in := g_in (node_at g n) @ (if n = d then [next_gedge g] else []),
     g_out := g_out (node_at g n) @ (if n = c then [next_gedge g] else [])\<rparr>"
  "edge_at (AddEdge c st d g) = (edge_at g)(next_gedge g := \<lparr>e_caller = c, e_site = st, e_callee = d\<rparr>)"
  "next_gedge (AddEdge c st d g) = next_gedge g + 1" "numEdges (AddEdge c st d g) = numEdges g + 1" "g_nodes (AddEdge c st d g) = g_nodes g"
  by (simp_all add: AddEdge_def Let_def set_node_def)

lemma AddEdge_ok:
  assumes "graph_ok g"
  shows "graph_ok (AddEdge c st d g)"
proof -
  note D = graph_okD [OF assms]
  have "next_gedge g \<notin> set (g_out (node_at g n))" "next_gedge g \<notin> set (g_in (node_at g n))" for n using D(3,4) by blast+
  then show ?thesis unfolding graph_ok_def AddEdge_views using D by (auto simp: less_Suc_eq)
qed

lemma empty_graph_ok: "graph_ok empty_graph"
  by (simp add: graph_ok_def empty_graph_def)

lemma CreateNodeWCtx_ok:
  assumes "graph_ok g" "\<forall>n \<ge> next_gnode g. g_in (node_at g n) = [] \<and> g_out (node_at g n) = []"
  shows "graph_ok (snd (CreateNodeWCtx c g))"
proof (cases "GetNodeWCtx g c")
  case None
  have "g_in (node_at (snd (CreateNodeWCtx c g)) n) = g_in (node_at g n)" "g_out (node_at (snd (CreateNodeWCtx c g)) n) = g_out (node_at g n)" for n
    using None assms(2) by (auto simp: CreateNodeWCtx_def Let_def set_node_def)
  moreover have "edge_at (snd (CreateNodeWCtx c g)) = edge_at g" "next_gedge (snd (CreateNodeWCtx c g)) = next_gedge g"
    using None by (simp_all add: CreateNodeWCtx_def Let_def set_node_def)
  ultimately show ?thesis using assms(1) by (simp add: graph_ok_def)
qed (use assms in \<open>simp add: CreateNodeWCtx_def\<close>)

section \<open>Deletion\<close>

lemma index_of_Some: "x \<in> set xs \<Longrightarrow> \<exists>i. index_of x xs = Some i \<and> i < length xs \<and> xs ! i = x"
proof (induction xs)
  case (Cons y ys)
  show ?case
  proof (cases "y = x")
    case False
    then obtain i where "index_of x ys = Some i" "i < length ys" "ys ! i = x" using Cons by auto
    then show ?thesis using False by (intro exI [of _ "Suc i"]) simp
  qed simp
qed simp

lemma swap_remove_set:
  assumes "distinct xs" "x \<in> set xs"
  shows "\<exists>ys. swap_remove x xs = Some ys \<and> distinct ys \<and> set ys = set xs - {x}"
proof -
  obtain i where i: "index_of x xs = Some i" "i < length xs" "xs ! i = x" using index_of_Some [OF assms(2)] by blast
  obtain us vs where s: "xs = us @ x # vs" "length us = i" using i(2,3) by (metis id_take_nth_drop length_take min.absorb4)
  show ?thesis
  proof (cases vs rule: rev_cases)
    case Nil
    then have "butlast (xs[i := last xs]) = us" using s by (simp add: list_update_append)
    then show ?thesis using i(1) s(1) Nil assms(1) by (auto simp: swap_remove_def)
  next
    case (snoc ws y)
    then have "xs[i := last xs] = us @ y # ws @ [y]" using s by (simp add: list_update_append)
    then have "butlast (xs[i := last xs]) = us @ y # ws" by (simp add: butlast_append)
    then show ?thesis using i(1) s(1) snoc assms(1) by (auto simp: swap_remove_def)
  qed
qed

text \<open>Only the lists of outgoing (or incoming) edges change; they lose the edges \<open>D\<close>.\<close>

definition outs_without :: "nat set \<Rightarrow> callgraph \<Rightarrow> callgraph \<Rightarrow> bool" where
  "outs_without D g h \<longleftrightarrow>
     edge_at h = edge_at g \<and> next_gedge h = next_gedge g \<and> numEdges h = numEdges g \<and> g_nodes h = g_nodes g \<and>
     (\<forall>n. g_in (node_at h n) = g_in (node_at g n) \<and> g_cgn (node_at h n) = g_cgn (node_at g n) \<and> distinct (g_out (node_at h n)) \<and>
        set (g_out (node_at h n)) = set (g_out (node_at g n)) - D)"

definition ins_without :: "nat set \<Rightarrow> callgraph \<Rightarrow> callgraph \<Rightarrow> bool" where
  "ins_without D g h \<longleftrightarrow>
     edge_at h = edge_at g \<and> next_gedge h = next_gedge g \<and> numEdges h = numEdges g \<and> g_nodes h = g_nodes g \<and>
     (\<forall>n. g_out (node_at h n) = g_out (node_at g n) \<and> g_cgn (node_at h n) = g_cgn (node_at g n) \<and> distinct (g_in (node_at h n)) \<and>
        set (g_in (node_at h n)) = set (g_in (node_at g n)) - D)"

lemma removeOutEdge_without:
  assumes "\<forall>n. distinct (g_out (node_at g n))" "\<forall>n. ed \<in> set (g_out (node_at g n)) \<longleftrightarrow> n = e_caller (edge_at g ed)"
  shows "\<exists>h. removeOutEdge ed g = Inr h \<and> outs_without {ed} g h"
proof -
  let ?c = "e_caller (edge_at g ed)"
  obtain ys where ys: "swap_remove ed (g_out (node_at g ?c)) = Some ys" "distinct ys" "set ys = set (g_out (node_at g ?c)) - {ed}"
    using swap_remove_set [of "g_out (node_at g ?c)" ed] assms by blast
  then show ?thesis using assms by (auto simp: removeOutEdge_def Let_def outs_without_def set_node_def)
qed

lemma removeInEdge_without:
  assumes "\<forall>n. distinct (g_in (node_at g n))" "\<forall>n. ed \<in> set (g_in (node_at g n)) \<longleftrightarrow> n = e_callee (edge_at g ed)"
  shows "\<exists>h. removeInEdge ed g = Inr h \<and> ins_without {ed} g h"
proof -
  let ?c = "e_callee (edge_at g ed)"
  obtain ys where ys: "swap_remove ed (g_in (node_at g ?c)) = Some ys" "distinct ys" "set ys = set (g_in (node_at g ?c)) - {ed}"
    using swap_remove_set [of "g_in (node_at g ?c)" ed] assms by blast
  then show ?thesis using assms by (auto simp: removeInEdge_def Let_def ins_without_def set_node_def)
qed

lemma remove_outs:
  "distinct eds \<Longrightarrow> \<forall>n. distinct (g_out (node_at g n)) \<Longrightarrow>
   \<forall>ed \<in> set eds. \<forall>n. ed \<in> set (g_out (node_at g n)) \<longleftrightarrow> n = e_caller (edge_at g ed) \<Longrightarrow>
   \<exists>h. remove_edges removeOutEdge eds g = Inr h \<and> outs_without (set eds) g h"
proof (induction eds arbitrary: g)
  case (Cons ed eds)
  obtain h where h: "removeOutEdge ed g = Inr h" "outs_without {ed} g h" using removeOutEdge_without Cons.prems(2,3) by (metis list.set_intros(1))
  have "\<forall>n. distinct (g_out (node_at h n))" "\<forall>ed \<in> set eds. \<forall>n. ed \<in> set (g_out (node_at h n)) \<longleftrightarrow> n = e_caller (edge_at h ed)"
    using h(2) Cons.prems(1,3) by (auto simp: outs_without_def)
  from Cons.IH [OF _ this] obtain k where "remove_edges removeOutEdge eds h = Inr k" "outs_without (set eds) h k" using Cons.prems(1) by auto
  then show ?case using h by (auto simp: outs_without_def)
qed (simp add: outs_without_def)

lemma remove_ins:
  "distinct eds \<Longrightarrow> \<forall>n. distinct (g_in (node_at g n)) \<Longrightarrow>
   \<forall>ed \<in> set eds. \<forall>n. ed \<in> set (g_in (node_at g n)) \<longleftrightarrow> n = e_callee (edge_at g ed) \<Longrightarrow>
   \<exists>h. remove_edges removeInEdge eds g = Inr h \<and> ins_without (set eds) g h"
proof (induction eds arbitrary: g)
  case (Cons ed eds)
  obtain h where h: "removeInEdge ed g = Inr h" "ins_without {ed} g h" using removeInEdge_without Cons.prems(2,3) by (metis list.set_intros(1))
  have "\<forall>n. distinct (g_in (node_at h n))" "\<forall>ed \<in> set eds. \<forall>n. ed \<in> set (g_in (node_at h n)) \<longleftrightarrow> n = e_callee (edge_at h ed)"
    using h(2) Cons.prems(1,3) by (auto simp: ins_without_def)
  from Cons.IH [OF _ this] obtain k where "remove_edges removeInEdge eds h = Inr k" "ins_without (set eds) h k" using Cons.prems(1) by auto
  then show ?case using h by (auto simp: ins_without_def)
qed (simp add: ins_without_def)

lemma DeleteNode_ok:
  assumes ok: "graph_ok g"
  shows "\<exists>h. DeleteNode n g = Inr h \<and> graph_ok h \<and> numEdges h = numEdges g \<and> edge_at h = edge_at g \<and>
    g_nodes h = AList.delete (g_cgn (node_at g n)) (g_nodes g) \<and>
    (\<forall>m. set (g_out (node_at h m)) = {ed \<in> set (g_out (node_at g m)). m \<noteq> n \<and> e_callee (edge_at g ed) \<noteq> n} \<and>
         set (g_in (node_at h m)) = {ed \<in> set (g_in (node_at g m)). m \<noteq> n \<and> e_caller (edge_at g ed) \<noteq> n})"
proof -
  note D = graph_okD [OF ok]
  let ?I = "set (g_in (node_at g n))" and ?O = "set (g_out (node_at g n))"
  have io: "ed \<in> set (g_out (node_at g m)) \<longleftrightarrow> m = e_caller (edge_at g ed)" if "ed \<in> ?I" for ed m
    using D(3,4) that by blast
  have oi: "ed \<in> set (g_in (node_at g m)) \<longleftrightarrow> m = e_callee (edge_at g ed)" if "ed \<in> ?O" for ed m
    using D(3,4) that by blast
  obtain g1 where g1: "remove_edges removeOutEdge (g_in (node_at g n)) g = Inr g1" "outs_without ?I g g1"
    using remove_outs [of "g_in (node_at g n)" g] D(1,2) io by blast
  define g2 where "g2 = set_node n ((node_at g1 n)\<lparr>g_in := []\<rparr>) g1"
  have g2: "deleteIns n g = Inr g2" using g1(1) by (simp add: deleteIns_def g2_def)
  have v2: "edge_at g2 = edge_at g" "next_gedge g2 = next_gedge g" "numEdges g2 = numEdges g" "g_nodes g2 = g_nodes g"
    "g_cgn (node_at g2 m) = g_cgn (node_at g m)"
    "g_in (node_at g2 m) = (if m = n then [] else g_in (node_at g m))"
    "distinct (g_out (node_at g2 m))" "set (g_out (node_at g2 m)) = set (g_out (node_at g m)) - ?I" for m
    using g1(2) by (simp_all add: outs_without_def g2_def set_node_def)
  have "\<forall>ed \<in> set (g_out (node_at g2 n)). \<forall>m. ed \<in> set (g_in (node_at g2 m)) \<longleftrightarrow> m = e_callee (edge_at g2 ed)"
    using oi D(3) by (auto simp: v2)
  moreover have "\<forall>m. distinct (g_in (node_at g2 m))" using D(2) by (simp add: v2)
  ultimately obtain g3 where g3: "remove_edges removeInEdge (g_out (node_at g2 n)) g2 = Inr g3" "ins_without (set (g_out (node_at g2 n))) g2 g3"
    using remove_ins [OF v2(7)] by blast
  define h where "h = (set_node n ((node_at g3 n)\<lparr>g_out := []\<rparr>) g3)\<lparr>g_nodes := AList.delete (g_cgn (node_at g n)) (g_nodes g)\<rparr>"
  have c: "g_cgn (node_at g3 n) = g_cgn (node_at g n)" "g_nodes g3 = g_nodes g" using g3(2) by (simp_all add: ins_without_def v2)
  then have h: "DeleteNode n g = Inr h" using g2 g3(1) by (simp add: DeleteNode_def deleteOuts_def h_def set_node_def)
  have vh: "edge_at h = edge_at g" "next_gedge h = next_gedge g" "numEdges h = numEdges g" "g_nodes h = AList.delete (g_cgn (node_at g n)) (g_nodes g)"
    "distinct (g_in (node_at h m))" "distinct (g_out (node_at h m))"
    "set (g_out (node_at h m)) = (if m = n then {} else set (g_out (node_at g m)) - ?I)"
    "set (g_in (node_at h m)) = (if m = n then {} else set (g_in (node_at g m)) - (?O - ?I))" for m
    using g3(2) v2 by (simp_all add: ins_without_def h_def set_node_def)
  have o: "set (g_out (node_at h m)) = {ed \<in> set (g_out (node_at g m)). m \<noteq> n \<and> e_callee (edge_at g ed) \<noteq> n}" for m
    unfolding vh using D(3,4) by auto
  have i: "set (g_in (node_at h m)) = {ed \<in> set (g_in (node_at g m)). m \<noteq> n \<and> e_caller (edge_at g ed) \<noteq> n}" for m
  proof -
    have "ed \<in> ?O \<longleftrightarrow> e_caller (edge_at g ed) = n" "m \<noteq> n \<Longrightarrow> ed \<notin> ?I" if "ed \<in> set (g_in (node_at g m))" for ed
      using D(3,4) that by blast+
    then show ?thesis unfolding vh by auto
  qed
  have "graph_ok h"
    unfolding graph_ok_def o i using D(3,4) vh(1,2,5,6) by auto
  then show ?thesis using h vh o i by blast
qed

section \<open>Termination of the propagation\<close>

text \<open>What the propagation leaves as it is.\<close>

definition same_graph :: "calls \<Rightarrow> calls \<Rightarrow> bool" where
  "same_graph a b \<longleftrightarrow>
     graph b = graph a \<and> obj_cgn b = obj_cgn a \<and> CallGraph b = CallGraph a \<and> length (cgnodes b) = length (cgnodes a) \<and>
     (\<forall>c < length (cgnodes a). cg_idx (cgnodes b ! c) = cg_idx (cgnodes a ! c) \<and> cg_obj (cgnodes b ! c) = cg_obj (cgnodes a ! c))"

text \<open>Call-graph nodes are numbered by their positions, and every callee is the node its object holds.\<close>

definition linked :: "calls \<Rightarrow> bool" where
  "linked a \<longleftrightarrow>
     in_int (int (length (cgnodes a))) \<and> (\<forall>c < length (cgnodes a). cg_idx (cgnodes a ! c) = int c) \<and>
     (\<forall>n. \<forall>ed \<in> set (g_out (node_at (CallGraph a) n)).
        let c = g_cgn (node_at (CallGraph a) (e_callee (edge_at (CallGraph a) ed)))
        in c < length (cgnodes a) \<longrightarrow> obj_cgn a (cg_obj (cgnodes a ! c)) = Some c)"

lemma same_graph_refl: "same_graph a a"
  by (simp add: same_graph_def)

lemma same_graph_trans: "same_graph a b \<Longrightarrow> same_graph b c \<Longrightarrow> same_graph a c"
  by (simp add: same_graph_def)

lemma linked_same: "same_graph a b \<Longrightarrow> linked a \<Longrightarrow> linked b"
  by (simp add: same_graph_def linked_def Let_def)

lemma pass_contexts_keeps: "cg_idx (pass_contexts t h cs n) = cg_idx n \<and> cg_obj (pass_contexts t h cs n) = cg_obj n"
  by (induction cs arbitrary: n) (simp_all add: updateActualCallerSite_def)

text \<open>New entries of \<^verbatim>\<open>next\<close> stand for nodes that were not in \<^verbatim>\<open>total\<close>.\<close>

definition unseen_next :: "calls \<Rightarrow> int set \<Rightarrow> nodeid set \<Rightarrow> bool" where
  "unseen_next a T ns \<longleftrightarrow> (\<forall>n \<in> ns. \<exists>c. obj_cgn a n = Some c \<and> c < length (cgnodes a) \<and> int c \<notin> T)"

lemma cgnode_of_Inr: "cgnode_of a c = Inr v \<longleftrightarrow> c < length (cgnodes a) \<and> v = cgnodes a ! c"
  by (auto simp: cgnode_of_def nth_go_def)

lemma pass_edge_step:
  assumes o: "pass_edge t c ed (tot, nxt, a) = Inr (tot', nxt', b)" and l: "linked a" and w: "wf_sparse tot" "T \<subseteq> elems tot"
    and e: "ed \<in> set (g_out (node_at (CallGraph a) n))"
  shows "tot' = tot \<and> same_graph a b \<and> (unseen_next a T (set nxt) \<longrightarrow> unseen_next a T (set nxt'))"
proof -
  let ?tg = "g_cgn (node_at (CallGraph a) (e_callee (edge_at (CallGraph a) ed)))"
  obtain cn where cn: "cgnode_of a c = Inr cn" and tg: "?tg < length (cgnodes a)"
    using o by (auto simp: pass_edge_def bindR_eq_Inr_iff Let_def cgnode_of_Inr)
  let ?target = "cgnodes a ! ?tg"
  have r: "(if Has tot (cg_idx ?target) \<or> actualCallerSite cn = None then Inr (tot, nxt, a)
      else Inr (tot, if cg_obj ?target \<in> set nxt then nxt else nxt @ [cg_obj ?target],
        set_cgnode ?tg (pass_contexts t (site_store a) (slice (actualCallerSite cn)) ?target) a)) = (Inr (tot', nxt', b) :: _ go_result)"
    using o cn tg by (simp add: pass_edge_def Let_def cgnode_of_def nth_go_def)
  have i: "cg_idx ?target = int ?tg" "obj_cgn a (cg_obj ?target) = Some ?tg" using l e tg by (auto simp: linked_def Let_def)
  have s: "same_graph a (set_cgnode ?tg (pass_contexts t h cs ?target) a)" for h cs
    using tg pass_contexts_keeps [of t h cs ?target] by (simp add: same_graph_def set_cgnode_def nth_list_update)
  show ?thesis
  proof (cases "Has tot (cg_idx ?target) \<or> actualCallerSite cn = None")
    case True
    then show ?thesis using r same_graph_refl by simp
  next
    case False
    then have u: "int ?tg \<notin> T" using Has_elems [OF w(1)] i(1) w(2) by auto
    have "tot' = tot" "b = set_cgnode ?tg (pass_contexts t (site_store a) (slice (actualCallerSite cn)) ?target) a"
      "nxt' = (if cg_obj ?target \<in> set nxt then nxt else nxt @ [cg_obj ?target])"
      using r False by simp_all
    moreover from this(3) have "set nxt' = insert (cg_obj ?target) (set nxt)" by auto
    ultimately show ?thesis using s i(2) tg u by (simp add: unseen_next_def)
  qed
qed

lemma pass_edges_step:
  "pass_edges t c eds (tot, nxt, a) = Inr (tot', nxt', b) \<Longrightarrow> linked a \<Longrightarrow> wf_sparse tot \<Longrightarrow> T \<subseteq> elems tot \<Longrightarrow>
   set eds \<subseteq> set (g_out (node_at (CallGraph a) n)) \<Longrightarrow>
   tot' = tot \<and> same_graph a b \<and> (unseen_next a T (set nxt) \<longrightarrow> unseen_next a T (set nxt'))"
proof (induction eds arbitrary: nxt a)
  case (Cons ed eds)
  obtain tot1 nxt1 a1 where s: "pass_edge t c ed (tot, nxt, a) = Inr (tot1, nxt1, a1)" "pass_edges t c eds (tot1, nxt1, a1) = Inr (tot', nxt', b)"
    using Cons.prems(1) by (auto simp: bindR_eq_Inr_iff)
  have e: "ed \<in> set (g_out (node_at (CallGraph a) n))" using Cons.prems(5) by simp
  note p = pass_edge_step [OF s(1) Cons.prems(2-4) e]
  have g: "same_graph a a1" "tot1 = tot" using p by simp_all
  have "set eds \<subseteq> set (g_out (node_at (CallGraph a1) n))" using Cons.prems(5) g(1) by (simp add: same_graph_def)
  from Cons.IH [OF s(2) [unfolded g(2)] linked_same [OF g(1) Cons.prems(2)] Cons.prems(3,4) this]
  have q: "tot' = tot" "same_graph a1 b" "unseen_next a1 T (set nxt1) \<longrightarrow> unseen_next a1 T (set nxt')" by simp_all
  have "unseen_next a1 T ns = unseen_next a T ns" for T ns using g(1) by (simp add: unseen_next_def same_graph_def)
  then show ?case using p q same_graph_trans [OF g(1)] by simp
qed (simp add: same_graph_refl)

text \<open>The nodes of \<^verbatim>\<open>waiting\<close> as positions of call-graph nodes.\<close>

definition positions :: "calls \<Rightarrow> nodeid list \<Rightarrow> nat set" where
  "positions a ns = {c. \<exists>n \<in> set ns. obj_cgn a n = Some c}"

lemma pass_node_step:
  assumes o: "pass_node t n (tot, nxt, a) = Inr (tot', nxt', b)" and l: "linked a" and w: "wf_sparse tot" "T \<subseteq> elems tot"
  shows "wf_sparse tot' \<and> same_graph a b \<and> positions a [n] \<noteq> {} \<and> positions a [n] \<subseteq> {..<length (cgnodes a)} \<and>
    elems tot' = elems tot \<union> int ` positions a [n] \<and> (unseen_next a T (set nxt) \<longrightarrow> unseen_next a T (set nxt'))"
proof -
  obtain c cn tot1 ch g where s: "obj_cgn a n = Some c" "cgnode_of a c = Inr cn" "Insert tot (cg_idx cn) = Inr (tot1, ch)"
      "pass_edges t c (g_out (node_at (CallGraph a) g)) (tot1, nxt, a) = Inr (tot', nxt', b)"
    using o by (auto simp: pass_node_def bindR_eq_Inr_iff split: option.splits)
  have c: "c < length (cgnodes a)" "cg_idx cn = int c" using s(2) l by (simp_all add: cgnode_of_Inr linked_def)
  have "0 \<le> int c" "int c \<le> int (length (cgnodes a))" using c(1) by simp_all
  then have i: "in_int (cg_idx cn)" using l c(2) unfolding linked_def in_int_def MinInt_def by linarith
  have t1: "wf_sparse tot1" "elems tot1 = insert (int c) (elems tot)" using Insert_spec [OF w(1) i] s(3) c(2) by auto
  have "T \<subseteq> elems tot1" using w(2) t1(2) by blast
  from pass_edges_step [OF s(4) l t1(1) this order_refl] have "tot' = tot1" "same_graph a b"
    "unseen_next a T (set nxt) \<longrightarrow> unseen_next a T (set nxt')" by simp_all
  moreover have "positions a [n] = {c}" using s(1) by (auto simp: positions_def)
  ultimately show ?thesis using t1 c(1) by simp
qed

lemma positions_same: "same_graph a b \<Longrightarrow> positions b ns = positions a ns" "same_graph a b \<Longrightarrow> unseen_next b T ms = unseen_next a T ms"
  by (simp_all add: positions_def same_graph_def unseen_next_def)

lemma positions_Cons: "positions a (n # ns) = positions a [n] \<union> positions a ns"
  by (auto simp: positions_def)

lemma pass_nodes_step:
  "pass_nodes t ns (tot, nxt, a) = Inr (tot', nxt', b) \<Longrightarrow> linked a \<Longrightarrow> wf_sparse tot \<Longrightarrow> T \<subseteq> elems tot \<Longrightarrow>
   wf_sparse tot' \<and> same_graph a b \<and> (ns \<noteq> [] \<longrightarrow> positions a ns \<noteq> {}) \<and> positions a ns \<subseteq> {..<length (cgnodes a)} \<and>
   elems tot' = elems tot \<union> int ` positions a ns \<and> (unseen_next a T (set nxt) \<longrightarrow> unseen_next a T (set nxt'))"
proof (induction ns arbitrary: tot nxt a)
  case (Cons n ns)
  obtain tot1 nxt1 a1 where s: "pass_node t n (tot, nxt, a) = Inr (tot1, nxt1, a1)" "pass_nodes t ns (tot1, nxt1, a1) = Inr (tot', nxt', b)"
    using Cons.prems(1) by (auto simp: bindR_eq_Inr_iff)
  from pass_node_step [OF s(1) Cons.prems(2-4)]
  have p: "wf_sparse tot1" "same_graph a a1" "positions a [n] \<noteq> {}" "positions a [n] \<subseteq> {..<length (cgnodes a)}"
    "elems tot1 = elems tot \<union> int ` positions a [n]" "unseen_next a T (set nxt) \<longrightarrow> unseen_next a T (set nxt1)" by simp_all
  have "T \<subseteq> elems tot1" using Cons.prems(4) p(5) by blast
  from Cons.IH [OF s(2) linked_same [OF p(2) Cons.prems(2)] p(1) this]
  have q: "wf_sparse tot'" "same_graph a1 b" "positions a ns \<subseteq> {..<length (cgnodes a)}"
    "elems tot' = elems tot1 \<union> int ` positions a ns" "unseen_next a T (set nxt1) \<longrightarrow> unseen_next a T (set nxt')"
    using positions_same [OF p(2)] p(2) by (simp_all add: same_graph_def)
  show ?case using p q same_graph_trans [OF p(2) q(2)] unfolding positions_Cons [of a n ns] by (simp add: image_Un Un_assoc)
qed (simp add: same_graph_refl positions_def)

text \<open>The call-graph nodes the propagation has not visited.\<close>

definition unseen :: "sparse \<Rightarrow> calls \<Rightarrow> nat set" where
  "unseen tot a = {c. c < length (cgnodes a) \<and> int c \<notin> elems tot}"

text \<open>
  A round visits a new node, or its successors are all new; so two rounds together visit a new node or end.
\<close>

lemma pass_rounds_return:
  "linked a \<Longrightarrow> wf_sparse tot \<Longrightarrow> \<exists>r. pass_rounds t ns tot a = Some r"
proof (induction "card (unseen tot a)" arbitrary: ns tot a rule: less_induct)
  case less
  have grow: "\<exists>r. pass_rounds t ns tot a = Some r"
    if pr: "linked a" "wf_sparse tot" "card (unseen tot a) \<le> n" "\<not> int ` positions a ns \<subseteq> elems tot"
      and IH: "\<And>b tot' ms. card (unseen tot' b) < n \<Longrightarrow> linked b \<Longrightarrow> wf_sparse tot' \<Longrightarrow> \<exists>r. pass_rounds t ms tot' b = Some r"
    for n ns tot a
  proof (cases "pass_nodes t ns (tot, [], a)")
    case (Inr s)
    obtain tot' nxt b where s: "s = (tot', nxt, b)" by (cases s)
    from pass_nodes_step [OF Inr [unfolded s] pr(1,2) empty_subsetI]
    have p: "wf_sparse tot'" "same_graph a b" "elems tot' = elems tot \<union> int ` positions a ns" "positions a ns \<subseteq> {..<length (cgnodes a)}" by simp_all
    have "length (cgnodes b) = length (cgnodes a)" using p(2) by (simp add: same_graph_def)
    then have "unseen tot' b \<subset> unseen tot a" using p(3,4) pr(4) by (auto simp: unseen_def)
    then have "card (unseen tot' b) < card (unseen tot a)" by (rule psubset_card_mono [rotated]) (simp add: unseen_def)
    then obtain r where "pass_rounds t nxt tot' b = Some r" using IH [OF _ linked_same [OF p(2) pr(1)] p(1)] pr(3) by fastforce
    then show ?thesis using Inr s by (simp add: pass_rounds.simps [of t ns])
  qed (simp add: pass_rounds.simps [of t ns])
  show ?case
  proof (cases "int ` positions a ns \<subseteq> elems tot")
    case False
    then show ?thesis using grow [OF less.prems order_refl False] less.hyps by blast
  next
    case seen: True
    show ?thesis
    proof (cases "ns = [] \<or> (\<exists>p. pass_nodes t ns (tot, [], a) = Inl p)")
      case True
      then show ?thesis by (auto simp: pass_rounds.simps [of t ns])
    next
      case False
      then obtain tot' nxt b where s: "pass_nodes t ns (tot, [], a) = Inr (tot', nxt, b)" "ns \<noteq> []"
        by (cases "pass_nodes t ns (tot, [], a)") auto
      from pass_nodes_step [OF s(1) less.prems order_refl]
      have p: "wf_sparse tot'" "same_graph a b" "elems tot' = elems tot" "unseen_next a (elems tot) (set nxt)"
        using seen by (auto simp: unseen_next_def)
      have l: "linked b" by (rule linked_same [OF p(2) less.prems(1)])
      have c: "card (unseen tot' b) \<le> card (unseen tot a)" using p(2,3) by (simp add: unseen_def same_graph_def)
      have "\<exists>r. pass_rounds t nxt tot' b = Some r"
      proof (cases "nxt = []")
        case True
        then show ?thesis by (simp add: pass_rounds.simps)
      next
        case False
        then obtain m where "m \<in> set nxt" by (cases nxt) auto
        then obtain k where "obj_cgn a m = Some k" "int k \<notin> elems tot" using p(4) unfolding unseen_next_def by blast
        then have "k \<in> positions a nxt" "int k \<notin> elems tot" using \<open>m \<in> set nxt\<close> by (auto simp: positions_def)
        then have "\<not> int ` positions b nxt \<subseteq> elems tot'" using p(3) positions_same(1) [OF p(2)] by auto
        from grow [OF l p(1) c this] less.hyps show ?thesis by blast
      qed
      then show ?thesis using s by (simp add: pass_rounds.simps [of t ns])
    qed
  qed
qed

lemma updateActualCallSites_return: "linked a \<Longrightarrow> \<exists>r. updateActualCallSites t a = Some r"
  unfolding updateActualCallSites_def by (rule pass_rounds_return) (simp_all add: wf_sparse_def)

end
