(* ===== verification/Pointer_Queries.thy ===== *)
theory Pointer_Queries
  imports Pointer_Callgraph
begin

text \<open>
  The interface of the pointer analysis to its client (\<^verbatim>\<open>gopta/go/pointer/api.go\<close>): pointers with a calling
  context, their points-to sets and labels, and the queries by value and goroutine. A points-to set is
  named by the solver state that holds it, as the code passes pointers to it. Values are references of
  the SSA program; \<^const>\<open>None\<close> stands for a nil value, function or instruction.
\<close>

section \<open>State\<close>

text \<open>\<open>p_live\<close> tells that the field \<^verbatim>\<open>a\<close> is set; call-graph nodes are named by their index.\<close>

record PointerWCtx =
  p_live :: bool
  p_node :: nodeid
  p_cgn :: "nat option"

definition no_pointer :: PointerWCtx where
  "no_pointer = \<lparr>p_live = False, p_node = 0, p_cgn = None\<rparr>"

type_synonym query_map = "ref \<Rightarrow> PointerWCtx list option"

record results =
  r_a :: calls
  r_main :: "nat option"
  r_isMain :: bool
  Queries :: query_map
  IndirectQueries :: query_map
  GlobalQueries :: query_map
  ExtendedQueries :: query_map
  testMainCtx :: ctx

text \<open>The program and its types; \<open>is_global_object\<close> tells that the data of an object is a global.\<close>

record query_env =
  q_prog :: ssa_program
  q_type :: "ref \<Rightarrow> ty"
  q_types :: ty_store
  q_fuel :: nat
  is_global_object :: "nodeid \<Rightarrow> bool"
  DoCompare :: bool

section \<open>Points-to sets\<close>

definition PointsTo :: "calls \<Rightarrow> PointerWCtx \<Rightarrow> nat option go_result" where
  "PointsTo a p =
     (if p_node p = 0 then Inr None
      else if \<not> p_live p then Inl NilDereference
      else bindR (ref_of (p_node p) (graph a)) (\<lambda>r. Inr (Some r)))"

definition set_of :: "calls \<Rightarrow> nat \<Rightarrow> sparse" where
  "set_of a r = pts (sol (graph a) r)"

text \<open>A fresh set receives the intersection; both arguments may be one set.\<close>

definition pts_Intersects :: "calls \<Rightarrow> nat option \<Rightarrow> nat option \<Rightarrow> bool go_result" where
  "pts_Intersects a s y =
     (case (s, y) of
        (Some r, Some q) \<Rightarrow>
          bindR (Intersection (\<lambda>p. if p = 0 then [] else if p = 1 then set_of a r else set_of a q) 0 1 (if r = q then 1 else 2))
            (\<lambda>st. Inr (\<not> IsEmpty (st 0)))
      | _ \<Rightarrow> Inr False)"

definition MayAlias :: "calls \<Rightarrow> PointerWCtx \<Rightarrow> PointerWCtx \<Rightarrow> bool go_result" where
  "MayAlias a p q = bindR (PointsTo a p) (\<lambda>s. bindR (PointsTo a q) (pts_Intersects a s))"

section \<open>Labels\<close>

text \<open>
  The loop counts an unsigned node number down, so its test \<^verbatim>\<open>i >= 0\<close> always holds: past the first node it
  indexes out of range.
\<close>

partial_function (option) enclosing_loop :: "solver \<Rightarrow> nodeid \<Rightarrow> nodeid \<Rightarrow> nodeid go_result option" where
  "enclosing_loop a n i =
     (case get_node i a of
        Inl e \<Rightarrow> Some (Inl e)
      | Inr nd \<Rightarrow>
          (case obj nd of
             None \<Rightarrow> enclosing_loop a n (i - 1)
           | Some ob \<Rightarrow>
               if i + obj_size ob \<le> n then Some (Inl (ExplicitPanic ''node has no enclosing object''))
               else Some (Inr i)))"

declare enclosing_loop.simps [code]

definition enclosingObj :: "nodeid \<Rightarrow> solver \<Rightarrow> nodeid go_result option" where
  "enclosingObj n a = enclosing_loop a n n"

text \<open>A label names its object by the first node of the block, its path by the node it is the path of.\<close>

record label =
  l_obj :: nodeid
  l_node :: nodeid

definition labelFor :: "nodeid \<Rightarrow> solver \<Rightarrow> label go_result option" where
  "labelFor n a =
     bindL (enclosingObj n a) (\<lambda>b. bindL (Some (get_node n a)) (\<lambda>_. Some (Inr \<lparr>l_obj = b, l_node = n\<rparr>)))"

fun labels_for :: "solver \<Rightarrow> nodeid list \<Rightarrow> label list go_result option" where
  "labels_for a [] = Some (Inr [])"
| "labels_for a (n # ns) =
     bindL (labelFor n a) (\<lambda>l. bindL (labels_for a ns) (\<lambda>ls. Some (Inr (l # ls))))"

definition Labels :: "calls \<Rightarrow> nat option \<Rightarrow> label list go_result option" where
  "Labels a s = (case s of None \<Rightarrow> Some (Inr []) | Some r \<Rightarrow> labels_for (graph a) (ns_list (set_of a r)))"

definition isTaggedObject :: "nodeid \<Rightarrow> solver \<Rightarrow> bool go_result" where
  "isTaggedObject n a =
     bindR (get_node n a) (\<lambda>nd. case obj nd of None \<Rightarrow> Inl NilDereference | Some ob \<Rightarrow> Inr (and (flags ob) otTagged \<noteq> 0))"

text \<open>The dynamic types with their points-to sets; identical types are one key.\<close>

fun type_entry :: "env \<Rightarrow> ty \<Rightarrow> (ty \<times> sparse) list \<Rightarrow> sparse" where
  "type_entry e t [] = []"
| "type_entry e t ((u, s) # es) = (if Identical e t u then s else type_entry e t es)"

fun set_type_entry :: "env \<Rightarrow> ty \<Rightarrow> sparse \<Rightarrow> (ty \<times> sparse) list \<Rightarrow> (ty \<times> sparse) list" where
  "set_type_entry e t v [] = [(t, v)]"
| "set_type_entry e t v ((u, s) # es) = (if Identical e t u then (u, v) # es else (u, s) # set_type_entry e t v es)"

fun dynamic_types :: "env \<Rightarrow> calls \<Rightarrow> nodeid list \<Rightarrow> (ty \<times> sparse) list \<Rightarrow> (ty \<times> sparse) list go_result" where
  "dynamic_types e a [] m = Inr m"
| "dynamic_types e a (x # xs) m =
     bindR (isTaggedObject x (graph a)) (\<lambda>tagged.
       if \<not> tagged then dynamic_types e a xs m
       else bindR (taggedValue x (graph a)) (\<lambda>(tDyn, v, indirect).
         if indirect then Inl (ExplicitPanic ''indirect tagged object'')
         else bindR (ref_of v (graph a)) (\<lambda>r.
           bindR (ns_addAll False (type_entry e tDyn m) (set_of a r)) (\<lambda>(s, _).
             dynamic_types e a xs (set_type_entry e tDyn s m)))))"

definition DynamicTypes :: "env \<Rightarrow> calls \<Rightarrow> nat option \<Rightarrow> (ty \<times> sparse) list go_result" where
  "DynamicTypes e a s = (case s of None \<Rightarrow> Inr [] | Some r \<Rightarrow> dynamic_types e a (ns_list (set_of a r)) [])"

text \<open>The functions that allocate the objects of a points-to set, with their contexts.\<close>

fun allocations :: "calls \<Rightarrow> nodeid list \<Rightarrow> (fn_ref \<times> ctx) list go_result" where
  "allocations a [] = Inr []"
| "allocations a (n # ns) =
     (if n = 0 then allocations a ns
      else bindR (get_node n (graph a)) (\<lambda>nd.
        case obj nd of
          None \<Rightarrow> allocations a ns
        | Some _ \<Rightarrow>
            (case obj_cgn a n of
               None \<Rightarrow> Inl NilDereference
             | Some c \<Rightarrow> bindR (cgnode_of a c) (\<lambda>cn. bindR (allocations a ns) (\<lambda>as. Inr ((cg_fn cn, callersite cn) # as))))))"

definition GetAllocations :: "calls \<Rightarrow> PointerWCtx \<Rightarrow> (fn_ref \<times> ctx) list go_result" where
  "GetAllocations a p =
     bindR (PointsTo a p) (\<lambda>s.
       case s of
         None \<Rightarrow> Inl NilDereference
       | Some r \<Rightarrow> if ns_IsEmpty (set_of a r) then Inr [] else allocations a (ns_list (set_of a r)))"

section \<open>Pointers of a value\<close>

definition pointsToFreeVar :: "query_env \<Rightarrow> results \<Rightarrow> ref option \<Rightarrow> PointerWCtx list option" where
  "pointsToFreeVar e r v =
     (case v of
        None \<Rightarrow> None
      | Some x \<Rightarrow>
          (case ssa_program.obj (q_prog e) x of
             Global \<Rightarrow> GlobalQueries r x
           | FreeVar \<Rightarrow> GlobalQueries r x
           | UnOp _ y \<Rightarrow> GlobalQueries r y
           | _ \<Rightarrow> None))"

definition pointsToRegular :: "results \<Rightarrow> ref option \<Rightarrow> PointerWCtx list option" where
  "pointsToRegular r v =
     (case v of
        None \<Rightarrow> None
      | Some x \<Rightarrow>
          if Queries r x \<noteq> None then Queries r x
          else if IndirectQueries r x \<noteq> None then IndirectQueries r x
          else ExtendedQueries r x)"

definition result_PointsTo :: "query_env \<Rightarrow> results \<Rightarrow> ref option \<Rightarrow> PointerWCtx list option" where
  "result_PointsTo e r v = (if pointsToFreeVar e r v \<noteq> None then pointsToFreeVar e r v else pointsToRegular r v)"

definition pointer_cgnode :: "results \<Rightarrow> PointerWCtx \<Rightarrow> cgnode option go_result" where
  "pointer_cgnode r p = (case p_cgn p of None \<Rightarrow> Inr None | Some c \<Rightarrow> bindR (cgnode_of (r_a r) c) (\<lambda>n. Inr (Some n)))"

definition main_node :: "results \<Rightarrow> cgnode option go_result" where
  "main_node r = (case r_main r of None \<Rightarrow> Inr None | Some c \<Rightarrow> bindR (cgnode_of (r_a r) c) (\<lambda>n. Inr (Some n)))"

definition matches :: "results \<Rightarrow> cgnode \<Rightarrow> nat option \<Rightarrow> bool go_result" where
  "matches r n g =
     bindR (main_node r) (\<lambda>m.
       MatchMyContext \<lparr>isMain = r_isMain r, result_main = m\<rparr> (site_store (r_a r)) (Some n) g (testMainCtx r))"

definition matches_loop :: "results \<Rightarrow> cgnode \<Rightarrow> nat option \<Rightarrow> int \<Rightarrow> bool go_result" where
  "matches_loop r n g l =
     bindR (main_node r) (\<lambda>m.
       MatchMyContextWithLoopID \<lparr>isMain = r_isMain r, result_main = m\<rparr> (site_store (r_a r)) (Some n) g l (testMainCtx r))"

text \<open>The first pointer of the right function in the right context; \<open>f\<close> is the test of contexts.\<close>

fun pick_pointer :: "(cgnode \<Rightarrow> bool go_result) \<Rightarrow> results \<Rightarrow> ref option \<Rightarrow> PointerWCtx list \<Rightarrow> PointerWCtx go_result" where
  "pick_pointer f r parent [] = Inr no_pointer"
| "pick_pointer f r parent (p # ps) =
     bindR (pointer_cgnode r p) (\<lambda>n.
       case n of
         None \<Rightarrow> Inl NilDereference
       | Some c \<Rightarrow>
           if parent = Some (cg_fn c)
           then if IsFromApp (r_a r) (cg_fn c)
                then bindR (f c) (\<lambda>m. if m then Inr p else pick_pointer f r parent ps)
                else Inr p
           else pick_pointer f r parent ps)"

definition points_to_by :: "(cgnode \<Rightarrow> bool go_result) \<Rightarrow> query_env \<Rightarrow> results \<Rightarrow> ref option \<Rightarrow> PointerWCtx go_result" where
  "points_to_by f e r v =
     (case pointsToFreeVar e r v of
        Some [] \<Rightarrow> Inr no_pointer
      | Some (p # _) \<Rightarrow> Inr p
      | None \<Rightarrow>
          (case pointsToRegular r v of
             None \<Rightarrow> Inr no_pointer
           | Some ps \<Rightarrow> pick_pointer f r (Option.bind v (val_parent (q_prog e))) ps))"

definition PointsToByGo :: "query_env \<Rightarrow> results \<Rightarrow> ref option \<Rightarrow> nat option \<Rightarrow> PointerWCtx go_result" where
  "PointsToByGo e r v g = points_to_by (\<lambda>c. matches r c g) e r v"

definition PointsToByGoWithLoopID :: "query_env \<Rightarrow> results \<Rightarrow> ref option \<Rightarrow> nat option \<Rightarrow> int \<Rightarrow> PointerWCtx go_result" where
  "PointsToByGoWithLoopID e r v g l = points_to_by (\<lambda>c. matches_loop r c g l) e r v"

definition mustDeref :: "ty_store \<Rightarrow> ty \<Rightarrow> ty go_result" where
  "mustDeref s t = (case s (Underlying s t) of PointerT u \<Rightarrow> Inr u | _ \<Rightarrow> Inl TypeAssertionFailed)"

definition getPointerWithOffset :: "query_env \<Rightarrow> ref \<Rightarrow> PointerWCtx \<Rightarrow> int \<Rightarrow> PointerWCtx go_result option" where
  "getPointerWithOffset e v p f =
     bindL (Some (mustDeref (q_types e) (q_type e v))) (\<lambda>u.
     bindL (offsetOf (q_fuel e) (q_types e) u (nat f)) (\<lambda>off.
       Some (Inr \<lparr>p_live = True, p_node = (if off = 0 then p_node p else p_node p + off + 1), p_cgn = p_cgn p\<rparr>)))"

definition PointsToByGoWithLoopIDOffset ::
  "query_env \<Rightarrow> results \<Rightarrow> ref \<Rightarrow> int \<Rightarrow> nat option \<Rightarrow> int \<Rightarrow> PointerWCtx go_result option" where
  "PointsToByGoWithLoopIDOffset e r v f g l =
     bindL (Some (PointsToByGoWithLoopID e r (Some v) g l)) (\<lambda>p.
       if \<not> p_live p then Some (Inr no_pointer) else getPointerWithOffset e v p f)"

text \<open>The lookups of \<^verbatim>\<open>ResultWCtx\<close>.\<close>

fun pick_main :: "results \<Rightarrow> PointerWCtx list \<Rightarrow> PointerWCtx go_result" where
  "pick_main r [] = Inr no_pointer"
| "pick_main r (p # ps) =
     bindR (pointer_cgnode r p) (\<lambda>n.
     bindR (pointer_unbound n) (\<lambda>unbound.
       if unbound then pick_main r ps
       else case n of
              None \<Rightarrow> pick_main r ps
            | Some c \<Rightarrow>
                bindR (first_site_of (site_store (r_a r)) (callersite c)) (\<lambda>s.
                bindR (main_node r) (\<lambda>m.
                  case m of
                    None \<Rightarrow> Inl NilDereference
                  | Some mn \<Rightarrow>
                      bindR (first_site_of (site_store (r_a r)) (callersite mn)) (\<lambda>ms.
                        if targets s = targets ms then Inr p else pick_main r ps)))))"

definition pointsToByMain :: "query_env \<Rightarrow> results \<Rightarrow> ref option \<Rightarrow> PointerWCtx go_result" where
  "pointsToByMain e r v =
     (case pointsToFreeVar e r v of
        Some ps \<Rightarrow> nth_go ps 0
      | None \<Rightarrow> (case pointsToRegular r v of None \<Rightarrow> Inr no_pointer | Some ps \<Rightarrow> pick_main r ps))"

fun pick_go :: "results \<Rightarrow> nat option \<Rightarrow> PointerWCtx list \<Rightarrow> PointerWCtx go_result" where
  "pick_go r g [] = Inr no_pointer"
| "pick_go r g (p # ps) =
     bindR (pointer_cgnode r p) (\<lambda>n.
     bindR (main_node r) (\<lambda>m.
     bindR (MatchMyContext \<lparr>isMain = r_isMain r, result_main = m\<rparr> (site_store (r_a r)) n g None) (\<lambda>b.
       if b then Inr p else pick_go r g ps)))"

definition pointsToByGo :: "query_env \<Rightarrow> results \<Rightarrow> ref option \<Rightarrow> nat option \<Rightarrow> PointerWCtx go_result" where
  "pointsToByGo e r v g =
     (case pointsToFreeVar e r v of
        Some ps \<Rightarrow> nth_go ps 0
      | None \<Rightarrow>
          if g = None then pointsToByMain e r v
          else (case pointsToRegular r v of None \<Rightarrow> Inr no_pointer | Some ps \<Rightarrow> pick_go r g ps))"

section \<open>Functions and call edges\<close>

definition getCGNodebyFunc :: "results \<Rightarrow> ref option \<Rightarrow> nat list" where
  "getCGNodebyFunc r f =
     (case f of None \<Rightarrow> [] | Some fn \<Rightarrow> (case map_of (Fn2CGNode (CallGraph (r_a r))) fn of None \<Rightarrow> [] | Some cs \<Rightarrow> cs))"

fun pick_cgnode :: "results \<Rightarrow> nat option \<Rightarrow> nat list \<Rightarrow> nat option go_result" where
  "pick_cgnode r g [] = Inr None"
| "pick_cgnode r g (c # cs) =
     bindR (cgnode_of (r_a r) c) (\<lambda>n.
     bindR (matchMyContext (site_store (r_a r)) n g) (\<lambda>b. if b then Inr (Some c) else pick_cgnode r g cs))"

definition getCGNodebyFuncGoInstr :: "results \<Rightarrow> ref option \<Rightarrow> nat option \<Rightarrow> nat option go_result" where
  "getCGNodebyFuncGoInstr r f g = pick_cgnode r g (getCGNodebyFunc r f)"

definition lookup_id :: "(nat \<times> nodeid) list \<Rightarrow> ref \<Rightarrow> nodeid" where
  "lookup_id m v = (case map_of m v of None \<Rightarrow> 0 | Some n \<Rightarrow> n)"

definition pointsTo2 :: "results \<Rightarrow> ref \<Rightarrow> nat option \<Rightarrow> ref option \<Rightarrow> PointerWCtx go_result" where
  "pointsTo2 r v g f =
     bindR (getCGNodebyFuncGoInstr r f g) (\<lambda>c.
     bindR (case c of
              None \<Rightarrow> Inr 0
            | Some i \<Rightarrow> bindR (cgnode_of (r_a r) i) (\<lambda>n.
                Inr (if lookup_id (slice (localval n)) v \<noteq> 0 then lookup_id (slice (localval n)) v
                     else lookup_id (slice (localobj n)) v))) (\<lambda>local.
       if local \<noteq> 0 then Inr \<lparr>p_live = True, p_node = local, p_cgn = c\<rparr>
       else if lookup_id (globalval (r_a r)) v \<noteq> 0
       then Inr \<lparr>p_live = True, p_node = lookup_id (globalval (r_a r)) v, p_cgn = None\<rparr>
       else if v \<in> set (fn_keys (r_a r)) \<and> globalobj (graph (r_a r)) v \<noteq> 0
       then Inr \<lparr>p_live = True, p_node = globalobj (graph (r_a r)) v, p_cgn = None\<rparr>
       else Inr no_pointer))"

definition node_fn :: "results \<Rightarrow> nat \<Rightarrow> fn_ref go_result" where
  "node_fn r n = bindR (cgnode_of (r_a r) (g_cgn (node_at (CallGraph (r_a r)) n))) (\<lambda>c. Inr (cg_fn c))"

definition outs_of :: "results \<Rightarrow> nat \<Rightarrow> gedge list go_result" where
  "outs_of r c =
     (case GetNodeWCtx (CallGraph (r_a r)) c of
        None \<Rightarrow> Inl NilDereference
      | Some n \<Rightarrow> Inr (map (edge_at (CallGraph (r_a r))) (g_out (node_at (CallGraph (r_a r)) n))))"

fun callees_at :: "results \<Rightarrow> ref \<Rightarrow> gedge list \<Rightarrow> fn_ref list go_result" where
  "callees_at r i [] = Inr []"
| "callees_at r i (ed # eds) =
     (if e_site ed = Some i
      then bindR (node_fn r (e_callee ed)) (\<lambda>f. bindR (callees_at r i eds) (\<lambda>fs. Inr (f # fs)))
      else callees_at r i eds)"

definition getInvokeFunc :: "query_env \<Rightarrow> results \<Rightarrow> ref \<Rightarrow> nat option \<Rightarrow> fn_ref list go_result" where
  "getInvokeFunc e r i g =
     bindR (getCGNodebyFuncGoInstr r (val_parent (q_prog e) i) g) (\<lambda>c.
       case c of None \<Rightarrow> Inr [] | Some k \<Rightarrow> bindR (outs_of r k) (callees_at r i))"

fun first_callee :: "callgraph \<Rightarrow> ref \<Rightarrow> nat list \<Rightarrow> nat option" where
  "first_callee g i [] = None"
| "first_callee g i (ed # eds) =
     (if e_site (edge_at g ed) = Some i then Some (g_cgn (node_at g (e_callee (edge_at g ed)))) else first_callee g i eds)"

fun first_callee_of :: "callgraph \<Rightarrow> ref \<Rightarrow> nat list \<Rightarrow> nat option" where
  "first_callee_of g i [] = None"
| "first_callee_of g i (n # ns) =
     (case first_callee g i (g_out (node_at g n)) of Some c \<Rightarrow> Some c | None \<Rightarrow> first_callee_of g i ns)"

text \<open>The goroutine is a parameter of \<^verbatim>\<open>getFreeVarFunc\<close> that the code does not read.\<close>

definition getFreeVarFunc :: "results \<Rightarrow> fn_ref \<Rightarrow> ref \<Rightarrow> nat option \<Rightarrow> nat option" where
  "getFreeVarFunc r clr i g = first_callee_of (CallGraph (r_a r)) i (GetNodesForFn (CallGraph (r_a r)) clr)"

definition GetFreeVarFunc :: "results \<Rightarrow> fn_ref \<Rightarrow> ref \<Rightarrow> nat option \<Rightarrow> fn_ref option go_result" where
  "GetFreeVarFunc r clr i g =
     (case getFreeVarFunc r clr i g of None \<Rightarrow> Inr None | Some c \<Rightarrow> bindR (cgnode_of (r_a r) c) (\<lambda>n. Inr (Some (cg_fn n))))"

fun parent_node :: "results \<Rightarrow> nat option \<Rightarrow> nat \<Rightarrow> nat list \<Rightarrow> nat option go_result" where
  "parent_node r g k [] = Inr None"
| "parent_node r g k (c # cs) =
     bindR (cgnode_of (r_a r) c) (\<lambda>n.
     bindR (first_site (callersite n)) (\<lambda>s.
       case s of
         None \<Rightarrow> if k = 1 then Inr (Some c) else parent_node r g k cs
       | Some x \<Rightarrow> if goInstr (site_store (r_a r) x) = g then Inr (Some c) else parent_node r g k cs))"

fun callee_at :: "results \<Rightarrow> ref \<Rightarrow> gedge list \<Rightarrow> fn_ref option go_result" where
  "callee_at r i [] = Inr None"
| "callee_at r i (ed # eds) =
     (if e_site ed = Some i then bindR (node_fn r (e_callee ed)) (\<lambda>f. Inr (Some f)) else callee_at r i eds)"

definition getFunc :: "query_env \<Rightarrow> results \<Rightarrow> ref \<Rightarrow> ref \<Rightarrow> nat option \<Rightarrow> fn_ref option go_result" where
  "getFunc e r p i g =
     (let cs = getCGNodebyFunc r (val_parent (q_prog e) p)
      in bindR (parent_node r g (length cs) cs) (\<lambda>c.
           case c of None \<Rightarrow> Inr None | Some k \<Rightarrow> bindR (outs_of r k) (callee_at r i)))"

definition getFunc2 :: "results \<Rightarrow> PointerWCtx \<Rightarrow> fn_ref go_result" where
  "getFunc2 r p =
     bindR (PointsTo (r_a r) p) (\<lambda>s.
       case s of
         None \<Rightarrow> Inl NilDereference
       | Some q \<Rightarrow>
           bindR (Min_elem (set_of (r_a r) q)) (\<lambda>k.
           bindR (nth_go (nodes (graph (r_a r))) k) (\<lambda>nd.
             case (obj nd, obj_cgn (r_a r) (of_int k)) of
               (Some _, Some c) \<Rightarrow> bindR (cgnode_of (r_a r) c) (\<lambda>n. Inr (cg_fn n))
             | _ \<Rightarrow> Inl NilDereference)))"

definition AnalyzeTest :: "fn_ref \<Rightarrow> results \<Rightarrow> results go_result" where
  "AnalyzeTest test r =
     (if r_isMain r then Inl (ExplicitPanic ''This result is for analyzing a main entry, not a test entry'')
      else bindR (nth_go (getCGNodebyFunc r (Some test)) 0) (\<lambda>c.
           bindR (cgnode_of (r_a r) c) (\<lambda>n. Inr (r\<lparr>testMainCtx := callersite n\<rparr>))))"

end
