(* ===== verification/Pointer_Results.thy ===== *)
theory Pointer_Results
  imports Pointer_Queries
begin

text \<open>
  The end of the analysis: what \<^verbatim>\<open>AnalyzeWCtx\<close> does after the constraints are solved (call-graph nodes,
  call edges, actual contexts, the node of main) and the tables of queries that \<^verbatim>\<open>translateResult\<close> fills
  from the node tables of every context (\<^verbatim>\<open>gopta/go/pointer/analysis.go\<close>).
\<close>

section \<open>The call graph\<close>

fun create_nodes :: "nat list \<Rightarrow> callgraph \<Rightarrow> callgraph" where
  "create_nodes [] g = g"
| "create_nodes (c # cs) g = create_nodes cs (snd (CreateNodeWCtx c g))"

text \<open>The targets are read once per call site; adding an edge does not change a points-to set.\<close>

fun site_edges :: "call_text \<Rightarrow> nat \<Rightarrow> nat \<Rightarrow> nodeid list \<Rightarrow> calls \<Rightarrow> calls go_result" where
  "site_edges t c st [] a = Inr a"
| "site_edges t c st (k # ks) a = bindR (callEdge t c (Some st) k a) (site_edges t c st ks)"

fun sites_edges :: "call_text \<Rightarrow> nat \<Rightarrow> nat list \<Rightarrow> calls \<Rightarrow> calls go_result" where
  "sites_edges t c [] a = Inr a"
| "sites_edges t c (st # sts) a =
     bindR (ref_of (targets (site_store a st)) (graph a)) (\<lambda>r.
     bindR (site_edges t c st (ns_list (set_of a r)) a) (sites_edges t c sts))"

fun callers_edges :: "call_text \<Rightarrow> nat list \<Rightarrow> calls \<Rightarrow> calls go_result" where
  "callers_edges t [] a = Inr a"
| "callers_edges t (c # cs) a =
     bindR (cgnode_of a c) (\<lambda>n. bindR (sites_edges t c (sites n) a) (callers_edges t cs))"

text \<open>The last node of the main function; none when a test is analysed, whose package has no main.\<close>

definition find_main :: "fn_ref option \<Rightarrow> calls \<Rightarrow> nat option" where
  "find_main f a =
     (case filter (\<lambda>c. Some (cg_fn (cgnodes a ! c)) = f) [0..<length (cgnodes a)] of [] \<Rightarrow> None | cs \<Rightarrow> Some (last cs))"

definition finish_graph :: "call_text \<Rightarrow> calls \<Rightarrow> calls go_result option" where
  "finish_graph t a =
     (let a = a\<lparr>CallGraph := create_nodes [0..<length (cgnodes a)] (CallGraph a)\<rparr>
      in bindL (Some (callers_edges t [0..<length (cgnodes a)] a)) (updateActualCallSites t))"

definition finish_analysis :: "call_text \<Rightarrow> fn_ref option \<Rightarrow> bool \<Rightarrow> calls \<Rightarrow> results go_result option" where
  "finish_analysis t mf im a =
     bindL (finish_graph t a) (\<lambda>b.
       Some (Inr \<lparr>r_a = b\<lparr>CallGraph := computeFn2CGNode (\<lambda>c. cg_fn (cgnodes b ! c)) (CallGraph b)\<rparr>,
                  r_main = find_main mf b, r_isMain = im, Queries = Map.empty, IndirectQueries = Map.empty,
                  GlobalQueries = Map.empty, ExtendedQueries = Map.empty, testMainCtx = None\<rparr>))"

section \<open>The tables of queries\<close>

definition record_query :: "ref \<Rightarrow> PointerWCtx \<Rightarrow> query_map \<Rightarrow> query_map" where
  "record_query v p m = m(v \<mapsto> case m v of None \<Rightarrow> [p] | Some ps \<Rightarrow> ps @ [p])"

definition global_value :: "query_env \<Rightarrow> ref \<Rightarrow> bool" where
  "global_value e v = (case ssa_program.obj (q_prog e) v of FreeVar \<Rightarrow> True | Global \<Rightarrow> True | _ \<Rightarrow> False)"

definition translateQueries :: "query_env \<Rightarrow> ref \<Rightarrow> nodeid \<Rightarrow> nat option \<Rightarrow> results \<Rightarrow> results go_result" where
  "translateQueries e v n c r =
     (if c = None \<and> \<not> DoCompare e \<and> global_value e v
      then bindR (get_node n (graph (r_a r))) (\<lambda>nd.
             if obj nd \<noteq> None \<and> is_global_object e n then Inr r
             else Inr (r\<lparr>GlobalQueries := record_query v \<lparr>p_live = True, p_node = n, p_cgn = None\<rparr> (GlobalQueries r)\<rparr>))
      else if can_point (q_prog e) v
      then Inr (r\<lparr>Queries := record_query v \<lparr>p_live = True, p_node = n, p_cgn = c\<rparr> (Queries r)\<rparr>)
      else Inr (r\<lparr>IndirectQueries := record_query v \<lparr>p_live = True, p_node = n, p_cgn = c\<rparr> (IndirectQueries r)\<rparr>))"

fun translate_entries :: "query_env \<Rightarrow> nat option \<Rightarrow> (ref \<times> nodeid) list \<Rightarrow> results \<Rightarrow> results go_result" where
  "translate_entries e c [] r = Inr r"
| "translate_entries e c ((v, n) # es) r =
     bindR (if n = 0 then Inr r else translateQueries e v n c r) (translate_entries e c es)"

fun translate_cgnodes :: "query_env \<Rightarrow> nat list \<Rightarrow> results \<Rightarrow> results go_result" where
  "translate_cgnodes e [] r = Inr r"
| "translate_cgnodes e (c # cs) r =
     bindR (cgnode_of (r_a r) c) (\<lambda>n.
     bindR (translate_entries e (Some c) (slice (localval n)) r) (\<lambda>r.
     bindR (translate_entries e (Some c) (slice (localobj n)) r) (translate_cgnodes e cs)))"

definition translateResult :: "query_env \<Rightarrow> results \<Rightarrow> results go_result" where
  "translateResult e r =
     (let a = r_a r; r = r\<lparr>Queries := Map.empty, IndirectQueries := Map.empty, GlobalQueries := Map.empty\<rparr>
      in bindR (translate_cgnodes e (concat (map snd (Fn2CGNode (CallGraph a)))) r) (\<lambda>r.
         bindR (translate_entries e None (globalval a) r) (\<lambda>r.
           translate_entries e None (map (\<lambda>f. (f, globalobj (graph a) f)) (fn_keys a)) r)))"

end
