(* ===== verification/Pointer_Answers.thy ===== *)
theory Pointer_Answers
  imports Pointer_Results
begin

text \<open>
  What the queries answer: intersections of points-to sets, the object that encloses a node, and the
  pointer that a search by function and context picks.
\<close>

section \<open>The solved graph\<close>

lemma solve_graph:
  assumes "fresh a" "\<forall>c \<in> set (constraints a). \<not> is_invoke c" "solve e a = Some (Inr b)"
  shows "nodes b = nodes a" "sets_ok b"
proof -
  obtain d where j: "justified e (nodes a) (set (constraints a)) d" and d: "finish_solve d = Inr b"
    using solve_justified [OF assms] by blast
  have b: "b = release d" using finish_Inr [OF d] by simp
  show "nodes b = nodes a" using j by (simp add: b release_views justified_def)
  have "work b = work d" by (simp add: b release_def)
  then show "sets_ok b" using justified_sets [OF j] ns.emp(1) by (simp add: sets_ok_def b release_def)
qed

section \<open>Intersections\<close>

lemma set_of_Lb: "ns_labels (set_of a r) = Lb (graph a) r"
  by (simp add: set_of_def Lb_def)

lemma nonempty_labels: "wf_sparse s \<Longrightarrow> \<not> IsEmpty s \<longleftrightarrow> elems s \<noteq> {}"
  by (cases s) (auto simp: wf_not_IsEmpty elems_def wf_sparse_Cons wf_block_def)

lemma Intersects_labels:
  assumes "sets_ok (graph a)"
  shows "pts_Intersects a (Some r) (Some q) = Inr (\<exists>k. k \<in> Lb (graph a) r \<and> k \<in> Lb (graph a) q)"
proof -
  let ?st = "\<lambda>p :: nat. if p = 0 then [] else if p = 1 then set_of a r else set_of a q" and ?y = "if r = q then 1 else 2 :: nat"
  have ok: "ns_ok (set_of a r)" "ns_ok (set_of a q)" using sets_okD(2) [OF assms] by (simp_all add: set_of_def)
  have y: "?st ?y = set_of a q" by simp
  have wf: "wf_sparse (?st 0)" "wf_sparse (?st 1)" "wf_sparse (?st ?y)"
    using ok ns.emp(1) unfolding y by (simp_all add: ns_ok_def)
  obtain st where st: "Intersection ?st 0 1 ?y = Inr st" "only_changes ?st 0 (elems (?st 1) \<inter> elems (?st ?y)) st"
    using Intersection_ok [OF wf] by blast
  have "\<not> IsEmpty (st 0) \<longleftrightarrow> elems (set_of a r) \<inter> elems (set_of a q) \<noteq> {}"
    using st(2) nonempty_labels [of "st 0"] unfolding only_changes_def y by simp
  also have "\<dots> \<longleftrightarrow> (\<exists>k. k \<in> Lb (graph a) r \<and> k \<in> Lb (graph a) q)"
    unfolding set_of_Lb [symmetric] using ns_mem [OF ok(1)] ns_mem [OF ok(2)]
    by (auto simp: ns_labels_def)
  finally show ?thesis using st(1) by (simp add: pts_Intersects_def)
qed

section \<open>Enclosing objects\<close>

text \<open>Objects lie within the nodes, and no object begins inside another.\<close>

definition solid :: "node list \<Rightarrow> bool" where
  "solid ns \<longleftrightarrow>
     length ns < 2 ^ 32 \<and>
     (\<forall>i < length ns. \<forall>ob. obj (ns ! i) = Some ob \<longrightarrow>
        0 < obj_size ob \<and> i + unat (obj_size ob) \<le> length ns \<and> (\<forall>j. i < j \<longrightarrow> j < i + unat (obj_size ob) \<longrightarrow> obj (ns ! j) = None))"

text \<open>Node \<open>n\<close> is in the block that begins at \<open>b\<close>.\<close>

definition in_block :: "node list \<Rightarrow> nodeid \<Rightarrow> nodeid \<Rightarrow> bool" where
  "in_block ns b n \<longleftrightarrow>
     unat b < length ns \<and> unat b \<le> unat n \<and> (\<exists>ob. obj (ns ! unat b) = Some ob \<and> unat n < unat b + unat (obj_size ob))"

lemma solid_inside:
  "solid ns \<Longrightarrow> i < length ns \<Longrightarrow> obj (ns ! i) = Some ob \<Longrightarrow> i < j \<Longrightarrow> j < i + unat (obj_size ob) \<Longrightarrow> obj (ns ! j) = None"
  by (simp add: solid_def)

lemma in_block_less: "solid ns \<Longrightarrow> in_block ns b n \<Longrightarrow> unat n < length ns"
  unfolding solid_def in_block_def by fastforce

lemma in_block_unique:
  assumes "solid ns" "in_block ns b n" "in_block ns c n"
  shows "b = c"
proof -
  have "unat b' \<le> unat c'" if bc: "in_block ns b' n" "in_block ns c' n" for b' c'
  proof (rule ccontr)
    assume l: "\<not> unat b' \<le> unat c'"
    obtain ob where ob: "obj (ns ! unat c') = Some ob" "unat n < unat c' + unat (obj_size ob)" "unat c' < length ns"
      using bc(2) by (auto simp: in_block_def)
    have "obj (ns ! unat b') = None"
      by (rule solid_inside [OF assms(1) ob(3,1)]) (use l ob(2) bc(1) in \<open>simp_all add: in_block_def\<close>)
    then show False using bc(1) by (simp add: in_block_def)
  qed
  then show ?thesis using assms(2,3) by (simp add: word_unat_eq_iff le_antisym)
qed

lemma enclosing_loop_block:
  assumes s: "solid (nodes a)" and b: "in_block (nodes a) b n"
  shows "unat b \<le> unat i \<Longrightarrow> unat i \<le> unat n \<Longrightarrow> enclosing_loop a n i = Some (Inr b)"
proof (induction "unat i" arbitrary: i rule: less_induct)
  case less
  obtain ob where ob: "obj (nodes a ! unat b) = Some ob" "unat n < unat b + unat (obj_size ob)" "unat b < length (nodes a)"
    using b by (auto simp: in_block_def)
  have "unat i < length (nodes a)" using less.prems(2) in_block_less [OF s b] by simp
  then have g: "get_node i a = Inr (nodes a ! unat i)" by (simp add: get_node_Inr is_node_def)
  show ?case
  proof (cases "i = b")
    case True
    have "unat b + unat (obj_size ob) \<le> length (nodes a)" using s ob(1,3) by (simp add: solid_def)
    then have "unat (b + obj_size ob) = unat b + unat (obj_size ob)" using s by (intro unat_add_lem [THEN iffD1]) (simp add: solid_def)
    then have "\<not> b + obj_size ob \<le> n" using ob(2) by (simp add: word_le_nat_alt)
    then show ?thesis using g ob(1) True by (simp add: enclosing_loop.simps)
  next
    case False
    then have "unat b \<noteq> unat i" by (simp add: word_unat_eq_iff)
    then have l: "unat b < unat i" "unat i < unat b + unat (obj_size ob)" using less.prems ob(2) by simp_all
    then have "obj (nodes a ! unat i) = None" by (rule solid_inside [OF s ob(3,1)])
    moreover have u: "unat (i - 1) = unat i - 1" using l(1) by (intro unat_minus_one) auto
    then have "enclosing_loop a n (i - 1) = Some (Inr b)" using less.hyps [of "i - 1"] l(1) less.prems(2) by simp
    ultimately show ?thesis using g by (simp add: enclosing_loop.simps [of a n i])
  qed
qed

lemma labelFor_block:
  assumes "solid (nodes a)" "in_block (nodes a) b n"
  shows "labelFor n a = Some (Inr \<lparr>l_obj = b, l_node = n\<rparr>)"
proof -
  have "enclosingObj n a = Some (Inr b)"
    unfolding enclosingObj_def by (rule enclosing_loop_block [OF assms]) (use assms(2) in \<open>simp_all add: in_block_def\<close>)
  moreover have "get_node n a = Inr (nodes a ! unat n)" using in_block_less [OF assms] by (simp add: get_node_Inr is_node_def)
  ultimately show ?thesis by (simp add: labelFor_def)
qed

lemma labels_for_blocks:
  assumes "solid (nodes a)"
  shows "\<forall>n \<in> set ns. \<exists>b. in_block (nodes a) b n \<Longrightarrow>
    \<exists>ls. labels_for a ns = Some (Inr ls) \<and> map l_node ls = ns \<and> (\<forall>l \<in> set ls. in_block (nodes a) (l_obj l) (l_node l))"
proof (induction ns)
  case (Cons n ns)
  then obtain b ls where "in_block (nodes a) b n" "labels_for a ns = Some (Inr ls)" "map l_node ls = ns"
      "\<forall>l \<in> set ls. in_block (nodes a) (l_obj l) (l_node l)" by auto
  then show ?case using labelFor_block [OF assms] by simp
qed simp

section \<open>Picking a pointer\<close>

text \<open>The pointer belongs to a context of the function that the test accepts.\<close>

definition suits :: "(cgnode \<Rightarrow> bool go_result) \<Rightarrow> results \<Rightarrow> ref option \<Rightarrow> nat option \<Rightarrow> bool" where
  "suits f r parent c \<longleftrightarrow>
     (\<exists>i n. c = Some i \<and> cgnode_of (r_a r) i = Inr n \<and> parent = Some (cg_fn n) \<and>
        (IsFromApp (r_a r) (cg_fn n) \<longrightarrow> f n = Inr True))"

lemma pick_pointer_spec:
  "pick_pointer f r parent ps = Inr p \<Longrightarrow>
   (p \<in> set ps \<and> suits f r parent (p_cgn p)) \<or> (p = no_pointer \<and> (\<forall>q \<in> set ps. \<not> suits f r parent (p_cgn q)))"
proof (induction ps)
  case (Cons q ps)
  obtain i n where n: "p_cgn q = Some i" "cgnode_of (r_a r) i = Inr n"
    and rest: "(if parent = Some (cg_fn n)
           then if IsFromApp (r_a r) (cg_fn n)
                then bindR (f n) (\<lambda>m. if m then Inr q else pick_pointer f r parent ps)
                else Inr q
           else pick_pointer f r parent ps) = Inr p"
    using Cons.prems by (auto simp: pointer_cgnode_def bindR_eq_Inr_iff split: option.splits)
  show ?case
  proof (cases "suits f r parent (p_cgn q)")
    case True
    then have "p = q" using rest n by (auto simp: suits_def split: if_splits)
    then show ?thesis using True by simp
  next
    case False
    then have "pick_pointer f r parent ps = Inr p"
      using rest n by (auto simp: suits_def bindR_eq_Inr_iff split: if_splits)
    then show ?thesis using Cons.IH False by auto
  qed
qed simp

end
