(* ===== verification/Pointer_Tables.thy ===== *)
theory Pointer_Tables
  imports Pointer_Answers
begin

text \<open>
  What the end of the analysis produces: the entries of the tables of queries, and the edges of the call
  graph.
\<close>

section \<open>Tables\<close>

definition entries :: "PointerWCtx list option \<Rightarrow> PointerWCtx list" where
  "entries m = (case m of None \<Rightarrow> [] | Some ps \<Rightarrow> ps)"

text \<open>The table that holds a value which is not global.\<close>

definition regular :: "query_env \<Rightarrow> results \<Rightarrow> ref \<Rightarrow> PointerWCtx list" where
  "regular e r v = entries (if can_point (q_prog e) v then Queries r v else IndirectQueries r v)"

definition other_empty :: "query_env \<Rightarrow> results \<Rightarrow> ref \<Rightarrow> bool" where
  "other_empty e r v \<longleftrightarrow>
     ExtendedQueries r v = None \<and> (if can_point (q_prog e) v then IndirectQueries r v = None else Queries r v = None)"

definition pointers_of :: "nat option \<Rightarrow> ref \<Rightarrow> (ref \<times> nodeid) list \<Rightarrow> PointerWCtx list" where
  "pointers_of c v es = map (\<lambda>en. \<lparr>p_live = True, p_node = snd en, p_cgn = c\<rparr>) (filter (\<lambda>en. fst en = v \<and> snd en \<noteq> 0) es)"

lemma record_query_entries: "entries (record_query w p m v) = entries (m v) @ (if v = w then [p] else [])"
  by (simp add: record_query_def entries_def split: option.splits)

lemma record_query_other: "v \<noteq> w \<Longrightarrow> record_query w p m v = m v"
  by (simp add: record_query_def)

lemma translateQueries_regular:
  assumes "translateQueries e w n c r = Inr q" "\<not> global_value e v"
  shows "r_a q = r_a r \<and> ExtendedQueries q = ExtendedQueries r \<and>
    regular e q v = regular e r v @ (if w = v then [\<lparr>p_live = True, p_node = n, p_cgn = c\<rparr>] else []) \<and>
    (other_empty e r v \<longrightarrow> other_empty e q v)"
proof -
  have "w \<noteq> v" if "global_value e w" using that assms(2) by blast
  then show ?thesis using assms
    by (auto simp: translateQueries_def bindR_eq_Inr_iff regular_def record_query_entries record_query_other other_empty_def split: if_splits)
qed

lemma translate_entries_regular:
  "translate_entries e c es r = Inr q \<Longrightarrow> \<not> global_value e v \<Longrightarrow>
   r_a q = r_a r \<and> ExtendedQueries q = ExtendedQueries r \<and> regular e q v = regular e r v @ pointers_of c v es \<and>
   (other_empty e r v \<longrightarrow> other_empty e q v)"
proof (induction es arbitrary: r)
  case (Cons en es)
  obtain w n where en: "en = (w, n)" by (cases en)
  obtain r' where r': "(if n = 0 then Inr r else translateQueries e w n c r) = Inr r'" "translate_entries e c es r' = Inr q"
    using Cons.prems(1) by (auto simp: en bindR_eq_Inr_iff)
  have "r_a r' = r_a r \<and> ExtendedQueries r' = ExtendedQueries r \<and>
    regular e r' v = regular e r v @ (if w = v \<and> n \<noteq> 0 then [\<lparr>p_live = True, p_node = n, p_cgn = c\<rparr>] else []) \<and>
    (other_empty e r v \<longrightarrow> other_empty e r' v)"
    using r'(1) translateQueries_regular [OF _ Cons.prems(2), of w n c r r'] by (cases "n = 0") auto
  then show ?case using Cons.IH [OF r'(2) Cons.prems(2)] by (auto simp: en pointers_of_def)
qed (simp add: pointers_of_def)

text \<open>What the node tables of the context \<open>c\<close> say of a value.\<close>

definition context_pointers :: "calls \<Rightarrow> ref \<Rightarrow> nat \<Rightarrow> PointerWCtx list" where
  "context_pointers a v c = pointers_of (Some c) v (slice (localval (cgnodes a ! c)) @ slice (localobj (cgnodes a ! c)))"

lemma translate_cgnodes_regular:
  "translate_cgnodes e cs r = Inr q \<Longrightarrow> \<not> global_value e v \<Longrightarrow>
   r_a q = r_a r \<and> ExtendedQueries q = ExtendedQueries r \<and>
   regular e q v = regular e r v @ concat (map (context_pointers (r_a r) v) cs) \<and>
   (other_empty e r v \<longrightarrow> other_empty e q v)"
proof (induction cs arbitrary: r)
  case (Cons c cs)
  obtain n r1 r2 where o: "cgnode_of (r_a r) c = Inr n" "translate_entries e (Some c) (slice (localval n)) r = Inr r1"
      "translate_entries e (Some c) (slice (localobj n)) r1 = Inr r2" "translate_cgnodes e cs r2 = Inr q"
    using Cons.prems(1) by (auto simp: bindR_eq_Inr_iff)
  have n: "n = cgnodes (r_a r) ! c" using o(1) by (simp add: cgnode_of_Inr)
  show ?case
    using translate_entries_regular [OF o(2) Cons.prems(2)] translate_entries_regular [OF o(3) Cons.prems(2)]
      Cons.IH [OF o(4) Cons.prems(2)] by (simp add: context_pointers_def n pointers_of_def)
qed simp

lemma translateResult_regular:
  assumes t: "translateResult e r = Inr q" and v: "\<not> global_value e v" and x: "ExtendedQueries r = Map.empty"
  shows "r_a q = r_a r"
    "pointsToRegular q (Some v) = None \<or> pointsToRegular q (Some v) = Some (regular e q v)"
    "pointsToRegular q (Some v) = None \<Longrightarrow> regular e q v = []"
    "regular e q v = concat (map (context_pointers (r_a r) v) (concat (map snd (Fn2CGNode (CallGraph (r_a r)))))) @
       pointers_of None v (globalval (r_a r) @ map (\<lambda>f. (f, globalobj (graph (r_a r)) f)) (fn_keys (r_a r)))"
proof -
  let ?a = "r_a r" and ?r = "r\<lparr>Queries := Map.empty, IndirectQueries := Map.empty, GlobalQueries := Map.empty\<rparr>"
  obtain r1 r2 where o: "translate_cgnodes e (concat (map snd (Fn2CGNode (CallGraph ?a)))) ?r = Inr r1"
      "translate_entries e None (globalval ?a) r1 = Inr r2"
      "translate_entries e None (map (\<lambda>f. (f, globalobj (graph ?a) f)) (fn_keys ?a)) r2 = Inr q"
    using t by (auto simp: translateResult_def Let_def bindR_eq_Inr_iff)
  have s: "regular e ?r v = []" "other_empty e ?r v" by (simp_all add: regular_def entries_def other_empty_def x)
  note l = translate_cgnodes_regular [OF o(1) v] translate_entries_regular [OF o(2) v] translate_entries_regular [OF o(3) v]
  show "r_a q = r_a r" using l by simp
  show "regular e q v = concat (map (context_pointers (r_a r) v) (concat (map snd (Fn2CGNode (CallGraph (r_a r)))))) @
       pointers_of None v (globalval (r_a r) @ map (\<lambda>f. (f, globalobj (graph (r_a r)) f)) (fn_keys (r_a r)))"
    using l s by (simp add: pointers_of_def)
  have "other_empty e q v" using l s by simp
  then show "pointsToRegular q (Some v) = None \<or> pointsToRegular q (Some v) = Some (regular e q v)"
    "pointsToRegular q (Some v) = None \<Longrightarrow> regular e q v = []"
    by (auto simp: pointsToRegular_def other_empty_def regular_def entries_def split: if_splits option.splits)
qed

section \<open>Edges\<close>

text \<open>The nodes of the graph are numbered below the next number, one for each call-graph node of the analysis.\<close>

definition graph_ready :: "callgraph \<Rightarrow> bool" where
  "graph_ready g \<longleftrightarrow>
     graph_ok g \<and> (\<forall>n \<ge> next_gnode g. g_in (node_at g n) = [] \<and> g_out (node_at g n) = []) \<and>
     (\<forall>c n. GetNodeWCtx g c = Some n \<longrightarrow> n < next_gnode g \<and> g_cgn (node_at g n) = c)"

text \<open>There is an edge between the nodes of two contexts, for a call instruction.\<close>

definition edge_from :: "callgraph \<Rightarrow> nat \<Rightarrow> nat option \<Rightarrow> nat \<Rightarrow> bool" where
  "edge_from g c st d \<longleftrightarrow>
     (\<exists>n m ed. GetNodeWCtx g c = Some n \<and> GetNodeWCtx g d = Some m \<and> ed \<in> set (g_out (node_at g n)) \<and>
        e_site (edge_at g ed) = st \<and> e_callee (edge_at g ed) = m)"

lemma create_new:
  assumes "GetNodeWCtx g c = None"
  shows "CreateNodeWCtx c g = (next_gnode g, (set_node (next_gnode g) \<lparr>g_cgn = c, g_id = int (length (g_nodes g)), g_in = [], g_out = []\<rparr> g)
           \<lparr>g_nodes := g_nodes g @ [(c, next_gnode g)], next_gnode := next_gnode g + 1\<rparr>)"
  using assms by (simp add: CreateNodeWCtx_def Let_def)

lemma create_ready:
  assumes r: "graph_ready g" and c: "CreateNodeWCtx c g = (n, h)"
  shows "graph_ready h" "GetNodeWCtx h c = Some n" "edge_from h = edge_from g"
    "GetNodeWCtx g d = Some m \<Longrightarrow> GetNodeWCtx h d = Some m"
proof -
  have ok: "graph_ok h" using CreateNodeWCtx_ok [of g c] r c by (simp add: graph_ready_def)
  have "graph_ready h \<and> GetNodeWCtx h c = Some n \<and> edge_from h = edge_from g \<and> (GetNodeWCtx g d = Some m \<longrightarrow> GetNodeWCtx h d = Some m)"
  proof (cases "GetNodeWCtx g c")
    case None
    let ?h = "(set_node (next_gnode g) \<lparr>g_cgn = c, g_id = int (length (g_nodes g)), g_in = [], g_out = []\<rparr> g)
           \<lparr>g_nodes := g_nodes g @ [(c, next_gnode g)], next_gnode := next_gnode g + 1\<rparr>"
    have h: "n = next_gnode g" "h = ?h" using create_new [OF None] c by simp_all
    have m: "GetNodeWCtx h x = (if x = c then Some (next_gnode g) else GetNodeWCtx g x)" for x
      using None by (auto simp: h GetNodeWCtx_def set_node_def map_add_def split: option.splits)
    have nd: "node_at h x = (if x = next_gnode g then \<lparr>g_cgn = c, g_id = int (length (g_nodes g)), g_in = [], g_out = []\<rparr> else node_at g x)"
      "edge_at h = edge_at g" "next_gnode h = next_gnode g + 1" for x by (simp_all add: h set_node_def)
    have old: "GetNodeWCtx g x = Some y \<Longrightarrow> y < next_gnode g \<and> g_cgn (node_at g y) = x" for x y using r by (simp add: graph_ready_def)
    have no: "ed \<notin> set (g_out (node_at h (next_gnode g)))" for ed by (simp add: nd)
    have tgt: "GetNodeWCtx g (g_cgn (node_at g m)) \<noteq> Some (next_gnode g)" for m using old by blast
    have "edge_from h x st y = edge_from g x st y" for x st y
    proof
      assume "edge_from h x st y"
      then obtain n m ed where e: "GetNodeWCtx h x = Some n" "GetNodeWCtx h y = Some m" "ed \<in> set (g_out (node_at h n))"
          "e_site (edge_at h ed) = st" "e_callee (edge_at h ed) = m" unfolding edge_from_def by blast
      have n: "n \<noteq> next_gnode g" using e(3) no by blast
      then have x: "GetNodeWCtx g x = Some n" "ed \<in> set (g_out (node_at g n))" using e(1,3) by (simp_all add: m nd split: if_splits)
      have "ed \<in> set (g_in (node_at g m))" using r x(2) e(5) by (auto simp: graph_ready_def graph_ok_def nd)
      then have "m < next_gnode g" using r by (auto simp: graph_ready_def not_less [symmetric])
      then have "GetNodeWCtx g y = Some m" using e(2) by (simp add: m split: if_splits)
      then show "edge_from g x st y" using x e(4,5) by (auto simp: edge_from_def nd)
    next
      assume "edge_from g x st y"
      then obtain n m ed where e: "GetNodeWCtx g x = Some n" "GetNodeWCtx g y = Some m" "ed \<in> set (g_out (node_at g n))"
          "e_site (edge_at g ed) = st" "e_callee (edge_at g ed) = m" unfolding edge_from_def by blast
      have "x \<noteq> c" "y \<noteq> c" "n \<noteq> next_gnode g" using e(1,2) None old [OF e(1)] by auto
      then show "edge_from h x st y" using e unfolding edge_from_def by (auto simp: m nd)
    qed
    then have "edge_from h = edge_from g" by (simp add: fun_eq_iff)
    moreover have "graph_ready h" unfolding graph_ready_def using ok r by (auto simp: m nd graph_ready_def less_Suc_eq)
    ultimately show "graph_ready h \<and> GetNodeWCtx h c = Some n \<and> edge_from h = edge_from g \<and> (GetNodeWCtx g d = Some m \<longrightarrow> GetNodeWCtx h d = Some m)"
      using None h(1) by (auto simp: m)
  qed (use r c in \<open>simp add: CreateNodeWCtx_def\<close>)
  then show "graph_ready h" "GetNodeWCtx h c = Some n" "edge_from h = edge_from g" "GetNodeWCtx g d = Some m \<Longrightarrow> GetNodeWCtx h d = Some m"
    by blast+
qed

lemma add_edge_ready:
  assumes r: "graph_ready g" and n: "GetNodeWCtx g c = Some n" "GetNodeWCtx g d = Some m"
  shows "graph_ready (AddEdge n st m g)" "GetNodeWCtx (AddEdge n st m g) = GetNodeWCtx g"
    "edge_from (AddEdge n st m g) x s y \<longleftrightarrow> edge_from g x s y \<or> (x = c \<and> s = st \<and> y = d)"
proof -
  let ?h = "AddEdge n st m g"
  show get: "GetNodeWCtx ?h = GetNodeWCtx g" by (simp add: fun_eq_iff GetNodeWCtx_def AddEdge_views)
  have nx: "next_gnode ?h = next_gnode g" by (simp add: AddEdge_def Let_def set_node_def)
  have old: "GetNodeWCtx g x = Some y \<Longrightarrow> y < next_gnode g \<and> g_cgn (node_at g y) = x" for x y using r by (simp add: graph_ready_def)
  have "graph_ok ?h" using r AddEdge_ok by (simp add: graph_ready_def)
  then show "graph_ready ?h"
    using r old [OF n(1)] old [OF n(2)] by (auto simp: graph_ready_def AddEdge_views nx get)
  have lt: "ed < next_gedge g" if "ed \<in> set (g_out (node_at g k))" for ed k using r that by (auto simp: graph_ready_def graph_ok_def)
  show "edge_from ?h x s y \<longleftrightarrow> edge_from g x s y \<or> (x = c \<and> s = st \<and> y = d)"
  proof
    assume "edge_from ?h x s y"
    then obtain n' m' ed where e: "GetNodeWCtx g x = Some n'" "GetNodeWCtx g y = Some m'" "ed \<in> set (g_out (node_at ?h n'))"
        "e_site (edge_at ?h ed) = s" "e_callee (edge_at ?h ed) = m'" unfolding edge_from_def get by blast
    show "edge_from g x s y \<or> (x = c \<and> s = st \<and> y = d)"
    proof (cases "ed = next_gedge g")
      case True
      then have "ed \<notin> set (g_out (node_at g n'))" using lt by blast
      then have "n' = n" using e(3) by (simp add: AddEdge_views split: if_splits)
      moreover have "m' = m" "s = st" using e(4,5) True by (simp_all add: AddEdge_views)
      ultimately show ?thesis using old [OF e(1)] old [OF e(2)] old [OF n(1)] old [OF n(2)] by simp
    next
      case False
      then have "ed \<in> set (g_out (node_at g n'))" using e(3) by (simp add: AddEdge_views split: if_splits)
      then show ?thesis using e False by (auto simp: edge_from_def AddEdge_views)
    qed
  next
    assume "edge_from g x s y \<or> (x = c \<and> s = st \<and> y = d)"
    then show "edge_from ?h x s y"
    proof
      assume "edge_from g x s y"
      then obtain n' m' ed where e: "GetNodeWCtx g x = Some n'" "GetNodeWCtx g y = Some m'" "ed \<in> set (g_out (node_at g n'))"
        "e_site (edge_at g ed) = s" "e_callee (edge_at g ed) = m'" unfolding edge_from_def by blast
      then show ?thesis using lt [OF e(3)] unfolding edge_from_def get
        by (intro exI [of _ n'] exI [of _ m'] exI [of _ ed]) (simp add: AddEdge_views)
    next
      assume "x = c \<and> s = st \<and> y = d"
      then show ?thesis using n unfolding edge_from_def get
        by (intro exI [of _ n] exI [of _ m] exI [of _ "next_gedge g"]) (simp add: AddEdge_views)
    qed
  qed
qed

text \<open>What adding edges does not touch.\<close>

definition same_tables :: "calls \<Rightarrow> calls \<Rightarrow> bool" where
  "same_tables a b \<longleftrightarrow>
     graph b = graph a \<and> obj_cgn b = obj_cgn a \<and> site_store b = site_store a \<and> map sites (cgnodes b) = map sites (cgnodes a)"

text \<open>The edges \<open>E\<close> are added, and no others.\<close>

definition adds :: "(nat \<times> nat option \<times> nat) set \<Rightarrow> calls \<Rightarrow> calls \<Rightarrow> bool" where
  "adds E a b \<longleftrightarrow>
     same_tables a b \<and>
     (graph_ready (CallGraph a) \<longrightarrow>
        graph_ready (CallGraph b) \<and> (\<forall>d m. GetNodeWCtx (CallGraph a) d = Some m \<longrightarrow> GetNodeWCtx (CallGraph b) d = Some m) \<and>
        (\<forall>x s y. edge_from (CallGraph b) x s y \<longleftrightarrow> edge_from (CallGraph a) x s y \<or> (x, s, y) \<in> E))"

lemma same_tables_refl: "same_tables a a" by (simp add: same_tables_def)

lemma same_tables_sites:
  assumes "same_tables a b"
  shows "length (cgnodes b) = length (cgnodes a)" "i < length (cgnodes a) \<Longrightarrow> sites (cgnodes b ! i) = sites (cgnodes a ! i)"
proof -
  have m: "map sites (cgnodes b) = map sites (cgnodes a)" using assms by (simp add: same_tables_def)
  then show l: "length (cgnodes b) = length (cgnodes a)" by (rule map_eq_imp_length_eq)
  show "i < length (cgnodes a) \<Longrightarrow> sites (cgnodes b ! i) = sites (cgnodes a ! i)"
    using arg_cong [OF m, of "\<lambda>xs. xs ! i"] l by simp
qed

lemma adds_none: "adds {} a a"
  by (simp add: adds_def same_tables_def)

lemma adds_more: "adds E a b \<Longrightarrow> adds F b c \<Longrightarrow> adds (E \<union> F) a c"
  by (auto simp: adds_def same_tables_def)

definition site_targets :: "calls \<Rightarrow> nat \<Rightarrow> nat \<Rightarrow> nodeid set \<Rightarrow> (nat \<times> nat option \<times> nat) set" where
  "site_targets a c st ks = {(c, instr (site_store a st), d) |d k. k \<in> ks \<and> obj_cgn a k = Some d}"

lemma site_targets_same: "same_tables a b \<Longrightarrow> site_targets b c st ks = site_targets a c st ks"
  by (simp add: site_targets_def same_tables_def)

lemma set_cgnode_sites:
  assumes "c < length (cgnodes a)" "sites v = sites (cgnodes a ! c)"
  shows "same_tables a (set_cgnode c v a)" "CallGraph (set_cgnode c v a) = CallGraph a"
  using assms by (simp_all add: same_tables_def set_cgnode_def map_update list_update_same_conv)

lemma updateActualCallerSite_sites: "sites (updateActualCallerSite t h cs n) = sites n"
  by (simp add: updateActualCallerSite_def)

lemma callEdge_adds:
  assumes "callEdge t c (Some st) k a = Inr b"
  shows "adds (site_targets a c st {k}) a b"
proof -
  obtain d n1 g1 n2 g2 a1 where o: "obj_cgn a k = Some d" "same_tables a a1" "CallGraph a1 = CallGraph a"
      "CreateNodeWCtx c (CallGraph a) = (n1, g1)" "CreateNodeWCtx d g1 = (n2, g2)"
      "b = a1\<lparr>CallGraph := AddEdge n1 (instr (site_store a st)) n2 g2\<rparr>"
  proof -
    obtain nd where nd: "get_node k (graph a) = Inr nd" using assms by (auto simp: callEdge_def bindR_eq_Inr_iff)
    obtain ob where ob: "obj nd = Some ob" using assms nd by (cases "obj nd") (simp_all add: callEdge_def)
    have fl: "and (flags ob) otFunction \<noteq> 0" using assms nd ob by (simp add: callEdge_def split: if_splits)
    obtain d where d: "obj_cgn a k = Some d" using assms nd ob fl by (cases "obj_cgn a k") (simp_all add: callEdge_def)
    obtain c1 where c1: "cgnode_of a c = Inr c1" using assms nd ob fl d by (auto simp: callEdge_def bindR_eq_Inr_iff)
    obtain c2 where c2: "cgnode_of a d = Inr c2" using assms nd ob fl d c1 by (auto simp: callEdge_def bindR_eq_Inr_iff)
    define w where "w \<longleftrightarrow> (case map_of (closureWOGo a) k of None \<Rightarrow> False | Some v \<Rightarrow> v \<noteq> 0) \<and>
      \<not> equalCallSite t (site_store a) (callersite c1) (callersite c2)"
    define a1 where "a1 = (if w then set_cgnode d (updateActualCallerSite t (site_store a) (callersite c1) c2) a else a)"
    obtain n1 g1 where n1: "CreateNodeWCtx c (CallGraph a1) = (n1, g1)" by (cases "CreateNodeWCtx c (CallGraph a1)")
    obtain n2 g2 where n2: "CreateNodeWCtx d g1 = (n2, g2)" by (cases "CreateNodeWCtx d g1")
    have c: "d < length (cgnodes a)" "sites (updateActualCallerSite t (site_store a) (callersite c1) c2) = sites (cgnodes a ! d)"
      using c2 by (simp_all add: cgnode_of_Inr updateActualCallerSite_sites)
    have s: "same_tables a a1" "CallGraph a1 = CallGraph a" using set_cgnode_sites [OF c] by (simp_all add: a1_def same_tables_refl)
    then have st: "site_store a1 = site_store a" by (simp add: same_tables_def)
    have "(case CreateNodeWCtx c (CallGraph a1) of (n1, g) \<Rightarrow> case CreateNodeWCtx d g of (n2, g) \<Rightarrow>
        Inr (a1\<lparr>CallGraph := AddEdge n1 (instr (site_store a st)) n2 g\<rparr>)) = Inr b"
      using assms nd ob fl d c1 c2 unfolding a1_def w_def by (simp add: callEdge_def site_of_def Let_def split_def)
    then have "b = a1\<lparr>CallGraph := AddEdge n1 (instr (site_store a st)) n2 g2\<rparr>" using n1 n2 by simp
    then show ?thesis using that [OF d s] n1 n2 s(2) by simp
  qed
  have tb: "same_tables a b" using o(2) by (simp add: o(6) same_tables_def)
  have E: "site_targets a c st {k} = {(c, instr (site_store a st), d)}" using o(1) by (auto simp: site_targets_def)
  have "graph_ready (CallGraph b) \<and> (\<forall>d m. GetNodeWCtx (CallGraph a) d = Some m \<longrightarrow> GetNodeWCtx (CallGraph b) d = Some m) \<and>
      (\<forall>x s y. edge_from (CallGraph b) x s y \<longleftrightarrow> edge_from (CallGraph a) x s y \<or> (x, s, y) \<in> site_targets a c st {k})"
    if g: "graph_ready (CallGraph a)"
  proof -
    note c1 = create_ready [OF g o(4)]
    note c2 = create_ready [OF c1(1) o(5)]
    have n: "GetNodeWCtx g2 c = Some n1" "GetNodeWCtx g2 d = Some n2" using c1(2) c2(2,4) by simp_all
    note ad = add_edge_ready [OF c2(1) n]
    show ?thesis unfolding E using ad(1,2,3) c1(3,4) c2(3,4) by (simp add: o(6))
  qed
  then show ?thesis using tb by (simp add: adds_def)
qed

lemma site_edges_adds: "site_edges t c st ks a = Inr b \<Longrightarrow> adds (site_targets a c st (set ks)) a b"
proof (induction ks arbitrary: a)
  case Nil
  then show ?case using adds_none by (simp add: site_targets_def)
next
  case (Cons k ks)
  obtain a1 where o: "callEdge t c (Some st) k a = Inr a1" "site_edges t c st ks a1 = Inr b" using Cons.prems by (auto simp: bindR_eq_Inr_iff)
  have s: "same_tables a a1" using callEdge_adds [OF o(1)] by (simp add: adds_def)
  have "site_targets a c st (set (k # ks)) = site_targets a c st {k} \<union> site_targets a1 c st (set ks)"
    unfolding site_targets_same [OF s] by (auto simp: site_targets_def)
  then show ?case using adds_more [OF callEdge_adds [OF o(1)] Cons.IH [OF o(2)]] by simp
qed

text \<open>The labels of the target of a call site.\<close>

definition targets_of :: "calls \<Rightarrow> nat \<Rightarrow> nodeid set" where
  "targets_of a st = {k. has_label (graph a) (targets (site_store a st)) k}"

lemma sites_edges_adds:
  "sites_edges t c sts a = Inr b \<Longrightarrow> sets_ok (graph a) \<Longrightarrow> adds (\<Union>st \<in> set sts. site_targets a c st (targets_of a st)) a b"
proof (induction sts arbitrary: a)
  case Nil
  then show ?case using adds_none by simp
next
  case (Cons st sts)
  obtain r a1 where o: "ref_of (targets (site_store a st)) (graph a) = Inr r" "site_edges t c st (ns_list (set_of a r)) a = Inr a1"
      "sites_edges t c sts a1 = Inr b" using Cons.prems(1) by (auto simp: bindR_eq_Inr_iff)
  have "set (ns_list (set_of a r)) = targets_of a st"
    using ns.list(1) [OF sets_okD(2) [OF Cons.prems(2)]] o(1)
    by (auto simp: set_of_def targets_of_def has_label_def ref_of_Inr Lb_def)
  then have one: "adds (site_targets a c st (targets_of a st)) a a1" using site_edges_adds [OF o(2)] by simp
  then have s: "same_tables a a1" by (simp add: adds_def)
  have "sets_ok (graph a1)" "targets_of a1 = targets_of a" using s Cons.prems(2) by (simp_all add: same_tables_def targets_of_def fun_eq_iff)
  then have "adds (\<Union>st \<in> set sts. site_targets a c st (targets_of a st)) a1 b"
    using Cons.IH [OF o(3)] by (simp add: site_targets_same [OF s])
  then show ?case using adds_more [OF one] by simp
qed

text \<open>The calls from the contexts \<open>cs\<close> that the points-to sets resolve.\<close>

definition resolved_calls :: "calls \<Rightarrow> nat set \<Rightarrow> (nat \<times> nat option \<times> nat) set" where
  "resolved_calls a cs = (\<Union>c \<in> cs. \<Union>st \<in> set (sites (cgnodes a ! c)). site_targets a c st (targets_of a st))"

lemma callers_edges_adds:
  "callers_edges t cs a = Inr b \<Longrightarrow> sets_ok (graph a) \<Longrightarrow> \<forall>c \<in> set cs. c < length (cgnodes a) \<Longrightarrow>
   adds (resolved_calls a (set cs)) a b"
proof (induction cs arbitrary: a)
  case Nil
  then show ?case using adds_none by (simp add: resolved_calls_def)
next
  case (Cons c cs)
  obtain n a1 where o: "cgnode_of a c = Inr n" "sites_edges t c (sites n) a = Inr a1" "callers_edges t cs a1 = Inr b"
    using Cons.prems(1) by (auto simp: bindR_eq_Inr_iff)
  have one: "adds (resolved_calls a {c}) a a1"
    using sites_edges_adds [OF o(2) Cons.prems(2)] o(1) by (simp add: resolved_calls_def cgnode_of_Inr)
  then have s: "same_tables a a1" by (simp add: adds_def)
  have k: "sets_ok (graph a1)" "targets_of a1 = targets_of a" using s Cons.prems(2) by (simp_all add: same_tables_def targets_of_def fun_eq_iff)
  have "resolved_calls a1 (set cs) = resolved_calls a (set cs)"
    using Cons.prems(3) same_tables_sites(2) [OF s] by (simp add: resolved_calls_def k(2) site_targets_same [OF s])
  then have rest: "adds (resolved_calls a (set cs)) a1 b"
    using Cons.IH [OF o(3) k(1)] Cons.prems(3) same_tables_sites(1) [OF s] by simp
  have "resolved_calls a (set (c # cs)) = resolved_calls a {c} \<union> resolved_calls a (set cs)" by (simp add: resolved_calls_def)
  then show ?case using adds_more [OF one rest] by simp
qed

lemma create_nodes_ready:
  "graph_ready g \<Longrightarrow> graph_ready (create_nodes cs g) \<and> edge_from (create_nodes cs g) = edge_from g \<and>
     (\<forall>c. c \<in> set cs \<or> GetNodeWCtx g c \<noteq> None \<longrightarrow> GetNodeWCtx (create_nodes cs g) c \<noteq> None)"
proof (induction cs arbitrary: g)
  case (Cons c cs)
  obtain n h where h: "CreateNodeWCtx c g = (n, h)" by (cases "CreateNodeWCtx c g")
  have k: "GetNodeWCtx h x \<noteq> None" if "x = c \<or> GetNodeWCtx g x \<noteq> None" for x
    using create_ready(2,4) [OF Cons.prems h] that by (cases "GetNodeWCtx g x") auto
  show ?case using Cons.IH [OF create_ready(1) [OF Cons.prems h]] create_ready(3) [OF Cons.prems h] h k by auto
qed simp

text \<open>The propagation of contexts changes nothing but the actual contexts.\<close>

definition passed :: "calls \<Rightarrow> calls \<Rightarrow> bool" where
  "passed a b \<longleftrightarrow> CallGraph b = CallGraph a \<and> same_tables a b"

lemma passed_trans: "passed a b \<Longrightarrow> passed b c \<Longrightarrow> passed a c"
  by (simp add: passed_def same_tables_def)

lemma pass_contexts_sites: "sites (pass_contexts t h cs n) = sites n"
  by (induction cs arbitrary: n) (simp_all add: updateActualCallerSite_sites)

lemma pass_edge_passed: "pass_edge t c ed (tot, nxt, a) = Inr (tot', nxt', b) \<Longrightarrow> passed a b"
  using set_cgnode_sites [of "g_cgn (node_at (CallGraph a) (e_callee (edge_at (CallGraph a) ed)))" a]
  by (auto simp: pass_edge_def bindR_eq_Inr_iff Let_def passed_def same_tables_refl cgnode_of_Inr pass_contexts_sites split: if_splits)

lemma pass_edges_passed: "pass_edges t c eds (tot, nxt, a) = Inr (tot', nxt', b) \<Longrightarrow> passed a b"
proof (induction eds arbitrary: tot nxt a)
  case (Cons ed eds)
  obtain tot1 nxt1 a1 where o: "pass_edge t c ed (tot, nxt, a) = Inr (tot1, nxt1, a1)" "pass_edges t c eds (tot1, nxt1, a1) = Inr (tot', nxt', b)"
    using Cons.prems by (auto simp: bindR_eq_Inr_iff)
  show ?case by (rule passed_trans [OF pass_edge_passed [OF o(1)] Cons.IH [OF o(2)]])
qed (simp add: passed_def same_tables_refl)

lemma pass_node_passed: "pass_node t n (tot, nxt, a) = Inr (tot', nxt', b) \<Longrightarrow> passed a b"
  by (auto simp: pass_node_def bindR_eq_Inr_iff split: option.splits intro: pass_edges_passed)

lemma pass_nodes_passed: "pass_nodes t ns (tot, nxt, a) = Inr (tot', nxt', b) \<Longrightarrow> passed a b"
proof (induction ns arbitrary: tot nxt a)
  case (Cons n ns)
  obtain tot1 nxt1 a1 where o: "pass_node t n (tot, nxt, a) = Inr (tot1, nxt1, a1)" "pass_nodes t ns (tot1, nxt1, a1) = Inr (tot', nxt', b)"
    using Cons.prems by (auto simp: bindR_eq_Inr_iff)
  show ?case by (rule passed_trans [OF pass_node_passed [OF o(1)] Cons.IH [OF o(2)]])
qed (simp add: passed_def same_tables_refl)

lemma pass_rounds_passed: "pass_rounds t ns tot a = Some r \<Longrightarrow> r = Inr b \<longrightarrow> passed a b"
proof -
  let ?P = "\<lambda>(t :: call_text) (ns :: nodeid list) (tot :: sparse) a r. r = Inr b \<longrightarrow> passed a b"
  assume run: "pass_rounds t ns tot a = Some r"
  show ?thesis
  proof (rule pass_rounds.raw_induct [of ?P t ns tot a r])
    fix f t ns tot a r
    assume IH: "\<And>t ns tot a r. f t ns tot a = Some r \<Longrightarrow> ?P t ns tot a r"
      and body: "(if ns = [] then Some (Inr a) else case pass_nodes t ns (tot, [], a) of Inl p \<Rightarrow> Some (Inl p)
        | Inr (tot, nxt, a) \<Rightarrow> f t nxt tot a) = Some r"
    show "?P t ns tot a r"
    proof
      assume r: "r = Inr b"
      show "passed a b"
      proof (cases "ns = []")
        case True
        then show ?thesis using body r by (simp add: passed_def same_tables_refl)
      next
        case False
        then obtain tot' nxt' a' where s: "pass_nodes t ns (tot, [], a) = Inr (tot', nxt', a')" "f t nxt' tot' a' = Some r"
          using body r by (auto split: sum.splits)
        have "passed a' b" using IH [OF s(2)] r by simp
        then show ?thesis by (rule passed_trans [OF pass_nodes_passed [OF s(1)]])
      qed
    qed
  qed (rule run)
qed

lemma finish_graph_adds:
  assumes "finish_graph t a = Some (Inr b)" "graph_ready (CallGraph a)" "sets_ok (graph a)"
  shows "same_tables a b" "graph_ready (CallGraph b)"
    "edge_from (CallGraph b) x s y \<longleftrightarrow> edge_from (CallGraph a) x s y \<or> (x, s, y) \<in> resolved_calls a {..<length (cgnodes a)}"
    "c < length (cgnodes a) \<Longrightarrow> GetNodeWCtx (CallGraph b) c \<noteq> None"
proof -
  define a0 where "a0 = a\<lparr>CallGraph := create_nodes [0..<length (cgnodes a)] (CallGraph a)\<rparr>"
  obtain a1 where o: "callers_edges t [0..<length (cgnodes a0)] a0 = Inr a1" "updateActualCallSites t a1 = Some (Inr b)"
    using assms(1) by (auto simp: finish_graph_def a0_def Let_def bindL_Inr)
  have p: "passed a1 b" using pass_rounds_passed o(2) by (auto simp: updateActualCallSites_def)
  have ad: "adds (resolved_calls a0 (set [0..<length (cgnodes a0)])) a0 a1"
    by (rule callers_edges_adds [OF o(1)]) (use assms(3) in \<open>simp_all add: a0_def\<close>)
  have z: "same_tables a a0" "resolved_calls a0 C = resolved_calls a C" for C
    by (simp_all add: a0_def same_tables_def resolved_calls_def site_targets_def targets_of_def)
  have g: "graph_ready (CallGraph a0)" "edge_from (CallGraph a0) = edge_from (CallGraph a)"
    using create_nodes_ready [OF assms(2)] by (simp_all add: a0_def)
  show "same_tables a b" using z(1) ad p by (simp add: same_tables_def adds_def passed_def)
  show "graph_ready (CallGraph b)" using ad g(1) p by (simp add: adds_def passed_def)
  have "length (cgnodes a0) = length (cgnodes a)" by (simp add: a0_def)
  then show "edge_from (CallGraph b) x s y \<longleftrightarrow> edge_from (CallGraph a) x s y \<or> (x, s, y) \<in> resolved_calls a {..<length (cgnodes a)}"
    using ad g p z(2) by (simp add: adds_def passed_def lessThan_atLeast0)
  assume "c < length (cgnodes a)"
  then obtain m where "GetNodeWCtx (CallGraph a0) c = Some m"
    using create_nodes_ready [OF assms(2), of "[0..<length (cgnodes a)]"] by (force simp: a0_def)
  then have "GetNodeWCtx (CallGraph b) c = Some m" using ad g(1) p by (simp add: adds_def passed_def)
  then show "GetNodeWCtx (CallGraph b) c \<noteq> None" by simp
qed

section \<open>The contexts that are listed\<close>

lemma update_lists:
  "set (concat (map snd (AList.update f ((case map_of m f of None \<Rightarrow> [] | Some xs \<Rightarrow> xs) @ [c]) m))) = insert c (set (concat (map snd m)))"
  by (induction m) (auto split: if_splits)

lemma compute_lists: "set (concat (map snd (computeFn2CGNode_loop f cs m))) = set cs \<union> set (concat (map snd m))"
proof (induction cs arbitrary: m)
  case (Cons c cs)
  show ?case unfolding computeFn2CGNode_loop.simps Cons.IH update_lists by auto
qed simp

lemma node_listed:
  assumes "GetNodeWCtx g c \<noteq> None"
  shows "c \<in> set (concat (map snd (Fn2CGNode (computeFn2CGNode f g))))"
proof -
  have "c \<in> set (map fst (g_nodes g))" using assms by (auto simp: GetNodeWCtx_def dest!: map_of_SomeD intro: rev_image_eqI)
  then show ?thesis unfolding computeFn2CGNode_def using compute_lists [of f "map fst (g_nodes g)" "Fn2CGNode g"] by simp
qed

end
