(* ===== verification/Pointer_Origin_Properties.thy ===== *)
theory Pointer_Origin_Properties
  imports Pointer_Callgraph
begin

text \<open>
  The properties of the analysis around the solver: loops, the nodes of types, function objects and their
  calling contexts, and the call graph.
\<close>

section \<open>Samples\<close>

text \<open>Two blocks that form a loop; instruction 5 is in the second.\<close>

definition loop_program :: ssa_program where
  "loop_program = \<lparr>ssa_program.obj = (\<lambda>_. OtherObject), val_pos = (\<lambda>_. 0), val_name = (\<lambda>_. ''''), val_string = (\<lambda>_. ''''),
     ins_block = (\<lambda>i. if i = 5 then Some 1 else None), val_parent = (\<lambda>_. None),
     fun_of = (\<lambda>_. \<lparr>fn_name = '''', fn_string = '''', fn_pkg = None, fn_from_app = True, fn_synthetic = '''', fn_blocks = None, fn_free_vars = []\<rparr>),
     bb = (\<lambda>b. \<lparr>block_index = int b, block_comment = '''', block_parent = None, block_instrs = [], block_succs = [1 - b], dom_pre = 0, dom_post = 0\<rparr>),
     val_type_string = (\<lambda>_. ''''), can_point = (\<lambda>_. False), can_point_elem = (\<lambda>_. False)\<rparr>"

text \<open>Type 3 is named, with the underlying struct 1: a basic field and an array.\<close>

definition sample_types :: ty_store where
  "sample_types t = (if t = 1 then StructT [(10, 0), (11, 2)] else if t = 2 then ArrayT 0 else if t = 3 then Named 1 else BasicT)"

definition sample_nodes :: "fieldInfo list" where
  "sample_nodes = scalar_info 1 # map (extend_info (VarOp 10)) [scalar_info 0] @
     map (extend_info (VarOp 11)) [scalar_info 2, extend_info ElemOp (scalar_info 0)]"

lemma sample_sized: "sized sample_types (\<lambda>t. if t = 3 then 3 else if t = 1 then 2 else if t = 2 then 1 else 0)"
  by (simp add: sized_def sample_types_def parts_of_def)

lemma sample_underlying: "sample_types (Underlying sample_types 3) = StructT [(10, 0), (11, 2)]"
  by (simp add: Underlying_def sample_types_def)

lemmas sample_types_eval = flatten_body_def sample_types_def isInterface_def Underlying_def struct_parts_def

lemma sample_flatten: "flatten 4 sample_types 3 = Some sample_nodes"
  by (simp add: sample_types_eval sample_nodes_def eval_nat_numeral)

lemma sample_field: "flatten 4 sample_types (snd ([(10, 0), (11, 2)] ! 1)) = Some [scalar_info 2, extend_info ElemOp (scalar_info 0)]"
  by (simp add: sample_types_eval eval_nat_numeral)

lemma sample_offset: "offsetOf 4 sample_types 3 1 = Some (Inr 2)"
  by (simp add: offsetOf_def sizeof_ty_def sample_types_eval eval_nat_numeral)

text \<open>The root calls function 3 at call site 0.\<close>

definition sample_origin_env :: origin_env where
  "sample_origin_env = \<lparr>o_text = \<lparr>instr_String = (\<lambda>_. ''''), Parent_String = (\<lambda>_. '''')\<rparr>, o_prog = loop_program, cfg_Origin = True,
     cfg_CallSiteSensitive = False, cfg_K = 1, main_fn = 0, sig_of = (\<lambda>f. \<lparr>sig_ty = f, sig_recv = None, sig_params = 0, sig_results = 0\<rparr>),
     o_layout = (\<lambda>t. [t])\<rparr>"

definition sample_root :: cgnode where
  "sample_root = blank_cgnode 9 0 (Some [None])"

definition sample_origins :: origins where
  "sample_origins = \<lparr>graph = run_state [plain_node 0] [] [] [] 0 (0, {}), fn_keys = [], globalval = [], cgnodes = [sample_root],
     site_store = (\<lambda>_. \<lparr>targets = 0, instr = Some 7, loopID = 0, goInstr = None\<rparr>), closureWOGo = [], closures = [], callbacks = [],
     DoCallback = False, genq = [], IsFromApp = (\<lambda>_. False), fn2cgnodeIdx = Map.empty, numOrigins = 0, next_site = 1\<rparr>"

lemmas origin_eval = sample_origins_def sample_origin_env_def sample_root_def blank_cgnode_def makeFunctionObjectWithContext_def
  existContext_def existContextFor_def existContextForComb_def exist_with_def site_of_def is_go_def loop_program_def
  makeCGNodeAndRelated_def fn_context_def origin_context_def makeParamResultNodes_def addOneNode_def addNodes_def
  endObject_def nextNode_def get_node_def nth_go_def Let_def

lemma sample_first: "\<exists>b. makeFunctionObjectWithContext sample_origin_env sample_root 3 (Some 0) None 0 sample_origins = Inr (1, True, b)"
  by (simp add: origin_eval run_state_sel)

text \<open>Two nodes with edges in both directions, the second to itself too.\<close>

definition sample_graph :: callgraph where
  "sample_graph = AddEdge 1 None 1 (AddEdge 1 None 0 (AddEdge 0 None 1 (snd (CreateNodeWCtx 7 (NewWCtx 4)))))"

lemma sample_graph_ok: "graph_ok sample_graph"
proof -
  have n: "NewWCtx 4 = (snd (CreateNodeWCtx 4 empty_graph))\<lparr>g_root := 0\<rparr>" by (simp add: NewWCtx_def CreateNodeWCtx_def GetNodeWCtx_def empty_graph_def Let_def)
  have "graph_ok (NewWCtx 4)"
    unfolding n using CreateNodeWCtx_ok [OF empty_graph_ok, of 4] by (simp add: graph_ok_def empty_graph_def)
  moreover have "\<forall>n \<ge> next_gnode (NewWCtx 4). g_in (node_at (NewWCtx 4) n) = [] \<and> g_out (node_at (NewWCtx 4) n) = []"
    unfolding n by (simp add: CreateNodeWCtx_def GetNodeWCtx_def empty_graph_def set_node_def Let_def)
  ultimately show ?thesis unfolding sample_graph_def by (intro AddEdge_ok CreateNodeWCtx_ok)
qed

section \<open>Contexts with several call sites\<close>

text \<open>
  The comparison of contexts never looks past the most recent call site: contexts of a depth greater than one
  are taken for equal when they begin alike.
\<close>

lemma deeper_sites_ignored:
  "slice ctx = x # xs \<Longrightarrow> equalContextForComb e h ctx cs curs l = equalContextForComb e h (Some [x]) cs None l"
  by (simp add: equalContextForComb_def slice_def)

text \<open>
  In the mode of call-site strings the loop id to compare is -1, which stands for no loop id; the comparison
  takes it for the id of a loop, so a context whose most recent call site has another loop id never matches.
\<close>

lemma callsite_mode_never_matches:
  "slice ctx = Some x # xs \<Longrightarrow> loopID (h x) \<noteq> -1 \<Longrightarrow> equalContextForComb e h ctx cs curs (-1) = Inr False"
  by (simp add: equalContextForComb_def site_of_def)

section \<open>The properties\<close>

text \<open>
  C32. \<^verbatim>\<open>isInLoop\<close> returns, and says yes exactly when the block of the instruction can be reached from itself
  by one or more steps along the control flow.
\<close>
theorem loop_test_exact:
  assumes "cfg_ok p B" "ins_block p ins = Some a" "a \<in> B"
  shows "isInLoop p ins = Some (Inr ((a, a) \<in> {(x, y). y \<in> set (block_succs (bb p x))}\<^sup>+))"
  using isInLoop_cycle [OF assms] by (simp add: succ_rel_def)

theorem loop_test_exact_witness: "isInLoop loop_program 5 = Some (Inr True)"
proof -
  have c: "cfg_ok loop_program {0, 1}" by (auto simp: cfg_ok_def loop_program_def in_int_def MaxInt_def MinInt_def)
  have "(1, 0) \<in> {(x, y). y \<in> set (block_succs (bb loop_program x))}" "(0, 1) \<in> {(x, y). y \<in> set (block_succs (bb loop_program x))}"
    by (simp_all add: loop_program_def)
  then have "(1, 1) \<in> {(x, y). y \<in> set (block_succs (bb loop_program x))}\<^sup>+" by (meson trancl.r_into_trancl trancl_trans)
  then show ?thesis using loop_test_exact [OF c, of 5 1] by (simp add: loop_program_def)
qed

text \<open>
  C33. The nodes of a field are the block at its offset: in the flattening of a struct, named or not, the part
  that starts at \<^verbatim>\<open>offsetOf\<close> a field is the flattening of the type of the field, each path extended by it.
\<close>
theorem fields_at_offsets:
  assumes "sized s r" "s (Underlying s t) = StructT fs" "i < length fs" "r t < k"
    and "flatten k s t = Some X" "length X < 2 ^ 32" "flatten k s (snd (fs ! i)) = Some F"
  shows "\<exists>off. offsetOf k s t i = Some (Inr off) \<and> unat off + length F \<le> length X \<and>
    take (length F) (drop (unat off) X) = map (extend_info (VarOp (fst (fs ! i)))) F"
  by (rule field_block [OF assms])

theorem fields_at_offsets_witness: "take (Suc (Suc 0)) (drop 2 sample_nodes) = map (extend_info (VarOp 11)) [scalar_info 2, extend_info ElemOp (scalar_info 0)]"
proof -
  have "\<exists>off. offsetOf 4 sample_types 3 1 = Some (Inr off) \<and>
      unat off + length [scalar_info 2, extend_info ElemOp (scalar_info 0)] \<le> length sample_nodes \<and>
      take (length [scalar_info 2, extend_info ElemOp (scalar_info 0)]) (drop (unat off) sample_nodes) =
        map (extend_info (VarOp (fst ([(10, 0), (11, 2 :: ty)] ! 1)))) [scalar_info 2, extend_info ElemOp (scalar_info 0)]"
    by (rule fields_at_offsets [OF sample_sized sample_underlying _ _ sample_flatten _ sample_field])
      (simp_all add: sample_nodes_def)
  then show ?thesis unfolding sample_offset by simp
qed

text \<open>
  C34. Making a function object in a context keeps the nodes laid out in blocks, which is what the renumbering
  needs, the call-graph nodes numbered by position, and no labels before the solver runs; a new object is a
  function block at the end of the nodes, and when the context exists nothing changes.
\<close>
theorem function_objects_keep_layout:
  assumes "makeFunctionObjectWithContext e clr fn cs cl l a = Inr (n, new, b)" "contours_ok a"
    and "length (nodes (graph a)) + length (sig_fields (o_layout e) (sig_of e fn)) < 2 ^ 32"
  shows "contours_ok b \<and> (fresh (graph a) \<longrightarrow> fresh (graph b)) \<and> constraints (graph b) = constraints (graph a) \<and>
    (if new then n = nextNode (graph a) \<and> function_at (graph b) n else b = a)"
  by (rule makeFunctionObject_contours [OF assms])

lemma sample_contours: "contours_ok sample_origins"
  by (simp add: contours_ok_def sample_origins_def sample_root_def blank_cgnode_def run_state_sel numbered_def)

lemma sample_room: "length (nodes (graph sample_origins)) + length (sig_fields (o_layout sample_origin_env) (sig_of sample_origin_env 3)) < 2 ^ 32"
  by (simp add: sample_origins_def run_state_sel sample_origin_env_def sig_fields_def)

theorem function_objects_keep_layout_witness:
  "\<exists>b. makeFunctionObjectWithContext sample_origin_env sample_root 3 (Some 0) None 0 sample_origins = Inr (1, True, b) \<and>
     contours_ok b \<and> function_at (graph b) 1"
  using sample_first function_objects_keep_layout [OF _ sample_contours sample_room] by fastforce

text \<open>
  C35. In origin-sensitive mode with K at least 1 a context is created once, for every function but main: asking
  again for the function from the same caller at the same call site and for the same loop gives the node of
  the first time and changes nothing. The loop id asked for is 0 outside loops and positive in one, in which
  case the call site itself carries the loop id 0, as the sites of go statements do.
\<close>
theorem contexts_are_reused:
  assumes "cfg_Origin e" "1 \<le> cfg_K e" "fn \<noteq> main_fn e"
    and "sites_ok a" "cgnodes a \<noteq> []" "below (next_site a) (slice (callersite clr))" "x < next_site a"
    and "0 \<le> l" "0 < l \<Longrightarrow> loopID (site_store a x) = 0"
    and "makeFunctionObjectWithContext e clr fn (Some x) cl l a = Inr (n, new, b)"
  shows "makeFunctionObjectWithContext e clr fn (Some x) cl l b = Inr (n, False, b)"
  by (rule context_found_again [OF assms])

theorem contexts_are_reused_witness:
  "\<exists>b. makeFunctionObjectWithContext sample_origin_env sample_root 3 (Some 0) None 0 sample_origins = Inr (1, True, b) \<and>
     makeFunctionObjectWithContext sample_origin_env sample_root 3 (Some 0) None 0 b = Inr (1, False, b)"
proof -
  obtain b where b: "makeFunctionObjectWithContext sample_origin_env sample_root 3 (Some 0) None 0 sample_origins = Inr (1, True, b)"
    using sample_first by blast
  have "makeFunctionObjectWithContext sample_origin_env sample_root 3 (Some 0) None 0 b = Inr (1, False, b)"
    by (rule contexts_are_reused [OF _ _ _ _ _ _ _ _ _ b])
      (simp_all add: sample_origin_env_def sample_origins_def sites_ok_def sample_root_def blank_cgnode_def below_def slice_def)
  then show ?thesis using b by blast
qed

text \<open>
  C36. Deleting a node of the call graph does not panic and leaves a consistent graph: every edge is still
  listed once at both ends, the edges of the node are gone, those between other nodes stay. The number of
  edges that the graph reports does not change.
\<close>
theorem delete_node_consistent:
  assumes "graph_ok g"
  shows "\<exists>h. DeleteNode n g = Inr h \<and> graph_ok h \<and> numEdges h = numEdges g \<and> edge_at h = edge_at g \<and>
    g_nodes h = AList.delete (g_cgn (node_at g n)) (g_nodes g) \<and>
    (\<forall>m. set (g_out (node_at h m)) = {ed \<in> set (g_out (node_at g m)). m \<noteq> n \<and> e_callee (edge_at g ed) \<noteq> n} \<and>
         set (g_in (node_at h m)) = {ed \<in> set (g_in (node_at g m)). m \<noteq> n \<and> e_caller (edge_at g ed) \<noteq> n})"
  by (rule DeleteNode_ok [OF assms])

theorem delete_node_consistent_witness:
  "\<exists>h. DeleteNode 1 sample_graph = Inr h \<and> numEdges h = 3 \<and> g_out (node_at h 0) = []"
proof -
  obtain h where h: "DeleteNode 1 sample_graph = Inr h" "numEdges h = numEdges sample_graph"
      "set (g_out (node_at h 0)) = {ed \<in> set (g_out (node_at sample_graph 0)). 0 \<noteq> (1::nat) \<and> e_callee (edge_at sample_graph ed) \<noteq> 1}"
    using delete_node_consistent [OF sample_graph_ok, of 1] by blast
  have e: "numEdges sample_graph = 3" "set (g_out (node_at sample_graph 0)) = {0}" "e_callee (edge_at sample_graph 0) = 1"
    by (simp_all add: sample_graph_def AddEdge_views NewWCtx_def CreateNodeWCtx_def GetNodeWCtx_def empty_graph_def set_node_def Let_def)
  have "set (g_out (node_at h 0)) = {}" unfolding h(3) e(2) using e(3) by blast
  then show ?thesis using h(1,2) e(1) by simp
qed

text \<open>
  C37. The propagation of actual contexts along the call graph ends, whatever cycles the graph has: two rounds
  together visit a new node, or nothing is left to do.
\<close>
theorem context_propagation_returns:
  assumes "linked a"
  shows "\<exists>r. updateActualCallSites t a = Some r"
  by (rule updateActualCallSites_return [OF assms])

definition sample_calls :: calls where
  "sample_calls = origins.extend sample_origins
     \<lparr>obj_cgn = (\<lambda>n. if n = 0 then Some 0 else None), CallGraph = AddEdge 0 None 0 (NewWCtx 0)\<rparr>"

theorem context_propagation_returns_witness:
  "\<exists>r. updateActualCallSites (o_text sample_origin_env) (sample_calls\<lparr>closureWOGo := [(0, 0)]\<rparr>) = Some r"
proof (rule context_propagation_returns)
  show "linked (sample_calls\<lparr>closureWOGo := [(0, 0)]\<rparr>)"
    by (simp add: linked_def sample_calls_def sample_origins_def origins.defs sample_root_def blank_cgnode_def in_int_def MaxInt_def MinInt_def
        AddEdge_def NewWCtx_def CreateNodeWCtx_def GetNodeWCtx_def empty_graph_def set_node_def Let_def)
qed

end
