(* ===== verification/Pointer_Renumber_Properties.thy ===== *)
theory Pointer_Renumber_Properties
  imports Pointer_Permute Pointer_Properties
begin

text \<open>
  The properties of the renumbering of nodes: it returns and permutes the nodes, the solver computes the same
  points-to sets on the renumbered analysis, and two defects.
\<close>

section \<open>A sample\<close>

text \<open>\<^verbatim>\<open>p = &s; q = &s.f\<close> with the nodes p, s, s.f, q from 1 on; s is an object of two nodes.\<close>

definition field_graph :: solver where
  "field_graph = run_state
     [plain_node 0, plain_node 1, \<lparr>obj = Some \<lparr>flags = 0, obj_size = 2\<rparr>, node_typ = 0, solve_ref = 2\<rparr>, plain_node 3, plain_node 4]
     (replicate 5 no_labels) [AddrC 1 2, OffsetAddrC 1 4 1] [] 0 (0, {})"

definition field_analysis :: pta where
  "field_analysis = \<lparr>graph = field_graph, fn_keys = [], globalval = [(7, 1)], cgnodes = [], site_store = (\<lambda>_. \<lparr>targets = 0, instr = None, loopID = 0, goInstr = None\<rparr>),
     closureWOGo = [(2, 2)], closures = [], callbacks = [], DoCallback = True\<rparr>"

definition field_graph' :: solver where
  "field_graph' = run_state
     [plain_node 0, \<lparr>obj = Some \<lparr>flags = 0, obj_size = 2\<rparr>, node_typ = 0, solve_ref = 2\<rparr>, plain_node 3, plain_node 1, plain_node 4]
     (replicate 5 no_labels) [AddrC 3 1, OffsetAddrC 1 4 3] [] 0 (0, {})"

lemmas field_eval = field_analysis_def field_graph_def field_graph'_def run_state_sel plain_node_def

lemma field_numbered: "numbered (nodes field_graph)"
  by (simp add: numbered_def field_eval)

lemma field_order: "new_order (nodes field_graph) = [0, 2, 3, 1, 4]"
  by (simp add: new_order_def field_eval)

lemma place_block_2: "place_block ns 2 s = bindR (place ns s) (place_block ns (Suc 0))"
  by (simp add: numeral_2_eq_2)

lemma replicate_5: "replicate 5 x = [x, x, x, x, x]"
  by (simp add: eval_nat_numeral)

lemma run_state_renumbered:
  "run_state N ss cs w f l\<lparr>globalobj := (\<lambda>_. f), constraints := cs'\<rparr> = run_state N ss cs' w f l"
  "globalobj (run_state N ss cs w f l) = (\<lambda>_. f)"
  "run_state N ss cs w f l\<lparr>nodes := N'\<rparr> = run_state N' ss cs w f l"
  by (simp_all add: run_state_def)

lemmas renumber_eval = renumber_def number_nodes_def Let_def place_def set_nth_go_def nth_go_def pass_loop.simps
  pass1_round_def pass2_round_def renumber_ids_def renumber_entry_def renum_def renum2_def renumber_closures_def
  renumber_ctx2nodeid_def renumber_cgnode_def renumber_locals_def place_block_2

lemma field_renumber: "renumber field_analysis = Some (Inr (field_analysis\<lparr>graph := field_graph', globalval := [(7, 3)], closureWOGo := [(1, 1)]\<rparr>))"
  by (simp add: renumber_eval field_eval run_state_renumbered replicate_5)

lemma field_runs: "\<exists>b. solve pointer_env field_graph = Some (Inr b)" "\<exists>b. solve pointer_env field_graph' = Some (Inr b)"
  by (simp_all add: system_eval field_graph_def field_graph'_def solveDefault.simps)

lemma field_derives:
  "derives pointer_env (nodes field_graph) (set (constraints field_graph)) r k \<Longrightarrow> r = 1 \<and> k = 2 \<or> r = 4 \<and> k = 3"
  "flow pointer_env (nodes field_graph) (set (constraints field_graph)) r q \<Longrightarrow> False"
  by (induction rule: derives_flow.inducts) (auto simp: field_eval ref_in_def)

lemma field_offsets: "offsets_inside pointer_env (nodes field_graph) (set (constraints field_graph))"
proof -
  have "same_part (nodes field_graph) (unat x) 1"
    if "derives pointer_env (nodes field_graph) (set (constraints field_graph)) (ref_in (nodes field_graph) 1) x" for x
    using field_derives(1) [OF that] by (auto simp: ref_in_def field_eval same_part_def)
  then show ?thesis by (simp add: offsets_inside_def field_eval)
qed

text \<open>A call site and a caller that lists it.\<close>

definition shared_site :: callsite where
  "shared_site = \<lparr>targets = 1, instr = None, loopID = 0, goInstr = None\<rparr>"

definition shared_caller :: "nat \<Rightarrow> cgnode" where
  "shared_caller p = \<lparr>cg_fn = 0, cg_obj = 0, sites = [p], callersite = None, cg_idx = 0, actualCallerSite = None,
     localval = None, localobj = None\<rparr>"

section \<open>Objects of size zero\<close>

text \<open>A round that leaves the state as it was is repeated for ever.\<close>

lemma pass_loop_stuck: "pass_loop f s = Some r \<Longrightarrow> f s \<noteq> Inr (Some s)"
proof -
  assume run: "pass_loop f s = Some r"
  let ?P = "\<lambda>g s r. g s \<noteq> Inr (Some s)"
  have "?P f s r"
  proof (rule pass_loop.raw_induct [of ?P f s r])
    fix loop g t r
    assume IH: "\<And>g t r. loop g t = Some r \<Longrightarrow> ?P g t r"
      and body: "(case g t of Inl p \<Rightarrow> Some (Inl p) | Inr None \<Rightarrow> Some (Inr t) | Inr (Some u) \<Rightarrow> loop g u) = Some r"
    show "?P g t r"
    proof
      assume "g t = Inr (Some t)"
      then show False using IH [of g t r] body by simp
    qed
  qed (rule run)
  then show ?thesis .
qed

lemma zero_size_object_diverges:
  assumes "length ns < 2 ^ 32" "1 < length ns" "obj (ns ! 1) = Some ob" "obj_size ob = 0"
  shows "number_nodes ns = None"
proof -
  let ?N = "of_nat (length ns) :: nodeid"
  define s0 where "s0 = \<lparr>next_old = 0, next_new = 0, newNodes = replicate (unat ?N) None, renumbering = replicate (unat ?N) 0\<rparr>"
  have N: "unat ?N = length ns" "ns \<noteq> []" using assms(1,2) by (auto simp: unat_of_nat)
  have "placed ns [] s0" using assms(1) N by (simp add: placed_def s0_def)
  then obtain s where s: "place ns s0 = Inr s" "unat (next_old s) = 1"
    using place_placed [of ns "[]" s0] N(2) by (auto simp: s0_def)
  then have "next_old s < ?N" "nth_go ns (uint (next_old s)) = Inr (ns ! 1)"
    using in_range_node [OF assms(1)] nth_go_node [of "next_old s" ns] assms(2) by simp_all
  then have "pass1_round ns s = Inr (Some s)" using assms(3,4) by (simp add: pass1_round_def Let_def)
  then have "pass_loop (pass1_round ns) s = None" using pass_loop_stuck [of "pass1_round ns" s] by (cases "pass_loop (pass1_round ns) s") auto
  then show ?thesis using s(1) by (simp add: number_nodes_def Let_def s0_def)
qed

section \<open>Call sites\<close>

text \<open>All call sites the loop over a call-graph node visits, with repetitions.\<close>

definition listed_sites :: "cgnode \<Rightarrow> site_ptr list" where
  "listed_sites c = map Some (sites c) @ concat (map slice (slice (actualCallerSite c)))"

lemma renumber_sites_iter:
  "renumber_sites m ps h = Inr h' \<Longrightarrow> targets (h' x) = ((\<lambda>n. m ! unat n) ^^ count_list ps (Some x)) (targets (h x))"
proof (induction ps arbitrary: h)
  case (Cons p ps)
  then obtain y n where y: "p = Some y" "renum m (targets (h y)) = Inr n" "renumber_sites m ps (h(y := (h y)\<lparr>targets := n\<rparr>)) = Inr h'"
    by (auto simp: bindR_eq_Inr_iff split: option.splits)
  have "nth_go xs (int i) = Inr k \<Longrightarrow> k = xs ! i" for xs i k by (auto simp: nth_go_def split: if_splits)
  from this [of m "unat (targets (h y))"] have "n = m ! unat (targets (h y))" using y(2) unfolding renum_def by (simp only: uint_nat)
  then show ?case using Cons.IH [OF y(3)] y(1) funpow_swap1 [of "\<lambda>n. m ! unat n" "count_list ps (Some x)" "targets (h x)"] by auto
qed simp

lemma renumber_sites_append:
  "renumber_sites m (ps @ qs) h = bindR (renumber_sites m ps h) (renumber_sites m qs)"
proof (induction ps arbitrary: h)
  case (Cons p ps)
  then show ?case by (cases p; cases "renum m (targets (h (the p)))") (auto simp: fun_upd_def)
qed simp

lemma renumber_cgnode_sites: "renumber_cgnode m c h = Inr (c', h') \<Longrightarrow> renumber_sites m (listed_sites c) h = Inr h'"
  by (auto simp: renumber_cgnode_def listed_sites_def renumber_sites_append bindR_eq_Inr_iff)

lemma renumber_cgnodes_sites: "renumber_cgnodes m cs h = Inr (cs', h') \<Longrightarrow> renumber_sites m (concat (map listed_sites cs)) h = Inr h'"
proof (induction cs arbitrary: h cs')
  case (Cons c cs)
  then obtain c1 h1 cs1 where "renumber_cgnode m c h = Inr (c1, h1)" "renumber_cgnodes m cs h1 = Inr (cs1, h')"
    by (auto simp: bindR_eq_Inr_iff)
  then show ?case using renumber_cgnode_sites Cons.IH by (simp add: renumber_sites_append)
qed simp

lemma relabel_is_invoke: "is_invoke (relabel f c) = is_invoke c"
  by (cases c) (simp_all add: is_invoke_def)

section \<open>The properties\<close>

text \<open>What the renumbering of the tables computes, when it does not run out of range.\<close>

lemma renum_nth: "renum m n = Inr k \<Longrightarrow> k = m ! unat n"
proof -
  have "nth_go xs (int i) = Inr x \<Longrightarrow> x = xs ! i" for xs i and x :: nodeid by (auto simp: nth_go_def split: if_splits)
  from this [of m "unat n"] show "renum m n = Inr k \<Longrightarrow> k = m ! unat n" unfolding renum_def by (simp only: uint_nat)
qed

lemma renumber_constraint_relabel: "renumber_constraint m c = Inr c' \<Longrightarrow> c' = relabel (\<lambda>n. m ! unat n) c"
  by (cases c) (auto simp: renum2_def bindR_eq_Inr_iff dest!: renum_nth)

lemma mapR_map: "mapR f xs = Inr ys \<Longrightarrow> (\<And>x y. f x = Inr y \<Longrightarrow> y = h x) \<Longrightarrow> ys = map h xs"
  by (induction xs arbitrary: ys) (auto simp: bindR_eq_Inr_iff)

lemma renumber_globals_new:
  "renumber_globals m vs g = Inr g' \<Longrightarrow> distinct vs \<Longrightarrow> g' v = (if v \<in> set vs then m ! unat (g v) else g v)"
proof (induction vs arbitrary: g)
  case (Cons w vs)
  obtain n where n: "renum m (g w) = Inr n" "renumber_globals m vs (g(w := n)) = Inr g'"
    using Cons.prems(1) by (auto simp: bindR_eq_Inr_iff)
  show ?case using Cons.IH [OF n(2)] Cons.prems(2) renum_nth [OF n(1)] by auto
qed simp

lemma renumber_cgnodes_objects:
  "renumber_cgnodes m cs h = Inr (cs', h') \<Longrightarrow> map cg_obj cs' = map (\<lambda>c. m ! unat (cg_obj c)) cs"
proof (induction cs arbitrary: h cs')
  case (Cons c cs)
  then obtain c1 h1 cs1 where c: "renumber_cgnode m c h = Inr (c1, h1)" "renumber_cgnodes m cs h1 = Inr (cs1, h')" "cs' = c1 # cs1"
    by (auto simp: bindR_eq_Inr_iff)
  have "cg_obj c1 = m ! unat (cg_obj c)"
    using c(1) by (auto simp: renumber_cgnode_def renumber_locals_def bindR_eq_Inr_iff dest!: renum_nth)
  then show ?case using Cons.IH [OF c(2)] c(3) by simp
qed simp

text \<open>The analysis \<open>b\<close> is \<open>a\<close> with the moved nodes \<open>N\<close>, and the numbers in its tables replaced by those of \<open>m\<close>.\<close>

definition renumbered_by :: "nodeid list \<Rightarrow> node list \<Rightarrow> pta \<Rightarrow> pta \<Rightarrow> bool" where
  "renumbered_by m N a b \<longleftrightarrow>
     nodes (graph b) = N \<and>
     constraints (graph b) = map (relabel (\<lambda>n. m ! unat n)) (constraints (graph a)) \<and>
     (\<forall>f \<in> set (fn_keys a). globalobj (graph b) f = m ! unat (globalobj (graph a) f)) \<and>
     globalval b = map (\<lambda>(v, n). (v, m ! unat n)) (globalval a) \<and>
     map cg_obj (cgnodes b) = map (\<lambda>c. m ! unat (cg_obj c)) (cgnodes a)"

lemma renumber_ids_by:
  assumes "renumber_ids m a = Inr b" "distinct (fn_keys a)"
  shows "renumbered_by m N a (b\<lparr>graph := (graph b)\<lparr>nodes := N\<rparr>\<rparr>)"
proof -
  obtain go gv cs cgs h wo cl cb where r: "renumber_globals m (fn_keys a) (globalobj (graph a)) = Inr go"
    "mapR (renumber_entry m) (globalval a) = Inr gv" "mapR (renumber_constraint m) (constraints (graph a)) = Inr cs"
    "renumber_cgnodes m (cgnodes a) (site_store a) = Inr (cgs, h)"
    "b = a\<lparr>graph := (graph a)\<lparr>globalobj := go, constraints := cs\<rparr>, globalval := gv, cgnodes := cgs,
              site_store := h, closureWOGo := wo, closures := cl, callbacks := cb\<rparr>"
    using assms(1) unfolding renumber_ids_def by (auto simp: bindR_eq_Inr_iff)
  have "gv = map (\<lambda>(v, n). (v, m ! unat n)) (globalval a)"
    by (rule mapR_map [OF r(2)]) (auto simp: renumber_entry_def bindR_eq_Inr_iff dest!: renum_nth split: prod.splits)
  moreover have "cs = map (relabel (\<lambda>n. m ! unat n)) (constraints (graph a))"
    by (rule mapR_map [OF r(3) renumber_constraint_relabel])
  ultimately show ?thesis
    using renumber_globals_new [OF r(1) assms(2)] renumber_cgnodes_objects [OF r(4)]
    by (simp add: renumbered_by_def r(5))
qed

text \<open>
  C30. On nodes laid out in the blocks of their objects, with no object of size zero (\<open>numbered\<close>), the
  renumbering returns, and its table is a permutation of the node numbers: the node with the new number of
  \<open>i\<close> is the old node \<open>i\<close>; the zero node comes first, then the blocks of objects, then the other nodes, each
  in the old order; inside an object, or in a run of nodes outside the objects, the distance of two numbers
  stays the same. When no number in the tables is out of range, the result has the moved nodes, and the
  constraints, the function objects, the global values and the objects of the call-graph nodes with their
  numbers replaced by that permutation.
\<close>
theorem renumber_permutes:
  assumes "numbered (nodes (graph a))" "distinct (fn_keys a)"
  shows "\<exists>s r. number_nodes (nodes (graph a)) = Some (Inr s) \<and>
    newNodes s = map (\<lambda>i. Some (nodes (graph a) ! i)) (new_order (nodes (graph a))) \<and>
    (\<forall>i < length (nodes (graph a)). newNodes s ! unat (renumbering s ! i) = Some (nodes (graph a) ! i)) \<and>
    bij_betw (\<lambda>i. unat (renumbering s ! i)) {..<length (nodes (graph a))} {..<length (nodes (graph a))} \<and>
    (\<forall>i k. same_part (nodes (graph a)) i k \<longrightarrow> renumbering s ! (i + k) = renumbering s ! i + of_nat k) \<and>
    renumber a = Some r \<and>
    (\<forall>b. r = Inr b \<longrightarrow> renumbered_by (renumbering s) (map the (newNodes s)) a b)"
proof -
  let ?ns = "nodes (graph a)"
  obtain s where s: "number_nodes ?ns = Some (Inr s)" "placed ?ns (new_order ?ns) s"
    using number_nodes_order assms(1) by (auto simp: numbered_def)
  note o = new_order_perm(3) [of ?ns]
  have r: "renumbering s ! i = new_id ?ns (of_nat i)" "unat (of_nat i :: nodeid) = i" if "i < length ?ns" for i
  proof -
    show u: "unat (of_nat i :: nodeid) = i" using that assms(1) by (simp add: unat_of_nat numbered_def)
    have "renum (renumbering s) (of_nat i) = Inr (renumbering s ! i)"
      using nth_go_node [of "of_nat i" "renumbering s"] u that s(2) by (simp add: renum_def placed_def)
    then show "renumbering s ! i = new_id ?ns (of_nat i)" using renum_new_id [OF s(2) assms(1)] by blast
  qed
  have l: "length (new_order ?ns) = length ?ns" using o assms(1) by (simp add: numbered_def)
  have nn: "newNodes s = map (\<lambda>i. Some (?ns ! i)) (new_order ?ns)" using s(2) l by (simp add: placed_def)
  have p: "unat (renumbering s ! i) < length ?ns" "new_order ?ns ! unat (renumbering s ! i) = i" if "i < length ?ns" for i
    using id_position [OF assms(1), of "of_nat i"] r [OF that] that by simp_all
  have "inj_on (\<lambda>i. unat (renumbering s ! i)) {..<length ?ns}" 
    by (rule inj_on_inverseI [where g = "\<lambda>j. new_order ?ns ! j"]) (simp add: p(2))
  then have "bij_betw (\<lambda>i. unat (renumbering s ! i)) {..<length ?ns} {..<length ?ns}"
    using p(1) by (intro bij_betw_imageI endo_inj_surj image_subsetI) simp_all
  note bij = this
  have shift: "renumbering s ! (i + k) = renumbering s ! i + of_nat k" if q: "same_part ?ns i k" for i k
    using id_shift_nat [OF assms(1), of "of_nat i" k] same_part_range [OF assms(1) q] r(1) [of i] r(1) [of "i + k"] r(2) [of i] q by simp
  have new: "newNodes s ! unat (renumbering s ! i) = Some (?ns ! i)" if "i < length ?ns" for i
    using p [OF that] l by (simp add: nn)
  have "\<exists>r. renumber a = Some r \<and> (\<forall>b. r = Inr b \<longrightarrow> renumbered_by (renumbering s) (map the (newNodes s)) a b)"
    using s(1) renumber_ids_by [OF _ assms(2)] by (cases "renumber_ids (renumbering s) a") (auto simp: renumber_def)
  then obtain r where ren: "renumber a = Some r" "\<forall>b. r = Inr b \<longrightarrow> renumbered_by (renumbering s) (map the (newNodes s)) a b" by blast
  show ?thesis
    by (intro exI [of _ s] exI [of _ r] conjI s(1) nn bij ren allI impI) (simp_all only: new shift)
qed

theorem renumber_permutes_witness:
  "\<exists>s :: numbering. newNodes s = map (\<lambda>i. Some (nodes field_graph ! i)) [0, 2, 3, 1, 4] \<and>
     constraints field_graph' = map (relabel (\<lambda>n. renumbering s ! unat n)) (constraints field_graph)"
proof -
  have g: "graph field_analysis = field_graph" by (simp add: field_analysis_def)
  have d: "distinct (fn_keys field_analysis)" by (simp add: field_analysis_def)
  obtain s :: numbering and r where s: "newNodes s = map (\<lambda>i. Some (nodes field_graph ! i)) (new_order (nodes field_graph))"
      "renumber field_analysis = Some r" "\<forall>b. r = Inr b \<longrightarrow> renumbered_by (renumbering s) (map the (newNodes s)) field_analysis b"
    using renumber_permutes [of field_analysis, unfolded g, OF field_numbered d] by (elim exE conjE) (rule that)
  have "r = Inr (field_analysis\<lparr>graph := field_graph', globalval := [(7, 3)], closureWOGo := [(1, 1)]\<rparr>)"
    using s(2) field_renumber by simp
  then have "renumbered_by (renumbering s) (map the (newNodes s)) field_analysis
      (field_analysis\<lparr>graph := field_graph', globalval := [(7, 3)], closureWOGo := [(1, 1)]\<rparr>)" using s(3) by blast
  then have "constraints field_graph' = map (relabel (\<lambda>n. renumbering s ! unat n)) (constraints field_graph)"
    by (simp add: renumbered_by_def g)
  then show ?thesis using s(1) field_order by metis
qed

text \<open>
  C31. Renumbering does not change the solution, for an analysis without interface-call constraints, with
  reflection off and without a points-to limit, on nodes laid out in blocks, when the offsets that the
  constraints add to derivable labels stay inside an object (\<open>offsets_inside\<close>): when the solver returns
  before and after the renumbering, a node has a label afterwards exactly when it had it before, both under
  their new numbers.
\<close>
theorem renumber_keeps_solution:
  assumes "numbered (nodes (graph a))" "renumber a = Some (Inr a')"
    and "fresh (graph a)" "\<not> reflection e" "flagPTSLimit e = 0" "\<forall>c \<in> set (constraints (graph a)). \<not> is_invoke c"
    and "offsets_inside e (nodes (graph a)) (set (constraints (graph a)))"
    and "solve e (graph a) = Some (Inr b)" "solve e (graph a') = Some (Inr b')"
    and "is_node (graph a) n" "is_node (graph a) k"
  shows "has_label b' (new_id (nodes (graph a)) n) (new_id (nodes (graph a)) k) \<longleftrightarrow> has_label b n k"
proof -
  let ?ns = "nodes (graph a)" and ?K = "set (constraints (graph a))"
  note r = renumber_Inr [OF assms(2,1)]
  have m: "movable e ?ns ?K" using assms(1,7) r(3) by (simp add: movable_def)
  have u: "unat n < length ?ns" "unat k < length ?ns" using assms(10,11) by (simp_all add: is_node_def)
  have f: "fresh (graph a')" using assms(3) r(4-6) by (simp add: fresh_def)
  have "\<forall>c \<in> set (constraints (graph a')). \<not> is_invoke c"
    using assms(6) r(2) by (simp add: relabel_is_invoke)
  from solved_labels_exact [OF f assms(4,5) this assms(9)] have "has_label b' (new_id ?ns n) (new_id ?ns k) \<longleftrightarrow>
      is_node (graph a') (new_id ?ns n) \<and> derives e (new_nodes ?ns) (relabel (new_id ?ns) ` ?K) (ref_in ?ns n) (new_id ?ns k)"
    using r(1,2) new_nodes_ref [OF assms(1) u(1)] by simp
  moreover have "is_node (graph a') (new_id ?ns n)"
    using id_position(1) [OF assms(1) u(1)] r(1) new_order_perm(3) [of ?ns] assms(1) by (simp add: is_node_def new_nodes_def numbered_def)
  ultimately show ?thesis using movable_derives [OF m u(2)] solved_labels_exact [OF assms(3-6,8)] assms(10) by simp
qed

theorem renumber_keeps_solution_witness:
  "\<exists>b b'. solve pointer_env field_graph = Some (Inr b) \<and> solve pointer_env field_graph' = Some (Inr b') \<and>
     (has_label b' 4 2 \<longleftrightarrow> has_label b 4 3) \<and> has_label b 4 3"
proof -
  obtain b b' where b: "solve pointer_env field_graph = Some (Inr b)" "solve pointer_env field_graph' = Some (Inr b')"
    using field_runs by blast
  have g: "graph field_analysis = field_graph" by (simp add: field_analysis_def)
  have fr: "fresh field_graph" unfolding field_graph_def by (rule fresh_run_state)
  have inv: "\<forall>c \<in> set (constraints field_graph). \<not> is_invoke c" by (simp add: field_eval is_invoke_def)
  have nd: "is_node field_graph 4" "is_node field_graph 3" by (simp_all add: is_node_def field_eval)
  have id: "new_id (nodes field_graph) 4 = 4" "new_id (nodes field_graph) 3 = 2" by (simp_all add: new_id_def field_order)
  have "has_label b' (new_id (nodes field_graph) 4) (new_id (nodes field_graph) 3) \<longleftrightarrow> has_label b 4 3"
    using renumber_keeps_solution [OF _ field_renumber, where e = pointer_env and b = b and b' = b' and n = 4 and k = 3]
      field_numbered fr inv field_offsets nd b sample_env(1,3) by (simp add: g)
  moreover have "derives pointer_env (nodes field_graph) (set (constraints field_graph)) 4 3"
  proof -
    have "derives pointer_env (nodes field_graph) (set (constraints field_graph)) 1 2"
      using d_addr [of 1 2 "set (constraints field_graph)" pointer_env "nodes field_graph"] by (simp add: field_eval ref_in_def)
    then show ?thesis
      using d_offset [of 1 4 1 "set (constraints field_graph)" pointer_env "nodes field_graph" 2] by (simp add: field_eval ref_in_def)
  qed
  then have "has_label b 4 3"
    using solved_labels_exact [OF fr sample_env(1,3) inv b(1), of 4 3] nd by (simp add: field_eval ref_in_def)
  ultimately show ?thesis using b id by metis
qed

text \<open>
  A call site is renumbered once for every time it is listed, in the calls of a node or in its actual
  contexts: a site listed twice gets the number of another node.
\<close>
theorem sites_renumbered_per_listing:
  assumes "renumber_cgnodes m cs h = Inr (cs', h')"
  shows "targets (h' x) = ((\<lambda>n. m ! unat n) ^^ count_list (concat (map listed_sites cs)) (Some x)) (targets (h x))"
  by (rule renumber_sites_iter [OF renumber_cgnodes_sites [OF assms]])

theorem sites_renumbered_per_listing_witness:
  "\<exists>cs h. renumber_cgnodes [0, 2, 1] [shared_caller 0, shared_caller 0] (\<lambda>_. shared_site) = Inr (cs, h) \<and> targets (h 0) = 1"
proof -
  obtain cs h where r: "renumber_cgnodes [0, 2, 1] [shared_caller 0, shared_caller 0] (\<lambda>_. shared_site) = Inr (cs, h)"
    by (auto simp: shared_caller_def shared_site_def renumber_eval slice_def)
  have c: "count_list (concat (map listed_sites [shared_caller 0, shared_caller 0])) (Some 0) = Suc (Suc 0)"
    by (simp add: shared_caller_def listed_sites_def slice_def)
  have "targets (h 0) = 1" using sites_renumbered_per_listing [OF r, of 0] unfolding c by (simp add: shared_site_def)
  then show ?thesis using r by blast
qed

end
