(* ===== verification/Pointer_Query_Properties.thy ===== *)
theory Pointer_Query_Properties
  imports Pointer_Tables Pointer_Origin_Properties Pointer_Renumber_Properties
begin

text \<open>
  The properties of the answers of the pointer analysis: aliasing, labels, the call graph and the pointers of
  a value in a goroutine.
\<close>

section \<open>A sample\<close>

text \<open>The root calls function 3 at call site 0, a go statement; its context has the value 20 at node 1.\<close>

definition end_graph :: solver where
  "end_graph = run_state [plain_node 0, plain_node 1, \<lparr>obj = Some \<lparr>flags = 4, obj_size = 1\<rparr>, node_typ = 0, solve_ref = 2\<rparr>]
     [no_labels, no_labels\<lparr>pts := ns_of [2]\<rparr>, no_labels] [] [] 0 (0, {})"

definition end_calls :: calls where
  "end_calls = sample_calls\<lparr>graph := end_graph,
     cgnodes := [sample_root\<lparr>sites := [0]\<rparr>, (blank_cgnode 3 2 (Some [Some 0]))\<lparr>cg_idx := 1, localval := Some [(20, 1)]\<rparr>],
     site_store := (\<lambda>_. \<lparr>targets = 1, instr = Some 7, loopID = 0, goInstr = Some 7\<rparr>),
     obj_cgn := (\<lambda>n. if n = 0 then Some 0 else if n = 2 then Some 1 else None), CallGraph := NewWCtx 0, IsFromApp := (\<lambda>_. True)\<rparr>"

definition end_env :: query_env where
  "end_env = \<lparr>q_prog = loop_program\<lparr>val_parent := (\<lambda>_. Some 3), can_point := (\<lambda>_. True)\<rparr>, q_type = (\<lambda>_. 0), q_types = sample_types, q_fuel = 4,
     is_global_object = (\<lambda>_. False), DoCompare = False\<rparr>"

definition end_text :: call_text where
  "end_text = \<lparr>instr_String = (\<lambda>_. ''''), Parent_String = (\<lambda>_. '''')\<rparr>"

text \<open>The graph at the end: one edge, from the node of the root to that of the function.\<close>

definition end_nodes :: callgraph where
  "end_nodes = create_nodes [0, 1] (NewWCtx 0)"

lemma end_nodes_eq: "end_nodes = \<lparr>g_root = 0, g_nodes = [(0, 0), (1, 1)], Fn2CGNode = [], numEdges = 0,
    node_at = (node_at empty_graph)(0 := \<lparr>g_cgn = 0, g_id = 0, g_in = [], g_out = []\<rparr>, Suc 0 := \<lparr>g_cgn = 1, g_id = 1, g_in = [], g_out = []\<rparr>),
    edge_at = edge_at empty_graph, next_gnode = 2, next_gedge = 0\<rparr>"
  by (simp add: end_nodes_def NewWCtx_def CreateNodeWCtx_def GetNodeWCtx_def empty_graph_def set_node_def Let_def)

lemma end_edge: "callEdge end_text 0 (Some 0) 2 (end_calls\<lparr>CallGraph := end_nodes\<rparr>) = Inr (end_calls\<lparr>CallGraph := AddEdge 0 (Some 7) 1 end_nodes\<rparr>)"
  by (simp add: callEdge_def end_calls_def end_graph_def sample_calls_def sample_origins_def origins.defs get_node_def nth_go_def run_state_sel
    otFunction_def cgnode_of_def site_of_def CreateNodeWCtx_def GetNodeWCtx_def end_nodes_eq)

lemma end_callers: "callers_edges end_text [0, 1] (end_calls\<lparr>CallGraph := end_nodes\<rparr>) = Inr (end_calls\<lparr>CallGraph := AddEdge 0 (Some 7) 1 end_nodes\<rparr>)"
proof -
  have c: "cgnode_of (end_calls\<lparr>CallGraph := g\<rparr>) 0 = Inr (sample_root\<lparr>sites := [0]\<rparr>)"
    "cgnode_of (end_calls\<lparr>CallGraph := g\<rparr>) 1 = Inr ((blank_cgnode 3 2 (Some [Some 0]))\<lparr>cg_idx := 1, localval := Some [(20, 1)]\<rparr>)" for g
    by (simp_all add: cgnode_of_def nth_go_def end_calls_def)
  have s: "targets (site_store end_calls 0) = 1" "graph end_calls = end_graph"
    by (simp_all add: end_calls_def)
  have r: "ref_of 1 end_graph = Inr 1" by (simp add: ref_of_def get_node_def nth_go_def end_graph_def run_state_sel plain_node_def)
  have l: "ns_list (set_of (end_calls\<lparr>CallGraph := g\<rparr>) 1) = [2]" for g
    by (simp add: set_of_def s(2) end_graph_def run_state_sel ns_of_list)
  show ?thesis
    using end_edge l c(2) by (simp add: c s r blank_cgnode_def)
qed

text \<open>The results.\<close>

definition end_result :: results where
  "end_result = \<lparr>r_a = end_calls\<lparr>CallGraph := (AddEdge 0 (Some 7) 1 end_nodes)\<lparr>Fn2CGNode := [(9, [0]), (3, [1])]\<rparr>\<rparr>, r_main = None,
     r_isMain = True, Queries = Map.empty, IndirectQueries = Map.empty, GlobalQueries = Map.empty, ExtendedQueries = Map.empty,
     testMainCtx = None\<rparr>"

lemma end_finish: "finish_analysis end_text None True end_calls = Some (Inr end_result)"
proof -
  have c: "map cg_fn (cgnodes end_calls) = [9, 3]" "length (cgnodes end_calls) = 2" "CallGraph end_calls = NewWCtx 0" "closureWOGo end_calls = []"
    by (simp_all add: end_calls_def sample_root_def blank_cgnode_def sample_calls_def sample_origins_def origins.defs)
  have u: "[0..<2] = [0, Suc 0]" by (simp add: upt_rec)
  have nd: "create_nodes [0, Suc 0] (NewWCtx 0) = end_nodes" by (simp add: end_nodes_def)
  have g: "finish_graph end_text end_calls = Some (Inr (end_calls\<lparr>CallGraph := AddEdge 0 (Some 7) 1 end_nodes\<rparr>))"
    using end_callers nd unfolding finish_graph_def Let_def
    by (simp add: c u updateActualCallSites_def pass_rounds.simps del: callers_edges.simps create_nodes.simps)
  have n: "cg_fn (cgnodes end_calls ! 0) = 9" "cg_fn (cgnodes end_calls ! Suc 0) = 3"
    by (simp_all add: end_calls_def sample_root_def blank_cgnode_def)
  show ?thesis
    by (simp add: finish_analysis_def g end_result_def find_main_def computeFn2CGNode_def AddEdge_views n)
      (simp add: AddEdge_def Let_def set_node_def end_nodes_eq n)
qed

definition end_queries :: results where
  "end_queries = end_result\<lparr>Queries := [20 \<mapsto> [\<lparr>p_live = True, p_node = 1, p_cgn = Some 1\<rparr>]]\<rparr>"

lemma end_translate: "translateResult end_env end_result = Inr end_queries"
proof -
  have c: "cgnode_of (end_calls\<lparr>CallGraph := g\<rparr>) 0 = Inr (sample_root\<lparr>sites := [0]\<rparr>)"
    "cgnode_of (end_calls\<lparr>CallGraph := g\<rparr>) (Suc 0) = Inr ((blank_cgnode 3 2 (Some [Some 0]))\<lparr>cg_idx := 1, localval := Some [(20, 1)]\<rparr>)" for g
    by (simp_all add: cgnode_of_def nth_go_def end_calls_def)
  have g: "globalval end_calls = []" "fn_keys end_calls = []"
    by (simp_all add: end_calls_def sample_calls_def sample_origins_def origins.defs)
  show ?thesis
    by (simp add: translateResult_def Let_def end_result_def c g sample_root_def blank_cgnode_def slice_def translateQueries_def
        end_env_def record_query_def end_queries_def)
qed

lemma end_query: "PointsToByGoWithLoopID end_env end_queries (Some 20) (Some 7) 0 = Inr \<lparr>p_live = True, p_node = 1, p_cgn = Some 1\<rparr>"
  by (simp add: PointsToByGoWithLoopID_def points_to_by_def pointsToFreeVar_def pointsToRegular_def end_env_def loop_program_def
      end_queries_def end_result_def pointer_cgnode_def cgnode_of_def nth_go_def end_calls_def blank_cgnode_def matches_loop_def main_node_def
      MatchMyContextWithLoopID_def pointer_unbound_def no_site_def first_site_def first_site_of_def site_of_def slice_def)

section \<open>The properties\<close>

lemma PointsTo_Some: "PointsTo a p = Inr (Some r) \<Longrightarrow> is_node (graph a) (p_node p) \<and> r = rf (graph a) (p_node p)"
  by (auto simp: PointsTo_def bindR_eq_Inr_iff ref_of_Inr split: if_splits)

text \<open>
  C38. For constraints without interface calls and two pointers with nodes of the solved graph, \<^verbatim>\<open>MayAlias\<close>
  returns. Whatever the points-to limit and whether reflection is on or off, it says yes only when the
  constraints derive a common label for the two pointers; when no limit is set and reflection is off it says
  yes exactly then. The pointers may share a points-to set.
\<close>
theorem may_alias_exact:
  assumes "fresh g" "\<forall>c \<in> set (constraints g). \<not> is_invoke c" "solve e g = Some (Inr (graph a))"
    and "p_live p" "p_node p \<noteq> 0" "is_node g (p_node p)" "p_live q" "p_node q \<noteq> 0" "is_node g (p_node q)"
  shows "\<exists>r. MayAlias a p q = Inr r \<and>
    (r \<longrightarrow> (\<exists>k. derives e (nodes g) (set (constraints g)) (ref_in (nodes g) (p_node p)) k \<and>
                derives e (nodes g) (set (constraints g)) (ref_in (nodes g) (p_node q)) k)) \<and>
    (flagPTSLimit e = 0 \<and> \<not> reflection e \<longrightarrow>
       r = (\<exists>k. derives e (nodes g) (set (constraints g)) (ref_in (nodes g) (p_node p)) k \<and>
                derives e (nodes g) (set (constraints g)) (ref_in (nodes g) (p_node q)) k))"
proof -
  let ?D = "\<lambda>m k. derives e (nodes g) (set (constraints g)) (ref_in (nodes g) m) k"
  note s = solve_graph [OF assms(1-3)]
  have n: "is_node (graph a) (p_node p)" "is_node (graph a) (p_node q)" using assms(6,9) s(1) by (simp_all add: is_node_def)
  have r: "ref_of (p_node p) (graph a) = Inr (rf (graph a) (p_node p))" "ref_of (p_node q) (graph a) = Inr (rf (graph a) (p_node q))"
    using n by (simp_all add: ref_of_Inr)
  have h: "k \<in> Lb (graph a) (rf (graph a) m) \<longleftrightarrow> has_label (graph a) m k" if "is_node g m" for k m
    using that s(1) by (simp add: has_label_def is_node_def)
  have m: "MayAlias a p q = Inr (\<exists>k. has_label (graph a) (p_node p) k \<and> has_label (graph a) (p_node q) k)"
    using assms(4,5,7,8) by (simp add: MayAlias_def PointsTo_def r Intersects_labels [OF s(2)] h [OF assms(6)] h [OF assms(9)])
  have "has_label (graph a) m k \<Longrightarrow> ?D m k" for m k using solved_labels_derived [OF assms(1-3)] by blast
  moreover have "has_label (graph a) m k \<longleftrightarrow> ?D m k" if "is_node g m" "flagPTSLimit e = 0" "\<not> reflection e" for m k
    using solved_labels_exact [OF assms(1) that(3,2) assms(2,3)] that(1) by blast
  ultimately show ?thesis using m assms(6,9) by blast
qed

theorem may_alias_exact_witness:
  "\<exists>b. solve pointer_env pointer_system = Some (Inr b) \<and>
     MayAlias (end_calls\<lparr>graph := b\<rparr>) \<lparr>p_live = True, p_node = 1, p_cgn = None\<rparr> \<lparr>p_live = True, p_node = 3, p_cgn = None\<rparr> = Inr True"
proof -
  let ?N = "nodes pointer_system" and ?K = "set (constraints pointer_system)"
  obtain b where b: "solve pointer_env pointer_system = Some (Inr b)" using pointer_run by blast
  have r: "ref_in ?N 1 = 1" "ref_in ?N 3 = 3" by (simp_all add: ref_in_def pointer_system_def run_state_sel plain_node_def)
  have K: "AddrC 1 2 \<in> ?K" "CopyC 3 1 \<in> ?K" by (simp_all add: pointer_system_def run_state_sel)
  have p: "derives pointer_env ?N ?K 1 2" using d_addr [OF K(1), of pointer_env ?N] by (simp add: r)
  have "flow pointer_env ?N ?K 1 3" using f_copy [OF K(2), of pointer_env ?N] by (simp add: r)
  then have q: "derives pointer_env ?N ?K 3 2" using p by (rule d_flow)
  have n: "is_node pointer_system 1" "is_node pointer_system 3" by (simp_all add: is_node_def pointer_system_def run_state_sel)
  have s: "solve pointer_env pointer_system = Some (Inr (graph (end_calls\<lparr>graph := b\<rparr>)))" using b by simp
  show ?thesis
    using may_alias_exact [OF sample_fresh(1) sample_constraints(1) s,
        of "\<lparr>p_live = True, p_node = 1, p_cgn = None\<rparr>" "\<lparr>p_live = True, p_node = 3, p_cgn = None\<rparr>"]
      sample_env(1,3) n p q b r by auto
qed

text \<open>Labels are asked for inside objects, and the offsets of the constraints stay inside.\<close>

definition labels_inside :: "env \<Rightarrow> node list \<Rightarrow> constraint set \<Rightarrow> bool" where
  "labels_inside e ns K \<longleftrightarrow>
     (\<forall>d s. AddrC d s \<in> K \<longrightarrow> (\<exists>b. in_block ns b s)) \<and>
     (\<forall>i d s x b. OffsetAddrC i d s \<in> K \<longrightarrow> derives e ns K (ref_in ns s) x \<longrightarrow> in_block ns b x \<longrightarrow> in_block ns b (x + i))"

lemma derived_inside:
  assumes "labels_inside e ns K"
  shows "derives e ns K r k \<Longrightarrow> \<exists>b. in_block ns b k" and "flow e ns K r s \<Longrightarrow> True"
proof (induction rule: derives_flow.inducts)
  case (d_addr d s)
  then show ?case using assms by (simp add: labels_inside_def)
next
  case (d_offset i d s x)
  then show ?case using assms unfolding labels_inside_def by blast
qed auto

text \<open>
  The labels of a solved pointer can be asked for without a panic, for constraints without interface calls,
  objects that do not overlap, and addresses and offsets that stay inside objects: each label is listed once,
  with the object whose block it lies in, and only derived labels are; all of them when no points-to limit is
  set and reflection is off.
\<close>
theorem labels_name_objects:
  assumes "fresh g" "\<forall>c \<in> set (constraints g). \<not> is_invoke c" "solve e g = Some (Inr (graph a))"
    and "solid (nodes g)" "labels_inside e (nodes g) (set (constraints g))" "PointsTo a p = Inr (Some r)"
  shows "\<exists>ls. Labels a (Some r) = Some (Inr ls) \<and> distinct (map l_node ls) \<and>
    l_node ` set ls \<subseteq> {k. derives e (nodes g) (set (constraints g)) r k} \<and>
    (flagPTSLimit e = 0 \<and> \<not> reflection e \<longrightarrow> l_node ` set ls = {k. derives e (nodes g) (set (constraints g)) r k}) \<and>
    (\<forall>l \<in> set ls. in_block (nodes g) (l_obj l) (l_node l))"
proof -
  note s = solve_graph [OF assms(1-3)]
  note r = PointsTo_Some [OF assms(6)]
  have ok: "ns_ok (set_of a r)" using sets_okD(2) [OF s(2)] by (simp add: set_of_def)
  have lb: "set (ns_list (set_of a r)) = {k. has_label (graph a) (p_node p) k}"
    using ns.list(1) [OF ok] set_of_Lb [of a r] r by (auto simp: has_label_def)
  have n: "is_node g (p_node p)" "r = ref_in (nodes g) (p_node p)" using r s(1) by (simp_all add: is_node_def rf_def ref_in_def)
  have d: "set (ns_list (set_of a r)) \<subseteq> {k. derives e (nodes g) (set (constraints g)) r k}"
    using solved_labels_derived [OF assms(1-3), of "p_node p"] by (auto simp: lb simp flip: n(2))
  have x: "set (ns_list (set_of a r)) = {k. derives e (nodes g) (set (constraints g)) r k}"
    if "flagPTSLimit e = 0 \<and> \<not> reflection e"
    using solved_labels_exact [OF assms(1) _ _ assms(2,3), of "p_node p"] that n(1) by (auto simp: lb simp flip: n(2))
  have "\<forall>k \<in> set (ns_list (set_of a r)). \<exists>b. in_block (nodes (graph a)) b k"
    using derived_inside(1) [OF assms(5)] s(1) d by auto
  then obtain ls where ls: "labels_for (graph a) (ns_list (set_of a r)) = Some (Inr ls)" "map l_node ls = ns_list (set_of a r)"
      "\<forall>l \<in> set ls. in_block (nodes (graph a)) (l_obj l) (l_node l)"
    using labels_for_blocks [of "graph a" "ns_list (set_of a r)"] assms(4) unfolding s(1) by blast
  have "l_node ` set ls = set (ns_list (set_of a r))" unfolding ls(2) [symmetric] by (rule set_map [symmetric])
  moreover have "Labels a (Some r) = Some (Inr ls)" using ls(1) by (simp add: Labels_def)
  moreover have "distinct (map l_node ls)" unfolding ls(2) by (rule ns.list(2) [OF ok])
  ultimately show ?thesis using ls(3) d x unfolding s(1) by blast
qed

theorem labels_name_objects_witness:
  "\<exists>b ls. solve pointer_env field_graph = Some (Inr b) \<and> Labels (end_calls\<lparr>graph := b\<rparr>) (Some 4) = Some (Inr ls) \<and>
     l_node ` set ls = {k. derives pointer_env (nodes field_graph) (set (constraints field_graph)) 4 k}"
proof -
  obtain b where b: "solve pointer_env field_graph = Some (Inr b)" using field_runs(1) by blast
  have fr: "fresh field_graph" unfolding field_graph_def by (rule fresh_run_state)
  have inv: "\<forall>c \<in> set (constraints field_graph). \<not> is_invoke c" by (simp add: field_eval is_invoke_def)
  have s: "solve pointer_env field_graph = Some (Inr (graph (end_calls\<lparr>graph := b\<rparr>)))" using b by simp
  have ob: "obj (nodes field_graph ! i) = (if i = 2 then Some \<lparr>flags = 0, obj_size = 2\<rparr> else None)" if "i < 5" for i
    using that by (auto simp: field_eval nth_Cons' less_Suc_eq eval_nat_numeral)
  have "length (nodes field_graph) = 5" by (simp add: field_eval)
  then have so: "solid (nodes field_graph)" by (simp add: solid_def ob)
  have bl: "in_block (nodes field_graph) 2 2" "in_block (nodes field_graph) c 2 \<Longrightarrow> c = 2" "in_block (nodes field_graph) 2 3" for c
    using in_block_unique [OF so, of c 2 2] by (auto simp: in_block_def field_eval)
  have li: "labels_inside pointer_env (nodes field_graph) (set (constraints field_graph))"
    unfolding labels_inside_def
  proof (intro conjI allI impI)
    fix d s' assume "AddrC d s' \<in> set (constraints field_graph)"
    then have "s' = 2" by (simp add: field_eval)
    then show "\<exists>b. in_block (nodes field_graph) b s'" using bl(1) by blast
  next
    fix i d s' x c
    assume o: "OffsetAddrC i d s' \<in> set (constraints field_graph)" "derives pointer_env (nodes field_graph) (set (constraints field_graph)) (ref_in (nodes field_graph) s') x"
      "in_block (nodes field_graph) c x"
    have i: "i = 1" "s' = 1" using o(1) by (simp_all add: field_eval)
    then have "x = 2" using field_derives(1) [OF o(2)] by (simp add: ref_in_def field_eval)
    then show "in_block (nodes field_graph) c (x + i)" using bl o(3) i by auto
  qed
  have "nodes b = nodes field_graph" using solve_graph(1) [OF fr inv b] .
  then have "PointsTo (end_calls\<lparr>graph := b\<rparr>) \<lparr>p_live = True, p_node = 4, p_cgn = None\<rparr> = Inr (Some 4)"
    by (simp add: PointsTo_def ref_of_def get_node_def nth_go_def field_eval)
  from labels_name_objects [OF fr inv s so li this] show ?thesis using b sample_env(1,3) by blast
qed

lemma finish_Inr_parts:
  assumes "finish_analysis t mf im a = Some (Inr r)"
  shows "\<exists>b. finish_graph t a = Some (Inr b) \<and> r_a r = b\<lparr>CallGraph := computeFn2CGNode (\<lambda>c. cg_fn (cgnodes b ! c)) (CallGraph b)\<rparr> \<and>
    ExtendedQueries r = Map.empty"
  using assms by (auto simp: finish_analysis_def bindL_Inr)







text \<open>The node tables of the context \<open>c\<close> map the value to a node.\<close>

definition in_tables :: "calls \<Rightarrow> ref \<Rightarrow> nat \<Rightarrow> nodeid \<Rightarrow> bool" where
  "in_tables a v c n \<longleftrightarrow>
     c \<in> set (concat (map snd (Fn2CGNode (CallGraph a)))) \<and> n \<noteq> 0 \<and>
     (v, n) \<in> set (slice (localval (cgnodes a ! c))) \<union> set (slice (localobj (cgnodes a ! c)))"

text \<open>A context of the function of the value that runs in the goroutine; outside the application any context.\<close>

definition in_goroutine :: "query_env \<Rightarrow> results \<Rightarrow> ref \<Rightarrow> nat option \<Rightarrow> int \<Rightarrow> nat \<Rightarrow> bool" where
  "in_goroutine e r v g l c \<longleftrightarrow> suits (\<lambda>n. matches_loop r n g l) r (val_parent (q_prog e) v) (Some c)"

lemma pointers_of_iff: "p \<in> set (pointers_of c v es) \<longleftrightarrow> p_live p \<and> p_cgn p = c \<and> p_node p \<noteq> 0 \<and> (v, p_node p) \<in> set es"
proof -
  have "p = \<lparr>p_live = True, p_node = n, p_cgn = c\<rparr> \<longleftrightarrow> p_live p \<and> p_cgn p = c \<and> p_node p = n" for n
    by (cases p) auto
  then show ?thesis by (auto simp: pointers_of_def image_iff)
qed

text \<open>
  C40. The query of the race detector for a value, a go statement and a loop id, when it returns: for a value
  that is no global, free variable or load of one, and that the tables of globals and functions do not list,
  it gives a live pointer exactly when some context of the value's function that runs in the goroutine
  (any context, for a function outside the application) has a node for the value, and then the node of such a
  context.
\<close>
theorem query_by_goroutine:
  assumes "finish_analysis t mf im a = Some (Inr r)" "translateResult e r = Inr q"
    and "\<not> global_value e v" "pointsToFreeVar e q (Some v) = None"
    and "v \<notin> fst ` set (globalval (r_a r))" "v \<notin> set (fn_keys (r_a r))"
    and "PointsToByGoWithLoopID e q (Some v) g l = Inr p"
  shows "(p_live p \<longleftrightarrow> (\<exists>c n. in_tables (r_a q) v c n \<and> in_goroutine e q v g l c)) \<and>
    (p_live p \<longrightarrow> (\<exists>c. p_cgn p = Some c \<and> in_tables (r_a q) v c (p_node p) \<and> in_goroutine e q v g l c))"
proof -
  let ?f = "\<lambda>n. matches_loop q n g l" and ?par = "val_parent (q_prog e) v"
  obtain b where x: "ExtendedQueries r = Map.empty" using finish_Inr_parts [OF assms(1)] by blast
  note T = translateResult_regular [OF assms(2,3) x]
  have "pointers_of None v (globalval (r_a r) @ map (\<lambda>f. (f, globalobj (graph (r_a r)) f)) (fn_keys (r_a r))) = []"
    using assms(5,6) by (force simp: pointers_of_def filter_empty_conv)
  then have reg: "p \<in> set (regular e q v) \<longleftrightarrow> (\<exists>c. p_live p \<and> p_cgn p = Some c \<and> in_tables (r_a q) v c (p_node p))" for p
    unfolding T(4) T(1) by (auto simp: context_pointers_def pointers_of_iff in_tables_def)
  have pick: "pick_pointer ?f q ?par (regular e q v) = Inr p"
  proof (cases "pointsToRegular q (Some v)")
    case None
    then have "p = no_pointer" using assms(4,7) by (simp add: PointsToByGoWithLoopID_def points_to_by_def)
    then show ?thesis using T(3) [OF None] by simp
  next
    case (Some ps)
    then have "ps = regular e q v" using T(2) by simp
    then show ?thesis using assms(4,7) Some by (simp add: PointsToByGoWithLoopID_def points_to_by_def)
  qed
  from pick_pointer_spec [OF this] show ?thesis
  proof
    assume "p \<in> set (regular e q v) \<and> suits ?f q ?par (p_cgn p)"
    then obtain c where "p_live p" "p_cgn p = Some c" "in_tables (r_a q) v c (p_node p)" "in_goroutine e q v g l c"
      unfolding in_goroutine_def using reg by metis
    then show ?thesis by blast
  next
    assume n: "p = no_pointer \<and> (\<forall>x \<in> set (regular e q v). \<not> suits ?f q ?par (p_cgn x))"
    have "\<not> in_goroutine e q v g l c" if "in_tables (r_a q) v c k" for c k
      using n reg [of "\<lparr>p_live = True, p_node = k, p_cgn = Some c\<rparr>"] that by (fastforce simp: in_goroutine_def)
    then show ?thesis using n by (auto simp: no_pointer_def)
  qed
qed

theorem query_by_goroutine_witness: "in_tables (r_a end_queries) 20 1 1 \<and> in_goroutine end_env end_queries 20 (Some 7) 0 1"
proof -
  have v: "\<not> global_value end_env 20" "pointsToFreeVar end_env end_queries (Some 20) = None"
    by (simp_all add: global_value_def pointsToFreeVar_def end_env_def loop_program_def)
  have g: "20 \<notin> fst ` set (globalval (r_a end_result))" "20 \<notin> set (fn_keys (r_a end_result))"
    by (simp_all add: end_result_def end_calls_def sample_calls_def sample_origins_def origins.defs)
  from query_by_goroutine [OF end_finish end_translate v g end_query] show ?thesis by simp
qed

end
