(* ===== verification/Gorace_HB.thy ===== *)
theory Gorace_HB
  imports Ssa_Model
begin

text \<open>
  The search in the happens-before graph (\<^verbatim>\<open>gorace/shbgraph.go\<close>): the slice queue, the
  breadth-first search \<^verbatim>\<open>reachableBFS\<close> and its cached wrapper \<^verbatim>\<open>reachable\<close>. The graph
  itself is the package \<^verbatim>\<open>github.com/twmb/algoimpl/go/graph\<close>, which is not part of the
  repository: its \<^verbatim>\<open>Neighbors\<close> and the \<^verbatim>\<open>Value\<close> pointer of a node are parameters.
\<close>

section \<open>The queue\<close>

record 'n queue =
  data :: "'n list"
  head :: nat

definition empty_queue :: "'n queue" where
  "empty_queue = \<lparr>data = [], head = 0\<rparr>"

definition enQueue :: "'n queue \<Rightarrow> 'n \<Rightarrow> 'n queue" where
  "enQueue q v = q\<lparr>data := data q @ [v]\<rparr>"

definition deQueue :: "'n queue \<Rightarrow> ('n \<times> 'n queue) go_result" where
  "deQueue q =
     (if head q < length (data q) then Inr (data q ! head q, q\<lparr>head := Suc (head q)\<rparr>)
      else Inl IndexOutOfRange)"

definition queue_isEmpty :: "'n queue \<Rightarrow> bool" where
  "queue_isEmpty q \<longleftrightarrow> head q \<ge> length (data q)"

definition queue_size :: "'n queue \<Rightarrow> int" where
  "queue_size q = int (length (data q)) - int (head q)"

text \<open>The first-in first-out interface the search relies on.\<close>

locale fifo =
  fixes emp :: 'q
    and enq :: "'q \<Rightarrow> 'n \<Rightarrow> 'q"
    and deq :: "'q \<Rightarrow> ('n \<times> 'q) go_result"
    and is_emp :: "'q \<Rightarrow> bool"
    and siz :: "'q \<Rightarrow> int"
    and pending :: "'q \<Rightarrow> 'n list"
    and qinv :: "'q \<Rightarrow> bool"
  assumes emp: "qinv emp" "pending emp = []"
    and enq: "qinv q \<Longrightarrow> qinv (enq q v)" "qinv q \<Longrightarrow> pending (enq q v) = pending q @ [v]"
    and deq: "qinv q \<Longrightarrow> pending q = v # vs \<Longrightarrow> \<exists>q'. deq q = Inr (v, q') \<and> qinv q' \<and> pending q' = vs"
    and is_emp: "qinv q \<Longrightarrow> is_emp q \<longleftrightarrow> pending q = []"
    and siz: "qinv q \<Longrightarrow> siz q = int (length (pending q))"
begin

lemma enq_all: "qinv q \<Longrightarrow> qinv (fold (\<lambda>v q. enq q v) vs q) \<and> pending (fold (\<lambda>v q. enq q v) vs q) = pending q @ vs"
  by (induction vs arbitrary: q) (simp_all add: enq)

lemma enq_not_empty: "qinv q \<Longrightarrow> \<not> is_emp (enq q v)"
  by (simp add: is_emp enq)

lemma deq_fails_only_empty: "qinv q \<Longrightarrow> deq q = Inl e \<Longrightarrow> is_emp q"
proof -
  assume q: "qinv q" "deq q = Inl e"
  show "is_emp q"
  proof (cases "pending q")
    case Nil
    then show ?thesis using is_emp [OF q(1)] by simp
  next
    case (Cons v vs)
    then show ?thesis using deq [OF q(1) Cons] q(2) by auto
  qed
qed

end

definition queue_pending :: "'n queue \<Rightarrow> 'n list" where
  "queue_pending q = drop (head q) (data q)"

definition queue_inv :: "'n queue \<Rightarrow> bool" where
  "queue_inv q \<longleftrightarrow> head q \<le> length (data q)"

interpretation gq: fifo empty_queue enQueue deQueue queue_isEmpty queue_size queue_pending queue_inv
proof unfold_locales
  fix q :: "'n queue" and v vs
  show "\<exists>q'. deQueue q = Inr (v, q') \<and> queue_inv q' \<and> queue_pending q' = vs"
    if "queue_inv q" "queue_pending q = v # vs"
  proof -
    have lt: "head q < length (data q)" using that(2) by (auto simp: queue_pending_def intro: ccontr)
    then have "data q ! head q = v" "drop (Suc (head q)) (data q) = vs"
      using Cons_nth_drop_Suc [OF lt] that(2) by (auto simp: queue_pending_def)
    then show ?thesis using lt by (auto simp: deQueue_def queue_inv_def queue_pending_def)
  qed
qed (auto simp: empty_queue_def enQueue_def queue_isEmpty_def queue_size_def queue_pending_def queue_inv_def)


section \<open>Breadth-first search\<close>

record goIns =
  gi_ins :: ref
  gi_goID :: nat

text \<open>
  \<^verbatim>\<open>visited\<close> is a map keyed by the \<^verbatim>\<open>Value\<close> pointers, where a missing key reads as false. The
  body of the loop over \<^verbatim>\<open>Neighbors(node)\<close>, the loop over one level and the loop over the queue:
\<close>

fun visit_neighbors :: "('n \<Rightarrow> 'v) \<Rightarrow> 'n list \<Rightarrow> 'n queue \<Rightarrow> ('v \<Rightarrow> bool) \<Rightarrow> 'n queue \<times> ('v \<Rightarrow> bool)" where
  "visit_neighbors value_of [] q visited = (q, visited)"
| "visit_neighbors value_of (n # ns) q visited =
     (if visited (value_of n) then visit_neighbors value_of ns q visited
      else visit_neighbors value_of ns (enQueue q n) (visited(value_of n := True)))"

text \<open>A level returns \<^const>\<open>None\<close> when the code has returned \<^verbatim>\<open>true\<close>.\<close>

fun bfs_level :: "('n \<Rightarrow> 'n list) \<Rightarrow> ('n \<Rightarrow> 'v) \<Rightarrow> 'n \<Rightarrow> nat \<Rightarrow> 'n queue \<Rightarrow> ('v \<Rightarrow> bool) \<Rightarrow>
    ('n queue \<times> ('v \<Rightarrow> bool)) option go_result" where
  "bfs_level neighbors value_of toNode 0 q visited = Inr (Some (q, visited))"
| "bfs_level neighbors value_of toNode (Suc sz) q visited =
     bindR (deQueue q) (\<lambda>(node, q).
       if node = toNode then Inr None
       else let (q, visited) = visit_neighbors value_of (neighbors node) q visited
            in bfs_level neighbors value_of toNode sz q visited)"

partial_function (option) bfs_loop ::
    "('n \<Rightarrow> 'n list) \<Rightarrow> ('n \<Rightarrow> 'v) \<Rightarrow> 'n \<Rightarrow> 'n queue \<Rightarrow> ('v \<Rightarrow> bool) \<Rightarrow> bool go_result option" where
  "bfs_loop neighbors value_of toNode q visited =
     (if queue_isEmpty q then Some (Inr False)
      else case bfs_level neighbors value_of toNode (nat (queue_size q)) q visited of
             Inl e \<Rightarrow> Some (Inl e)
           | Inr None \<Rightarrow> Some (Inr True)
           | Inr (Some (q, visited)) \<Rightarrow> bfs_loop neighbors value_of toNode q visited)"

declare bfs_loop.simps [code]

definition reachableBFS ::
    "('n \<Rightarrow> 'n list) \<Rightarrow> ('n \<Rightarrow> 'v) \<Rightarrow> (goIns \<rightharpoonup> 'n) \<Rightarrow> ref \<Rightarrow> nat \<Rightarrow> ref \<Rightarrow> nat \<Rightarrow> bool go_result option" where
  "reachableBFS neighbors value_of rwInsMap fromIns fromGo toIns toGo =
     (case (rwInsMap \<lparr>gi_ins = fromIns, gi_goID = fromGo\<rparr>, rwInsMap \<lparr>gi_ins = toIns, gi_goID = toGo\<rparr>) of
        (Some fromNode, Some toNode) \<Rightarrow>
          bfs_loop neighbors value_of toNode (enQueue empty_queue fromNode) ((\<lambda>_. False)(value_of fromNode := True))
      | _ \<Rightarrow> Some (Inr False))"

text \<open>The cache is keyed by the four arguments.\<close>

type_synonym reach_key = "ref \<times> nat \<times> ref \<times> nat"

definition reachable ::
    "('n \<Rightarrow> 'n list) \<Rightarrow> ('n \<Rightarrow> 'v) \<Rightarrow> (goIns \<rightharpoonup> 'n) \<Rightarrow> (reach_key \<rightharpoonup> bool) \<Rightarrow> ref \<Rightarrow> nat \<Rightarrow> ref \<Rightarrow> nat \<Rightarrow>
     (bool \<times> (reach_key \<rightharpoonup> bool)) go_result option" where
  "reachable neighbors value_of rwInsMap cache fromIns fromGo toIns toGo =
     (case cache (fromIns, fromGo, toIns, toGo) of
        Some cached \<Rightarrow> Some (Inr (cached, cache))
      | None \<Rightarrow>
          (case reachableBFS neighbors value_of rwInsMap fromIns fromGo toIns toGo of
             None \<Rightarrow> None
           | Some (Inl e) \<Rightarrow> Some (Inl e)
           | Some (Inr result) \<Rightarrow> Some (Inr (result, cache((fromIns, fromGo, toIns, toGo) \<mapsto> result)))))"


section \<open>The search decides reachability\<close>

definition edges_of :: "('n \<Rightarrow> 'n list) \<Rightarrow> ('n \<times> 'n) set" where
  "edges_of neighbors = {(a, b). b \<in> set (neighbors a)}"

definition reach_set :: "('n \<Rightarrow> 'n list) \<Rightarrow> 'n \<Rightarrow> 'n set" where
  "reach_set neighbors n = {m. (n, m) \<in> (edges_of neighbors)\<^sup>*}"

lemma reach_set_step: "n \<in> reach_set neighbors s \<Longrightarrow> set (neighbors n) \<subseteq> reach_set neighbors s"
  by (auto simp: reach_set_def edges_of_def intro: rtrancl_into_rtrancl)

lemma reach_set_closed:
  assumes "s \<in> A" "\<And>n. n \<in> A \<Longrightarrow> set (neighbors n) \<subseteq> A"
  shows "reach_set neighbors s \<subseteq> A"
proof
  fix m assume "m \<in> reach_set neighbors s"
  then have "(s, m) \<in> (edges_of neighbors)\<^sup>*" by (simp add: reach_set_def)
  then show "m \<in> A" by (induction rule: rtrancl_induct) (use assms in \<open>auto simp: edges_of_def\<close>)
qed

definition bfs_inv :: "('n \<Rightarrow> 'n list) \<Rightarrow> ('n \<Rightarrow> 'v) \<Rightarrow> 'n \<Rightarrow> 'n \<Rightarrow> 'n queue \<Rightarrow> ('v \<Rightarrow> bool) \<Rightarrow> bool" where
  "bfs_inv neighbors value_of s t q visited \<longleftrightarrow>
     queue_inv q \<and> distinct (data q) \<and> s \<in> set (data q) \<and> set (data q) \<subseteq> reach_set neighbors s \<and>
     (\<forall>n \<in> reach_set neighbors s. visited (value_of n) \<longleftrightarrow> n \<in> set (data q)) \<and>
     (\<forall>n \<in> set (take (head q) (data q)). n \<noteq> t \<and> set (neighbors n) \<subseteq> set (data q))"

lemma visit_neighbors_spec:
  assumes "inj_on value_of R" "set ns \<subseteq> R" "distinct (data q)" "set (data q) \<subseteq> R"
    "\<forall>n \<in> R. visited (value_of n) \<longleftrightarrow> n \<in> set (data q)"
    "visit_neighbors value_of ns q visited = (q', visited')"
  shows "\<exists>new. data q' = data q @ new \<and> head q' = head q \<and> distinct (data q') \<and> set (data q') \<subseteq> R \<and>
    set ns \<subseteq> set (data q') \<and> (\<forall>n \<in> R. visited' (value_of n) \<longleftrightarrow> n \<in> set (data q'))"
  using assms(2-)
proof (induction ns arbitrary: q visited)
  case (Cons n ns)
  show ?case
  proof (cases "visited (value_of n)")
    case True
    then show ?thesis using Cons.IH [of q visited] Cons.prems by auto
  next
    case False
    have n: "n \<in> R" "n \<notin> set (data q)" using Cons.prems False by auto
    have m: "\<forall>m \<in> R. (visited(value_of n := True)) (value_of m) \<longleftrightarrow> m \<in> set (data (enQueue q n))"
      using Cons.prems(4) n(1) assms(1) by (auto simp: enQueue_def inj_on_def)
    have "set ns \<subseteq> R" "distinct (data (enQueue q n))" "set (data (enQueue q n)) \<subseteq> R"
      "visit_neighbors value_of ns (enQueue q n) (visited(value_of n := True)) = (q', visited')"
      using Cons.prems n False by (simp_all add: enQueue_def)
    from Cons.IH [OF this(1-3) m this(4)]
    have "\<exists>new. data q' = data (enQueue q n) @ new \<and> head q' = head (enQueue q n) \<and> distinct (data q') \<and>
        set (data q') \<subseteq> R \<and> set ns \<subseteq> set (data q') \<and> (\<forall>n \<in> R. visited' (value_of n) \<longleftrightarrow> n \<in> set (data q'))" .
    then show ?thesis by (auto simp: enQueue_def)
  qed
qed auto

lemma bfs_level_spec:
  assumes "inj_on value_of (reach_set neighbors s)" "bfs_inv neighbors value_of s t q visited"
    "head q + k \<le> length (data q)"
  shows "(bfs_level neighbors value_of t k q visited = Inr None \<and> t \<in> reach_set neighbors s) \<or>
    (\<exists>q' visited'. bfs_level neighbors value_of t k q visited = Inr (Some (q', visited')) \<and>
       bfs_inv neighbors value_of s t q' visited' \<and> head q' = head q + k)"
  using assms(2,3)
proof (induction k arbitrary: q visited)
  case (Suc k)
  let ?R = "reach_set neighbors s" and ?n = "data q ! head q" and ?q = "q\<lparr>head := Suc (head q)\<rparr>"
  have lt: "head q < length (data q)" using Suc.prems(2) by simp
  then have dq: "deQueue q = Inr (?n, ?q)" by (simp add: deQueue_def)
  have inv: "queue_inv q" "distinct (data q)" "s \<in> set (data q)" "set (data q) \<subseteq> ?R"
    "\<forall>n \<in> ?R. visited (value_of n) \<longleftrightarrow> n \<in> set (data q)"
    "\<forall>n \<in> set (take (head q) (data q)). n \<noteq> t \<and> set (neighbors n) \<subseteq> set (data q)"
    using Suc.prems(1) unfolding bfs_inv_def by blast+
  have "?n \<in> set (data q)" using lt by simp
  then have n: "?n \<in> ?R" using inv(4) by (rule subsetD [rotated])
  note nR = n reach_set_step [OF n]
  show ?case
  proof (cases "?n = t")
    case True
    then show ?thesis using dq nR(1) by simp
  next
    case False
    obtain q2 v2 where v: "visit_neighbors value_of (neighbors ?n) ?q visited = (q2, v2)" by (rule prod.exhaust)
    have "\<exists>new. data q2 = data ?q @ new \<and> head q2 = head ?q \<and> distinct (data q2) \<and> set (data q2) \<subseteq> ?R \<and>
        set (neighbors ?n) \<subseteq> set (data q2) \<and> (\<forall>n \<in> ?R. v2 (value_of n) \<longleftrightarrow> n \<in> set (data q2))"
      by (rule visit_neighbors_spec [OF assms(1) nR(2) _ _ _ v]) (use inv in simp_all)
    then obtain new where nw: "data q2 = data q @ new" "head q2 = Suc (head q)" "distinct (data q2)"
      "set (data q2) \<subseteq> ?R" "set (neighbors ?n) \<subseteq> set (data q2)"
      "\<forall>n \<in> ?R. v2 (value_of n) \<longleftrightarrow> n \<in> set (data q2)" by auto
    have tk: "take (head q2) (data q2) = take (head q) (data q) @ [?n]"
      using lt nw(1,2) by (simp add: take_Suc_conv_app_nth)
    have "\<forall>n \<in> set (take (head q2) (data q2)). n \<noteq> t \<and> set (neighbors n) \<subseteq> set (data q2)"
    proof
      fix n assume "n \<in> set (take (head q2) (data q2))"
      then have "n \<in> set (take (head q) (data q)) \<or> n = ?n" unfolding tk by auto
      then show "n \<noteq> t \<and> set (neighbors n) \<subseteq> set (data q2)" using inv(6) False nw(1,5) by auto
    qed
    then have "bfs_inv neighbors value_of s t q2 v2"
      using inv(3) nw lt unfolding bfs_inv_def by (simp add: queue_inv_def)
    then show ?thesis using Suc.IH [of q2 v2] Suc.prems(2) nw(1,2) dq False v by simp
  qed
qed simp

lemma bfs_loop_correct:
  assumes "inj_on value_of (reach_set neighbors s)" "finite (reach_set neighbors s)"
    "bfs_inv neighbors value_of s t q visited"
  shows "bfs_loop neighbors value_of t q visited = Some (Inr (t \<in> reach_set neighbors s))"
  using assms(3)
proof (induction "card (reach_set neighbors s) - head q" arbitrary: q visited rule: less_induct)
  case less
  let ?R = "reach_set neighbors s"
  have inv: "queue_inv q" "distinct (data q)" "s \<in> set (data q)" "set (data q) \<subseteq> ?R"
    "\<forall>n \<in> set (take (head q) (data q)). n \<noteq> t \<and> set (neighbors n) \<subseteq> set (data q)"
    using less.prems by (auto simp: bfs_inv_def)
  show ?case
  proof (cases "queue_isEmpty q")
    case True
    then have tk: "take (head q) (data q) = data q" by (simp add: queue_isEmpty_def)
    have "?R \<subseteq> set (data q)" using reach_set_closed [of s "set (data q)" neighbors] inv(3,5) tk by auto
    then have "t \<notin> ?R" using inv(5) tk by auto
    then show ?thesis using True by (simp add: bfs_loop.simps)
  next
    case False
    have sz: "0 < nat (queue_size q)" "head q + nat (queue_size q) = length (data q)"
      using False by (auto simp: queue_isEmpty_def queue_size_def)
    have "length (data q) \<le> card ?R"
      using inv(2,4) assms(2) by (metis card_mono distinct_card)
    then have dec: "card ?R - (head q + nat (queue_size q)) < card ?R - head q" using sz by simp
    note step = bfs_level_spec [OF assms(1) less.prems, of "nat (queue_size q)"]
    then show ?thesis
      using False sz less.hyps dec by (subst bfs_loop.simps) auto
  qed
qed

lemma reachableBFS_correct:
  assumes "rwInsMap \<lparr>gi_ins = i, gi_goID = g\<rparr> = Some s" "rwInsMap \<lparr>gi_ins = j, gi_goID = h\<rparr> = Some t"
    "finite (reach_set neighbors s)" "inj_on value_of (reach_set neighbors s)"
  shows "reachableBFS neighbors value_of rwInsMap i g j h = Some (Inr ((s, t) \<in> (edges_of neighbors)\<^sup>*))"
proof -
  have "bfs_inv neighbors value_of s t (enQueue empty_queue s) ((\<lambda>_. False)(value_of s := True))"
    using assms(4) by (auto simp: bfs_inv_def empty_queue_def enQueue_def queue_inv_def inj_on_def reach_set_def)
  then show ?thesis
    using bfs_loop_correct [OF assms(4,3)] assms(1,2) by (simp add: reachableBFS_def reach_set_def)
qed

section \<open>The cache\<close>

definition cache_ok :: "('n \<Rightarrow> 'n list) \<Rightarrow> ('n \<Rightarrow> 'v) \<Rightarrow> (goIns \<rightharpoonup> 'n) \<Rightarrow> (reach_key \<rightharpoonup> bool) \<Rightarrow> bool" where
  "cache_ok neighbors value_of rwInsMap cache \<longleftrightarrow>
     (\<forall>i g j h b. cache (i, g, j, h) = Some b \<longrightarrow>
        reachableBFS neighbors value_of rwInsMap i g j h = Some (Inr b))"

lemma cache_ok_empty: "cache_ok neighbors value_of rwInsMap Map.empty"
  by (simp add: cache_ok_def)

lemma reachable_cached:
  assumes "cache_ok neighbors value_of rwInsMap cache"
    "reachableBFS neighbors value_of rwInsMap i g j h = Some (Inr b)"
  shows "\<exists>cache'. reachable neighbors value_of rwInsMap cache i g j h = Some (Inr (b, cache')) \<and>
    cache_ok neighbors value_of rwInsMap cache'"
proof (cases "cache (i, g, j, h)")
  case None
  then show ?thesis using assms by (auto simp: reachable_def cache_ok_def)
next
  case (Some c)
  then have "c = b" using assms by (fastforce simp: cache_ok_def)
  then show ?thesis using Some assms(1) by (simp add: reachable_def)
qed

end
