(* ===== verification/Gorace_State.thy ===== *)
theory Gorace_State
  imports Gorace_HB
begin

text \<open>
  The state of one run of the race detector: the types of \<^verbatim>\<open>gorace/staticAnalysis.go\<close> and the
  \<^verbatim>\<open>analysis\<close> struct of \<^verbatim>\<open>gorace/analysisTools.go\<close>, with its fields grouped by concern. A
  goroutine is its number (0 is main), nil pointers are \<^const>\<open>None\<close>, and a Go map is a function or
  a partial function where it is only looked up, an association list where the code ranges over it.
  \<^verbatim>\<open>*fnCallInfo\<close> values are compared as pointers and never modified, so they carry the number of
  their allocation; the pointers in a lock set are shared and modified, so the lock sets live on a
  heap of arrays and lock records.
\<close>

record fnCallInfo =
  fc_id :: nat
  fnIns :: "ref option"
  ssaIns :: "ref option"

record insInfo =
  ins :: ref
  ins_stack :: "fnCallInfo list"

record lockInfo =
  locAddr :: ref
  locFreeze :: bool
  locBloc :: "blk option"
  lock_parentFn :: "ref option"

record raceInfo =
  race_ins :: "insInfo \<times> insInfo"
  addrPair :: "ref \<times> ref"
  race_goIDs :: "nat \<times> nat"
  insInd :: "nat \<times> nat"

record fnInfo =
  fi_fn :: ref
  contextStr :: string

record goCallInfo =
  gc_ssaIns :: ref
  gc_goIns :: ref

record goroutineInfo =
  go_ssaIns :: ref
  goIns_ref :: ref
  entryMethod :: ref
  go_goID :: nat

record trie =
  trie_name :: string
  budget :: int
  fnContext :: "ref option list"

section \<open>Slices that share a backing array\<close>

text \<open>
  A slice of the lock sets starts at the front of its array; its capacity is the length of the array
  and the elements past its length are whatever the array holds. A nil slice has no capacity.
\<close>

record slice =
  arr :: nat
  len :: nat

record lock_state =
  lock_heap :: "nat \<Rightarrow> lockInfo"
  lock_next :: nat
  arrays :: "nat \<Rightarrow> nat list"
  arr_next :: nat
  lockSet :: "nat \<Rightarrow> slice option"
  RlockSet :: "nat \<Rightarrow> slice option"
  lockMap :: "ref \<Rightarrow> ref option list"
  RlockMap :: "ref \<Rightarrow> ref option list"

record chan_state =
  chanToken :: "string \<rightharpoonup> string"
  chanBuf :: "string \<rightharpoonup> int"
  chanRcvs :: "(string \<times> ref list) list"
  chanSnds :: "(string \<times> ref list) list"
  chanName :: string

record sel_state =
  selectBloc :: "int \<rightharpoonup> ref"
  selReady :: "(ref \<times> string list) list"
  selUnknown :: "(ref \<times> string list) list"
  selectCaseBegin :: "ref \<rightharpoonup> string"
  selectCaseEnd :: "ref \<rightharpoonup> string"
  selectCaseBody :: "ref \<rightharpoonup> ref option"
  selectDone :: "ref \<rightharpoonup> ref option"

record if_state =
  ifSuccBegin :: "(ref \<times> ref) list"
  ifFnReturn :: "ref \<rightharpoonup> ref"
  ifSuccEnd :: "ref \<rightharpoonup> ref option"
  commIfSucc :: "ref list"
  omitComm :: "blk list"

record loop_state =
  inLoop :: bool
  loopIDs :: "nat \<Rightarrow> int"
  allocLoop :: "ref \<Rightarrow> string list"
  bindingFV :: "ref \<Rightarrow> ref list"
  twinGoID :: "(ref \<times> (nat \<times> nat)) list"

record go_state =
  goStack :: "fnCallInfo list list"
  goCaller :: "nat \<Rightarrow> nat"
  goCalls :: "nat \<rightharpoonup> goCallInfo"
  workList :: "goroutineInfo list"

text \<open>
  The package variables that configure a run, and the results of the pointer analysis as the
  detector reads them: \<^verbatim>\<open>pts\<close> is the set of labels of \<^verbatim>\<open>PointsToByGoWithLoopID(v, go, loopID)\<close>,
  \<^verbatim>\<open>pts0\<close> that of the query of a value in the default analysis. A label has a value and a printed
  form; \<^verbatim>\<open>dyn_method\<close> is the look-up of a method in the first dynamic type of a pointer,
  \<^verbatim>\<open>free_var_func\<close> and \<^verbatim>\<open>invoke_funcs\<close> are \<^verbatim>\<open>GetFreeVarFunc\<close> and \<^verbatim>\<open>GetInvokeFuncs\<close>.
\<close>

record config =
  useNewPTA :: bool
  useDefaultPTA :: bool
  goTest :: bool
  channelComm :: bool
  cfg_trieLimit :: int
  excludedPkgs :: "string list"
  excludedFns :: "string list"
  efficiency :: bool
  scope :: "string list"
  entryFn :: string
  main_path :: string
  main_name :: string
  otherTests :: "ref list"
  spare_cap :: "nat \<Rightarrow> nat"

datatype method_lookup = NoDynamicType | AbstractMethod | Method ref

record pta_result =
  pts :: "ref option \<Rightarrow> ref option \<Rightarrow> int \<Rightarrow> nat list"
  pts0 :: "ref option \<Rightarrow> nat list"
  label_value :: "nat \<Rightarrow> ref"
  label_string :: "nat \<Rightarrow> string"
  dyn_method :: "ref \<Rightarrow> ref option \<Rightarrow> int \<Rightarrow> string \<Rightarrow> method_lookup"
  dyn_method0 :: "ref \<Rightarrow> string \<Rightarrow> method_lookup"
  free_var_func :: "ref option \<Rightarrow> ref \<Rightarrow> ref option \<Rightarrow> ref option"
  invoke_funcs :: "ref \<Rightarrow> ref \<Rightarrow> ref option \<Rightarrow> int \<Rightarrow> ref list"

record analysis =
  prog :: ssa_program
  cfg :: config
  pta :: pta_result
  RWIns :: "insInfo list list"
  insMono :: int
  storeFns :: "fnCallInfo list"
  levels :: "nat \<rightharpoonup> int"
  getParam :: bool
  paramFunc :: "ref option"
  deferToRet :: "ref \<rightharpoonup> ref"
  trieMap :: "fnInfo \<rightharpoonup> trie"
  next_call :: nat
  queries :: "ref list"
  indirectQueries :: "ref list"
  locks :: lock_state
  chans :: chan_state
  sels :: sel_state
  ifs :: if_state
  loops :: loop_state
  gos :: go_state

abbreviation the_obj :: "analysis \<Rightarrow> ref \<Rightarrow> object" where
  "the_obj a r \<equiv> obj (prog a) r"

definition obj_opt :: "analysis \<Rightarrow> ref option \<Rightarrow> object option" where
  "obj_opt a v = map_option (obj (prog a)) v"

text \<open>Look-up in an association list that stands for a Go map: a missing key reads as nil.\<close>

fun lookup_list :: "('k \<times> 'v list) list \<Rightarrow> 'k \<Rightarrow> 'v list" where
  "lookup_list [] k = []"
| "lookup_list ((k', v) # m) k = (if k' = k then v else lookup_list m k)"

fun update_list :: "('k \<times> 'v) list \<Rightarrow> 'k \<Rightarrow> 'v \<Rightarrow> ('k \<times> 'v) list" where
  "update_list [] k v = [(k, v)]"
| "update_list ((k', v') # m) k v = (if k' = k then (k, v) # m else (k', v') # update_list m k v)"

lemma lookup_update_list: "lookup_list (update_list m k v) k' = (if k' = k then v else lookup_list m k')"
  by (induction m) auto

lemma keys_update_list: "set (map fst (update_list m k v)) = insert k (set (map fst m))"
proof (induction m)
  case (Cons e m)
  then show ?case by (cases e) (simp add: insert_commute)
qed simp

lemma distinct_update_list: "distinct (map fst m) \<Longrightarrow> distinct (map fst (update_list m k v))"
proof (induction m)
  case (Cons e m)
  obtain k' v' where e: "e = (k', v')" by (rule prod.exhaust)
  show ?case
    using Cons keys_update_list [of m k v] unfolding e by (cases "k' = k") simp_all
qed simp

end
