(* ===== verification/Gorace_Slices.thy ===== *)
theory Gorace_Slices
  imports Gorace_State
begin

text \<open>
  The helpers of \<^verbatim>\<open>gorace/sliceTools.go\<close>: searches in slices of SSA objects, the call stack that
  a trace of instructions leaves open, and the tests that suppress a race that was reported before.
\<close>

section \<open>Open calls\<close>

definition call_stack_step :: "ssa_program \<Rightarrow> ref option list \<Rightarrow> insInfo \<Rightarrow> ref option list" where
  "call_stack_step p callStack anIns =
     (case obj p (ins anIns) of
        Call c \<Rightarrow> callStack @ [StaticCallee p c]
      | Return \<Rightarrow> if callStack \<noteq> [] then butlast callStack else callStack
      | _ \<Rightarrow> callStack)"

definition csStr_of :: "ssa_program \<Rightarrow> ref option list \<Rightarrow> string" where
  "csStr_of p callStack =
     fold (\<lambda>fn csStr. case fn of None \<Rightarrow> csStr | Some f \<Rightarrow> csStr @ fn_name (fun_of p f)) callStack []"

definition insToCallStack :: "ssa_program \<Rightarrow> insInfo list \<Rightarrow> ref option list \<times> string" where
  "insToCallStack p allIns =
     (let callStack = fold (\<lambda>i cs. call_stack_step p cs i) allIns [] in (callStack, csStr_of p callStack))"

section \<open>Races reported before\<close>

fun strictSliceContains :: "raceInfo list \<Rightarrow> ref \<times> ref \<Rightarrow> bool" where
  "strictSliceContains [] curAddrs = False"
| "strictSliceContains (race # races) curAddrs =
     (let exist = addrPair race
      in if fst exist = fst curAddrs \<and> snd exist = snd curAddrs then True
         else if fst exist = snd curAddrs \<and> snd exist = fst curAddrs then True
         else strictSliceContains races curAddrs)"

text \<open>\<^verbatim>\<open>getMyGoTwin\<close> of \<^verbatim>\<open>raceCollection.go\<close>: the other goroutine of the same loop, or -1.\<close>

fun getMyGoTwin :: "(ref \<times> (nat \<times> nat)) list \<Rightarrow> nat \<Rightarrow> ref option \<times> int" where
  "getMyGoTwin [] goID = (None, -1)"
| "getMyGoTwin ((g, twins) # rest) goID =
     (if fst twins = goID then (Some g, int (snd twins))
      else if snd twins = goID then (Some g, int (fst twins))
      else getMyGoTwin rest goID)"

definition same_goroutines :: "int \<Rightarrow> int \<Rightarrow> int \<Rightarrow> int \<Rightarrow> int \<times> int \<Rightarrow> bool" where
  "same_goroutines goID1 goID2 goID1twin goID2twin existIDs \<longleftrightarrow>
     (fst existIDs = goID1 \<and> snd existIDs = goID2) \<or>
     (fst existIDs = goID1twin \<and> snd existIDs = goID2) \<or>
     (fst existIDs = goID1 \<and> snd existIDs = goID2twin) \<or>
     (fst existIDs = goID1twin \<and> snd existIDs = goID2twin)"

fun sliceContains_loop :: "raceInfo list \<Rightarrow> ref \<times> ref \<Rightarrow> int \<Rightarrow> int \<Rightarrow> int \<Rightarrow> int \<Rightarrow> bool" where
  "sliceContains_loop [] curAddrs goID1 goID2 goID1twin goID2twin = False"
| "sliceContains_loop (race # races) curAddrs goID1 goID2 goID1twin goID2twin =
     (let exist = addrPair race;
          existIDs = (int (fst (race_goIDs race)), int (snd (race_goIDs race)))
      in if fst exist = fst curAddrs \<and> snd exist = snd curAddrs \<and>
            same_goroutines goID1 goID2 goID1twin goID2twin existIDs then True
         else if fst exist = snd curAddrs \<and> snd exist = fst curAddrs \<and>
            same_goroutines goID1 goID2 goID1twin goID2twin (snd existIDs, fst existIDs) then True
         else sliceContains_loop races curAddrs goID1 goID2 goID1twin goID2twin)"

definition sliceContains :: "analysis \<Rightarrow> raceInfo list \<Rightarrow> ref \<times> ref \<Rightarrow> nat \<Rightarrow> nat \<Rightarrow> bool" where
  "sliceContains a races curAddrs goID1 goID2 =
     sliceContains_loop races curAddrs (int goID1) (int goID2)
       (snd (getMyGoTwin (twinGoID (loops a)) goID1)) (snd (getMyGoTwin (twinGoID (loops a)) goID2))"

section \<open>Call stacks\<close>

fun stackContainsDefer :: "ssa_program \<Rightarrow> fnCallInfo list \<Rightarrow> bool" where
  "stackContainsDefer p [] = False"
| "stackContainsDefer p (e # stack) =
     ((case ssaIns e of Some i \<Rightarrow> (case obj p i of Defer _ \<Rightarrow> True | _ \<Rightarrow> False) | None \<Rightarrow> False) \<or>
      stackContainsDefer p stack)"

text \<open>The loop \<^verbatim>\<open>for i := divFnAt; i < len(stack); i++\<close> over the rest of the stack.\<close>

fun noGoAfterFn_loop :: "ssa_program \<Rightarrow> nat \<Rightarrow> fnCallInfo list \<Rightarrow> bool" where
  "noGoAfterFn_loop p i [] = True"
| "noGoAfterFn_loop p i (e # stack) =
     (if i \<noteq> 0 \<and> (case ssaIns e of Some s \<Rightarrow> (case obj p s of Go _ \<Rightarrow> True | _ \<Rightarrow> False) | None \<Rightarrow> False)
      then False else noGoAfterFn_loop p (Suc i) stack)"

definition noGoAfterFn :: "ssa_program \<Rightarrow> fnCallInfo list \<Rightarrow> nat \<Rightarrow> bool" where
  "noGoAfterFn p stack divFnAt = noGoAfterFn_loop p divFnAt (drop divFnAt stack)"

text \<open>
  \<^verbatim>\<open>a.fnIns.Pos()\<close> of a nil function and \<^verbatim>\<open>a.ssaIns.Pos()\<close> of a nil instruction panic; the
  second is not evaluated when the functions are at different positions.
\<close>

fun sliceContainsFnCall :: "ssa_program \<Rightarrow> fnCallInfo list \<Rightarrow> ref \<Rightarrow> ref \<Rightarrow> bool go_result" where
  "sliceContainsFnCall p [] eFn eIns = Inr False"
| "sliceContainsFnCall p (x # s) eFn eIns =
     (case fnIns x of
        None \<Rightarrow> Inl NilDereference
      | Some f \<Rightarrow>
          (if val_pos p f = val_pos p eFn
           then (case ssaIns x of
                   None \<Rightarrow> Inl NilDereference
                 | Some i \<Rightarrow> if val_pos p i = val_pos p eIns then Inr True else sliceContainsFnCall p s eFn eIns)
           else sliceContainsFnCall p s eFn eIns))"

definition sliceContainsFnCtr :: "ssa_program \<Rightarrow> ref option list \<Rightarrow> ref option \<Rightarrow> int" where
  "sliceContainsFnCtr p s e =
     (case e of
        None \<Rightarrow> 0
      | Some f \<Rightarrow>
          fold (\<lambda>x ctr. case x of None \<Rightarrow> ctr | Some g \<Rightarrow> if val_pos p g = val_pos p f then ctr + 1 else ctr) s 0)"

section \<open>Membership and positions\<close>

fun sliceContainsRcv :: "ref list \<Rightarrow> ref \<Rightarrow> bool" where
  "sliceContainsRcv [] e = False"
| "sliceContainsRcv (x # s) e = (if x = e then True else sliceContainsRcv s e)"

fun sliceContainsSnd :: "ref list \<Rightarrow> ref \<Rightarrow> bool" where
  "sliceContainsSnd [] e = False"
| "sliceContainsSnd (x # s) e = (if x = e then True else sliceContainsSnd s e)"

fun sliceContainsBloc :: "blk list \<Rightarrow> blk option \<Rightarrow> bool" where
  "sliceContainsBloc [] e = False"
| "sliceContainsBloc (x # s) e = (if Some x = e then True else sliceContainsBloc s e)"

fun sliceContainsStr :: "string list \<Rightarrow> string \<Rightarrow> bool" where
  "sliceContainsStr [] e = False"
| "sliceContainsStr (x # s) e = (if x = e then True else sliceContainsStr s e)"

fun sliceContainsFreeVar :: "ref list \<Rightarrow> ref \<Rightarrow> bool" where
  "sliceContainsFreeVar [] e = False"
| "sliceContainsFreeVar (x # s) e = (if x = e then True else sliceContainsFreeVar s e)"

definition sliceContainsStrCtr :: "string list \<Rightarrow> string \<Rightarrow> int" where
  "sliceContainsStrCtr s e = fold (\<lambda>x counter. if x = e then counter + 1 else counter) s 0"

fun index_loop :: "int \<Rightarrow> 'a list \<Rightarrow> 'a \<Rightarrow> int" where
  "index_loop i [] e = -1"
| "index_loop i (x # s) e = (if x = e then i else index_loop (i + 1) s e)"

definition sliceContainsBlocAt :: "blk list \<Rightarrow> blk \<Rightarrow> int" where
  "sliceContainsBlocAt s e = index_loop 0 s e"

definition sliceContainsInsAt :: "ref list \<Rightarrow> ref \<Rightarrow> int" where
  "sliceContainsInsAt s e = index_loop 0 s e"

text \<open>A record whose stack does not end in the call itself is a parameter read, not the call.\<close>

fun ins_info_loop :: "int \<Rightarrow> insInfo list \<Rightarrow> ref \<Rightarrow> int" where
  "ins_info_loop i [] e = -1"
| "ins_info_loop i (r # s) e =
     (if ins r = e
      then if ins_stack r = [] then ins_info_loop (i + 1) s e
           else if ssaIns (last (ins_stack r)) \<noteq> Some e then ins_info_loop (i + 1) s e
           else i
      else ins_info_loop (i + 1) s e)"

definition sliceContainsInsInfoAt :: "insInfo list \<Rightarrow> ref \<Rightarrow> int" where
  "sliceContainsInsInfoAt s e = ins_info_loop 0 s e"

definition lockSetVal :: "ssa_program \<Rightarrow> lockInfo list \<Rightarrow> token_pos list" where
  "lockSetVal p s = fold (\<lambda>ls res. res @ [val_pos p (locAddr ls)]) s []"

section \<open>What the searches compute\<close>

named_theorems slice_simps

lemma sliceContainsRcv_iff [slice_simps]: "sliceContainsRcv s e \<longleftrightarrow> e \<in> set s"
  by (induction s) auto

lemma sliceContainsSnd_iff [slice_simps]: "sliceContainsSnd s e \<longleftrightarrow> e \<in> set s"
  by (induction s) auto

lemma sliceContainsBloc_iff [slice_simps]: "sliceContainsBloc s e \<longleftrightarrow> (\<exists>b \<in> set s. e = Some b)"
  by (induction s) auto

lemma sliceContainsStr_iff [slice_simps]: "sliceContainsStr s e \<longleftrightarrow> e \<in> set s"
  by (induction s) auto

lemma sliceContainsFreeVar_iff [slice_simps]: "sliceContainsFreeVar s e \<longleftrightarrow> e \<in> set s"
  by (induction s) auto

lemma sliceContainsStrCtr_count: "sliceContainsStrCtr s e = int (length (filter (\<lambda>x. x = e) s))"
proof -
  have "fold (\<lambda>x counter. if x = e then counter + 1 else counter) s n = n + int (length (filter (\<lambda>x. x = e) s))" for n
    by (induction s arbitrary: n) auto
  then show ?thesis by (simp add: sliceContainsStrCtr_def)
qed

lemma index_loop_spec:
  "(index_loop (int i) s e = -1 \<and> e \<notin> set s) \<or>
   (\<exists>k < length s. index_loop (int i) s e = int (i + k) \<and> s ! k = e \<and> e \<notin> set (take k s))"
proof (induction s arbitrary: i)
  case (Cons x s)
  show ?case
  proof (cases "x = e")
    case True
    then show ?thesis by (auto intro: exI [of _ 0])
  next
    case False
    have step: "index_loop (int i) (x # s) e = index_loop (int (Suc i)) s e" using False by (simp add: add.commute)
    from Cons.IH [of "Suc i"] show ?thesis
    proof
      assume "\<exists>k < length s. index_loop (int (Suc i)) s e = int (Suc i + k) \<and> s ! k = e \<and> e \<notin> set (take k s)"
      then obtain k where "k < length s" "index_loop (int (Suc i)) s e = int (Suc i + k)" "s ! k = e"
        "e \<notin> set (take k s)" by blast
      then show ?thesis using False step by (intro disjI2 exI [of _ "Suc k"]) simp
    qed (use False step in simp)
  qed
qed simp

lemma strictSliceContains_iff:
  "strictSliceContains races (x, y) \<longleftrightarrow> (\<exists>r \<in> set races. addrPair r = (x, y) \<or> addrPair r = (y, x))"
  by (induction races) (auto simp: Let_def prod_eq_iff)

lemma stackContainsDefer_iff:
  "stackContainsDefer p stack \<longleftrightarrow> (\<exists>e \<in> set stack. \<exists>i c. ssaIns e = Some i \<and> obj p i = Defer c)"
  by (induction stack) (auto split: option.splits object.splits)

lemma noGoAfterFn_loop_iff:
  "noGoAfterFn_loop p i stack \<longleftrightarrow>
     (\<forall>k < length stack. i + k \<noteq> 0 \<longrightarrow> (\<forall>s c. ssaIns (stack ! k) = Some s \<longrightarrow> obj p s \<noteq> Go c))"
proof (induction stack arbitrary: i)
  case (Cons e stack)
  have all: "(\<forall>k < length (e # stack). Q k) \<longleftrightarrow> Q 0 \<and> (\<forall>k < length stack. Q (Suc k))" for Q
    by (auto simp: less_Suc_eq_0_disj)
  show ?case unfolding all using Cons.IH [of "Suc i"]
    by (auto split: option.splits object.splits)
qed simp

lemma noGoAfterFn_iff:
  "noGoAfterFn p stack at \<longleftrightarrow>
     (\<forall>k. at \<le> k \<and> k < length stack \<and> k \<noteq> 0 \<longrightarrow> (\<forall>s c. ssaIns (stack ! k) = Some s \<longrightarrow> obj p s \<noteq> Go c))"
  (is "_ \<longleftrightarrow> (\<forall>k. _ \<longrightarrow> ?Q (stack ! k))")
proof
  assume l: "noGoAfterFn p stack at"
  show "\<forall>k. at \<le> k \<and> k < length stack \<and> k \<noteq> 0 \<longrightarrow> ?Q (stack ! k)"
  proof (intro allI impI, elim conjE)
    fix k s c assume k: "at \<le> k" "k < length stack" "k \<noteq> 0" "ssaIns (stack ! k) = Some s"
    then have "k - at < length (drop at stack)" "at + (k - at) \<noteq> 0" "drop at stack ! (k - at) = stack ! k" by auto
    then show "obj p s \<noteq> Go c" using l k(4) unfolding noGoAfterFn_def noGoAfterFn_loop_iff by metis
  qed
next
  assume r: "\<forall>k. at \<le> k \<and> k < length stack \<and> k \<noteq> 0 \<longrightarrow> ?Q (stack ! k)"
  show "noGoAfterFn p stack at" unfolding noGoAfterFn_def noGoAfterFn_loop_iff
  proof (intro allI impI)
    fix k s c assume k: "k < length (drop at stack)" "at + k \<noteq> 0" "ssaIns (drop at stack ! k) = Some s"
    then have "ssaIns (stack ! (at + k)) = Some s" "at + k < length stack" by auto
    then show "obj p s \<noteq> Go c" using r [rule_format, of "at + k" s c] k(2) by simp
  qed
qed

lemma getMyGoTwin_sound:
  assumes "getMyGoTwin m goID = (Some g, t)"
  shows "\<exists>x y. (g, (x, y)) \<in> set m \<and> (goID = x \<and> t = int y \<or> goID = y \<and> t = int x)"
  using assms
proof (induction m)
  case (Cons e m)
  obtain g' x y where e: "e = (g', x, y)" by (metis prod_cases3)
  show ?case
  proof (cases "x = goID \<or> y = goID")
    case True
    then show ?thesis using Cons.prems e by (intro exI [of _ x] exI [of _ y]) (auto split: if_splits)
  next
    case False
    then have "getMyGoTwin m goID = (Some g, t)" using Cons.prems e by simp
    then show ?thesis using Cons.IH by auto
  qed
qed simp

text \<open>The open calls of a trace are those not closed by a later return.\<close>

lemma insToCallStack_append:
  "fst (insToCallStack p (xs @ [i])) = call_stack_step p (fst (insToCallStack p xs)) i"
  by (simp add: insToCallStack_def Let_def)

end
