(* ===== verification/Gorace_Access.thy ===== *)
theory Gorace_Access
  imports Gorace_Slices
begin

text \<open>
  Classification and comparison of memory accesses: \<^verbatim>\<open>isReadIns\<close> and \<^verbatim>\<open>isWriteIns\<close> of
  \<^verbatim>\<open>gorace/ssaInstructions.go\<close>, the locality tests and \<^verbatim>\<open>getSrcPos\<close> of \<^verbatim>\<open>gorace/util.go\<close>, and from
  \<^verbatim>\<open>gorace/raceCollection.go\<close> the address of an access, the alias test and the filters on locks,
  atomics and select cases.
\<close>

section \<open>Reads, writes and local accesses\<close>

definition isReadIns :: "analysis \<Rightarrow> ref \<Rightarrow> bool" where
  "isReadIns a i =
     (case the_obj a i of
        UnOp _ x \<Rightarrow>
          (case the_obj a x of
             Alloc comment _ \<Rightarrow> comment \<notin> set (map fst (chanRcvs (chans a)))
           | _ \<Rightarrow> True)
      | Lookup _ \<Rightarrow> True
      | FieldAddr x \<Rightarrow> (case the_obj a x of Alloc _ _ \<Rightarrow> False | FreeVar \<Rightarrow> False | _ \<Rightarrow> True)
      | Call c \<Rightarrow>
          call_args c \<noteq> [] \<and> val_name (prog a) (call_value c) \<noteq> ''Done'' \<and>
          val_name (prog a) (call_value c) \<noteq> ''Wait'' \<and>
          list_ex (\<lambda>arg. case the_obj a arg of UnOp _ _ \<Rightarrow> True | _ \<Rightarrow> False) (call_args c)
      | _ \<Rightarrow> False)"

definition isWriteIns :: "ssa_program \<Rightarrow> ref \<Rightarrow> bool go_result" where
  "isWriteIns p i =
     (case obj p i of
        Store _ _ \<Rightarrow> Inr True
      | Call c \<Rightarrow>
          (if val_name p (call_value c) = ''delete'' then Inr True
           else if prefix_of ''Add'' (val_name p (call_value c))
           then bindR (callee_pkg_name p c) (\<lambda>q. Inr (q = ''atomic''))
           else Inr False)
      | MapUpdate _ \<Rightarrow> Inr True
      | ChangeType _ \<Rightarrow> Inr True
      | _ \<Rightarrow> Inr False)"

definition isLocal :: "ssa_program \<Rightarrow> ref \<Rightarrow> bool" where
  "isLocal p i =
     (let local = (\<lambda>addr. case obj p addr of
                      FieldAddr x \<Rightarrow> (case obj p x of Alloc _ _ \<Rightarrow> True | _ \<Rightarrow> False)
                    | _ \<Rightarrow> False)
      in case obj p i of UnOp _ x \<Rightarrow> local x | Store addr _ \<Rightarrow> local addr | _ \<Rightarrow> False)"

text \<open>
  The recursive calls of \<^verbatim>\<open>isLocalAddr\<close> on the base of a field, an element or a load have no
  effect and their results are discarded, so these cases answer false.
\<close>

definition isLocalAddr :: "ssa_program \<Rightarrow> ref \<Rightarrow> bool" where
  "isLocalAddr p location =
     (if val_pos p location = NoPos then True
      else case obj p location of
             Parameter isPointer _ _ \<Rightarrow> \<not> isPointer
           | FieldAddr _ \<Rightarrow> False
           | IndexAddr _ \<Rightarrow> False
           | UnOp _ _ \<Rightarrow> False
           | Alloc _ heap \<Rightarrow> \<not> heap
           | _ \<Rightarrow> False)"

definition getSrcPos :: "ssa_program \<Rightarrow> ref option \<Rightarrow> token_pos" where
  "getSrcPos p address =
     (case address of
        None \<Rightarrow> NoPos
      | Some v \<Rightarrow>
          (case obj p v of
             Parameter _ _ _ \<Rightarrow> val_pos p v
           | FieldAddr _ \<Rightarrow> val_pos p v
           | Alloc _ _ \<Rightarrow> val_pos p v
           | FreeVar \<Rightarrow> val_pos p v
           | _ \<Rightarrow> NoPos))"

section \<open>The address of an access\<close>

definition read_args :: "ssa_program \<Rightarrow> ref list \<Rightarrow> ref option" where
  "read_args p args = fold (\<lambda>arg addr. case obj p arg of FieldAddr x \<Rightarrow> Some x | _ \<Rightarrow> addr) args None"

text \<open>One round of the loop of \<^verbatim>\<open>insAddress\<close>; \<^const>\<open>None\<close> is the zero value nil.\<close>

definition ins_address :: "ssa_program \<Rightarrow> ref \<Rightarrow> ref option go_result" where
  "ins_address p i =
     (case obj p i of
        Store addr _ \<Rightarrow> Inr (Some addr)
      | Call c \<Rightarrow>
          (case call_args c of
             [] \<Rightarrow> Inr None
           | arg # _ \<Rightarrow>
               (case obj p arg of
                  UnOp _ x \<Rightarrow>
                    Inr (if val_name p (call_value c) = ''delete'' then Some x else read_args p (call_args c))
                | FieldAddr x \<Rightarrow>
                    (if prefix_of ''Add'' (val_name p (call_value c))
                     then bindR (callee_pkg_name p c) (\<lambda>q.
                            Inr (if q = ''atomic'' then Some x else read_args p (call_args c)))
                     else Inr (read_args p (call_args c)))
                | _ \<Rightarrow> Inr (read_args p (call_args c))))
      | UnOp _ x \<Rightarrow> Inr (Some x)
      | Lookup x \<Rightarrow> Inr (Some x)
      | FieldAddr x \<Rightarrow> Inr (Some x)
      | MapUpdate m \<Rightarrow> Inr (case obj p m of UnOp _ x \<Rightarrow> Some x | _ \<Rightarrow> None)
      | _ \<Rightarrow> Inr None)"

definition insAddress :: "ssa_program \<Rightarrow> insInfo \<times> insInfo \<Rightarrow> (ref option \<times> ref option) go_result" where
  "insAddress p insSlice =
     bindR (ins_address p (ins (fst insSlice))) (\<lambda>x.
     bindR (ins_address p (ins (snd insSlice))) (\<lambda>y. Inr (x, y)))"

section \<open>May two addresses be the same?\<close>

text \<open>\<^verbatim>\<open>a.RWIns[g][0].ins.(*ssa.Go)\<close>, nil for the main goroutine.\<close>

definition go_instr :: "analysis \<Rightarrow> nat \<Rightarrow> ref go_result" where
  "go_instr a g =
     (if g < length (RWIns a) \<and> RWIns a ! g \<noteq> []
      then case the_obj a (ins (hd (RWIns a ! g))) of
             Go _ \<Rightarrow> Inr (ins (hd (RWIns a ! g)))
           | _ \<Rightarrow> Inl TypeAssertionFailed
      else Inl IndexOutOfRange)"

definition go_instr_opt :: "analysis \<Rightarrow> nat \<Rightarrow> ref option go_result" where
  "go_instr_opt a g = (if g = 0 then Inr None else bindR (go_instr a g) (\<lambda>i. Inr (Some i)))"

definition Intersects_labels :: "nat list \<Rightarrow> nat list \<Rightarrow> bool" where
  "Intersects_labels xs ys \<longleftrightarrow> list_ex (\<lambda>x. x \<in> set ys) xs"

definition may_alias :: "analysis \<Rightarrow> ref option \<Rightarrow> ref option \<Rightarrow> nat \<Rightarrow> nat \<Rightarrow> bool go_result" where
  "may_alias a addr1 addr2 go1 go2 =
     (if useDefaultPTA (cfg a) then Inr (Intersects_labels (pts0 (pta a) addr1) (pts0 (pta a) addr2))
      else bindR (go_instr_opt a go1) (\<lambda>goInstr1.
           bindR (go_instr_opt a go2) (\<lambda>goInstr2.
             Inr (Intersects_labels (pts (pta a) addr1 goInstr1 (loopIDs (loops a) go1))
                                    (pts (pta a) addr2 goInstr2 (loopIDs (loops a) go2))))))"

definition sameAddress :: "analysis \<Rightarrow> ref option \<Rightarrow> ref option \<Rightarrow> nat \<Rightarrow> nat \<Rightarrow> bool go_result" where
  "sameAddress a addr1 addr2 go1 go2 =
     (case (obj_opt a addr1, obj_opt a addr2) of
        (Some Global, Some Global) \<Rightarrow>
          (if val_pos (prog a) (the addr1) = val_pos (prog a) (the addr2) then Inr True
           else may_alias a addr1 addr2 go1 go2)
      | (Some FreeVar, Some FreeVar) \<Rightarrow>
          (if val_pos (prog a) (the addr1) = val_pos (prog a) (the addr2)
           then if go1 \<noteq> 0
                then bindR (go_instr a go1) (\<lambda>g.
                       Inr (\<not> sliceContainsFreeVar (bindingFV (loops a) g) (the addr1)))
                else Inr False
           else may_alias a addr1 addr2 go1 go2)
      | _ \<Rightarrow> may_alias a addr1 addr2 go1 go2)"

section \<open>Filters on a pair of accesses\<close>

definition locks_of :: "analysis \<Rightarrow> ref \<Rightarrow> ref option list" where
  "locks_of a i =
     lockMap (locks a) i @ (if isReadIns a i then RlockMap (locks a) i else [])"

fun lock_inner :: "analysis \<Rightarrow> ref option \<Rightarrow> ref option list \<Rightarrow> nat \<Rightarrow> nat \<Rightarrow> bool go_result" where
  "lock_inner a addrA [] goA goB = Inr False"
| "lock_inner a addrA (addrB # locksB) goA goB =
     bindR (sameAddress a addrA addrB goA goB) (\<lambda>same.
       if same then Inr True
       else if getSrcPos (prog a) addrA = getSrcPos (prog a) addrB then Inr True
       else lock_inner a addrA locksB goA goB)"

fun lock_outer :: "analysis \<Rightarrow> ref option list \<Rightarrow> ref option list \<Rightarrow> nat \<Rightarrow> nat \<Rightarrow> bool go_result" where
  "lock_outer a [] locksB goA goB = Inr False"
| "lock_outer a (addrA # locksA) locksB goA goB =
     bindR (lock_inner a addrA locksB goA goB) (\<lambda>found.
       if found then Inr True else lock_outer a locksA locksB goA goB)"

definition lockSetsIntersect :: "analysis \<Rightarrow> ref \<Rightarrow> ref \<Rightarrow> nat \<Rightarrow> nat \<Rightarrow> bool go_result" where
  "lockSetsIntersect a insA insB goA goB = lock_outer a (locks_of a insA) (locks_of a insB) goA goB"

definition static_call :: "ssa_program \<Rightarrow> ref \<Rightarrow> call_common option" where
  "static_call p i = (case obj p i of Call c \<Rightarrow> if StaticCallee p c \<noteq> None then Some c else None | _ \<Rightarrow> None)"

definition bothAtomic :: "ssa_program \<Rightarrow> ref \<Rightarrow> ref \<Rightarrow> bool go_result" where
  "bothAtomic p insA insB =
     (case (static_call p insA, static_call p insB) of
        (Some ca, Some cb) \<Rightarrow>
          bindR (callee_pkg_name p ca) (\<lambda>qa.
            if qa = ''atomic'' then bindR (callee_pkg_name p cb) (\<lambda>qb. Inr (qb = ''atomic''))
            else Inr False)
      | _ \<Rightarrow> Inr False)"

definition selectMutEx :: "analysis \<Rightarrow> ref \<Rightarrow> ref \<Rightarrow> bool" where
  "selectMutEx a insA insB =
     (case (selectCaseBody (sels a) insA, selectCaseBody (sels a) insB) of
        (Some selA, Some selB) \<Rightarrow> selA = selB
      | _ \<Rightarrow> False)"

definition fromLibrary :: "ssa_program \<Rightarrow> ref \<times> ref \<Rightarrow> bool" where
  "fromLibrary p addrs =
     list_ex (\<lambda>v. case val_parent p v of Some f \<Rightarrow> \<not> fn_from_app (fun_of p f) | None \<Rightarrow> False)
       [fst addrs, snd addrs]"

section \<open>Facts\<close>

lemma Intersects_labels_iff: "Intersects_labels xs ys \<longleftrightarrow> set xs \<inter> set ys \<noteq> {}"
  by (auto simp: Intersects_labels_def list_ex_iff)

lemma Intersects_labels_commute: "Intersects_labels xs ys = Intersects_labels ys xs"
  by (auto simp: Intersects_labels_iff)

text \<open>A conflict is reported by the lock filter exactly when some pair of recorded locks matches.\<close>

lemma lock_inner_Inr:
  assumes "lock_inner a x ys g h = Inr r"
  shows "r \<longleftrightarrow> (\<exists>y \<in> set ys. sameAddress a x y g h = Inr True \<or>
    (getSrcPos (prog a) x = getSrcPos (prog a) y))"
  using assms
  by (induction ys) (auto simp: bindR_eq_Inr_iff split: if_splits)

lemma lock_outer_Inr:
  assumes "lock_outer a xs ys g h = Inr r"
  shows "r \<longleftrightarrow> (\<exists>x \<in> set xs. \<exists>y \<in> set ys. sameAddress a x y g h = Inr True \<or>
    getSrcPos (prog a) x = getSrcPos (prog a) y)"
  using assms
proof (induction xs)
  case (Cons x xs)
  obtain f where f: "lock_inner a x ys g h = Inr f" using Cons.prems by (auto simp: bindR_eq_Inr_iff)
  show ?case using Cons lock_inner_Inr [OF f] f by (auto split: if_splits)
qed simp

end
