(* ===== verification/Gorace_Order.thy ===== *)
theory Gorace_Order
  imports Gorace_Access
begin

text \<open>
  The structural filters of \<^verbatim>\<open>gorace/raceCollection.go\<close>: \<^verbatim>\<open>canRunInParallel\<close> compares the
  spawning stacks of two goroutines, \<^verbatim>\<open>mutuallyExcluded\<close> the call stacks of two accesses, and both
  look at the blocks of the two calls where the stacks diverge. A nil block or function is
  \<^const>\<open>None\<close>; indexing past a slice and using a nil pointer are the panics of the code.
\<close>

section \<open>Stacks of a goroutine\<close>

text \<open>
  The loop \<^verbatim>\<open>for ID > 0\<close> up the spawning goroutines; not returning is \<^const>\<open>None\<close>. The code then
  reverses the path in place.
\<close>

partial_function (option) go_path :: "(nat \<Rightarrow> nat) \<Rightarrow> nat \<Rightarrow> nat list \<Rightarrow> nat list option" where
  "go_path caller ID path = (if ID = 0 then Some path else go_path caller (caller ID) (path @ [ID]))"

declare go_path.simps [code]

definition root_path :: "analysis \<Rightarrow> nat \<Rightarrow> nat list go_result" where
  "root_path a ID = (case go_path (goCaller (gos a)) ID [] of None \<Rightarrow> Inl Diverges | Some path \<Rightarrow> Inr (rev path))"

fun concat_stacks :: "(nat \<Rightarrow> fnCallInfo list go_result) \<Rightarrow> nat list \<Rightarrow> fnCallInfo list go_result" where
  "concat_stacks f [] = Inr []"
| "concat_stacks f (g # gs) =
     bindR (f g) (\<lambda>s. bindR (concat_stacks f gs) (\<lambda>rest. Inr (s @ rest)))"

definition spawn_stack :: "analysis \<Rightarrow> nat \<Rightarrow> fnCallInfo list go_result" where
  "spawn_stack a ID =
     bindR (root_path a ID) (concat_stacks (\<lambda>g. nth_go (goStack (gos a)) (int g)))"

text \<open>\<^verbatim>\<open>a.goStack[eachGo][:len(a.goStack[eachGo])-1]\<close>\<close>

definition access_stack :: "analysis \<Rightarrow> nat \<Rightarrow> insInfo \<Rightarrow> fnCallInfo list go_result" where
  "access_stack a ID i =
     bindR (root_path a ID) (\<lambda>path.
     bindR (concat_stacks (\<lambda>g. bindR (nth_go (goStack (gos a)) (int g)) (\<lambda>s.
              if s = [] then Inl IndexOutOfRange else Inr (butlast s))) path) (\<lambda>s.
       Inr (s @ ins_stack i)))"

definition same_call :: "fnCallInfo \<Rightarrow> fnCallInfo \<Rightarrow> bool" where
  "same_call f g \<longleftrightarrow> fc_id f = fc_id g"

section \<open>Goroutines that can run in parallel\<close>

definition call_block :: "analysis \<Rightarrow> fnCallInfo \<Rightarrow> blk option go_result" where
  "call_block a f = (case ssaIns f of None \<Rightarrow> Inl NilDereference | Some i \<Rightarrow> Inr (ins_block (prog a) i))"

record divergence =
  divFn :: "ref option"
  divFnAt :: nat
  b1 :: "blk option"
  b2 :: "blk option"

definition no_divergence :: divergence where
  "no_divergence = \<lparr>divFn = None, divFnAt = 0, b1 = None, b2 = None\<rparr>"

text \<open>The loop over \<^verbatim>\<open>stacks[0]\<close>: \<^const>\<open>None\<close> when the code returns true from inside it.\<close>

fun parallel_loop :: "analysis \<Rightarrow> nat \<Rightarrow> fnCallInfo list \<Rightarrow> fnCallInfo list \<Rightarrow> fnCallInfo list \<Rightarrow>
    divergence option go_result" where
  "parallel_loop a j [] s0 s1 = Inr (Some no_divergence)"
| "parallel_loop a j (fn # rest) s0 s1 =
     (if j = 0
      then if int j = int (length s0) - 1 \<or> int j = int (length s1) - 1 then Inr None
           else parallel_loop a (Suc j) rest s0 s1
      else bindR (nth_go s1 (int j)) (\<lambda>other.
             if same_call fn other
             then if int j = int (length s0) - 1 then Inr None
                  else if int j = int (length s0) - 1 then Inr None
                  else parallel_loop a (Suc j) rest s0 s1
             else bindR (nth_go s0 (int j - 1)) (\<lambda>d.
                  bindR (call_block a fn) (\<lambda>x.
                  bindR (call_block a other) (\<lambda>y.
                    Inr (Some \<lparr>divFn = fnIns d, divFnAt = 0, b1 = x, b2 = y\<rparr>))))))"

definition incomparable :: "analysis \<Rightarrow> blk \<Rightarrow> blk \<Rightarrow> bool" where
  "incomparable a x y \<longleftrightarrow> \<not> Dominates (prog a) x y \<and> \<not> Dominates (prog a) y x"

text \<open>\<^verbatim>\<open>b1.Parent() == divFn.fnIns && b2.Parent() == divFn.fnIns\<close> for non-nil blocks.\<close>

definition both_in :: "analysis \<Rightarrow> divergence \<Rightarrow> (blk \<times> blk) option" where
  "both_in a d =
     (case (b1 d, b2 d) of
        (Some x, Some y) \<Rightarrow>
          if block_parent (bb (prog a) x) = divFn d \<and> block_parent (bb (prog a) y) = divFn d
          then Some (x, y) else None
      | _ \<Rightarrow> None)"

definition canRunInParallel :: "analysis \<Rightarrow> nat \<Rightarrow> nat \<Rightarrow> bool go_result" where
  "canRunInParallel a goID1 goID2 =
     bindR (spawn_stack a goID1) (\<lambda>s0.
     bindR (spawn_stack a goID2) (\<lambda>s1.
     bindR (parallel_loop a 0 s0 s0 s1) (\<lambda>r.
       case r of
         None \<Rightarrow> Inr True
       | Some d \<Rightarrow>
           Inr (case both_in a d of Some (x, y) \<Rightarrow> \<not> incomparable a x y | None \<Rightarrow> True))))"

section \<open>Accesses that exclude each other\<close>

text \<open>
  The block of a call on a stack, or of the \<^verbatim>\<open>rundefers\<close> that runs it when it is deferred
  (\<^verbatim>\<open>a.deferToRet[deferIns]\<close>). At one of the places the code does not test for a missing entry.
\<close>

definition deferred_block :: "bool \<Rightarrow> analysis \<Rightarrow> fnCallInfo \<Rightarrow> blk option go_result" where
  "deferred_block nil_checked a f =
     bindR (call_block a f) (\<lambda>b.
       case ssaIns f of
         None \<Rightarrow> Inl NilDereference
       | Some i \<Rightarrow>
           (case the_obj a i of
              Defer _ \<Rightarrow>
                (case deferToRet a i of
                   Some r \<Rightarrow> Inr (ins_block (prog a) r)
                 | None \<Rightarrow> if nil_checked then Inr b else Inl NilDereference)
            | _ \<Rightarrow> Inr b))"

definition diverged_at ::
    "bool \<Rightarrow> analysis \<Rightarrow> nat \<Rightarrow> fnCallInfo \<Rightarrow> fnCallInfo list \<Rightarrow> fnCallInfo list \<Rightarrow> divergence option go_result" where
  "diverged_at nil_checked a j fn s0 s1 =
     bindR (nth_go s0 (int j - 1)) (\<lambda>d.
     bindR (deferred_block nil_checked a fn) (\<lambda>x.
     bindR (nth_go s1 (int j)) (\<lambda>other.
     bindR (deferred_block True a other) (\<lambda>y.
       Inr (Some \<lparr>divFn = fnIns d, divFnAt = j - 1, b1 = x, b2 = y\<rparr>)))))"

definition at_block :: "analysis \<Rightarrow> fnCallInfo list \<Rightarrow> int \<Rightarrow> blk option go_result" where
  "at_block a s k = bindR (nth_go s k) (deferred_block True a)"

text \<open>The loop of \<^verbatim>\<open>mutuallyExcluded\<close>: \<^const>\<open>None\<close> when the code returns false from inside it.\<close>

fun excluded_loop :: "analysis \<Rightarrow> insInfo \<Rightarrow> insInfo \<Rightarrow> nat \<Rightarrow> fnCallInfo list \<Rightarrow> fnCallInfo list \<Rightarrow> fnCallInfo list \<Rightarrow>
    divergence option go_result" where
  "excluded_loop a goI goJ j [] s0 s1 = Inr (Some no_divergence)"
| "excluded_loop a goI goJ j (fn # rest) s0 s1 =
     (if j = 0 \<and> int j = int (length s0) - 1
      then bindR (at_block a s1 (int j + 1)) (\<lambda>y.
             Inr (Some \<lparr>divFn = fnIns fn, divFnAt = j, b1 = ins_block (prog a) (ins goI), b2 = y\<rparr>))
      else if j = 0 \<and> int j = int (length s1) - 1
      then bindR (at_block a s0 (int j + 1)) (\<lambda>x.
             Inr (Some \<lparr>divFn = fnIns fn, divFnAt = j, b1 = x, b2 = ins_block (prog a) (ins goJ)\<rparr>))
      else bindR (nth_go s1 (int j)) (\<lambda>other.
             if int j = int (length s0) - 1
             then if same_call fn other
                  then if int j = int (length s1) - 1 then Inr None
                       else bindR (at_block a s1 (int j + 1)) (\<lambda>y.
                              Inr (Some \<lparr>divFn = fnIns fn, divFnAt = j, b1 = ins_block (prog a) (ins goI), b2 = y\<rparr>))
                  else diverged_at True a j fn s0 s1
             else if int j = int (length s1) - 1
             then if same_call fn other
                  then bindR (at_block a s0 (int j + 1)) (\<lambda>x.
                         Inr (Some \<lparr>divFn = fnIns fn, divFnAt = j, b1 = x, b2 = ins_block (prog a) (ins goJ)\<rparr>))
                  else diverged_at True a j fn s0 s1
             else if \<not> same_call fn other then diverged_at False a j fn s0 s1
             else excluded_loop a goI goJ (Suc j) rest s0 s1))"

text \<open>
  An access behind an \<^verbatim>\<open>if\<close> branch that returns excludes what the branch dominates, unless a
  deferred call is on its stack: the test on one of the two blocks.
\<close>

definition returning_branch :: "analysis \<Rightarrow> blk option \<Rightarrow> blk option \<Rightarrow> fnCallInfo list \<Rightarrow> bool go_result" where
  "returning_branch a x y stack =
     (case x of
        None \<Rightarrow> Inr False
      | Some c \<Rightarrow>
          (let blk = bb (prog a) c
           in if str_contains (block_comment blk) ''if.then'' \<or> str_contains (block_comment blk) ''if.else''
              then if block_instrs blk = [] then Inl IndexOutOfRange
                   else if the_obj a (last (block_instrs blk)) = Return
                   then case y of
                          None \<Rightarrow> Inl NilDereference
                        | Some d \<Rightarrow> Inr (Dominates (prog a) c d \<and> \<not> stackContainsDefer (prog a) stack)
                   else Inr False
              else Inr False))"

definition mutuallyExcluded :: "analysis \<Rightarrow> insInfo \<Rightarrow> nat \<Rightarrow> insInfo \<Rightarrow> nat \<Rightarrow> bool go_result" where
  "mutuallyExcluded a goI I goJ J =
     bindR (access_stack a I goI) (\<lambda>s0.
     bindR (access_stack a J goJ) (\<lambda>s1.
     bindR (excluded_loop a goI goJ 0 s0 s0 s1) (\<lambda>r.
       case r of
         None \<Rightarrow> Inr False
       | Some d \<Rightarrow>
           if (case both_in a d of
                 Some (x, y) \<Rightarrow>
                   incomparable a x y \<or>
                   (noGoAfterFn (prog a) s0 (divFnAt d) \<and>
                    block_index (bb (prog a) x) \<noteq> block_index (bb (prog a) y) \<and> Dominates (prog a) x y)
               | None \<Rightarrow> False)
           then Inr True
           else bindR (returning_branch a (b1 d) (b2 d) s0) (\<lambda>r1.
                  if r1 then Inr True else returning_branch a (b2 d) (b1 d) s1))))"

section \<open>Termination of the walk to the root\<close>

lemma go_path_total:
  assumes "\<And>g. 0 < g \<Longrightarrow> caller g < g"
  shows "\<exists>up. (\<forall>path. go_path caller ID path = Some (path @ up)) \<and> sorted_wrt (>) up \<and>
    (\<forall>g \<in> set up. 0 < g \<and> g \<le> ID)"
proof (induction ID rule: less_induct)
  case (less ID)
  show ?case
  proof (cases "ID = 0")
    case True
    then show ?thesis by (simp add: go_path.simps)
  next
    case False
    then obtain up where p: "\<forall>path. go_path caller (caller ID) path = Some (path @ up)" "sorted_wrt (>) up"
      "\<forall>g \<in> set up. 0 < g \<and> g \<le> caller ID" using less [of "caller ID"] assms [of ID] by auto
    then have "\<forall>path. go_path caller ID path = Some (path @ ID # up)"
      using False by (simp add: go_path.simps [of _ ID])
    moreover have "\<forall>g \<in> set up. 0 < g \<and> g < ID" using p(3) assms [of ID] False by force
    ultimately show ?thesis using p(2) False by (intro exI [of _ "ID # up"]) (auto simp: less_imp_le)
  qed
qed

lemma root_path_total:
  assumes "\<And>g. 0 < g \<Longrightarrow> goCaller (gos a) g < g"
  shows "\<exists>path. root_path a ID = Inr path \<and> (\<forall>g \<in> set path. 0 < g \<and> g \<le> ID)"
  using go_path_total [of "goCaller (gos a)" ID] assms by (auto simp: root_path_def)

lemma concat_stacks_Inr:
  "(\<And>g. g \<in> set gs \<Longrightarrow> \<exists>s. f g = Inr s) \<Longrightarrow> \<exists>s. concat_stacks f gs = Inr s"
  by (induction gs) fastforce+

end
