(* ===== verification/Gorace_Check.thy ===== *)
theory Gorace_Check
  imports Gorace_Order
begin

text \<open>
  \<^verbatim>\<open>checkRacyPairs\<close> of \<^verbatim>\<open>gorace/raceCollection.go\<close>: the four nested loops over the accesses of two
  goroutines, with the chain of filters in the order of the code. The happens-before graph enters
  through the parameters of \<^const>\<open>reachable\<close>; the cache of its answers is threaded through the
  loops, as is the list of races. Printing a race is not modelled.
\<close>

record 'n hb_graph =
  neighbors :: "'n \<Rightarrow> 'n list"
  value_of :: "'n \<Rightarrow> nat"
  rwInsMap :: "goIns \<rightharpoonup> 'n"

type_synonym reach_cache = "reach_key \<rightharpoonup> bool"
type_synonym check_state = "raceInfo list \<times> reach_cache"

definition reachable_from ::
    "'n hb_graph \<Rightarrow> reach_cache \<Rightarrow> ref \<Rightarrow> nat \<Rightarrow> ref \<Rightarrow> nat \<Rightarrow> (bool \<times> reach_cache) go_result" where
  "reachable_from G cache i g j h =
     (case reachable (neighbors G) (value_of G) (rwInsMap G) cache i g j h of
        None \<Rightarrow> Inl Diverges
      | Some r \<Rightarrow> r)"

text \<open>\<^verbatim>\<open>(w1 && w2) || (w1 && r2) || (r1 && w2)\<close> with its short-circuit evaluation.\<close>

definition conflicting :: "analysis \<Rightarrow> ref \<Rightarrow> ref \<Rightarrow> bool go_result" where
  "conflicting a x y =
     bindR (isWriteIns (prog a) x) (\<lambda>wx.
       if wx then bindR (isWriteIns (prog a) y) (\<lambda>wy.
                    if wy then Inr True else if isReadIns a y then Inr True
                    else if isReadIns a x then isWriteIns (prog a) y else Inr False)
       else if isReadIns a x then isWriteIns (prog a) y else Inr False)"

text \<open>The conjunction of the filters, evaluated from left to right.\<close>

definition race_condition ::
    "analysis \<Rightarrow> 'n hb_graph \<Rightarrow> insInfo \<Rightarrow> nat \<Rightarrow> insInfo \<Rightarrow> nat \<Rightarrow> ref \<times> ref \<Rightarrow> check_state \<Rightarrow>
     (bool \<times> reach_cache) go_result" where
  "race_condition a G goI i goJ j addr st =
     (let races = fst st; cache = snd st; x = ins goI; y = ins goJ
      in bindR (sameAddress a (Some (fst addr)) (Some (snd addr)) i j) (\<lambda>same.
         if \<not> same then Inr (False, cache)
         else if strictSliceContains races addr then Inr (False, cache)
         else bindR (bothAtomic (prog a) x y) (\<lambda>atomic.
         if atomic then Inr (False, cache)
         else if selectMutEx a x y then Inr (False, cache)
         else bindR (lockSetsIntersect a x y i j) (\<lambda>locked.
         if locked then Inr (False, cache)
         else bindR (reachable_from G cache x i y j) (\<lambda>(r1, cache).
         if r1 then Inr (False, cache)
         else bindR (reachable_from G cache y j x i) (\<lambda>(r2, cache).
         if r2 then Inr (False, cache)
         else bindR (mutuallyExcluded a goI i goJ j) (\<lambda>mx. Inr (\<not> mx, cache))))))))"

definition check_pair ::
    "analysis \<Rightarrow> 'n hb_graph \<Rightarrow> nat \<Rightarrow> nat \<Rightarrow> nat \<Rightarrow> insInfo \<Rightarrow> nat \<Rightarrow> insInfo \<Rightarrow> check_state \<Rightarrow> check_state go_result" where
  "check_pair a G i j ii goI jj goJ st =
     (if channelComm (cfg a) \<and> sliceContainsBloc (omitComm (ifs a)) (ins_block (prog a) (ins goJ)) then Inr st
      else bindR (conflicting a (ins goI) (ins goJ)) (\<lambda>conf.
        if \<not> conf then Inr st
        else if isLocal (prog a) (ins goI) \<and> isLocal (prog a) (ins goJ) then Inr st
        else bindR (insAddress (prog a) (goI, goJ)) (\<lambda>addrs.
          case addrs of
            (Some x, Some y) \<Rightarrow>
              bindR (race_condition a G goI i goJ j (x, y) st) (\<lambda>(racy, cache).
                Inr (if racy
                     then fst st @ [\<lparr>race_ins = (goI, goJ), addrPair = (x, y), race_goIDs = (i, j), insInd = (ii, jj)\<rparr>]
                     else fst st, cache))
          | _ \<Rightarrow> Inr st)))"

fun check_inner ::
    "analysis \<Rightarrow> 'n hb_graph \<Rightarrow> nat \<Rightarrow> nat \<Rightarrow> nat \<Rightarrow> insInfo \<Rightarrow> nat \<Rightarrow> insInfo list \<Rightarrow> check_state \<Rightarrow> check_state go_result" where
  "check_inner a G i j ii goI jj [] st = Inr st"
| "check_inner a G i j ii goI jj (goJ # rest) st =
     bindR (check_pair a G i j ii goI jj goJ st) (check_inner a G i j ii goI (Suc jj) rest)"

definition skip_first :: "analysis \<Rightarrow> nat \<Rightarrow> nat \<Rightarrow> insInfo \<Rightarrow> bool" where
  "skip_first a i ii goI \<longleftrightarrow>
     (i = 0 \<and> int ii < insMono a) \<or>
     (channelComm (cfg a) \<and> sliceContainsBloc (omitComm (ifs a)) (ins_block (prog a) (ins goI)))"

fun check_outer ::
    "analysis \<Rightarrow> 'n hb_graph \<Rightarrow> nat \<Rightarrow> nat \<Rightarrow> nat \<Rightarrow> insInfo list \<Rightarrow> check_state \<Rightarrow> check_state go_result" where
  "check_outer a G i j ii [] st = Inr st"
| "check_outer a G i j ii (goI # rest) st =
     bindR (if skip_first a i ii goI then Inr st
            else check_inner a G i j ii goI 0 (RWIns a ! j) st)
       (check_outer a G i j (Suc ii) rest)"

definition check_goroutines ::
    "analysis \<Rightarrow> 'n hb_graph \<Rightarrow> nat \<times> nat \<Rightarrow> check_state \<Rightarrow> check_state go_result" where
  "check_goroutines a G ij st =
     bindR (canRunInParallel a (fst ij) (snd ij)) (\<lambda>par.
       if \<not> par then Inr st
       else check_outer a G (fst ij) (snd ij) 0 (RWIns a ! fst ij) st)"

fun check_all :: "analysis \<Rightarrow> 'n hb_graph \<Rightarrow> (nat \<times> nat) list \<Rightarrow> check_state \<Rightarrow> check_state go_result" where
  "check_all a G [] st = Inr st"
| "check_all a G (ij # rest) st = bindR (check_goroutines a G ij st) (check_all a G rest)"

text \<open>\<^verbatim>\<open>for i := 0; i < len(a.RWIns); i++ \{ for j := i + 1; j < len(a.RWIns); j++ \{ ... \} \}\<close>\<close>

definition go_pairs :: "nat \<Rightarrow> (nat \<times> nat) list" where
  "go_pairs n = concat (map (\<lambda>i. map (\<lambda>j. (i, j)) [i + 1..<n]) [0..<n])"

definition checkRacyPairs :: "analysis \<Rightarrow> 'n hb_graph \<Rightarrow> reach_cache \<Rightarrow> check_state go_result" where
  "checkRacyPairs a G cache = check_all a G (go_pairs (length (RWIns a))) ([], cache)"

section \<open>What a report means\<close>

text \<open>
  A pair of recorded accesses of two goroutines is a race candidate when it survives every filter,
  with reachability in the graph itself instead of the cached search.
\<close>

definition unordered :: "'n hb_graph \<Rightarrow> ref \<Rightarrow> nat \<Rightarrow> ref \<Rightarrow> nat \<Rightarrow> bool" where
  "unordered G x i y j \<longleftrightarrow>
     reachableBFS (neighbors G) (value_of G) (rwInsMap G) x i y j = Some (Inr False) \<and>
     reachableBFS (neighbors G) (value_of G) (rwInsMap G) y j x i = Some (Inr False)"

definition candidate ::
    "analysis \<Rightarrow> 'n hb_graph \<Rightarrow> nat \<Rightarrow> nat \<Rightarrow> insInfo \<Rightarrow> insInfo \<Rightarrow> ref \<Rightarrow> ref \<Rightarrow> bool" where
  "candidate a G i j goI goJ x y \<longleftrightarrow>
     conflicting a (ins goI) (ins goJ) = Inr True \<and>
     \<not> (isLocal (prog a) (ins goI) \<and> isLocal (prog a) (ins goJ)) \<and>
     insAddress (prog a) (goI, goJ) = Inr (Some x, Some y) \<and>
     sameAddress a (Some x) (Some y) i j = Inr True \<and>
     bothAtomic (prog a) (ins goI) (ins goJ) = Inr False \<and>
     \<not> selectMutEx a (ins goI) (ins goJ) \<and>
     lockSetsIntersect a (ins goI) (ins goJ) i j = Inr False \<and>
     unordered G (ins goI) i (ins goJ) j \<and>
     mutuallyExcluded a goI i goJ j = Inr False"

definition considered :: "analysis \<Rightarrow> nat \<Rightarrow> nat \<Rightarrow> nat \<Rightarrow> nat \<Rightarrow> bool" where
  "considered a i j ii jj \<longleftrightarrow>
     i < j \<and> j < length (RWIns a) \<and> canRunInParallel a i j = Inr True \<and>
     ii < length (RWIns a ! i) \<and> jj < length (RWIns a ! j) \<and>
     \<not> skip_first a i ii (RWIns a ! i ! ii) \<and>
     \<not> (channelComm (cfg a) \<and> sliceContainsBloc (omitComm (ifs a)) (ins_block (prog a) (ins (RWIns a ! j ! jj))))"

abbreviation G_ok :: "'n hb_graph \<Rightarrow> reach_cache \<Rightarrow> bool" where
  "G_ok G cache \<equiv> cache_ok (neighbors G) (value_of G) (rwInsMap G) cache"

definition bfs_from :: "'n hb_graph \<Rightarrow> ref \<Rightarrow> nat \<Rightarrow> ref \<Rightarrow> nat \<Rightarrow> bool go_result" where
  "bfs_from G i g j h =
     (case reachableBFS (neighbors G) (value_of G) (rwInsMap G) i g j h of None \<Rightarrow> Inl Diverges | Some r \<Rightarrow> r)"

lemma bfs_from_Inr: "bfs_from G i g j h = Inr b \<longleftrightarrow>
    reachableBFS (neighbors G) (value_of G) (rwInsMap G) i g j h = Some (Inr b)"
  by (simp add: bfs_from_def split: option.splits)

lemma reachable_from_eq:
  assumes "G_ok G cache"
  shows "reachable_from G cache i g j h = bindR (bfs_from G i g j h) (\<lambda>b. Inr (b, cache((i, g, j, h) \<mapsto> b)))"
proof (cases "cache (i, g, j, h)")
  case None
  then show ?thesis by (auto simp: reachable_from_def reachable_def bfs_from_def split: option.splits sum.splits)
next
  case (Some b)
  then have "bfs_from G i g j h = Inr b" using assms by (auto simp: cache_ok_def bfs_from_Inr)
  then show ?thesis using Some by (simp add: reachable_from_def reachable_def fun_upd_idem)
qed

lemma G_ok_update: "G_ok G cache \<Longrightarrow> bfs_from G i g j h = Inr b \<Longrightarrow> G_ok G (cache((i, g, j, h) \<mapsto> b))"
  by (auto simp: cache_ok_def bfs_from_Inr split: if_splits)

lemma race_condition_Inr:
  assumes "G_ok G (snd st)" "race_condition a G goI i goJ j (x, y) st = Inr (r, cache')"
  shows "G_ok G cache' \<and>
    (r \<longleftrightarrow> sameAddress a (Some x) (Some y) i j = Inr True \<and> \<not> strictSliceContains (fst st) (x, y) \<and>
       bothAtomic (prog a) (ins goI) (ins goJ) = Inr False \<and> \<not> selectMutEx a (ins goI) (ins goJ) \<and>
       lockSetsIntersect a (ins goI) (ins goJ) i j = Inr False \<and> unordered G (ins goI) i (ins goJ) j \<and>
       mutuallyExcluded a goI i goJ j = Inr False)"
proof -
  note rc = assms(2) [unfolded race_condition_def Let_def fst_conv snd_conv]
  obtain same where s: "sameAddress a (Some x) (Some y) i j = Inr same"
    using rc by (cases "sameAddress a (Some x) (Some y) i j") simp_all
  show ?thesis
  proof (cases "same \<and> \<not> strictSliceContains (fst st) (x, y)")
    case False
    then show ?thesis using rc s assms(1) by (auto split: if_splits)
  next
    case pre: True
    obtain atom where t: "bothAtomic (prog a) (ins goI) (ins goJ) = Inr atom"
      using rc s pre by (cases "bothAtomic (prog a) (ins goI) (ins goJ)") simp_all
    show ?thesis
    proof (cases "atom \<or> selectMutEx a (ins goI) (ins goJ)")
      case True
      then show ?thesis using rc s t pre assms(1) by (auto split: if_splits)
    next
      case mid: False
      obtain lk where l: "lockSetsIntersect a (ins goI) (ins goJ) i j = Inr lk"
        using rc s t pre mid by (cases "lockSetsIntersect a (ins goI) (ins goJ) i j") simp_all
      show ?thesis
      proof (cases lk)
        case True
        then show ?thesis using rc s t l pre mid assms(1) by simp
      next
        case lo: False
        obtain r1 where r1: "bfs_from G (ins goI) i (ins goJ) j = Inr r1"
          using rc s t l pre mid lo assms(1)
          by (cases "bfs_from G (ins goI) i (ins goJ) j") (simp_all add: reachable_from_eq)
        let ?c1 = "(snd st)((ins goI, i, ins goJ, j) \<mapsto> r1)"
        have g1: "G_ok G ?c1" using G_ok_update [OF assms(1) r1] .
        show ?thesis
        proof (cases r1)
          case True
          then show ?thesis using rc s t l pre mid lo r1 g1 assms(1)
            by (simp add: reachable_from_eq unordered_def bfs_from_Inr [symmetric])
        next
          case nr: False
          obtain r2 where r2: "bfs_from G (ins goJ) j (ins goI) i = Inr r2"
            using rc s t l pre mid lo r1 g1 nr assms(1)
            by (cases "bfs_from G (ins goJ) j (ins goI) i") (simp_all add: reachable_from_eq)
          have g2: "G_ok G (?c1((ins goJ, j, ins goI, i) \<mapsto> r2))" using G_ok_update [OF g1 r2] .
          show ?thesis
            using rc s t l pre mid lo r1 r2 g1 g2 nr assms(1)
            by (cases "mutuallyExcluded a goI i goJ j"; cases r2)
              (auto simp: reachable_from_eq unordered_def bfs_from_Inr [symmetric])
        qed
      qed
    qed
  qed
qed

text \<open>
  The effect of one pair: at most one race is added, a candidate with a new pair of addresses, and
  after it the addresses of every candidate are among the races.
\<close>

definition reported :: "raceInfo list \<Rightarrow> ref \<Rightarrow> ref \<Rightarrow> bool" where
  "reported races x y \<longleftrightarrow> strictSliceContains races (x, y)"

definition race_of :: "nat \<Rightarrow> nat \<Rightarrow> nat \<Rightarrow> nat \<Rightarrow> insInfo \<Rightarrow> insInfo \<Rightarrow> ref \<Rightarrow> ref \<Rightarrow> raceInfo" where
  "race_of i j ii jj goI goJ x y =
     \<lparr>race_ins = (goI, goJ), addrPair = (x, y), race_goIDs = (i, j), insInd = (ii, jj)\<rparr>"

lemma check_pair_Inr:
  assumes "G_ok G (snd st)" "check_pair a G i j ii goI jj goJ st = Inr st'"
    and n: "\<not> (channelComm (cfg a) \<and> sliceContainsBloc (omitComm (ifs a)) (ins_block (prog a) (ins goJ)))"
  shows "G_ok G (snd st') \<and>
    ((fst st' = fst st \<and> (\<forall>x y. candidate a G i j goI goJ x y \<longrightarrow> reported (fst st) x y)) \<or>
     (\<exists>x y. candidate a G i j goI goJ x y \<and> \<not> reported (fst st) x y \<and>
        fst st' = fst st @ [race_of i j ii jj goI goJ x y]))"
proof -
  obtain conf where conf: "conflicting a (ins goI) (ins goJ) = Inr conf"
    using assms(2) n by (auto simp: check_pair_def bindR_eq_Inr_iff)
  show ?thesis
  proof (cases "\<not> conf \<or> (isLocal (prog a) (ins goI) \<and> isLocal (prog a) (ins goJ))")
    case True
    then show ?thesis using assms n conf by (auto simp: check_pair_def candidate_def split: if_splits)
  next
    case False
    then obtain addrs where addrs: "insAddress (prog a) (goI, goJ) = Inr addrs"
      using assms(2) n conf by (auto simp: check_pair_def bindR_eq_Inr_iff split: if_splits)
    show ?thesis
    proof (cases "\<exists>x y. addrs = (Some x, Some y)")
      case False
      have "st' = st" using assms(2) n conf \<open>\<not> (\<not> conf \<or> _)\<close> addrs False
        by (auto simp: check_pair_def split: option.splits prod.splits)
      then show ?thesis using assms(1) addrs False by (auto simp: candidate_def)
    next
      case True
      then obtain x y where xy: "addrs = (Some x, Some y)" by blast
      obtain r cache' where rc: "race_condition a G goI i goJ j (x, y) st = Inr (r, cache')"
        "st' = (if r then fst st @ [race_of i j ii jj goI goJ x y] else fst st, cache')"
        using assms(2) n conf \<open>\<not> (\<not> conf \<or> _)\<close> addrs xy
        by (auto simp: check_pair_def bindR_eq_Inr_iff race_of_def)
      note R = race_condition_Inr [OF assms(1) rc(1)]
      have c1: "candidate a G i j goI goJ x y" if r
        using R conf \<open>\<not> (\<not> conf \<or> _)\<close> addrs xy that by (simp add: candidate_def)
      have c2: "reported (fst st) x' y'" if "\<not> r" "candidate a G i j goI goJ x' y'" for x' y'
        using R addrs xy that by (auto simp: candidate_def reported_def)
      show ?thesis
      proof (cases r)
        case True
        have "candidate a G i j goI goJ x y" using c1 True by simp
        moreover have "\<not> reported (fst st) x y" using R True by (simp add: reported_def)
        moreover have "fst st' = fst st @ [race_of i j ii jj goI goJ x y]" using rc(2) True by simp
        ultimately show ?thesis using R rc(2)
          by (intro conjI disjI2 exI [of _ x] exI [of _ y]) simp_all
      next
        case False
        have "\<forall>x' y'. candidate a G i j goI goJ x' y' \<longrightarrow> reported (fst st) x' y'" using c2 False by blast
        then show ?thesis using R rc(2) False by simp
      qed
    qed
  qed
qed

section \<open>The loops\<close>

text \<open>
  \<open>sound_races\<close>: every race is a considered candidate with its own indices, and no two races have the
  same pair of addresses in either order. \<open>covers\<close>: the addresses of every candidate among a set of
  index tuples are reported. Both pass through the loops with the state.
\<close>

definition race_sound :: "analysis \<Rightarrow> 'n hb_graph \<Rightarrow> raceInfo \<Rightarrow> bool" where
  "race_sound a G r \<longleftrightarrow>
     (\<exists>i j ii jj x y. considered a i j ii jj \<and> candidate a G i j (RWIns a ! i ! ii) (RWIns a ! j ! jj) x y \<and>
        r = race_of i j ii jj (RWIns a ! i ! ii) (RWIns a ! j ! jj) x y)"

definition no_duplicates :: "raceInfo list \<Rightarrow> bool" where
  "no_duplicates races \<longleftrightarrow>
     (\<forall>k l. k < l \<and> l < length races \<longrightarrow>
        addrPair (races ! l) \<noteq> addrPair (races ! k) \<and>
        addrPair (races ! l) \<noteq> (snd (addrPair (races ! k)), fst (addrPair (races ! k))))"

definition sound_races :: "analysis \<Rightarrow> 'n hb_graph \<Rightarrow> check_state \<Rightarrow> bool" where
  "sound_races a G st \<longleftrightarrow> G_ok G (snd st) \<and> (\<forall>r \<in> set (fst st). race_sound a G r) \<and> no_duplicates (fst st)"

definition extends :: "check_state \<Rightarrow> check_state \<Rightarrow> bool" where
  "extends st st' \<longleftrightarrow> set (fst st) \<subseteq> set (fst st')"

lemma reported_extends: "extends st st' \<Longrightarrow> reported (fst st) x y \<Longrightarrow> reported (fst st') x y"
  by (auto simp: extends_def reported_def strictSliceContains_iff)

lemma no_duplicates_snoc:
  assumes "no_duplicates races" "\<not> reported races x y" "addrPair r = (x, y)"
  shows "no_duplicates (races @ [r])"
  unfolding no_duplicates_def
proof (intro allI impI)
  fix k l assume kl: "k < l \<and> l < length (races @ [r])"
  show "addrPair ((races @ [r]) ! l) \<noteq> addrPair ((races @ [r]) ! k) \<and>
    addrPair ((races @ [r]) ! l) \<noteq> (snd (addrPair ((races @ [r]) ! k)), fst (addrPair ((races @ [r]) ! k)))"
  proof (cases "l < length races")
    case True
    then show ?thesis using assms(1) kl by (simp add: no_duplicates_def nth_append)
  next
    case False
    then have "l = length races" "k < length races" using kl by auto
    then have "races ! k \<in> set races" "(races @ [r]) ! l = r" "(races @ [r]) ! k = races ! k"
      by (auto simp: nth_append)
    then show ?thesis using assms(2,3) by (auto simp: reported_def strictSliceContains_iff)
  qed
qed

lemma check_pair_step:
  assumes "sound_races a G st" "check_pair a G i j ii (RWIns a ! i ! ii) jj (RWIns a ! j ! jj) st = Inr st'"
    "i < j" "j < length (RWIns a)" "canRunInParallel a i j = Inr True" "ii < length (RWIns a ! i)"
    "jj < length (RWIns a ! j)" "\<not> skip_first a i ii (RWIns a ! i ! ii)"
  shows "sound_races a G st' \<and> extends st st' \<and>
    (considered a i j ii jj \<longrightarrow>
      (\<forall>x y. candidate a G i j (RWIns a ! i ! ii) (RWIns a ! j ! jj) x y \<longrightarrow> reported (fst st') x y))"
proof (cases "channelComm (cfg a) \<and> sliceContainsBloc (omitComm (ifs a)) (ins_block (prog a) (ins (RWIns a ! j ! jj)))")
  case True
  then have "st' = st" using assms(2) by (simp add: check_pair_def)
  then show ?thesis using True assms(1) by (auto simp: considered_def extends_def)
next
  case False
  have ok: "G_ok G (snd st)" using assms(1) by (simp add: sound_races_def)
  have con: "considered a i j ii jj" using assms(3-) False by (simp add: considered_def)
  let ?I = "RWIns a ! i ! ii" and ?J = "RWIns a ! j ! jj"
  note cp = check_pair_Inr [OF ok assms(2) False]
  then consider (same) "fst st' = fst st" "\<forall>x y. candidate a G i j ?I ?J x y \<longrightarrow> reported (fst st) x y" |
    (new) x y where "candidate a G i j ?I ?J x y" "\<not> reported (fst st) x y"
      "fst st' = fst st @ [race_of i j ii jj ?I ?J x y]" by blast
  then show ?thesis
  proof cases
    case same
    then show ?thesis using cp assms(1) by (simp add: sound_races_def extends_def)
  next
    case new
    have rs: "race_sound a G (race_of i j ii jj ?I ?J x y)"
      unfolding race_sound_def using con new(1) by blast
    have nd: "no_duplicates (fst st')"
      unfolding new(3) by (rule no_duplicates_snoc [OF _ new(2)]) (use assms(1) in \<open>simp_all add: sound_races_def race_of_def\<close>)
    have "reported (fst st') x' y'" if "candidate a G i j ?I ?J x' y'" for x' y'
    proof -
      have "(x', y') = (x, y)" using that new(1) by (simp add: candidate_def)
      then show ?thesis using new(3) by (auto simp: reported_def strictSliceContains_iff race_of_def)
    qed
    then show ?thesis using cp rs nd new(3) assms(1) by (auto simp: sound_races_def extends_def)
  qed
qed

text \<open>The candidates among the tuples of a set are reported.\<close>

definition covers :: "analysis \<Rightarrow> 'n hb_graph \<Rightarrow> (nat \<times> nat \<times> nat \<times> nat) set \<Rightarrow> check_state \<Rightarrow> bool" where
  "covers a G T st \<longleftrightarrow>
     (\<forall>i j ii jj x y. (i, j, ii, jj) \<in> T \<longrightarrow> considered a i j ii jj \<longrightarrow>
        candidate a G i j (RWIns a ! i ! ii) (RWIns a ! j ! jj) x y \<longrightarrow> reported (fst st) x y)"

lemma covers_mono: "covers a G T st \<Longrightarrow> extends st st' \<Longrightarrow> covers a G T st'"
  by (auto simp: covers_def intro: reported_extends)

lemma covers_Un: "covers a G (T \<union> U) st \<longleftrightarrow> covers a G T st \<and> covers a G U st"
  by (auto simp: covers_def)

lemma covers_empty [simp]: "covers a G {} st"
  by (simp add: covers_def)

lemma extends_refl [simp]: "extends st st"
  by (simp add: extends_def)

lemma extends_trans: "extends st st' \<Longrightarrow> extends st' st'' \<Longrightarrow> extends st st''"
  by (auto simp: extends_def)

lemma check_inner_step:
  assumes "i < j" "j < length (RWIns a)" "canRunInParallel a i j = Inr True" "ii < length (RWIns a ! i)"
    "\<not> skip_first a i ii (RWIns a ! i ! ii)"
    "sound_races a G st" "drop jj (RWIns a ! j) = rest"
    "check_inner a G i j ii (RWIns a ! i ! ii) jj rest st = Inr st'"
  shows "sound_races a G st' \<and> extends st st' \<and> covers a G {(i, j, ii, k) | k. jj \<le> k \<and> k < length (RWIns a ! j)} st'"
  (is "_ \<and> _ \<and> covers a G (?T jj) st'")
  using assms(6-)
proof (induction rest arbitrary: jj st)
  case Nil
  then have "{(i, j, ii, k) | k. jj \<le> k \<and> k < length (RWIns a ! j)} = {}" by auto
  then have "covers a G (?T jj) st" by (simp only: covers_empty)
  then show ?case using Nil by simp
next
  case (Cons goJ rest)
  have jj: "jj < length (RWIns a ! j)" "goJ = RWIns a ! j ! jj" "drop (Suc jj) (RWIns a ! j) = rest"
  proof -
    show lt: "jj < length (RWIns a ! j)" using Cons.prems(2) by (auto intro: ccontr)
    show "goJ = RWIns a ! j ! jj" "drop (Suc jj) (RWIns a ! j) = rest"
      using Cons_nth_drop_Suc [OF lt] Cons.prems(2) by auto
  qed
  obtain st1 where s1: "check_pair a G i j ii (RWIns a ! i ! ii) jj (RWIns a ! j ! jj) st = Inr st1"
    "check_inner a G i j ii (RWIns a ! i ! ii) (Suc jj) rest st1 = Inr st'"
    using Cons.prems(3) jj(2) by (auto simp: bindR_eq_Inr_iff)
  note P = check_pair_step [OF Cons.prems(1) s1(1) assms(1-4) jj(1) assms(5)]
  note I = Cons.IH [OF conjunct1 [OF P] jj(3) s1(2)]
  have split: "{(i, j, ii, k) | k. jj \<le> k \<and> k < length (RWIns a ! j)} =
      {(i, j, ii, jj)} \<union> {(i, j, ii, k) | k. Suc jj \<le> k \<and> k < length (RWIns a ! j)}"
    using jj(1) by (auto simp: Suc_le_eq le_less)
  have "covers a G {(i, j, ii, jj)} st1" using P by (auto simp: covers_def)
  then have "covers a G {(i, j, ii, jj)} st'" using I covers_mono by blast
  then show ?case using P I extends_trans unfolding split covers_Un by blast
qed

lemma check_outer_step:
  assumes "i < j" "j < length (RWIns a)" "canRunInParallel a i j = Inr True"
    "sound_races a G st" "drop ii (RWIns a ! i) = rest" "check_outer a G i j ii rest st = Inr st'"
  shows "sound_races a G st' \<and> extends st st' \<and>
    covers a G {(i, j, k, l) | k l. ii \<le> k \<and> k < length (RWIns a ! i) \<and> l < length (RWIns a ! j)} st'"
  (is "_ \<and> _ \<and> covers a G (?T ii) st'")
  using assms(4-)
proof (induction rest arbitrary: ii st)
  case Nil
  then have "{(i, j, k, l) | k l. ii \<le> k \<and> k < length (RWIns a ! i) \<and> l < length (RWIns a ! j)} = {}" by auto
  then have "covers a G (?T ii) st" by (simp only: covers_empty)
  then show ?case using Nil by simp
next
  case (Cons goI rest)
  have ii: "ii < length (RWIns a ! i)" "goI = RWIns a ! i ! ii" "drop (Suc ii) (RWIns a ! i) = rest"
  proof -
    show lt: "ii < length (RWIns a ! i)" using Cons.prems(2) by (auto intro: ccontr)
    show "goI = RWIns a ! i ! ii" "drop (Suc ii) (RWIns a ! i) = rest"
      using Cons_nth_drop_Suc [OF lt] Cons.prems(2) by auto
  qed
  obtain st1 where s1: "(if skip_first a i ii goI then Inr st
      else check_inner a G i j ii goI 0 (RWIns a ! j) st) = Inr st1"
    "check_outer a G i j (Suc ii) rest st1 = Inr st'"
    using Cons.prems(3) by (auto simp: bindR_eq_Inr_iff)
  have P: "sound_races a G st1 \<and> extends st st1 \<and> covers a G {(i, j, ii, l) | l. l < length (RWIns a ! j)} st1"
  proof (cases "skip_first a i ii goI")
    case True
    then show ?thesis using s1(1) Cons.prems(1) ii(2) by (auto simp: covers_def considered_def)
  next
    case False
    then have "check_inner a G i j ii (RWIns a ! i ! ii) 0 (RWIns a ! j) st = Inr st1"
      "\<not> skip_first a i ii (RWIns a ! i ! ii)" using s1(1) ii(2) by auto
    then show ?thesis
      using check_inner_step [OF assms(1-3) ii(1) _ Cons.prems(1), of 0 "RWIns a ! j" st1] by simp
  qed
  note I = Cons.IH [OF conjunct1 [OF P] ii(3) s1(2)]
  have split: "{(i, j, k, l) | k l. ii \<le> k \<and> k < length (RWIns a ! i) \<and> l < length (RWIns a ! j)} =
      {(i, j, ii, l) | l. l < length (RWIns a ! j)} \<union>
      {(i, j, k, l) | k l. Suc ii \<le> k \<and> k < length (RWIns a ! i) \<and> l < length (RWIns a ! j)}"
    using ii(1) by (auto simp: Suc_le_eq le_less)
  have "covers a G {(i, j, ii, l) | l. l < length (RWIns a ! j)} st'" using P I covers_mono by blast
  then show ?case using P I extends_trans unfolding split covers_Un by blast
qed

definition all_tuples :: "analysis \<Rightarrow> nat \<times> nat \<Rightarrow> (nat \<times> nat \<times> nat \<times> nat) set" where
  "all_tuples a ij = {(fst ij, snd ij, k, l) | k l. k < length (RWIns a ! fst ij) \<and> l < length (RWIns a ! snd ij)}"

lemma check_goroutines_step:
  assumes "fst ij < snd ij" "snd ij < length (RWIns a)" "sound_races a G st" "check_goroutines a G ij st = Inr st'"
  shows "sound_races a G st' \<and> extends st st' \<and> covers a G (all_tuples a ij) st'"
proof -
  obtain par where par: "canRunInParallel a (fst ij) (snd ij) = Inr par"
    using assms(4) by (auto simp: check_goroutines_def bindR_eq_Inr_iff)
  show ?thesis
  proof (cases par)
    case True
    then show ?thesis
      using par assms check_outer_step [OF assms(1,2) _ assms(3), of 0 "RWIns a ! fst ij" st']
      by (simp add: check_goroutines_def all_tuples_def)
  next
    case False
    then show ?thesis using par assms by (auto simp: check_goroutines_def covers_def all_tuples_def considered_def)
  qed
qed

lemma check_all_step:
  assumes "\<forall>ij \<in> set ijs. fst ij < snd ij \<and> snd ij < length (RWIns a)" "sound_races a G st"
    "check_all a G ijs st = Inr st'"
  shows "sound_races a G st' \<and> extends st st' \<and> covers a G (\<Union>ij \<in> set ijs. all_tuples a ij) st'"
  using assms
proof (induction ijs arbitrary: st)
  case (Cons ij ijs)
  obtain st1 where s1: "check_goroutines a G ij st = Inr st1" "check_all a G ijs st1 = Inr st'"
    using Cons.prems(3) by (auto simp: bindR_eq_Inr_iff)
  have P: "sound_races a G st1 \<and> extends st st1 \<and> covers a G (all_tuples a ij) st1"
    using check_goroutines_step [of ij a G st st1] Cons.prems s1(1) by simp
  have I: "sound_races a G st' \<and> extends st1 st' \<and> covers a G (\<Union>ij \<in> set ijs. all_tuples a ij) st'"
    using Cons.IH [of st1] P s1(2) Cons.prems(1) by simp
  have "covers a G (all_tuples a ij) st'" using P I covers_mono by blast
  then show ?case using P I extends_trans by (simp add: covers_Un) blast
qed simp

lemma go_pairs_set: "set (go_pairs n) = {(i, j). i < j \<and> j < n}"
proof -
  have "(i, j) \<in> set (go_pairs n) \<longleftrightarrow> i < j \<and> j < n" for i j
    by (auto simp: go_pairs_def image_iff intro: bexI [of _ i])
  then show ?thesis by auto
qed

lemma checkRacyPairs_correct:
  assumes "G_ok G cache" "checkRacyPairs a G cache = Inr (races, cache')"
  shows "\<forall>r \<in> set races. race_sound a G r" "no_duplicates races" "G_ok G cache'"
    "\<And>i j ii jj x y. considered a i j ii jj \<Longrightarrow>
       candidate a G i j (RWIns a ! i ! ii) (RWIns a ! j ! jj) x y \<Longrightarrow> reported races x y"
proof -
  have "sound_races a G ([], cache)" using assms(1) by (simp add: sound_races_def no_duplicates_def)
  then have R: "sound_races a G (races, cache')"
    "covers a G (\<Union>ij \<in> set (go_pairs (length (RWIns a))). all_tuples a ij) (races, cache')"
    using check_all_step [of "go_pairs (length (RWIns a))" a G "([], cache)" "(races, cache')"] assms(2)
    by (auto simp: checkRacyPairs_def go_pairs_set)
  then show "\<forall>r \<in> set races. race_sound a G r" "no_duplicates races" "G_ok G cache'"
    by (auto simp: sound_races_def)
  fix i j ii jj x y
  assume c: "considered a i j ii jj" "candidate a G i j (RWIns a ! i ! ii) (RWIns a ! j ! jj) x y"
  then have "(i, j) \<in> set (go_pairs (length (RWIns a)))" "(i, j, ii, jj) \<in> all_tuples a (i, j)"
    by (auto simp: go_pairs_set considered_def all_tuples_def)
  then have "(i, j, ii, jj) \<in> (\<Union>ij \<in> set (go_pairs (length (RWIns a))). all_tuples a ij)" by blast
  then show "reported races x y" using R(2) c unfolding covers_def by simp
qed

end
