(* ===== verification/Gorace_BuildHB.thy ===== *)
theory Gorace_BuildHB
  imports Gorace_Access
begin

text \<open>
  \<^verbatim>\<open>buildHB\<close> of \<^verbatim>\<open>gorace/shbgraph.go\<close>: one pass over the recorded instructions that creates the
  nodes and edges of the happens-before graph. The graph package is only driven through
  \<^verbatim>\<open>MakeNode\<close>, \<^verbatim>\<open>MakeEdge\<close> and writes to \<^verbatim>\<open>node.Value\<close>, so the model keeps the log of these
  calls: a node is the number of its \<^verbatim>\<open>MakeNode\<close> call, with the value stored in it, and the edges
  are listed in the order of the calls. \<^verbatim>\<open>MakeEdge\<close> on the zero \<^verbatim>\<open>graph.Node\<close> is an error, on
  which the code exits. Debug output, and the names computed for it, are left out.
\<close>

record hb_state =
  node_vals :: "goIns list"
  edges :: "(nat \<times> nat) list"
  RWinsMap :: "goIns \<rightharpoonup> nat"
  hb_omit :: "blk list"
  prevN :: "nat option"
  selectN :: "nat list"
  readyCh :: "string list"
  selCaseEndN :: "nat list"
  ifN :: "nat list"
  ifSuccEndN :: "nat list"
  goCallerN :: "ref \<rightharpoonup> nat"
  waitingN :: "(goIns \<times> nat) list"
  chanRecvs_n :: "string \<rightharpoonup> nat"
  chanSends_n :: "string \<rightharpoonup> nat"

section \<open>Calls of the graph package\<close>

definition make_node :: "goIns \<Rightarrow> hb_state \<Rightarrow> nat \<times> hb_state" where
  "make_node key s = (length (node_vals s), s\<lparr>node_vals := node_vals s @ [key]\<rparr>)"

definition make_edge :: "nat option \<Rightarrow> nat option \<Rightarrow> hb_state \<Rightarrow> hb_state go_result" where
  "make_edge m n s =
     (case (m, n) of
        (Some x, Some y) \<Rightarrow> Inr (s\<lparr>edges := edges s @ [(x, y)]\<rparr>)
      | _ \<Rightarrow> Inl (ExplicitPanic ''node does not belong to this graph''))"

text \<open>\<^verbatim>\<open>( *n.Value).(goIns).goID\<close>\<close>

definition node_goID :: "hb_state \<Rightarrow> nat option \<Rightarrow> nat go_result" where
  "node_goID s n = (case n of None \<Rightarrow> Inl NilDereference | Some x \<Rightarrow> Inr (gi_goID (node_vals s ! x)))"

section \<open>Channels\<close>

fun getRcvChan_loop :: "(string \<times> ref list) list \<Rightarrow> ref \<Rightarrow> string" where
  "getRcvChan_loop [] i = []"
| "getRcvChan_loop ((ch, rIns) # rest) i = (if sliceContainsRcv rIns i then ch else getRcvChan_loop rest i)"

definition getRcvChan :: "analysis \<Rightarrow> ref \<Rightarrow> string" where
  "getRcvChan a i = getRcvChan_loop (chanRcvs (chans a)) i"

fun getSndChan_loop :: "(string \<times> ref list) list \<Rightarrow> ref \<Rightarrow> string" where
  "getSndChan_loop [] i = []"
| "getSndChan_loop ((ch, sIns) # rest) i = (if sliceContainsSnd sIns i then ch else getSndChan_loop rest i)"

definition getSndChan :: "analysis \<Rightarrow> ref \<Rightarrow> string" where
  "getSndChan a i = getSndChan_loop (chanSnds (chans a)) i"

definition isReadySel :: "analysis \<Rightarrow> string \<Rightarrow> bool" where
  "isReadySel a ch = list_ex (\<lambda>(_, chStr). sliceContainsStr chStr ch) (selReady (sels a))"

section \<open>One instruction\<close>

text \<open>The loop over the ready channels of a select: the first send case of an unknown select.\<close>

fun select_sends :: "bool \<Rightarrow> select_state list \<Rightarrow> nat \<Rightarrow> nat \<Rightarrow> nat \<Rightarrow> string list \<Rightarrow> (string \<rightharpoonup> nat) \<Rightarrow> (string \<rightharpoonup> nat)" where
  "select_sends unknown states currN ith readys [] m = m"
| "select_sends unknown states currN ith readys (ch # chs) m =
     (if ith < length states \<and> ch \<noteq> [] \<and> state_dir (states ! ith) = 1
      then select_sends unknown states currN (Suc ith) (Suc readys) chs
             (if unknown \<and> Suc readys = 1 then m(ch \<mapsto> currN) else m)
      else select_sends unknown states currN (Suc ith) readys chs m)"

text \<open>
  The classification of a new node; the flag of the result is \<^verbatim>\<open>disjoin\<close>. For the first record of
  a worker goroutine the previous node is that of the go statement.
\<close>

definition classify :: "analysis \<Rightarrow> nat \<Rightarrow> nat \<Rightarrow> ref \<Rightarrow> nat \<Rightarrow> hb_state \<Rightarrow> (bool \<times> hb_state) go_result" where
  "classify a nGo i anIns currN s =
     (if nGo \<noteq> 0 \<and> i = 0
      then case the_obj a anIns of
             Go _ \<Rightarrow> Inr (False, s\<lparr>prevN := goCallerN s anIns\<rparr>)
           | _ \<Rightarrow> Inl TypeAssertionFailed
      else case the_obj a anIns of
             Go _ \<Rightarrow> Inr (False, s\<lparr>goCallerN := (goCallerN s)(anIns \<mapsto> currN)\<rparr>)
           | Select _ states \<Rightarrow>
               (let ready = lookup_list (selReady (sels a)) anIns;
                    unknown = anIns \<in> set (map fst (selUnknown (sels a)))
                in Inr (False, s\<lparr>selectN := selectN s @ [currN], readyCh := ready, selCaseEndN := [],
                          chanSends_n := select_sends unknown states currN 0 0 ready (chanSends_n s)\<rparr>))
           | UnOp _ _ \<Rightarrow>
               (let ch = getRcvChan a anIns
                in if ch \<noteq> [] then Inr (isReadySel a ch, s\<lparr>chanRecvs_n := (chanRecvs_n s)(ch \<mapsto> currN)\<rparr>)
                   else Inr (False, s))
           | Send _ \<Rightarrow> Inr (False, s\<lparr>chanSends_n := (chanSends_n s)(getSndChan a anIns \<mapsto> currN)\<rparr>)
           | IfIns \<Rightarrow> Inr (False, s\<lparr>ifN := currN # ifN s\<rparr>)
           | _ \<Rightarrow> Inr (False, s))"

definition note_ends :: "analysis \<Rightarrow> ref \<Rightarrow> nat \<Rightarrow> hb_state \<Rightarrow> hb_state" where
  "note_ends a anIns currN s =
     (let s = (case selectCaseEnd (sels a) anIns of
                 Some ch \<Rightarrow> if sliceContainsStr (readyCh s) ch then s\<lparr>selCaseEndN := selCaseEndN s @ [currN]\<rparr> else s
               | None \<Rightarrow> s)
      in if ifSuccEnd (ifs a) anIns \<noteq> None then s\<lparr>ifSuccEndN := ifSuccEndN s @ [currN]\<rparr> else s)"

text \<open>
  The range over \<^verbatim>\<open>a.ifSuccBegin\<close>: another branch of the same \<^verbatim>\<open>if\<close> communicates over a channel,
  so this one is skipped and its block omitted from the race check.
\<close>

definition block_comment_of :: "analysis \<Rightarrow> ref \<Rightarrow> string go_result" where
  "block_comment_of a i =
     (case ins_block (prog a) i of None \<Rightarrow> Inl NilDereference | Some b \<Rightarrow> Inr (block_comment (bb (prog a) b)))"

fun skip_succ :: "analysis \<Rightarrow> ref \<Rightarrow> ref \<Rightarrow> (ref \<times> ref) list \<Rightarrow> bool \<times> blk list \<Rightarrow> (bool \<times> blk list) go_result" where
  "skip_succ a anIns ifInstr [] acc = Inr acc"
| "skip_succ a anIns ifInstr ((beginIns, ifI) # rest) acc =
     (if ifI = ifInstr \<and> beginIns \<noteq> anIns \<and> sliceContainsInsAt (commIfSucc (ifs a)) beginIns \<noteq> -1 \<and>
         channelComm (cfg a)
      then bindR (block_comment_of a anIns) (\<lambda>c.
           bindR (block_comment_of a beginIns) (\<lambda>d.
             if (c = ''if.then'' \<and> d = ''if.else'') \<or> (c = ''if.else'' \<and> d = ''if.then'')
             then skip_succ a anIns ifInstr rest (True, snd acc @ [the (ins_block (prog a) anIns)])
             else skip_succ a anIns ifInstr rest acc))
      else skip_succ a anIns ifInstr rest acc)"

text \<open>The edge into the new node.\<close>

definition case_edge :: "string \<Rightarrow> nat option \<Rightarrow> hb_state \<Rightarrow> hb_state go_result" where
  "case_edge ch currN s =
     (if ch = ''defaultCase'' \<or> ch = ''timeOut'' then make_edge (Some (hd (selectN s))) currN s
      else case chanRecvs_n s ch of
             Some r \<Rightarrow> make_edge (Some r) currN s
           | None \<Rightarrow>
               if sliceContainsStr (readyCh s) ch then make_edge (Some (hd (selectN s))) currN s else Inr s)"

definition done_edge :: "nat option \<Rightarrow> hb_state \<Rightarrow> hb_state go_result" where
  "done_edge currN s =
     bindR (if length (selCaseEndN s) > 1 then make_edge (Some (hd (selectN s))) currN s
            else if length (selCaseEndN s) > 0 then make_edge (Some (hd (selCaseEndN s))) currN s
            else Inr s)
       (\<lambda>s. Inr (if length (selectN s) > 1 then s\<lparr>selectN := tl (selectN s)\<rparr> else s))"

definition succ_edge :: "analysis \<Rightarrow> ref \<Rightarrow> ref \<Rightarrow> nat option \<Rightarrow> hb_state \<Rightarrow> hb_state go_result" where
  "succ_edge a anIns ifInstr currN s =
     bindR (skip_succ a anIns ifInstr (ifSuccBegin (ifs a)) (False, hb_omit s)) (\<lambda>(skipSucc, omit).
       let s = s\<lparr>hb_omit := omit\<rparr>
       in if \<not> skipSucc \<and> ifN s \<noteq> [] then make_edge (Some (hd (ifN s))) currN s else Inr s)"

definition open_case :: "analysis \<Rightarrow> ref \<Rightarrow> hb_state \<Rightarrow> string option" where
  "open_case a anIns s =
     (if channelComm (cfg a) \<and> selectN s \<noteq> [] then selectCaseBegin (sels a) anIns else None)"

definition incoming_edge :: "analysis \<Rightarrow> ref \<Rightarrow> nat \<Rightarrow> hb_state \<Rightarrow> hb_state go_result" where
  "incoming_edge a anIns currN s =
     (case open_case a anIns s of
        Some ch \<Rightarrow> case_edge ch (Some currN) s
      | None \<Rightarrow>
          if selectDone (sels a) anIns \<noteq> None \<and> channelComm (cfg a) \<and> selectN s \<noteq> [] then done_edge (Some currN) s
          else case map_of (ifSuccBegin (ifs a)) anIns of
                 Some ifInstr \<Rightarrow> succ_edge a anIns ifInstr (Some currN) s
               | None \<Rightarrow> make_edge (prevN s) (Some currN) s)"

definition hb_node :: "analysis \<Rightarrow> nat \<Rightarrow> nat \<Rightarrow> ref \<Rightarrow> hb_state \<Rightarrow> hb_state go_result" where
  "hb_node a nGo i anIns s =
     (let insKey = \<lparr>gi_ins = anIns, gi_goID = nGo\<rparr>; (currN, s) = make_node insKey s
      in if nGo = 0 \<and> i = 0
         then Inr (s\<lparr>prevN := Some currN,
                     goCallerN := (case the_obj a anIns of
                                     Go _ \<Rightarrow> (goCallerN s)(anIns \<mapsto> currN)
                                   | _ \<Rightarrow> goCallerN s)\<rparr>)
         else bindR (classify a nGo i anIns currN s) (\<lambda>(disjoin, s).
              bindR (incoming_edge a anIns currN (note_ends a anIns currN s)) (\<lambda>s.
                Inr (if \<not> disjoin then s\<lparr>prevN := Some currN\<rparr> else s))))"

section \<open>Further edges of one instruction\<close>

text \<open>A \<^verbatim>\<open>Done\<close> precedes every \<^verbatim>\<open>Wait\<close> of another goroutine on the same wait group.\<close>

definition first_arg :: "call_common \<Rightarrow> ref go_result" where
  "first_arg c = (case call_args c of [] \<Rightarrow> Inl IndexOutOfRange | x # _ \<Rightarrow> Inr x)"

definition call_of :: "analysis \<Rightarrow> ref \<Rightarrow> call_common go_result" where
  "call_of a i = (case the_obj a i of Call c \<Rightarrow> Inr c | _ \<Rightarrow> Inl TypeAssertionFailed)"

fun done_to_waits :: "analysis \<Rightarrow> nat \<Rightarrow> call_common \<Rightarrow> (goIns \<times> nat) list \<Rightarrow> hb_state \<Rightarrow> hb_state go_result" where
  "done_to_waits a nGo c [] s = Inr s"
| "done_to_waits a nGo c ((wKey, wNode) # rest) s =
     bindR (first_arg c) (\<lambda>x.
     bindR (call_of a (gi_ins wKey)) (\<lambda>wc.
     bindR (first_arg wc) (\<lambda>y.
     bindR (sameAddress a (Some x) (Some y) nGo (gi_goID wKey)) (\<lambda>same.
     bindR (if same
            then bindR (node_goID s (prevN s)) (\<lambda>g.
                 bindR (node_goID s (Some wNode)) (\<lambda>h.
                   if g \<noteq> h then make_edge (prevN s) (Some wNode) s else Inr s))
            else Inr s)
       (done_to_waits a nGo c rest)))))"

definition put_waiting :: "goIns \<Rightarrow> nat option \<Rightarrow> (goIns \<times> nat) list \<Rightarrow> (goIns \<times> nat) list" where
  "put_waiting key n m = (case n of None \<Rightarrow> m | Some x \<Rightarrow> update_list m key x)"

definition sync_edges :: "analysis \<Rightarrow> nat \<Rightarrow> ref \<Rightarrow> hb_state \<Rightarrow> hb_state go_result" where
  "sync_edges a nGo anIns s =
     (let insKey = \<lparr>gi_ins = anIns, gi_goID = nGo\<rparr>;
          other = (case the_obj a anIns of
                     Call c \<Rightarrow>
                       (if val_name (prog a) (call_value c) = ''Wait''
                        then Inr (s\<lparr>waitingN := put_waiting insKey (prevN s) (waitingN s)\<rparr>)
                        else if val_name (prog a) (call_value c) = ''Done'' then done_to_waits a nGo c (waitingN s) s
                        else Inr s)
                   | Defer c \<Rightarrow>
                       (if val_name (prog a) (call_value c) = ''Done'' then done_to_waits a nGo c (waitingN s) s
                        else Inr s)
                   | _ \<Rightarrow> Inr s);
          access = Inr (s\<lparr>RWinsMap := (RWinsMap s)(insKey := prevN s)\<rparr>)
      in if isReadIns a anIns then access
         else bindR (isWriteIns (prog a) anIns) (\<lambda>w. if w then access else other))"

text \<open>Matching sends and receives of different goroutines are joined in both directions.\<close>

definition join_nodes :: "nat option \<Rightarrow> nat option \<Rightarrow> hb_state \<Rightarrow> hb_state go_result" where
  "join_nodes m n s = bindR (make_edge m n s) (make_edge n m)"

fun send_edges :: "ref \<Rightarrow> (string \<times> ref list) list \<Rightarrow> hb_state \<Rightarrow> hb_state go_result" where
  "send_edges sendIns [] s = Inr s"
| "send_edges sendIns ((ch, sIns) # rest) s =
     bindR (case chanRecvs_n s ch of
              Some rcvN \<Rightarrow>
                if sliceContainsSnd sIns sendIns
                then bindR (node_goID s (prevN s)) (\<lambda>g.
                     bindR (node_goID s (Some rcvN)) (\<lambda>h.
                       if g \<noteq> h then join_nodes (prevN s) (Some rcvN) s else Inr s))
                else Inr s
            | None \<Rightarrow> Inr s)
       (send_edges sendIns rest)"

definition receive_edges :: "analysis \<Rightarrow> ref \<Rightarrow> hb_state \<Rightarrow> hb_state go_result" where
  "receive_edges a rcvIns s =
     (let ch = getRcvChan a rcvIns
      in if ch = [] then Inr s
         else case chanSends_n s ch of
                None \<Rightarrow> Inr s
              | Some sndN \<Rightarrow>
                  bindR (node_goID s (Some sndN)) (\<lambda>g.
                  bindR (node_goID s (prevN s)) (\<lambda>h.
                    if g \<noteq> h then join_nodes (Some sndN) (prevN s) s else Inr s)))"

definition channel_edges :: "analysis \<Rightarrow> ref \<Rightarrow> hb_state \<Rightarrow> hb_state go_result" where
  "channel_edges a anIns s =
     (if \<not> channelComm (cfg a) then Inr s
      else case the_obj a anIns of
             Send _ \<Rightarrow> send_edges anIns (chanSnds (chans a)) s
           | UnOp _ _ \<Rightarrow> receive_edges a anIns s
           | _ \<Rightarrow> Inr s)"

text \<open>The final return of a function follows the ends of all branches but the last.\<close>

fun edges_to :: "nat list \<Rightarrow> nat option \<Rightarrow> hb_state \<Rightarrow> hb_state go_result" where
  "edges_to [] n s = Inr s"
| "edges_to (m # ms) n s = bindR (make_edge (Some m) n s) (edges_to ms n)"

definition return_edges :: "analysis \<Rightarrow> ref \<Rightarrow> hb_state \<Rightarrow> hb_state go_result" where
  "return_edges a anIns s =
     (if the_obj a anIns = Return \<and>
         (case val_parent (prog a) anIns of None \<Rightarrow> False | Some f \<Rightarrow> ifFnReturn (ifs a) f = Some anIns)
      then bindR (edges_to (butlast (ifSuccEndN s)) (prevN s) s) (\<lambda>s. Inr (s\<lparr>ifSuccEndN := []\<rparr>))
      else Inr s)"

definition hb_ins :: "analysis \<Rightarrow> nat \<Rightarrow> nat \<Rightarrow> ref \<Rightarrow> hb_state \<Rightarrow> hb_state go_result" where
  "hb_ins a nGo i anIns s =
     bindR (hb_node a nGo i anIns s) (\<lambda>s.
     bindR (sync_edges a nGo anIns s) (\<lambda>s.
     bindR (channel_edges a anIns s) (return_edges a anIns)))"

section \<open>The two loops\<close>

fun hb_goroutine :: "analysis \<Rightarrow> nat \<Rightarrow> nat \<Rightarrow> insInfo list \<Rightarrow> hb_state \<Rightarrow> hb_state go_result" where
  "hb_goroutine a nGo i [] s = Inr s"
| "hb_goroutine a nGo i (eachIns # rest) s =
     bindR (hb_ins a nGo i (ins eachIns) s) (hb_goroutine a nGo (Suc i) rest)"

fun hb_all :: "analysis \<Rightarrow> nat \<Rightarrow> insInfo list list \<Rightarrow> hb_state \<Rightarrow> hb_state go_result" where
  "hb_all a nGo [] s = Inr s"
| "hb_all a nGo (insSlice # rest) s = bindR (hb_goroutine a nGo 0 insSlice s) (hb_all a (Suc nGo) rest)"

definition hb_init :: "blk list \<Rightarrow> hb_state" where
  "hb_init omit =
     \<lparr>node_vals = [], edges = [], RWinsMap = Map.empty, hb_omit = omit, prevN = None, selectN = [], readyCh = [],
      selCaseEndN = [], ifN = [], ifSuccEndN = [], goCallerN = Map.empty, waitingN = [],
      chanRecvs_n = Map.empty, chanSends_n = Map.empty\<rparr>"

definition buildHB :: "analysis \<Rightarrow> hb_state go_result" where
  "buildHB a = hb_all a 0 (RWIns a) (hb_init (omitComm (ifs a)))"

section \<open>What every step keeps\<close>

text \<open>
  \<open>nodes_ok\<close>: every node the state mentions was created. \<open>frame\<close>: a step after the creation of the
  node creates no other, forgets no edge, leaves the current position alone and keeps \<open>nodes_ok\<close>.
\<close>

definition mentioned :: "hb_state \<Rightarrow> nat set" where
  "mentioned s =
     fst ` set (edges s) \<union> snd ` set (edges s) \<union> ran (RWinsMap s) \<union> set_option (prevN s) \<union> set (selectN s) \<union>
     set (selCaseEndN s) \<union> set (ifN s) \<union> set (ifSuccEndN s) \<union> ran (goCallerN s) \<union> snd ` set (waitingN s) \<union>
     ran (chanRecvs_n s) \<union> ran (chanSends_n s)"

definition nodes_ok :: "hb_state \<Rightarrow> bool" where
  "nodes_ok s \<longleftrightarrow> mentioned s \<subseteq> {..<length (node_vals s)}"

definition frame :: "hb_state \<Rightarrow> hb_state \<Rightarrow> bool" where
  "frame s s' \<longleftrightarrow>
     node_vals s' = node_vals s \<and> prevN s' = prevN s \<and> goCallerN s' = goCallerN s \<and>
     set (edges s) \<subseteq> set (edges s') \<and> nodes_ok s'"

lemma frame_refl: "nodes_ok s \<Longrightarrow> frame s s"
  by (simp add: frame_def)

lemma frame_trans: "frame s t \<Longrightarrow> frame t u \<Longrightarrow> frame s u"
  by (auto simp: frame_def)

lemma frame_nodes_ok: "frame s t \<Longrightarrow> nodes_ok t"
  by (simp add: frame_def)

lemma ran_upd_subset: "ran (m(k := v)) \<subseteq> ran m \<union> set_option v"
  by (auto simp: ran_def split: if_splits)

lemma make_edge_frame:
  assumes "make_edge m n s = Inr s'"
  shows "node_vals s' = node_vals s" "prevN s' = prevN s" "goCallerN s' = goCallerN s" "RWinsMap s' = RWinsMap s"
    "set (edges s) \<subseteq> set (edges s')" "(the m, the n) \<in> set (edges s')" "m \<noteq> None" "n \<noteq> None"
    "mentioned s' = mentioned s \<union> set_option m \<union> set_option n"
  using assms by (auto simp: make_edge_def mentioned_def split: option.splits)

lemma mentioned_cases:
  "selectN s \<noteq> [] \<Longrightarrow> hd (selectN s) \<in> mentioned s" "selCaseEndN s \<noteq> [] \<Longrightarrow> hd (selCaseEndN s) \<in> mentioned s"
  "ifN s \<noteq> [] \<Longrightarrow> hd (ifN s) \<in> mentioned s" "chanRecvs_n s ch = Some r \<Longrightarrow> r \<in> mentioned s"
  "chanSends_n s ch = Some r \<Longrightarrow> r \<in> mentioned s" "prevN s = Some r \<Longrightarrow> r \<in> mentioned s"
  "(k, w) \<in> set (waitingN s) \<Longrightarrow> w \<in> mentioned s" "x \<in> set (ifSuccEndN s) \<Longrightarrow> x \<in> mentioned s"
  by (auto simp: mentioned_def ran_def image_iff) force+

lemma nodes_okD: "nodes_ok s \<Longrightarrow> x \<in> mentioned s \<Longrightarrow> x < length (node_vals s)"
  by (auto simp: nodes_ok_def)


text \<open>An edge between nodes the state already mentions.\<close>

lemma make_edge_ok:
  assumes "make_edge m n s = Inr s'" "nodes_ok s" "\<forall>x. m = Some x \<longrightarrow> x < length (node_vals s)"
    "\<forall>x. n = Some x \<longrightarrow> x < length (node_vals s)"
  shows "frame s s'"
  using make_edge_frame [OF assms(1)] assms(2-) by (auto simp: frame_def nodes_ok_def)

lemma prevN_ok: "nodes_ok s \<Longrightarrow> \<forall>x. prevN s = Some x \<longrightarrow> x < length (node_vals s)"
  by (auto intro: nodes_okD mentioned_cases)

lemma frame_shrink:
  assumes "nodes_ok s" "node_vals s' = node_vals s" "prevN s' = prevN s" "goCallerN s' = goCallerN s"
    "edges s' = edges s" "mentioned s' \<subseteq> mentioned s"
  shows "frame s s'"
  using assms by (auto simp: frame_def nodes_ok_def)

lemma case_edge_frame:
  assumes "case_edge ch (Some n) s = Inr s'" "selectN s \<noteq> []" "n < length (node_vals s)" "nodes_ok s"
  shows "frame s s'"
proof -
  have n: "\<forall>x. Some n = Some x \<longrightarrow> x < length (node_vals s)" using assms(3) by simp
  have h: "\<forall>x. Some (hd (selectN s)) = Some x \<longrightarrow> x < length (node_vals s)"
    using assms(2,4) nodes_okD mentioned_cases(1) by blast
  have r: "\<forall>x. chanRecvs_n s ch = Some x \<longrightarrow> x < length (node_vals s)"
    using assms(4) nodes_okD mentioned_cases(4) by blast
  show ?thesis
    using assms(1) frame_refl [OF assms(4)] make_edge_ok [OF _ assms(4) h n] make_edge_ok [OF _ assms(4) _ n] r
    unfolding case_edge_def by (auto split: if_splits option.splits)
qed

lemma done_edge_frame:
  assumes "done_edge (Some n) s = Inr s'" "selectN s \<noteq> []" "n < length (node_vals s)" "nodes_ok s"
  shows "frame s s'"
proof -
  obtain s1 where s1: "(if length (selCaseEndN s) > 1 then make_edge (Some (hd (selectN s))) (Some n) s
            else if length (selCaseEndN s) > 0 then make_edge (Some (hd (selCaseEndN s))) (Some n) s
            else Inr s) = Inr s1"
    "s' = (if length (selectN s1) > 1 then s1\<lparr>selectN := tl (selectN s1)\<rparr> else s1)"
    using assms(1) by (auto simp: done_edge_def bindR_eq_Inr_iff)
  have n: "\<forall>x. Some n = Some x \<longrightarrow> x < length (node_vals s)" using assms(3) by simp
  have h: "\<forall>x. Some (hd (selectN s)) = Some x \<longrightarrow> x < length (node_vals s)"
    "selCaseEndN s \<noteq> [] \<Longrightarrow> \<forall>x. Some (hd (selCaseEndN s)) = Some x \<longrightarrow> x < length (node_vals s)"
    using assms(2,4) nodes_okD mentioned_cases(1,2) by blast+
  have f: "frame s s1"
    using s1(1) frame_refl [OF assms(4)] make_edge_ok [OF _ assms(4) h(1) n] make_edge_ok [OF _ assms(4) h(2) n]
    by (auto split: if_splits)
  moreover have "frame s1 s'"
  proof (rule frame_shrink [OF frame_nodes_ok [OF f]])
    have "set (tl (selectN s1)) \<subseteq> set (selectN s1)" by (cases "selectN s1") auto
    then show "mentioned s' \<subseteq> mentioned s1" unfolding s1(2) mentioned_def by auto
  qed (simp_all add: s1(2))
  ultimately show ?thesis by (rule frame_trans)
qed

lemma succ_edge_frame:
  assumes "succ_edge a i j (Some n) s = Inr s'" "n < length (node_vals s)" "nodes_ok s"
  shows "frame s s'"
proof -
  obtain sk om where r: "(if \<not> sk \<and> ifN s \<noteq> [] then make_edge (Some (hd (ifN s))) (Some n) (s\<lparr>hb_omit := om\<rparr>)
      else Inr (s\<lparr>hb_omit := om\<rparr>)) = Inr s'"
    using assms(1) by (auto simp: succ_edge_def bindR_eq_Inr_iff Let_def cong: if_cong)
  let ?s = "s\<lparr>hb_omit := om\<rparr>"
  have f: "frame s ?s" by (rule frame_shrink [OF assms(3)]) (simp_all add: mentioned_def)
  have "frame ?s s'"
    using r frame_refl [OF frame_nodes_ok [OF f]] make_edge_ok [OF _ frame_nodes_ok [OF f]] assms(2)
      mentioned_cases(3) [of s] nodes_okD [OF assms(3)]
    by (auto split: if_splits)
  then show ?thesis using f frame_trans by blast
qed

lemma incoming_edge_frame:
  assumes "incoming_edge a i n s = Inr s'" "n < length (node_vals s)" "nodes_ok s"
  shows "frame s s'"
  using assms case_edge_frame done_edge_frame succ_edge_frame make_edge_ok [OF _ assms(3) prevN_ok [OF assms(3)]]
  unfolding incoming_edge_def open_case_def by (fastforce split: option.splits if_splits)

lemma guarded_edge_frame:
  assumes "bindR (node_goID s g) (\<lambda>x. bindR (node_goID s h) (\<lambda>y. if x \<noteq> y then f else Inr s)) = Inr s'"
    "nodes_ok s" "f = Inr s' \<Longrightarrow> frame s s'"
  shows "frame s s'"
  using assms by (auto simp: bindR_eq_Inr_iff frame_refl split: if_splits)

lemma done_to_waits_frame:
  assumes "done_to_waits a g c ws s = Inr s'" "nodes_ok s" "\<forall>(k, w) \<in> set ws. w < length (node_vals s)"
  shows "frame s s'"
  using assms
proof (induction ws arbitrary: s)
  case (Cons e ws)
  obtain k w where e: "e = (k, w)" by (rule prod.exhaust)
  have w: "\<forall>x. Some w = Some x \<longrightarrow> x < length (node_vals s)" using Cons.prems(3) e by simp
  obtain same s1 where s1: "(if same then bindR (node_goID s (prevN s)) (\<lambda>g. bindR (node_goID s (Some w)) (\<lambda>h.
        if g \<noteq> h then make_edge (prevN s) (Some w) s else Inr s)) else Inr s) = Inr s1"
    "done_to_waits a g c ws s1 = Inr s'"
    using Cons.prems(1) unfolding e by (auto simp: bindR_eq_Inr_iff)
  have f: "frame s s1"
  proof (cases same)
    case True
    have "bindR (node_goID s (prevN s)) (\<lambda>g. bindR (node_goID s (Some w)) (\<lambda>h.
        if g \<noteq> h then make_edge (prevN s) (Some w) s else Inr s)) = Inr s1" using s1(1) True by simp
    then show ?thesis
      by (rule guarded_edge_frame [OF _ Cons.prems(2) make_edge_ok [OF _ Cons.prems(2) prevN_ok [OF Cons.prems(2)] w]])
  next
    case False
    then show ?thesis using s1(1) frame_refl [OF Cons.prems(2)] by simp
  qed
  have "frame s1 s'"
    by (rule Cons.IH [OF s1(2) frame_nodes_ok [OF f]]) (use Cons.prems(3) f in \<open>auto simp: frame_def\<close>)
  then show ?case using f frame_trans by blast
qed (simp add: frame_refl)

lemma sync_edges_frame:
  assumes "sync_edges a g i s = Inr s'" "nodes_ok s" "prevN s \<noteq> None"
  shows "frame s s'"
proof -
  obtain p where p: "prevN s = Some p" using assms(3) by blast
  have pm: "p \<in> mentioned s" using p by (rule mentioned_cases)
  have "\<forall>(k, w) \<in> set (waitingN s). w < length (node_vals s)"
    using nodes_okD [OF assms(2)] mentioned_cases(7) by blast
  then have dw: "done_to_waits a g c (waitingN s) s = Inr s' \<Longrightarrow> frame s s'" for c
    using done_to_waits_frame [OF _ assms(2)] by blast
  have acc: "frame s (s\<lparr>RWinsMap := (RWinsMap s)(key := prevN s)\<rparr>)" for key
    using pm p ran_upd_subset [of "RWinsMap s" key "prevN s"]
    by (intro frame_shrink [OF assms(2)]) (auto simp: mentioned_def)
  have upd: "snd ` set (update_list m key p) \<subseteq> insert p (snd ` set m)" for m :: "(goIns \<times> nat) list" and key
  proof (induction m)
    case (Cons e m)
    then show ?case by (cases e) auto
  qed simp
  have wt: "frame s (s\<lparr>waitingN := put_waiting key (prevN s) (waitingN s)\<rparr>)" for key
  proof (rule frame_shrink [OF assms(2)])
    show "mentioned (s\<lparr>waitingN := put_waiting key (prevN s) (waitingN s)\<rparr>) \<subseteq> mentioned s"
      using pm p upd [of "waitingN s" key] unfolding mentioned_def put_waiting_def by simp blast
  qed simp_all
  show ?thesis
    using assms(1) dw acc wt frame_refl [OF assms(2)] unfolding sync_edges_def Let_def
    by (auto simp: bindR_eq_Inr_iff split: if_splits object.splits)
qed

lemma join_nodes_frame:
  assumes "join_nodes m n s = Inr s'" "nodes_ok s" "\<forall>x. m = Some x \<longrightarrow> x < length (node_vals s)"
    "\<forall>x. n = Some x \<longrightarrow> x < length (node_vals s)"
  shows "frame s s'"
proof -
  obtain s1 where s1: "make_edge m n s = Inr s1" "make_edge n m s1 = Inr s'"
    using assms(1) by (auto simp: join_nodes_def bindR_eq_Inr_iff)
  have f: "frame s s1" using make_edge_ok [OF s1(1) assms(2-4)] .
  have "frame s1 s'" by (rule make_edge_ok [OF s1(2) frame_nodes_ok [OF f]]) (use f assms(3,4) in \<open>auto simp: frame_def\<close>)
  then show ?thesis using f frame_trans by blast
qed


lemma send_edges_frame:
  assumes "send_edges i cs s = Inr s'" "nodes_ok s"
  shows "frame s s'"
  using assms
proof (induction cs arbitrary: s)
  case (Cons e cs)
  obtain ch sIns where e: "e = (ch, sIns)" by (rule prod.exhaust)
  obtain s1 where s1: "(case chanRecvs_n s ch of
        Some rcvN \<Rightarrow> if sliceContainsSnd sIns i
          then bindR (node_goID s (prevN s)) (\<lambda>g. bindR (node_goID s (Some rcvN)) (\<lambda>h.
                 if g \<noteq> h then join_nodes (prevN s) (Some rcvN) s else Inr s))
          else Inr s
      | None \<Rightarrow> Inr s) = Inr s1" "send_edges i cs s1 = Inr s'"
    using Cons.prems(1) unfolding e by (auto simp: bindR_eq_Inr_iff)
  have "\<forall>x. Some r = Some x \<longrightarrow> x < length (node_vals s)" if "chanRecvs_n s ch = Some r" for r
    using that nodes_okD [OF Cons.prems(2)] mentioned_cases(4) by blast
  then have f: "frame s s1"
    using s1(1) frame_refl [OF Cons.prems(2)]
      guarded_edge_frame [OF _ Cons.prems(2) join_nodes_frame [OF _ Cons.prems(2) prevN_ok [OF Cons.prems(2)]]]
    by (auto split: option.splits if_splits)
  then show ?case using Cons.IH [OF s1(2) frame_nodes_ok [OF f]] frame_trans by blast
qed (simp add: frame_refl)

lemma receive_edges_frame:
  assumes "receive_edges a i s = Inr s'" "nodes_ok s"
  shows "frame s s'"
proof -
  have "\<forall>x. Some r = Some x \<longrightarrow> x < length (node_vals s)" if "chanSends_n s ch = Some r" for r ch
    using that nodes_okD [OF assms(2)] mentioned_cases(5) by blast
  then show ?thesis
    using assms(1) frame_refl [OF assms(2)]
      guarded_edge_frame [OF _ assms(2) join_nodes_frame [OF _ assms(2) _ prevN_ok [OF assms(2)]]]
    unfolding receive_edges_def Let_def by (auto split: option.splits if_splits)
qed

lemma channel_edges_frame:
  assumes "channel_edges a i s = Inr s'" "nodes_ok s"
  shows "frame s s'"
  using assms send_edges_frame receive_edges_frame frame_refl
  unfolding channel_edges_def by (auto split: if_splits object.splits)

lemma edges_to_frame:
  assumes "edges_to ms (prevN s) s = Inr s'" "nodes_ok s" "\<forall>m \<in> set ms. m < length (node_vals s)"
  shows "frame s s'"
  using assms
proof (induction ms arbitrary: s)
  case (Cons m ms)
  obtain s1 where s1: "make_edge (Some m) (prevN s) s = Inr s1" "edges_to ms (prevN s) s1 = Inr s'"
    using Cons.prems(1) by (auto simp: bindR_eq_Inr_iff)
  have f: "frame s s1"
    by (rule make_edge_ok [OF s1(1) Cons.prems(2) _ prevN_ok [OF Cons.prems(2)]]) (use Cons.prems(3) in simp)
  then have "edges_to ms (prevN s1) s1 = Inr s'" "\<forall>m \<in> set ms. m < length (node_vals s1)"
    using s1(2) Cons.prems(3) by (auto simp: frame_def)
  then show ?case using Cons.IH [OF _ frame_nodes_ok [OF f]] f frame_trans by blast
qed (simp add: frame_refl)

lemma return_edges_frame:
  assumes "return_edges a i s = Inr s'" "nodes_ok s"
  shows "frame s s'"
proof -
  have b: "\<forall>m \<in> set (butlast (ifSuccEndN s)). m < length (node_vals s)"
  proof
    fix m assume "m \<in> set (butlast (ifSuccEndN s))"
    then have "m \<in> mentioned s" using mentioned_cases(8) in_set_butlastD by fast
    then show "m < length (node_vals s)" by (rule nodes_okD [OF assms(2)])
  qed
  have fr: "frame s (s1\<lparr>ifSuccEndN := []\<rparr>)" if "edges_to (butlast (ifSuccEndN s)) (prevN s) s = Inr s1" for s1
  proof -
    have f: "frame s s1" using edges_to_frame [OF that assms(2) b] .
    have "frame s1 (s1\<lparr>ifSuccEndN := []\<rparr>)"
      by (rule frame_shrink [OF frame_nodes_ok [OF f]]) (auto simp: mentioned_def)
    then show ?thesis using f frame_trans by blast
  qed
  have "s' = s \<or> (\<exists>s1. edges_to (butlast (ifSuccEndN s)) (prevN s) s = Inr s1 \<and> s1\<lparr>ifSuccEndN := []\<rparr> = s')"
    using assms(1) unfolding return_edges_def by (simp add: bindR_eq_Inr_iff split: if_splits)
  then show ?thesis using fr frame_refl [OF assms(2)] by blast
qed

section \<open>The node of an instruction\<close>

lemma select_sends_ran: "ran (select_sends u st n ith r chs m) \<subseteq> insert n (ran m)"
proof (induction u st n ith r chs m rule: select_sends.induct)
  case (2 u st n ith r ch chs m)
  let ?m = "if u \<and> Suc r = 1 then m(ch \<mapsto> n) else m"
  have h: "ran ?m \<subseteq> insert n (ran m)" using ran_upd_subset [of m ch "Some n"] by (simp add: subset_insertI)
  show ?case
  proof (cases "ith < length st \<and> ch \<noteq> [] \<and> state_dir (st ! ith) = 1")
    case True
    have e: "select_sends u st n ith r (ch # chs) m = select_sends u st n (Suc ith) (Suc r) chs ?m"
      using True by simp
    show ?thesis unfolding e using 2(1) [OF True] h by blast
  next
    case False
    have e: "select_sends u st n ith r (ch # chs) m = select_sends u st n (Suc ith) r chs m"
      using False by (simp only: select_sends.simps if_False)
    show ?thesis unfolding e using 2(2) [OF False] .
  qed
qed auto

text \<open>The state after the classification, case by case.\<close>

lemma classify_first:
  assumes "classify a g i x n s = Inr (d, s')" "g \<noteq> 0 \<and> i = 0"
  shows "(\<exists>c. the_obj a x = Go c) \<and> \<not> d \<and> s' = s\<lparr>prevN := goCallerN s x\<rparr>"
  using assms unfolding classify_def by (cases "the_obj a x") simp_all

lemma classify_go:
  assumes "classify a g i x n s = Inr (d, s')" "\<not> (g \<noteq> 0 \<and> i = 0)" "the_obj a x = Go c"
  shows "\<not> d \<and> s' = s\<lparr>goCallerN := (goCallerN s)(x \<mapsto> n)\<rparr>"
  using assms unfolding classify_def by (simp only: object.simps if_False) simp

lemma classify_other:
  assumes "classify a g i x n s = Inr (d, s')" "\<not> (g \<noteq> 0 \<and> i = 0)" "\<And>c. the_obj a x \<noteq> Go c"
  shows "s' = s \<or> (\<exists>ready u st. s' = s\<lparr>selectN := selectN s @ [n], readyCh := ready, selCaseEndN := [],
                          chanSends_n := select_sends u st n 0 0 ready (chanSends_n s)\<rparr>) \<or>
    (\<exists>ch. s' = s\<lparr>chanRecvs_n := (chanRecvs_n s)(ch \<mapsto> n)\<rparr>) \<or>
    (\<exists>ch. s' = s\<lparr>chanSends_n := (chanSends_n s)(ch \<mapsto> n)\<rparr>) \<or> s' = s\<lparr>ifN := n # ifN s\<rparr>"
proof -
  note c = assms(1) [unfolded classify_def Let_def if_not_P [OF assms(2)]]
  show ?thesis
  proof (cases "the_obj a x")
    case (Select b states)
    then have "s' = s\<lparr>selectN := selectN s @ [n], readyCh := lookup_list (selReady (sels a)) x, selCaseEndN := [],
        chanSends_n := select_sends (x \<in> set (map fst (selUnknown (sels a)))) states n 0 0
          (lookup_list (selReady (sels a)) x) (chanSends_n s)\<rparr>" using c by simp
    then show ?thesis by (intro disjI2 [OF disjI1]) (rule exI)+
  next
    case (UnOp op y)
    then have "s' = s \<or> s' = s\<lparr>chanRecvs_n := (chanRecvs_n s)(getRcvChan a x \<mapsto> n)\<rparr>"
      using c by (cases "getRcvChan a x = []") simp_all
    then show ?thesis by (elim disjE) (rule disjI1, assumption, intro disjI2 [OF disjI2 [OF disjI1]], rule exI)
  next
    case (Send y)
    then have "s' = s\<lparr>chanSends_n := (chanSends_n s)(getSndChan a x \<mapsto> n)\<rparr>" using c by simp
    then show ?thesis by (intro disjI2 [OF disjI2 [OF disjI2 [OF disjI1]]]) (rule exI)
  next
    case IfIns
    then have "s' = s\<lparr>ifN := n # ifN s\<rparr>" using c by simp
    then show ?thesis by (intro disjI2 [OF disjI2 [OF disjI2 [OF disjI2]]])
  qed (rule disjI1, insert c assms(3), simp)+
qed

lemma classify_ok:
  assumes "classify a g i x n s = Inr (d, s')" "nodes_ok s" "n < length (node_vals s)"
  shows "nodes_ok s'" "node_vals s' = node_vals s" "edges s' = edges s"
    "prevN s' = (if g \<noteq> 0 \<and> i = 0 then goCallerN s x else prevN s)" "g \<noteq> 0 \<and> i = 0 \<Longrightarrow> \<not> d"
    "goCallerN s' = (if (\<exists>c. the_obj a x = Go c) \<and> \<not> (g \<noteq> 0 \<and> i = 0) then (goCallerN s)(x \<mapsto> n) else goCallerN s)"
    "RWinsMap s' = RWinsMap s"
proof -
  have r: "ran (m(k \<mapsto> n)) \<subseteq> insert n (ran m)" for m :: "'k \<rightharpoonup> nat" and k
    using ran_upd_subset [of m k "Some n"] by simp
  have "mentioned s' \<subseteq> insert n (mentioned s) \<and> node_vals s' = node_vals s \<and> edges s' = edges s \<and>
    prevN s' = (if g \<noteq> 0 \<and> i = 0 then goCallerN s x else prevN s) \<and> (g \<noteq> 0 \<and> i = 0 \<longrightarrow> \<not> d) \<and>
    goCallerN s' = (if (\<exists>c. the_obj a x = Go c) \<and> \<not> (g \<noteq> 0 \<and> i = 0) then (goCallerN s)(x \<mapsto> n) else goCallerN s) \<and>
    RWinsMap s' = RWinsMap s"
  proof (cases "g \<noteq> 0 \<and> i = 0")
    case True
    note F = classify_first [OF assms(1) True]
    have "set_option (goCallerN s x) \<subseteq> ran (goCallerN s)" by (auto simp: ran_def)
    then have "mentioned s' \<subseteq> insert n (mentioned s)" using F unfolding mentioned_def by auto
    then show ?thesis using F True by simp
  next
    case False
    show ?thesis
    proof (cases "\<exists>c. the_obj a x = Go c")
      case True
      then have F: "s' = s\<lparr>goCallerN := (goCallerN s)(x \<mapsto> n)\<rparr>" using classify_go [OF assms(1) False] by blast
      have "mentioned s' \<subseteq> insert n (mentioned s)" using r [of "goCallerN s" x] unfolding F mentioned_def by auto
      then show ?thesis using F True False by auto
    next
      case go: False
      then consider "s' = s" | ready u st where "s' = s\<lparr>selectN := selectN s @ [n], readyCh := ready, selCaseEndN := [],
                          chanSends_n := select_sends u st n 0 0 ready (chanSends_n s)\<rparr>" |
        ch where "s' = s\<lparr>chanRecvs_n := (chanRecvs_n s)(ch \<mapsto> n)\<rparr>" |
        ch where "s' = s\<lparr>chanSends_n := (chanSends_n s)(ch \<mapsto> n)\<rparr>" | "s' = s\<lparr>ifN := n # ifN s\<rparr>"
        using classify_other [OF assms(1) False] by metis
      then have "mentioned s' \<subseteq> insert n (mentioned s)"
      proof cases
        case (2 ready u st)
        then show ?thesis using select_sends_ran [of u st n 0 0 ready "chanSends_n s"] unfolding 2 mentioned_def by auto
      next
        case (3 ch)
        then show ?thesis using r [of "chanRecvs_n s" ch] unfolding 3 mentioned_def by auto
      next
        case (4 ch)
        then show ?thesis using r [of "chanSends_n s" ch] unfolding 4 mentioned_def by auto
      next
        case 5
        then show ?thesis unfolding 5 mentioned_def by auto
      qed auto
      moreover have "node_vals s' = node_vals s \<and> edges s' = edges s \<and> prevN s' = prevN s \<and>
          goCallerN s' = goCallerN s \<and> RWinsMap s' = RWinsMap s"
        using classify_other [OF assms(1) False] go by auto
      ultimately show ?thesis using False go by auto
    qed
  qed
  then show "nodes_ok s'" "node_vals s' = node_vals s" "edges s' = edges s"
    "prevN s' = (if g \<noteq> 0 \<and> i = 0 then goCallerN s x else prevN s)" "g \<noteq> 0 \<and> i = 0 \<Longrightarrow> \<not> d"
    "goCallerN s' = (if (\<exists>c. the_obj a x = Go c) \<and> \<not> (g \<noteq> 0 \<and> i = 0) then (goCallerN s)(x \<mapsto> n) else goCallerN s)"
    "RWinsMap s' = RWinsMap s"
    using assms(2,3) unfolding nodes_ok_def by auto
qed

lemma note_ends_ok:
  assumes "nodes_ok s" "n < length (node_vals s)"
  shows "nodes_ok (note_ends a x n s)" "node_vals (note_ends a x n s) = node_vals s" "edges (note_ends a x n s) = edges s"
    "prevN (note_ends a x n s) = prevN s" "goCallerN (note_ends a x n s) = goCallerN s"
proof -
  have "mentioned (note_ends a x n s) \<subseteq> insert n (mentioned s)"
    unfolding note_ends_def Let_def mentioned_def by (cases "selectCaseEnd (sels a) x") auto
  moreover show "node_vals (note_ends a x n s) = node_vals s" "edges (note_ends a x n s) = edges s"
    "prevN (note_ends a x n s) = prevN s" "goCallerN (note_ends a x n s) = goCallerN s"
    unfolding note_ends_def Let_def by (cases "selectCaseEnd (sels a) x"; simp)+
  ultimately show "nodes_ok (note_ends a x n s)" using assms unfolding nodes_ok_def by auto
qed

lemma make_node_ok:
  assumes "make_node k s = (n, s')" "nodes_ok s"
  shows "n = length (node_vals s)" "s' = s\<lparr>node_vals := node_vals s @ [k]\<rparr>" "nodes_ok s'" "n < length (node_vals s')"
proof -
  show e: "n = length (node_vals s)" "s' = s\<lparr>node_vals := node_vals s @ [k]\<rparr>"
    using assms(1) by (simp_all add: make_node_def)
  show "nodes_ok s'" using assms(2) unfolding e nodes_ok_def mentioned_def by auto
  show "n < length (node_vals s')" using e by simp
qed

text \<open>
  The state between two records of goroutine \<open>g\<close>: the last node of the goroutine belongs to it, and
  nothing but created nodes is mentioned.
\<close>

definition at_goroutine :: "nat \<Rightarrow> nat \<Rightarrow> hb_state \<Rightarrow> bool" where
  "at_goroutine g i s \<longleftrightarrow>
     nodes_ok s \<and> (i = 0 \<or> (case prevN s of None \<Rightarrow> False | Some p \<Rightarrow> gi_goID (node_vals s ! p) = g))"

definition plain_ins :: "analysis \<Rightarrow> ref \<Rightarrow> bool" where
  "plain_ins a x \<longleftrightarrow>
     selectCaseBegin (sels a) x = None \<and> selectDone (sels a) x = None \<and> map_of (ifSuccBegin (ifs a)) x = None \<and>
     \<not> isReadySel a (getRcvChan a x)"

lemma classify_plain:
  assumes "classify a g i x n s = Inr (d, s')" "plain_ins a x"
  shows "\<not> d"
proof (cases "g \<noteq> 0 \<and> i = 0")
  case True
  then show ?thesis using classify_first [OF assms(1)] by simp
next
  case False
  then show ?thesis using assms unfolding classify_def plain_ins_def Let_def
    by (cases "the_obj a x") (auto split: if_splits)
qed

lemma incoming_edge_plain:
  assumes "incoming_edge a x n s = Inr s'" "plain_ins a x"
  shows "\<exists>p. prevN s = Some p \<and> (p, n) \<in> set (edges s')"
  using assms make_edge_frame(6,7) [of "prevN s" "Some n" s s']
  unfolding incoming_edge_def open_case_def plain_ins_def by (auto split: if_splits)

lemma hb_node_ok:
  assumes "hb_node a g i x s = Inr s'" "at_goroutine g i s"
  shows "at_goroutine g (Suc i) s'" "node_vals s' = node_vals s @ [\<lparr>gi_ins = x, gi_goID = g\<rparr>]"
    "set (edges s) \<subseteq> set (edges s')"
    "goCallerN s' = (if (\<exists>c. the_obj a x = Go c) \<and> \<not> (g \<noteq> 0 \<and> i = 0)
                     then (goCallerN s)(x \<mapsto> length (node_vals s)) else goCallerN s)"
    "plain_ins a x \<Longrightarrow> prevN s' = Some (length (node_vals s))"
    "plain_ins a x \<Longrightarrow> i \<noteq> 0 \<Longrightarrow> (the (prevN s), length (node_vals s)) \<in> set (edges s')"
    "plain_ins a x \<Longrightarrow> i = 0 \<Longrightarrow> g \<noteq> 0 \<Longrightarrow>
       \<exists>m. goCallerN s x = Some m \<and> (m, length (node_vals s)) \<in> set (edges s')"
proof -
  let ?k = "\<lparr>gi_ins = x, gi_goID = g\<rparr>" and ?n = "length (node_vals s)"
  obtain n s0 where mk: "make_node ?k s = (n, s0)" by (rule prod.exhaust)
  have ok: "nodes_ok s" using assms(2) by (simp add: at_goroutine_def)
  note s0 = make_node_ok [OF mk ok]
  have "at_goroutine g (Suc i) s' \<and> node_vals s' = node_vals s @ [?k] \<and> set (edges s) \<subseteq> set (edges s') \<and>
    goCallerN s' = (if (\<exists>c. the_obj a x = Go c) \<and> \<not> (g \<noteq> 0 \<and> i = 0)
                     then (goCallerN s)(x \<mapsto> ?n) else goCallerN s) \<and>
    (plain_ins a x \<longrightarrow> prevN s' = Some ?n) \<and>
    (plain_ins a x \<longrightarrow> i \<noteq> 0 \<longrightarrow> (the (prevN s), ?n) \<in> set (edges s')) \<and>
    (plain_ins a x \<longrightarrow> i = 0 \<longrightarrow> g \<noteq> 0 \<longrightarrow> (\<exists>m. goCallerN s x = Some m \<and> (m, ?n) \<in> set (edges s')))"
  proof (cases "g = 0 \<and> i = 0")
    case True
    then have s': "s' = s0\<lparr>prevN := Some n, goCallerN := (case the_obj a x of Go _ \<Rightarrow> (goCallerN s0)(x \<mapsto> n) | _ \<Rightarrow> goCallerN s0)\<rparr>"
      using assms(1) mk by (simp add: hb_node_def)
    have gc: "goCallerN s' = (if \<exists>c. the_obj a x = Go c then (goCallerN s0)(x \<mapsto> n) else goCallerN s0)"
      unfolding s' by (cases "the_obj a x") simp_all
    have "ran (goCallerN s') \<subseteq> insert n (ran (goCallerN s0))"
      unfolding gc using ran_upd_subset [of "goCallerN s0" x "Some n"] by auto
    then have "mentioned s' \<subseteq> insert n (mentioned s0)" unfolding s' mentioned_def by auto
    then have "nodes_ok s'" using s0(3,4) unfolding nodes_ok_def s' by auto
    then show ?thesis using True gc s0 by (simp add: s' at_goroutine_def)
  next
    case False
    then obtain d s1 s2 where r: "classify a g i x n s0 = Inr (d, s1)"
      "incoming_edge a x n (note_ends a x n s1) = Inr s2" "s' = (if \<not> d then s2\<lparr>prevN := Some n\<rparr> else s2)"
      using assms(1) mk by (auto simp: hb_node_def bindR_eq_Inr_iff split: prod.splits)
    note c = classify_ok [OF r(1) s0(3,4)]
    have n1: "n < length (node_vals s1)" using c(2) s0(4) by simp
    note e = note_ends_ok [OF c(1) n1, of a x]
    have f: "frame (note_ends a x n s1) s2" using incoming_edge_frame [OF r(2)] n1 e by simp
    have vals: "node_vals s' = node_vals s @ [?k]" using f e c s0(2) by (simp add: r(3) frame_def)
    have m: "mentioned s' \<subseteq> insert n (mentioned s2)" unfolding r(3) mentioned_def by auto
    have ok': "nodes_ok s'" using m frame_nodes_ok [OF f] s0(4) f e c unfolding nodes_ok_def r(3) by (auto simp: frame_def)
    have di: "i \<noteq> 0" if d
    proof
      assume "i = 0"
      then have "\<not> d" using False by (intro c(5)) simp
      then show False using that by contradiction
    qed
    have "prevN s' = (if d then prevN s else Some ?n)"
      using f e(4) c(4) s0(1,2) di by (cases d) (simp_all add: r(3) frame_def)
    note prev = this di
    have at: "at_goroutine g (Suc i) s'"
    proof (cases d)
      case True
      then obtain p where p: "prevN s = Some p" "gi_goID (node_vals s ! p) = g"
        using prev(2) assms(2) by (auto simp: at_goroutine_def split: option.splits)
      then have "p < length (node_vals s)" using prevN_ok [OF ok] by blast
      then show ?thesis using p prev(1) True ok' vals by (simp add: at_goroutine_def nth_append)
    next
      case False
      then show ?thesis using prev(1) ok' vals by (simp add: at_goroutine_def)
    qed
    have ed: "set (edges s) \<subseteq> set (edges s')" "edges s' = edges s2" using f e c s0(2) by (auto simp: r(3) frame_def)
    have gc: "goCallerN s' = (if (\<exists>c. the_obj a x = Go c) \<and> \<not> (g \<noteq> 0 \<and> i = 0)
        then (goCallerN s)(x \<mapsto> ?n) else goCallerN s)"
      using f e(5) c(6) s0(1,2) by (simp add: r(3) frame_def)
    have pl: "prevN s' = Some ?n" "\<exists>p. (if g \<noteq> 0 \<and> i = 0 then goCallerN s x else prevN s) = Some p \<and>
        (p, ?n) \<in> set (edges s')" if "plain_ins a x"
      using classify_plain [OF r(1) that] incoming_edge_plain [OF r(2) that] prev(1) e(4) c(4) s0(1,2) ed(2) by auto
    show ?thesis using at vals ed(1) gc pl False by auto
  qed
  then show "at_goroutine g (Suc i) s'" "node_vals s' = node_vals s @ [?k]" "set (edges s) \<subseteq> set (edges s')"
    "goCallerN s' = (if (\<exists>c. the_obj a x = Go c) \<and> \<not> (g \<noteq> 0 \<and> i = 0)
                     then (goCallerN s)(x \<mapsto> ?n) else goCallerN s)"
    "plain_ins a x \<Longrightarrow> prevN s' = Some ?n"
    "plain_ins a x \<Longrightarrow> i \<noteq> 0 \<Longrightarrow> (the (prevN s), ?n) \<in> set (edges s')"
    "plain_ins a x \<Longrightarrow> i = 0 \<Longrightarrow> g \<noteq> 0 \<Longrightarrow> \<exists>m. goCallerN s x = Some m \<and> (m, ?n) \<in> set (edges s')"
    by auto
qed


text \<open>The later edges of the record leave all this alone; an access is entered under its key.\<close>

definition access_ins :: "analysis \<Rightarrow> ref \<Rightarrow> bool" where
  "access_ins a x \<longleftrightarrow> isReadIns a x \<or> isWriteIns (prog a) x = Inr True"

lemma make_edge_map: "make_edge m n s = Inr s' \<Longrightarrow> RWinsMap s' = RWinsMap s"
  by (rule make_edge_frame)

lemma node_goID_bind_map:
  assumes "bindR (node_goID s g) (\<lambda>x. bindR (node_goID s h) (\<lambda>y. if x \<noteq> y then f else Inr s)) = Inr s'"
    "f = Inr s' \<Longrightarrow> RWinsMap s' = RWinsMap s"
  shows "RWinsMap s' = RWinsMap s"
  using assms by (auto simp: bindR_eq_Inr_iff split: if_splits)

lemma join_nodes_map: "join_nodes m n s = Inr s' \<Longrightarrow> RWinsMap s' = RWinsMap s"
  by (auto simp: join_nodes_def bindR_eq_Inr_iff) (simp add: make_edge_map)

lemma done_to_waits_map: "done_to_waits a g c ws s = Inr s' \<Longrightarrow> RWinsMap s' = RWinsMap s"
proof (induction ws arbitrary: s)
  case (Cons e ws)
  obtain k w where e: "e = (k, w)" by (rule prod.exhaust)
  obtain same s1 where s1: "(if same then bindR (node_goID s (prevN s)) (\<lambda>g. bindR (node_goID s (Some w)) (\<lambda>h.
        if g \<noteq> h then make_edge (prevN s) (Some w) s else Inr s)) else Inr s) = Inr s1"
    "done_to_waits a g c ws s1 = Inr s'"
    using Cons.prems(1) unfolding e by (auto simp: bindR_eq_Inr_iff)
  have "RWinsMap s1 = RWinsMap s"
    using s1(1) node_goID_bind_map [OF _ make_edge_map] by (cases same) auto
  then show ?case using Cons.IH [OF s1(2)] by simp
qed simp

lemma send_edges_map: "send_edges i cs s = Inr s' \<Longrightarrow> RWinsMap s' = RWinsMap s"
proof (induction cs arbitrary: s)
  case (Cons e cs)
  obtain ch sIns where e: "e = (ch, sIns)" by (rule prod.exhaust)
  obtain s1 where s1: "(case chanRecvs_n s ch of
        Some rcvN \<Rightarrow> if sliceContainsSnd sIns i
          then bindR (node_goID s (prevN s)) (\<lambda>g. bindR (node_goID s (Some rcvN)) (\<lambda>h.
                 if g \<noteq> h then join_nodes (prevN s) (Some rcvN) s else Inr s))
          else Inr s
      | None \<Rightarrow> Inr s) = Inr s1" "send_edges i cs s1 = Inr s'"
    using Cons.prems(1) unfolding e by (auto simp: bindR_eq_Inr_iff)
  have "RWinsMap s1 = RWinsMap s"
    using s1(1) node_goID_bind_map [OF _ join_nodes_map] by (auto split: option.splits if_splits)
  then show ?case using Cons.IH [OF s1(2)] by simp
qed simp

lemma receive_edges_map: "receive_edges a i s = Inr s' \<Longrightarrow> RWinsMap s' = RWinsMap s"
  using node_goID_bind_map [OF _ join_nodes_map]
  unfolding receive_edges_def Let_def by (auto split: option.splits if_splits)

lemma edges_to_map: "edges_to ms n s = Inr s' \<Longrightarrow> RWinsMap s' = RWinsMap s"
proof (induction ms arbitrary: s)
  case (Cons m ms)
  obtain s1 where s1: "make_edge (Some m) n s = Inr s1" "edges_to ms n s1 = Inr s'"
    using Cons.prems by (auto simp: bindR_eq_Inr_iff)
  then show ?case using Cons.IH make_edge_map by force
qed simp

lemma channel_edges_map: "channel_edges a i s = Inr s' \<Longrightarrow> RWinsMap s' = RWinsMap s"
  using send_edges_map receive_edges_map
  unfolding channel_edges_def by (cases "the_obj a i") (auto split: if_splits)

lemma return_edges_map:
  assumes "return_edges a i s = Inr s'"
  shows "RWinsMap s' = RWinsMap s"
proof -
  have "s' = s \<or> (\<exists>s1. edges_to (butlast (ifSuccEndN s)) (prevN s) s = Inr s1 \<and> s1\<lparr>ifSuccEndN := []\<rparr> = s')"
    using assms unfolding return_edges_def by (simp add: bindR_eq_Inr_iff split: if_splits)
  then show ?thesis using edges_to_map by auto
qed

lemma sync_edges_map:
  assumes "sync_edges a g x s = Inr s'"
  shows "RWinsMap s' = (if access_ins a x then (RWinsMap s)(\<lparr>gi_ins = x, gi_goID = g\<rparr> := prevN s) else RWinsMap s)"
proof (cases "access_ins a x")
  case True
  then have "s' = s\<lparr>RWinsMap := (RWinsMap s)(\<lparr>gi_ins = x, gi_goID = g\<rparr> := prevN s)\<rparr>"
    using assms unfolding sync_edges_def access_ins_def Let_def by (cases "isReadIns a x") simp_all
  then show ?thesis using True by simp
next
  case False
  then have w: "isWriteIns (prog a) x \<noteq> Inr True" "\<not> isReadIns a x" by (simp_all add: access_ins_def)
  obtain b where "isWriteIns (prog a) x = Inr b" using assms w(2)
    unfolding sync_edges_def Let_def by (auto simp: bindR_eq_Inr_iff)
  then have "isWriteIns (prog a) x = Inr False" using w(1) by (cases b) simp_all
  then show ?thesis using assms w(2) False done_to_waits_map
    unfolding sync_edges_def Let_def by (cases "the_obj a x") (auto split: if_splits)
qed

lemma hb_ins_ok:
  assumes "hb_ins a g i x s = Inr s'" "at_goroutine g i s"
  shows "at_goroutine g (Suc i) s'" "node_vals s' = node_vals s @ [\<lparr>gi_ins = x, gi_goID = g\<rparr>]"
    "set (edges s) \<subseteq> set (edges s')"
    "goCallerN s' = (if (\<exists>c. the_obj a x = Go c) \<and> \<not> (g \<noteq> 0 \<and> i = 0)
                     then (goCallerN s)(x \<mapsto> length (node_vals s)) else goCallerN s)"
    "plain_ins a x \<Longrightarrow> prevN s' = Some (length (node_vals s))"
    "plain_ins a x \<Longrightarrow> i \<noteq> 0 \<Longrightarrow> (the (prevN s), length (node_vals s)) \<in> set (edges s')"
    "plain_ins a x \<Longrightarrow> i = 0 \<Longrightarrow> g \<noteq> 0 \<Longrightarrow>
       \<exists>m. goCallerN s x = Some m \<and> (m, length (node_vals s)) \<in> set (edges s')"
    "prevN s' \<noteq> None"
proof -
  obtain s1 s2 s3 where r: "hb_node a g i x s = Inr s1" "sync_edges a g x s1 = Inr s2"
    "channel_edges a x s2 = Inr s3" "return_edges a x s3 = Inr s'"
    using assms(1) by (auto simp: hb_ins_def bindR_eq_Inr_iff)
  note n = hb_node_ok [OF r(1) assms(2)]
  have p: "nodes_ok s1" "prevN s1 \<noteq> None" using n(1) by (auto simp: at_goroutine_def split: option.splits)
  have f1: "frame s1 s2" by (rule sync_edges_frame [OF r(2) p])
  have f2: "frame s2 s3" by (rule channel_edges_frame [OF r(3) frame_nodes_ok [OF f1]])
  have f: "frame s1 s'" using return_edges_frame [OF r(4) frame_nodes_ok [OF f2]] f1 f2 frame_trans by blast
  show "at_goroutine g (Suc i) s'" using n(1) f unfolding at_goroutine_def frame_def by (auto split: option.splits)
  show "node_vals s' = node_vals s @ [\<lparr>gi_ins = x, gi_goID = g\<rparr>]" "prevN s' \<noteq> None"
    using n(2) f p by (auto simp: frame_def)
  show "set (edges s) \<subseteq> set (edges s')" using n(3) f by (auto simp: frame_def)
  show "goCallerN s' = (if (\<exists>c. the_obj a x = Go c) \<and> \<not> (g \<noteq> 0 \<and> i = 0)
                     then (goCallerN s)(x \<mapsto> length (node_vals s)) else goCallerN s)"
    using n(4) f by (simp add: frame_def)
  have e: "set (edges s1) \<subseteq> set (edges s')" using f by (simp add: frame_def)
  show "plain_ins a x \<Longrightarrow> prevN s' = Some (length (node_vals s))" using n(5) f by (simp add: frame_def)
  show "plain_ins a x \<Longrightarrow> i \<noteq> 0 \<Longrightarrow> (the (prevN s), length (node_vals s)) \<in> set (edges s')" using n(6) e by blast
  show "plain_ins a x \<Longrightarrow> i = 0 \<Longrightarrow> g \<noteq> 0 \<Longrightarrow>
       \<exists>m. goCallerN s x = Some m \<and> (m, length (node_vals s)) \<in> set (edges s')" using n(7) e by blast
qed

lemma case_edge_map: "case_edge ch n s = Inr s' \<Longrightarrow> RWinsMap s' = RWinsMap s"
  unfolding case_edge_def by (auto dest: make_edge_map split: if_splits option.splits)

lemma done_edge_map: "done_edge n s = Inr s' \<Longrightarrow> RWinsMap s' = RWinsMap s"
  unfolding done_edge_def by (auto simp: bindR_eq_Inr_iff dest: make_edge_map split: if_splits)

lemma succ_edge_map: "succ_edge a i j n s = Inr s' \<Longrightarrow> RWinsMap s' = RWinsMap s"
  unfolding succ_edge_def by (auto simp: bindR_eq_Inr_iff Let_def dest!: make_edge_map split: if_splits)

lemma incoming_edge_map: "incoming_edge a i n s = Inr s' \<Longrightarrow> RWinsMap s' = RWinsMap s"
  unfolding incoming_edge_def
  by (auto dest: make_edge_map case_edge_map done_edge_map succ_edge_map split: if_splits option.splits)

lemma note_ends_map: "RWinsMap (note_ends a x n s) = RWinsMap s"
  unfolding note_ends_def Let_def by (cases "selectCaseEnd (sels a) x") simp_all

lemma hb_node_map:
  assumes "hb_node a g i x s = Inr s'" "nodes_ok s"
  shows "RWinsMap s' = RWinsMap s"
proof -
  let ?k = "\<lparr>gi_ins = x, gi_goID = g\<rparr>"
  obtain n s0 where mk: "make_node ?k s = (n, s0)" by (rule prod.exhaust)
  note s0 = make_node_ok [OF mk assms(2)]
  show ?thesis
  proof (cases "g = 0 \<and> i = 0")
    case True
    then show ?thesis using assms(1) mk s0(2) by (auto simp: hb_node_def)
  next
    case False
    then obtain d s1 s2 where r: "classify a g i x n s0 = Inr (d, s1)"
      "incoming_edge a x n (note_ends a x n s1) = Inr s2" "s' = (if \<not> d then s2\<lparr>prevN := Some n\<rparr> else s2)"
      using assms(1) mk by (auto simp: hb_node_def bindR_eq_Inr_iff split: prod.splits)
    have "RWinsMap s1 = RWinsMap s" using classify_ok(7) [OF r(1) s0(3,4)] s0(2) by simp
    then show ?thesis using incoming_edge_map [OF r(2)] note_ends_map [of a x n s1] by (simp add: r(3))
  qed
qed

text \<open>Every entry of the access map is a node of the goroutine of its key.\<close>

definition map_own :: "hb_state \<Rightarrow> bool" where
  "map_own s \<longleftrightarrow> (\<forall>k p. RWinsMap s k = Some p \<longrightarrow> gi_goID (node_vals s ! p) = gi_goID k)"

lemma hb_ins_map:
  assumes "hb_ins a g i x s = Inr s'" "at_goroutine g i s" "map_own s"
  shows "RWinsMap s' = (if access_ins a x then (RWinsMap s)(\<lparr>gi_ins = x, gi_goID = g\<rparr> := prevN s') else RWinsMap s)"
    "map_own s'"
proof -
  obtain s1 s2 s3 where r: "hb_node a g i x s = Inr s1" "sync_edges a g x s1 = Inr s2"
    "channel_edges a x s2 = Inr s3" "return_edges a x s3 = Inr s'"
    using assms(1) by (auto simp: hb_ins_def bindR_eq_Inr_iff)
  have ok: "nodes_ok s" using assms(2) by (simp add: at_goroutine_def)
  note n = hb_node_ok [OF r(1) assms(2)]
  have p: "nodes_ok s1" "prevN s1 \<noteq> None" using n(1) by (auto simp: at_goroutine_def split: option.splits)
  have f1: "frame s1 s2" by (rule sync_edges_frame [OF r(2) p])
  have f2: "frame s2 s3" by (rule channel_edges_frame [OF r(3) frame_nodes_ok [OF f1]])
  have "frame s1 s'" using return_edges_frame [OF r(4) frame_nodes_ok [OF f2]] f1 f2 frame_trans by blast
  then have "prevN s' = prevN s1" by (simp add: frame_def)
  then show m: "RWinsMap s' = (if access_ins a x then (RWinsMap s)(\<lparr>gi_ins = x, gi_goID = g\<rparr> := prevN s') else RWinsMap s)"
    using hb_node_map [OF r(1) ok] sync_edges_map [OF r(2)] channel_edges_map [OF r(3)] return_edges_map [OF r(4)] by simp
  note h = hb_ins_ok [OF assms(1,2)]
  obtain q where q: "prevN s' = Some q" "gi_goID (node_vals s' ! q) = g"
    using h(1) by (auto simp: at_goroutine_def split: option.splits)
  have old: "gi_goID (node_vals s' ! p) = gi_goID k" if "RWinsMap s k = Some p" for k p
  proof -
    have "p \<in> mentioned s" using that by (auto simp: mentioned_def intro: ranI)
    then have "p < length (node_vals s)" by (rule nodes_okD [OF ok])
    then show ?thesis using that assms(3) h(2) by (simp add: map_own_def nth_append)
  qed
  show "map_own s'" using old q unfolding map_own_def m by (auto split: if_splits)
qed

section \<open>The loops\<close>

definition keys_of :: "nat \<Rightarrow> insInfo list \<Rightarrow> goIns list" where
  "keys_of g rs = map (\<lambda>r. \<lparr>gi_ins = ins r, gi_goID = g\<rparr>) rs"

text \<open>\<open>goCallerN\<close> maps a go statement to one of its own nodes.\<close>

definition callers_ok :: "hb_state \<Rightarrow> bool" where
  "callers_ok s \<longleftrightarrow> (\<forall>x m. goCallerN s x = Some m \<longrightarrow> m < length (node_vals s) \<and> gi_ins (node_vals s ! m) = x)"

lemma hb_ins_callers:
  assumes "hb_ins a g i x s = Inr s'" "at_goroutine g i s" "callers_ok s"
  shows "callers_ok s'"
  using hb_ins_ok(2,4) [OF assms(1,2)] assms(3) unfolding callers_ok_def
  by (auto simp: nth_append less_Suc_eq split: if_splits)

lemma hb_goroutine_ok:
  assumes "hb_goroutine a g i rs s = Inr s'" "at_goroutine g i s" "map_own s" "callers_ok s"
  shows "nodes_ok s' \<and> map_own s' \<and> callers_ok s' \<and> node_vals s' = node_vals s @ keys_of g rs \<and>
    set (edges s) \<subseteq> set (edges s') \<and>
    dom (RWinsMap s) \<union> {\<lparr>gi_ins = ins r, gi_goID = g\<rparr> | r. r \<in> set rs \<and> access_ins a (ins r)} \<subseteq> dom (RWinsMap s')"
  using assms
proof (induction rs arbitrary: i s)
  case Nil
  then show ?case by (simp add: keys_of_def at_goroutine_def)
next
  case (Cons r rs)
  obtain t where t: "hb_ins a g i (ins r) s = Inr t" "hb_goroutine a g (Suc i) rs t = Inr s'"
    using Cons.prems(1) by (auto simp: bindR_eq_Inr_iff)
  note h = hb_ins_ok [OF t(1) Cons.prems(2)] and m = hb_ins_map [OF t(1) Cons.prems(2,3)]
  note ih = Cons.IH [OF t(2) h(1) m(2) hb_ins_callers [OF t(1) Cons.prems(2,4)]]
  have d: "dom (RWinsMap s) \<subseteq> dom (RWinsMap t)" "access_ins a (ins r) \<Longrightarrow> \<lparr>gi_ins = ins r, gi_goID = g\<rparr> \<in> dom (RWinsMap t)"
    using m(1) h(8) by (auto split: if_splits)
  have "dom (RWinsMap s) \<union> {\<lparr>gi_ins = ins q, gi_goID = g\<rparr> | q. q \<in> set (r # rs) \<and> access_ins a (ins q)} \<subseteq> dom (RWinsMap s')"
    using ih d by (simp del: domIff add: subset_iff) blast
  moreover have "node_vals s' = node_vals s @ keys_of g (r # rs)" using ih h(2) by (simp add: keys_of_def)
  moreover have "set (edges s) \<subseteq> set (edges s')" using ih h(3) by blast
  ultimately show ?case using ih by blast
qed

lemma hb_goroutine_edges:
  assumes "hb_goroutine a g i rs s = Inr s'" "at_goroutine g i s" "map_own s" "callers_ok s"
    "\<forall>r \<in> set rs. plain_ins a (ins r)"
  shows "(i \<noteq> 0 \<longrightarrow> rs \<noteq> [] \<longrightarrow> (the (prevN s), length (node_vals s)) \<in> set (edges s')) \<and>
    (\<forall>j. Suc j < length rs \<longrightarrow> (length (node_vals s) + j, length (node_vals s) + Suc j) \<in> set (edges s')) \<and>
    (i = 0 \<longrightarrow> g \<noteq> 0 \<longrightarrow> rs \<noteq> [] \<longrightarrow> (\<exists>m. goCallerN s (ins (hd rs)) = Some m \<and> (m, length (node_vals s)) \<in> set (edges s')))"
  using assms
proof (induction rs arbitrary: i s)
  case (Cons r rs)
  let ?n = "length (node_vals s)"
  obtain t where t: "hb_ins a g i (ins r) s = Inr t" "hb_goroutine a g (Suc i) rs t = Inr s'"
    using Cons.prems(1) by (auto simp: bindR_eq_Inr_iff)
  note h = hb_ins_ok [OF t(1) Cons.prems(2)] and m = hb_ins_map [OF t(1) Cons.prems(2,3)]
  note c = hb_ins_callers [OF t(1) Cons.prems(2,4)]
  have pl: "plain_ins a (ins r)" "\<forall>r \<in> set rs. plain_ins a (ins r)" using Cons.prems(5) by simp_all
  note ih = Cons.IH [OF t(2) h(1) m(2) c pl(2)]
  have e: "set (edges t) \<subseteq> set (edges s')" using hb_goroutine_ok [OF t(2) h(1) m(2) c] by blast
  have "(?n + j, ?n + Suc j) \<in> set (edges s')" if "Suc j < length (r # rs)" for j
  proof (cases j)
    case 0
    then show ?thesis using ih that h(2) h(5) [OF pl(1)] by auto
  next
    case (Suc k)
    then show ?thesis using ih that h(2) by auto
  qed
  then show ?case using h(6,7) [OF pl(1)] e by auto
qed simp

definition before_goroutine :: "nat \<Rightarrow> hb_state \<Rightarrow> bool" where
  "before_goroutine g s \<longleftrightarrow> nodes_ok s \<and> map_own s \<and> callers_ok s \<and> (\<forall>k \<in> set (node_vals s). gi_goID k < g)"

lemma before_goroutineD:
  assumes "before_goroutine g s"
  shows "at_goroutine g 0 s" "map_own s" "callers_ok s"
  using assms by (simp_all add: before_goroutine_def at_goroutine_def)

lemma before_goroutine_step:
  assumes "hb_goroutine a g 0 rs s = Inr t" "before_goroutine g s"
  shows "before_goroutine (Suc g) t"
proof -
  have "\<forall>k \<in> set (keys_of g rs). gi_goID k = g" by (simp add: keys_of_def)
  then show ?thesis using hb_goroutine_ok [OF assms(1) before_goroutineD [OF assms(2)]] assms(2)
    by (auto simp: before_goroutine_def intro: less_SucI)
qed

text \<open>The keys of all records, in the order of the nodes.\<close>

fun keys_from :: "nat \<Rightarrow> insInfo list list \<Rightarrow> goIns list" where
  "keys_from g [] = []"
| "keys_from g (rs # rss) = keys_of g rs @ keys_from (Suc g) rss"

lemma hb_all_ok:
  assumes "hb_all a g rss s = Inr s'" "before_goroutine g s"
  shows "before_goroutine (g + length rss) s' \<and> node_vals s' = node_vals s @ keys_from g rss \<and>
    set (edges s) \<subseteq> set (edges s') \<and> dom (RWinsMap s) \<subseteq> dom (RWinsMap s') \<and>
    (\<forall>k < length rss. \<forall>r \<in> set (rss ! k). access_ins a (ins r) \<longrightarrow> \<lparr>gi_ins = ins r, gi_goID = g + k\<rparr> \<in> dom (RWinsMap s'))"
  using assms
proof (induction rss arbitrary: g s)
  case (Cons rs rss)
  obtain t where t: "hb_goroutine a g 0 rs s = Inr t" "hb_all a (Suc g) rss t = Inr s'"
    using Cons.prems(1) by (auto simp: bindR_eq_Inr_iff)
  note h = hb_goroutine_ok [OF t(1) before_goroutineD [OF Cons.prems(2)]]
  note ih = Cons.IH [OF t(2) before_goroutine_step [OF t(1) Cons.prems(2)]]
  have "\<lparr>gi_ins = ins r, gi_goID = g + k\<rparr> \<in> dom (RWinsMap s')"
    if "k < length (rs # rss)" "r \<in> set ((rs # rss) ! k)" "access_ins a (ins r)" for k r
  proof (cases k)
    case 0
    then have "\<lparr>gi_ins = ins r, gi_goID = g\<rparr> \<in> dom (RWinsMap t)" using h that by auto
    then show ?thesis using ih 0 by auto
  next
    case (Suc j)
    then show ?thesis using ih that by simp
  qed
  moreover have "node_vals s' = node_vals s @ keys_from g (rs # rss)" using h ih by simp
  moreover have "before_goroutine (g + length (rs # rss)) s'" using ih by simp
  moreover have "set (edges s) \<subseteq> set (edges s')" "dom (RWinsMap s) \<subseteq> dom (RWinsMap s')" using h ih by blast+
  ultimately show ?case by blast
qed simp

text \<open>The node of record \<open>j\<close> of goroutine \<open>g + k\<close>.\<close>

definition node_at :: "insInfo list list \<Rightarrow> nat \<Rightarrow> nat \<Rightarrow> nat" where
  "node_at rss k j = length (concat (take k rss)) + j"

lemma hb_all_edges:
  assumes "hb_all a g rss s = Inr s'" "before_goroutine g s" "k < length rss" "\<forall>r \<in> set (rss ! k). plain_ins a (ins r)"
  shows "(\<forall>j. Suc j < length (rss ! k) \<longrightarrow>
      (length (node_vals s) + node_at rss k j, length (node_vals s) + node_at rss k (Suc j)) \<in> set (edges s')) \<and>
    (g + k \<noteq> 0 \<longrightarrow> rss ! k \<noteq> [] \<longrightarrow>
      (\<exists>m. m < length (node_vals s) + node_at rss k 0 \<and> gi_ins (node_vals s' ! m) = ins (hd (rss ! k)) \<and>
        gi_goID (node_vals s' ! m) < g + k \<and> (m, length (node_vals s) + node_at rss k 0) \<in> set (edges s')))"
  using assms
proof (induction rss arbitrary: g s k)
  case (Cons rs rss)
  obtain t where t: "hb_goroutine a g 0 rs s = Inr t" "hb_all a (Suc g) rss t = Inr s'"
    using Cons.prems(1) by (auto simp: bindR_eq_Inr_iff)
  note B = before_goroutineD [OF Cons.prems(2)]
  note h = hb_goroutine_ok [OF t(1) B]
  note bt = before_goroutine_step [OF t(1) Cons.prems(2)]
  note ih = Cons.IH [OF t(2) bt] and all = hb_all_ok [OF t(2) bt]
  show ?case
  proof (cases k)
    case 0
    then have pl: "\<forall>r \<in> set rs. plain_ins a (ins r)" using Cons.prems(4) by simp
    note e = hb_goroutine_edges [OF t(1) B pl]
    have "\<exists>m. m < length (node_vals s) \<and> gi_ins (node_vals s' ! m) = ins (hd rs) \<and>
        gi_goID (node_vals s' ! m) < g \<and> (m, length (node_vals s)) \<in> set (edges s')" if "g \<noteq> 0" "rs \<noteq> []"
    proof -
      obtain m where m: "goCallerN s (ins (hd rs)) = Some m" "(m, length (node_vals s)) \<in> set (edges t)"
        using e \<open>g \<noteq> 0\<close> \<open>rs \<noteq> []\<close> by blast
      then have "m < length (node_vals s)" "gi_ins (node_vals s ! m) = ins (hd rs)"
        using Cons.prems(2) by (auto simp: before_goroutine_def callers_ok_def)
      moreover from this have "gi_goID (node_vals s ! m) < g" using Cons.prems(2) by (simp add: before_goroutine_def)
      ultimately show ?thesis using m all h by (intro exI [of _ m]) (auto simp: nth_append)
    qed
    then show ?thesis using 0 e all by (auto simp: node_at_def)
  next
    case (Suc q)
    have l: "length (node_vals t) + node_at rss q j = length (node_vals s) + node_at (rs # rss) k j" for j
      using h Suc by (simp add: node_at_def keys_of_def)
    show ?thesis using ih [of q] Cons.prems(3,4) unfolding l by (simp add: Suc)
  qed
qed simp

lemma hb_init_ok: "before_goroutine 0 (hb_init omit)"
  by (simp add: before_goroutine_def hb_init_def nodes_ok_def mentioned_def map_own_def callers_ok_def)

text \<open>
  When the accesses of a goroutine are recorded once and none of its records is a special case of the
  select and branch handling, the entry of an access is its own node.
\<close>

definition accesses :: "analysis \<Rightarrow> insInfo list \<Rightarrow> ref list" where
  "accesses a rs = filter (access_ins a) (map ins rs)"

lemma hb_goroutine_keys:
  assumes "hb_goroutine a g i rs s = Inr s'" "at_goroutine g i s" "map_own s"
  shows "\<forall>k. gi_goID k \<noteq> g \<or> gi_ins k \<notin> set (accesses a rs) \<longrightarrow> RWinsMap s' k = RWinsMap s k"
  using assms
proof (induction rs arbitrary: i s)
  case (Cons r rs)
  obtain t where t: "hb_ins a g i (ins r) s = Inr t" "hb_goroutine a g (Suc i) rs t = Inr s'"
    using Cons.prems(1) by (auto simp: bindR_eq_Inr_iff)
  note m = hb_ins_map [OF t(1) Cons.prems(2,3)] and h = hb_ins_ok(1) [OF t(1) Cons.prems(2)]
  show ?case using Cons.IH [OF t(2) h m(2)] m(1) by (auto simp: accesses_def split: if_splits)
qed simp

lemma hb_goroutine_nodes:
  assumes "hb_goroutine a g i rs s = Inr s'" "at_goroutine g i s" "map_own s"
    "\<forall>r \<in> set rs. plain_ins a (ins r)" "distinct (accesses a rs)" "j < length rs" "access_ins a (ins (rs ! j))"
  shows "RWinsMap s' \<lparr>gi_ins = ins (rs ! j), gi_goID = g\<rparr> = Some (length (node_vals s) + j)"
  using assms
proof (induction rs arbitrary: i s j)
  case (Cons r rs)
  obtain t where t: "hb_ins a g i (ins r) s = Inr t" "hb_goroutine a g (Suc i) rs t = Inr s'"
    using Cons.prems(1) by (auto simp: bindR_eq_Inr_iff)
  note m = hb_ins_map [OF t(1) Cons.prems(2,3)] and h = hb_ins_ok [OF t(1) Cons.prems(2)]
  show ?case
  proof (cases j)
    case 0
    have "RWinsMap t \<lparr>gi_ins = ins r, gi_goID = g\<rparr> = Some (length (node_vals s))"
      using m(1) h(5) Cons.prems(4,7) 0 by simp
    moreover have "ins r \<notin> set (accesses a rs)" using Cons.prems(5,7) 0 by (auto simp: accesses_def)
    ultimately show ?thesis using hb_goroutine_keys [OF t(2) h(1) m(2)] 0 by simp
  next
    case (Suc k)
    have "length (node_vals t) + k = length (node_vals s) + j" using h(2) Suc by simp
    then show ?thesis using Cons.IH [OF t(2) h(1) m(2), of k] Cons.prems(4-7) Suc by (simp add: accesses_def split: if_splits)
  qed
qed simp

lemma hb_all_keys:
  assumes "hb_all a g rss s = Inr s'" "before_goroutine g s"
  shows "\<forall>k. gi_goID k < g \<longrightarrow> RWinsMap s' k = RWinsMap s k"
  using assms
proof (induction rss arbitrary: g s)
  case (Cons rs rss)
  obtain t where t: "hb_goroutine a g 0 rs s = Inr t" "hb_all a (Suc g) rss t = Inr s'"
    using Cons.prems(1) by (auto simp: bindR_eq_Inr_iff)
  note B = before_goroutineD [OF Cons.prems(2)]
  show ?case
    using Cons.IH [OF t(2) before_goroutine_step [OF t(1) Cons.prems(2)]] hb_goroutine_keys [OF t(1) B(1,2)] by auto
qed simp

lemma hb_all_nodes:
  assumes "hb_all a g rss s = Inr s'" "before_goroutine g s" "k < length rss" "j < length (rss ! k)"
    "\<forall>r \<in> set (rss ! k). plain_ins a (ins r)" "distinct (accesses a (rss ! k))" "access_ins a (ins (rss ! k ! j))"
  shows "RWinsMap s' \<lparr>gi_ins = ins (rss ! k ! j), gi_goID = g + k\<rparr> = Some (length (node_vals s) + node_at rss k j)"
  using assms
proof (induction rss arbitrary: g s k)
  case (Cons rs rss)
  obtain t where t: "hb_goroutine a g 0 rs s = Inr t" "hb_all a (Suc g) rss t = Inr s'"
    using Cons.prems(1) by (auto simp: bindR_eq_Inr_iff)
  note B = before_goroutineD [OF Cons.prems(2)] and bt = before_goroutine_step [OF t(1) Cons.prems(2)]
  show ?case
  proof (cases k)
    case 0
    then show ?thesis
      using hb_goroutine_nodes [OF t(1) B(1,2)] hb_all_keys [OF t(2) bt] Cons.prems(4-7) by (simp add: node_at_def)
  next
    case (Suc q)
    have l: "length (node_vals t) + node_at rss q j = length (node_vals s) + node_at (rs # rss) k j"
      using hb_goroutine_ok [OF t(1) B] Suc by (simp add: node_at_def keys_of_def)
    show ?thesis using Cons.IH [OF t(2) bt, of q] Cons.prems(3-7) Suc l by simp
  qed
qed simp

lemma keys_from_nth:
  assumes "k < length rss" "j < length (rss ! k)"
  shows "node_at rss k j < length (keys_from g rss)"
    "keys_from g rss ! node_at rss k j = \<lparr>gi_ins = ins (rss ! k ! j), gi_goID = g + k\<rparr>"
  using assms
proof (induction rss arbitrary: g k)
  case (Cons rs rss)
  {
    case 1
    then show ?case using Cons.IH(1) [of "k - 1" "Suc g"] by (cases k) (auto simp: node_at_def keys_of_def)
  next
    case 2
    then show ?case using Cons.IH(2) [of "k - 1" "Suc g"] by (cases k) (auto simp: node_at_def keys_of_def nth_append)
  }
qed simp_all

lemma keys_from_index:
  assumes "m < length (keys_from g rss)"
  shows "\<exists>k j. k < length rss \<and> j < length (rss ! k) \<and> m = node_at rss k j"
  using assms
proof (induction rss arbitrary: g m)
  case (Cons rs rss)
  show ?case
  proof (cases "m < length rs")
    case True
    then show ?thesis by (intro exI [of _ 0] exI [of _ m]) (simp add: node_at_def)
  next
    case False
    then have "m - length rs < length (keys_from (Suc g) rss)" using Cons.prems by (simp add: keys_of_def)
    then obtain k j where "k < length rss" "j < length (rss ! k)" "m - length rs = node_at rss k j" using Cons.IH by blast
    then show ?thesis using False by (intro exI [of _ "Suc k"] exI [of _ j]) (simp add: node_at_def)
  qed
qed simp

end
