(* ===== verification/Gorace_Locks.thy ===== *)
theory Gorace_Locks
  imports Gorace_Access
begin

text \<open>
  The active lock sets of \<^verbatim>\<open>gorace/ssaInstructions.go\<close>: acquiring, freezing and removing entries, the
  snapshots \<^verbatim>\<open>updateLockMap\<close> and \<^verbatim>\<open>updateRLockMap\<close> of an access, and \<^verbatim>\<open>lockSetContainsAt\<close>. A lock
  set is a Go slice of pointers: \<^verbatim>\<open>append\<close> writes into spare capacity and removal shifts the array in
  place, so slices that share an array see each other's changes.
\<close>

section \<open>Slices of lock pointers\<close>

definition slice_elems :: "lock_state \<Rightarrow> slice option \<Rightarrow> nat list" where
  "slice_elems L s = (case s of None \<Rightarrow> [] | Some sl \<Rightarrow> take (len sl) (arrays L (arr sl)))"

definition slice_locks :: "lock_state \<Rightarrow> slice option \<Rightarrow> lockInfo list" where
  "slice_locks L s = map (lock_heap L) (slice_elems L s)"

text \<open>
  A growing \<^verbatim>\<open>append\<close> copies to a new array; how much spare capacity it gets is the choice of the
  runtime, the parameter \<^verbatim>\<open>spare\<close>. The spare elements are never within the length of a slice.
\<close>

definition slice_grow :: "(nat \<Rightarrow> nat) \<Rightarrow> nat list \<Rightarrow> nat \<Rightarrow> lock_state \<Rightarrow> slice \<times> lock_state" where
  "slice_grow spare ys x L =
     (\<lparr>arr = arr_next L, len = Suc (length ys)\<rparr>,
      L\<lparr>arrays := (arrays L)(arr_next L := ys @ [x] @ replicate (spare (Suc (length ys))) 0),
        arr_next := Suc (arr_next L)\<rparr>)"

definition slice_append :: "(nat \<Rightarrow> nat) \<Rightarrow> slice option \<Rightarrow> nat \<Rightarrow> lock_state \<Rightarrow> slice \<times> lock_state" where
  "slice_append spare s x L =
     (case s of
        None \<Rightarrow> slice_grow spare [] x L
      | Some sl \<Rightarrow>
          (let xs = arrays L (arr sl)
           in if len sl < length xs
              then (sl\<lparr>len := Suc (len sl)\<rparr>, L\<lparr>arrays := (arrays L)(arr sl := xs[len sl := x])\<rparr>)
              else slice_grow spare (take (len sl) xs) x L))"

text \<open>\<^verbatim>\<open>append(s[:i], s[i+1:]...)\<close>: the tail moves one place to the front of the same array.\<close>

definition slice_remove :: "slice option \<Rightarrow> nat \<Rightarrow> lock_state \<Rightarrow> (slice option \<times> lock_state) go_result" where
  "slice_remove s i L =
     (case s of
        None \<Rightarrow> Inl IndexOutOfRange
      | Some sl \<Rightarrow>
          (let xs = arrays L (arr sl); n = len sl
           in if i < n
              then Inr (Some (sl\<lparr>len := n - 1\<rparr>),
                        L\<lparr>arrays := (arrays L)(arr sl := take i xs @ drop (Suc i) (take n xs) @ drop (n - 1) xs)\<rparr>)
              else Inl IndexOutOfRange))"

section \<open>Operations on the lock sets\<close>

definition new_lock :: "lockInfo \<Rightarrow> lock_state \<Rightarrow> nat \<times> lock_state" where
  "new_lock l L = (lock_next L, L\<lparr>lock_heap := (lock_heap L)(lock_next L := l), lock_next := Suc (lock_next L)\<rparr>)"

definition lock_acquire :: "nat \<Rightarrow> lockInfo \<Rightarrow> analysis \<Rightarrow> analysis" where
  "lock_acquire goID l a =
     (let (x, L) = new_lock l (locks a); (sl, L) = slice_append (spare_cap (cfg a)) (lockSet L goID) x L
      in a\<lparr>locks := L\<lparr>lockSet := (lockSet L)(goID := Some sl)\<rparr>\<rparr>)"

definition rlock_acquire :: "nat \<Rightarrow> lockInfo \<Rightarrow> analysis \<Rightarrow> analysis" where
  "rlock_acquire goID l a =
     (let (x, L) = new_lock l (locks a); (sl, L) = slice_append (spare_cap (cfg a)) (RlockSet L goID) x L
      in a\<lparr>locks := L\<lparr>RlockSet := (RlockSet L)(goID := Some sl)\<rparr>\<rparr>)"

definition lock_remove :: "nat \<Rightarrow> nat \<Rightarrow> analysis \<Rightarrow> analysis go_result" where
  "lock_remove goID i a =
     bindR (slice_remove (lockSet (locks a) goID) i (locks a)) (\<lambda>(sl, L).
       Inr (a\<lparr>locks := L\<lparr>lockSet := (lockSet L)(goID := sl)\<rparr>\<rparr>))"

definition rlock_remove :: "nat \<Rightarrow> nat \<Rightarrow> analysis \<Rightarrow> analysis go_result" where
  "rlock_remove goID i a =
     bindR (slice_remove (RlockSet (locks a) goID) i (locks a)) (\<lambda>(sl, L).
       Inr (a\<lparr>locks := L\<lparr>RlockSet := (RlockSet L)(goID := sl)\<rparr>\<rparr>))"

text \<open>\<^verbatim>\<open>s[i].locFreeze = b\<close> through the shared pointer.\<close>

definition set_freeze :: "bool \<Rightarrow> slice option \<Rightarrow> nat \<Rightarrow> analysis \<Rightarrow> analysis go_result" where
  "set_freeze b s i a =
     bindR (nth_go (slice_elems (locks a) s) (int i)) (\<lambda>x.
       Inr (a\<lparr>locks := (locks a)\<lparr>lock_heap := (lock_heap (locks a))(x := (lock_heap (locks a) x)\<lparr>locFreeze := b\<rparr>)\<rparr>\<rparr>))"

section \<open>Snapshots of an access\<close>

definition snapshot :: "lockInfo list \<Rightarrow> ref option list" where
  "snapshot ls = map (\<lambda>l. if locFreeze l then None else Some (locAddr l)) ls"

definition updateLockMap :: "nat \<Rightarrow> ref \<Rightarrow> analysis \<Rightarrow> analysis" where
  "updateLockMap goID theIns a =
     a\<lparr>locks := (locks a)\<lparr>lockMap := (lockMap (locks a))
         (theIns := snapshot (slice_locks (locks a) (lockSet (locks a) goID)))\<rparr>\<rparr>"

definition updateRLockMap :: "nat \<Rightarrow> ref \<Rightarrow> analysis \<Rightarrow> analysis" where
  "updateRLockMap goID theIns a =
     a\<lparr>locks := (locks a)\<lparr>RlockMap := (RlockMap (locks a))
         (theIns := snapshot (slice_locks (locks a) (RlockSet (locks a) goID)))\<rparr>\<rparr>"

section \<open>Finding a lock\<close>

text \<open>
  The position and the base of a lock address; \<^const>\<open>None\<close> when it is neither a global nor a field, in
  which case the code leaves the position variables, declared outside the loop, as they were.
\<close>

definition lock_root :: "ssa_program \<Rightarrow> ref \<Rightarrow> (token_pos \<times> ref option) option" where
  "lock_root p v =
     (case obj p v of
        Global \<Rightarrow> Some (val_pos p v, None)
      | FieldAddr x \<Rightarrow>
          (case obj p x of
             UnOp _ y \<Rightarrow>
               (case obj p y of
                  FieldAddr z \<Rightarrow> Some (val_pos p z, Some z)
                | _ \<Rightarrow> Some (val_pos p y, Some y))
           | _ \<Rightarrow> Some (val_pos p x, Some x))
      | _ \<Rightarrow> None)"

definition root_pos :: "(token_pos \<times> ref option) option \<Rightarrow> token_pos \<Rightarrow> token_pos" where
  "root_pos r old = (case r of None \<Rightarrow> old | Some (pos, _) \<Rightarrow> pos)"

definition root_loc :: "(token_pos \<times> ref option) option \<Rightarrow> ref option" where
  "root_loc r = (case r of None \<Rightarrow> None | Some (_, loc) \<Rightarrow> loc)"

fun contains_loop ::
    "analysis \<Rightarrow> ref \<Rightarrow> nat \<Rightarrow> int \<Rightarrow> token_pos \<Rightarrow> token_pos \<Rightarrow> lockInfo list \<Rightarrow> int go_result" where
  "contains_loop a e goID i aPos bPos [] = Inr (-1)"
| "contains_loop a e goID i aPos bPos (k # ks) =
     (let ra = lock_root (prog a) (locAddr k); rb = lock_root (prog a) e;
          aPos = root_pos ra aPos; bPos = root_pos rb bPos
      in if aPos = bPos then Inr i
         else bindR (sameAddress a (root_loc ra) (root_loc rb) goID goID) (\<lambda>same.
                if same then Inr i else contains_loop a e goID (i + 1) aPos bPos ks))"

definition lockSetContainsAt :: "analysis \<Rightarrow> (lock_state \<Rightarrow> nat \<Rightarrow> slice option) \<Rightarrow> ref \<Rightarrow> nat \<Rightarrow> int go_result" where
  "lockSetContainsAt a s e goID =
     contains_loop a e goID 0 NoPos NoPos (slice_locks (locks a) (s (locks a) goID))"

section \<open>Facts\<close>

text \<open>\<open>slice_ok\<close>: the slice lies within its array, and the array was allocated.\<close>

definition slice_ok :: "lock_state \<Rightarrow> slice option \<Rightarrow> bool" where
  "slice_ok L s = (case s of None \<Rightarrow> True | Some sl \<Rightarrow> arr sl < arr_next L \<and> len sl \<le> length (arrays L (arr sl)))"

lemma slice_append_elems:
  assumes "slice_ok L s" "slice_append spare s x L = (sl, L')"
  shows "slice_elems L' (Some sl) = slice_elems L s @ [x]" "slice_ok L' (Some sl)"
  using assms unfolding slice_append_def slice_grow_def slice_ok_def slice_elems_def Let_def
  by (auto split: option.splits if_splits simp: take_Suc_conv_app_nth)

lemma slice_remove_elems:
  assumes "slice_ok L s" "slice_remove s i L = Inr (s', L')"
  shows "slice_elems L' s' = take i (slice_elems L s) @ drop (Suc i) (slice_elems L s)" "slice_ok L' s'"
    "i < length (slice_elems L s)"
proof -
  obtain sl where s: "s = Some sl" using assms(2) by (cases s) (simp_all add: slice_remove_def)
  define xs n where "xs = arrays L (arr sl)" and "n = len sl"
  have n: "n \<le> length xs" "arr sl < arr_next L" using assms(1) s by (simp_all add: slice_ok_def xs_def n_def)
  have r: "i < n" "s' = Some (sl\<lparr>len := n - 1\<rparr>)"
    "L' = L\<lparr>arrays := (arrays L)(arr sl := take i xs @ drop (Suc i) (take n xs) @ drop (n - 1) xs)\<rparr>"
    using assms(2) s by (auto simp: slice_remove_def Let_def xs_def n_def split: if_splits)
  have "length (take i xs @ drop (Suc i) (take n xs)) = n - 1" using n r(1) by auto
  then have "take (n - 1) (take i xs @ drop (Suc i) (take n xs) @ drop (n - 1) xs) = take i xs @ drop (Suc i) (take n xs)"
    by (metis append.assoc append_eq_conv_conj)
  moreover have "take i (take n xs) = take i xs" using r(1) by (simp add: min_def)
  ultimately show "slice_elems L' s' = take i (slice_elems L s) @ drop (Suc i) (slice_elems L s)"
    using r by (simp add: slice_elems_def s xs_def n_def)
  show "slice_ok L' s'" using n r by (auto simp: slice_ok_def)
  show "i < length (slice_elems L s)" using n r(1) by (simp add: slice_elems_def s xs_def n_def)
qed

text \<open>
  Two slices of one array: after a removal through the first, the second still has its length, sees
  the shifted elements and its last element twice.
\<close>

lemma slice_remove_shared:
  assumes "slice_remove (Some sl) i L = Inr (s', L')" "len sl \<le> length (arrays L (arr sl))"
  shows "slice_elems L' (Some sl) =
    take i (slice_elems L (Some sl)) @ drop (Suc i) (slice_elems L (Some sl)) @ [last (slice_elems L (Some sl))]"
proof -
  define xs n where "xs = arrays L (arr sl)" and "n = len sl"
  have r: "i < n" "L' = L\<lparr>arrays := (arrays L)(arr sl := take i xs @ drop (Suc i) (take n xs) @ drop (n - 1) xs)\<rparr>"
    using assms(1) by (auto simp: slice_remove_def Let_def xs_def n_def split: if_splits)
  have n: "n \<le> length xs" "n > 0" using assms(2) r(1) by (simp_all add: xs_def n_def)
  have l: "length (take i xs @ drop (Suc i) (take n xs)) = n - 1" using n r(1) by auto
  have "drop (n - 1) xs = xs ! (n - 1) # drop n xs" using n by (metis Cons_nth_drop_Suc Suc_pred' diff_less less_numeral_extra(1) order_less_le_trans)
  then have "take n (take i xs @ drop (Suc i) (take n xs) @ drop (n - 1) xs) =
      take i xs @ drop (Suc i) (take n xs) @ [xs ! (n - 1)]"
    using l n by (simp add: take_Cons')
  moreover have "last (take n xs) = xs ! (n - 1)" using n by (subst last_conv_nth) (auto simp: min_def)
  moreover have "take i (take n xs) = take i xs" using r(1) by (simp add: min_def)
  ultimately show ?thesis using r(2) by (simp add: slice_elems_def xs_def n_def)
qed

lemma contains_loop_range:
  assumes "contains_loop a e g i p q ks = Inr r"
  shows "r = -1 \<or> i \<le> r \<and> r < i + int (length ks)"
  using assms by (induction ks arbitrary: i p q) (fastforce simp: Let_def bindR_eq_Inr_iff split: if_splits)+

lemma lockSetContainsAt_range:
  assumes "lockSetContainsAt a s e g = Inr r"
  shows "r = -1 \<or> 0 \<le> r \<and> r < int (length (slice_elems (locks a) (s (locks a) g)))"
  using contains_loop_range [OF assms [unfolded lockSetContainsAt_def]] by (simp add: slice_locks_def)

text \<open>Two locks that are neither globals nor fields always match.\<close>

lemma lockSetContainsAt_no_root:
  assumes "lock_root (prog a) e = None" "slice_locks (locks a) (s (locks a) g) = k # ks"
    "lock_root (prog a) (locAddr k) = None"
  shows "lockSetContainsAt a s e g = Inr 0"
  using assms by (simp add: lockSetContainsAt_def root_pos_def)

end
