(* ===== verification/Gorace_Records.thy ===== *)
theory Gorace_Records
  imports Gorace_Locks
begin

text \<open>
  The bookkeeping of the traversal in \<^verbatim>\<open>gorace/analysisTools.go\<close>: which functions are of interest,
  the records of visited instructions, the stack of open functions and the budget that decides
  whether a function is visited again. \<^verbatim>\<open>trieLimit\<close> is the package variable, which is what the code
  reads; the field of the same name in \<^verbatim>\<open>analysis\<close> is never read.
\<close>

section \<open>Functions of interest\<close>

definition fromPkgsOfInterest :: "analysis \<Rightarrow> ref \<Rightarrow> bool" where
  "fromPkgsOfInterest a fn =
     (case fn_pkg (fun_of (prog a) fn) of
        Some (Some q) \<Rightarrow>
          (if pkg_name q = ''main'' \<or> pkg_name q = ''cli'' \<or> pkg_name q = ''testing'' then True
           else if list_ex (\<lambda>ex. pkg_name q = ex \<or> pkg_path q = ex) (excludedPkgs (cfg a)) then False
           else if efficiency (cfg a) \<and> main_path (cfg a) \<noteq> ''command-line-arguments''
           then list_ex (\<lambda>s. prefix_of s (pkg_path q)) (scope (cfg a))
           else True)
      | _ \<Rightarrow> fn_from_app (fun_of (prog a) fn))"

definition fromExcludedFns :: "analysis \<Rightarrow> ref \<Rightarrow> bool" where
  "fromExcludedFns a fn = list_ex (\<lambda>ex. prefix_of ex (fn_string (fun_of (prog a) fn))) (excludedFns (cfg a))"

definition isSynthetic :: "ssa_program \<Rightarrow> ref \<Rightarrow> bool" where
  "isSynthetic p fn \<longleftrightarrow> fn_synthetic (fun_of p fn) \<noteq> [] \<or> fn_pkg (fun_of p fn) = None"

section \<open>Records\<close>

definition recordIns :: "nat \<Rightarrow> ref \<Rightarrow> analysis \<Rightarrow> analysis go_result" where
  "recordIns goID newIns a =
     (if goID < length (RWIns a)
      then Inr (a\<lparr>RWIns := (RWIns a)[goID := RWIns a ! goID @ [\<lparr>ins = newIns, ins_stack = storeFns a\<rparr>]]\<rparr>)
      else Inl IndexOutOfRange)"

text \<open>\<^verbatim>\<open>a.ptaCfg0.AddQuery(v)\<close>, which every handler guards by \<^verbatim>\<open>!useNewPTA\<close>.\<close>

definition AddQuery :: "ref \<Rightarrow> analysis \<Rightarrow> analysis go_result" where
  "AddQuery v a =
     (if can_point (prog a) v then Inr (a\<lparr>queries := List.insert v (queries a)\<rparr>)
      else Inl (ExplicitPanic ''not a pointer-like value''))"

definition query_old :: "ref \<Rightarrow> analysis \<Rightarrow> analysis go_result" where
  "query_old v a = (if useNewPTA (cfg a) then Inr a else AddQuery v a)"

definition push_fn :: "nat \<Rightarrow> ref \<Rightarrow> ref option \<Rightarrow> analysis \<Rightarrow> analysis" where
  "push_fn goID theFn theIns a =
     a\<lparr>storeFns := storeFns a @ [\<lparr>fc_id = next_call a, fnIns = Some theFn, ssaIns = theIns\<rparr>],
       next_call := Suc (next_call a),
       levels := (levels a)(goID \<mapsto> (case levels a goID of None \<Rightarrow> 0 | Some l \<Rightarrow> l) + 1)\<rparr>"

definition pop_fn :: "nat \<Rightarrow> analysis \<Rightarrow> analysis go_result" where
  "pop_fn goID a =
     (if storeFns a = [] then Inl IndexOutOfRange
      else Inr (a\<lparr>storeFns := butlast (storeFns a),
                  levels := (levels a)(goID \<mapsto> (case levels a goID of None \<Rightarrow> 0 | Some l \<Rightarrow> l) - 1)\<rparr>))"

definition updateRecords :: "string \<Rightarrow> nat \<Rightarrow> string \<Rightarrow> ref \<Rightarrow> ref option \<Rightarrow> analysis \<Rightarrow> analysis go_result" where
  "updateRecords fnName goID pushPop theFn theIns a =
     bindR (if pushPop = ''POP  '' then pop_fn goID a else Inr a) (\<lambda>a.
       Inr (if pushPop = ''PUSH '' then push_fn goID theFn theIns a else a))"

section \<open>Was a function explored before?\<close>

definition isBudgetExceeded :: "config \<Rightarrow> trie \<Rightarrow> bool" where
  "isBudgetExceeded c t \<longleftrightarrow> budget t > cfg_trieLimit c"

definition count_visit :: "ref \<Rightarrow> ref option list \<Rightarrow> string \<Rightarrow> analysis \<Rightarrow> trie \<times> analysis" where
  "count_visit fn csSlice csStr a =
     (let key = \<lparr>fi_fn = fn, contextStr = csStr\<rparr>;
          t = (case trieMap a key of
                 Some t \<Rightarrow> t\<lparr>budget := budget t + 1\<rparr>
               | None \<Rightarrow> \<lparr>trie_name = fn_name (fun_of (prog a) fn), budget = 1, fnContext = csSlice\<rparr>)
      in (t, a\<lparr>trieMap := (trieMap a)(key \<mapsto> t)\<rparr>))"

definition explored_call :: "ref \<Rightarrow> nat \<Rightarrow> ref \<Rightarrow> analysis \<Rightarrow> (bool \<times> analysis) go_result" where
  "explored_call fn goID theIns a =
     (if fromExcludedFns a fn then Inr (True, a)
      else bindR (nth_go (RWIns a) (int goID)) (\<lambda>visitedIns.
        if sliceContainsInsInfoAt visitedIns theIns \<ge> 0 then Inr (True, a)
        else bindR (if efficiency (cfg a) then sliceContainsFnCall (prog a) (storeFns a) fn theIns else Inr False)
          (\<lambda>open_call.
             if open_call then Inr (True, a)
             else let (csSlice, csStr) = insToCallStack (prog a) visitedIns
                  in if sliceContainsFnCtr (prog a) csSlice (Some fn) > cfg_trieLimit (cfg a) then Inr (True, a)
                     else let (t, a) = count_visit fn csSlice csStr a in Inr (isBudgetExceeded (cfg a) t, a))))"

definition exploredFunction :: "ref \<Rightarrow> nat \<Rightarrow> ref option \<Rightarrow> analysis \<Rightarrow> (bool \<times> analysis) go_result" where
  "exploredFunction fn goID theIns a =
     (case theIns of
        None \<Rightarrow> Inr (False, snd (count_visit fn [] [] a))
      | Some i \<Rightarrow> explored_call fn goID i a)"

section \<open>Names of temporaries\<close>

text \<open>\<^verbatim>\<open>strconv.Atoi\<close> succeeds on an optional sign and digits whose value is a 64-bit integer.\<close>

definition digit_value :: "char \<Rightarrow> int option" where
  "digit_value c = (let n = of_char c :: int in if 48 \<le> n \<and> n \<le> 57 then Some (n - 48) else None)"

fun digits_value :: "int \<Rightarrow> string \<Rightarrow> int option" where
  "digits_value acc [] = Some acc"
| "digits_value acc (c # cs) =
     (case digit_value c of None \<Rightarrow> None | Some d \<Rightarrow> digits_value (10 * acc + d) cs)"

definition Atoi :: "string \<Rightarrow> int option" where
  "Atoi s =
     (let (neg, ds) = (case s of c # cs \<Rightarrow> if c = CHR ''-'' then (True, cs) else if c = CHR ''+'' then (False, cs) else (False, s)
                               | [] \<Rightarrow> (False, []))
      in if ds = [] then None
         else case digits_value 0 ds of
                None \<Rightarrow> None
              | Some n \<Rightarrow> (let v = (if neg then - n else n) in if in_int v then Some v else None))"

definition token_name :: "string \<Rightarrow> bool" where
  "token_name s \<longleftrightarrow> prefix_of ''t'' s \<and> Atoi (tl s) \<noteq> None"

definition call_value_name :: "ssa_program \<Rightarrow> ref \<Rightarrow> string" where
  "call_value_name p v =
     (case obj p v of
        Function \<Rightarrow> val_name p v
      | MakeClosure f _ \<Rightarrow> val_name p f
      | _ \<Rightarrow> val_type_string p v)"

definition checkTokenName :: "ssa_program \<Rightarrow> string \<Rightarrow> ref \<Rightarrow> string" where
  "checkTokenName p varName theIns =
     (if token_name varName
      then case obj p theIns of
             Call c \<Rightarrow> call_value_name p (call_value c)
           | UnOp _ x \<Rightarrow>
               (case obj p x of
                  FieldAddr y \<Rightarrow>
                    (case obj p y of Parameter _ _ _ \<Rightarrow> val_name p y | Alloc _ _ \<Rightarrow> val_name p y | _ \<Rightarrow> varName)
                | _ \<Rightarrow> varName)
           | Store addr _ \<Rightarrow>
               (case obj p addr of
                  FieldAddr y \<Rightarrow> (case obj p y of Parameter _ _ _ \<Rightarrow> val_name p y | _ \<Rightarrow> varName)
                | _ \<Rightarrow> varName)
           | _ \<Rightarrow> varName
      else varName)"

definition checkTokenNameDefer :: "ssa_program \<Rightarrow> string \<Rightarrow> call_common \<Rightarrow> string" where
  "checkTokenNameDefer p fnName c =
     (if token_name fnName
      then case obj p (call_value c) of
             MakeClosure f _ \<Rightarrow> val_name p f
           | _ \<Rightarrow> val_type_string p (call_value c)
      else fnName)"

end
