(* ===== verification/Gorace_Handlers.thy ===== *)
theory Gorace_Handlers
  imports Gorace_Records
begin

text \<open>
  The handlers of single instructions in \<^verbatim>\<open>gorace/ssaInstructions.go\<close> and the queries of
  \<^verbatim>\<open>gorace/pointerAnalysis.go\<close> that resolve a call. Handlers call back into the traversal: the
  parameter \<open>trav\<close> stands for \<^verbatim>\<open>traverseFn\<close> and \<open>pa\<close> for \<^verbatim>\<open>pointerAnalysis\<close>, and the recursion is
  closed in the theory of the traversal. \<^verbatim>\<open>theIns\<close> may be nil. The mutex \<^verbatim>\<open>a.mu\<close> only serialises
  calls of \<^verbatim>\<open>AddQuery\<close> and has no counterpart.
\<close>

type_synonym trav_fn = "ref \<Rightarrow> string \<Rightarrow> nat \<Rightarrow> ref option \<Rightarrow> analysis \<Rightarrow> analysis go_result"
type_synonym pointer_fn = "ref \<Rightarrow> nat \<Rightarrow> ref option \<Rightarrow> analysis \<Rightarrow> analysis go_result"

section \<open>Targets of the pointer analysis\<close>

text \<open>\<^verbatim>\<open>filterParam\<close>: the first loop walks up the stack of open functions.\<close>

fun filter_parents :: "analysis \<Rightarrow> nat list \<Rightarrow> fnCallInfo list \<Rightarrow> nat list option" where
  "filter_parents a labels [] = None"
| "filter_parents a labels (parent # up) =
     (case fnIns parent of
        None \<Rightarrow> None
      | Some f \<Rightarrow>
          (let result = filter (\<lambda>l. prefix_of (fn_string (fun_of (prog a) f)) (label_string (pta a) l)) labels
           in if result = [] then filter_parents a labels up else Some result))"

fun after_dollar :: "string \<Rightarrow> string option" where
  "after_dollar [] = None"
| "after_dollar (c # s) = (if c = CHR ''$'' then Some (takeWhile (\<lambda>d. d \<noteq> CHR ''$'') s) else after_dollar s)"

definition keep_label :: "analysis \<Rightarrow> nat \<Rightarrow> bool" where
  "keep_label a l =
     (case after_dollar (label_string (pta a) l) of
        None \<Rightarrow> True
      | Some s \<Rightarrow> Atoi s = None)"

definition filterParam :: "analysis \<Rightarrow> nat list \<Rightarrow> nat list go_result" where
  "filterParam a labels =
     (if storeFns a = [] then Inl IndexOutOfRange
      else case filter_parents a labels (rev (storeFns a)) of
             Some result \<Rightarrow> Inr result
           | None \<Rightarrow> Inr (filter (keep_label a) labels))"

definition filterInvoke :: "nat list \<Rightarrow> nat list" where
  "filterInvoke labels = labels"

text \<open>The empty list stands for nil; the only caller truncates the result.\<close>

definition filterLabels :: "analysis \<Rightarrow> nat list \<Rightarrow> ref \<Rightarrow> nat list go_result" where
  "filterLabels a labels location =
     (case the_obj a location of
        Parameter _ _ _ \<Rightarrow> filterParam a labels
      | Call _ \<Rightarrow> Inr (filterInvoke labels)
      | _ \<Rightarrow> Inr [])"

text \<open>\<^verbatim>\<open>theIns.(*ssa.Call).Call.Method.Name()\<close>\<close>

definition method_of :: "analysis \<Rightarrow> ref option \<Rightarrow> string go_result" where
  "method_of a theIns =
     (case theIns of
        None \<Rightarrow> Inl TypeAssertionFailed
      | Some i \<Rightarrow>
          (case the_obj a i of
             Call c \<Rightarrow> (case call_method c of None \<Rightarrow> Inl NilDereference | Some m \<Rightarrow> Inr (method_name m))
           | _ \<Rightarrow> Inl TypeAssertionFailed))"

definition traverse_method ::
    "trav_fn \<Rightarrow> method_lookup \<Rightarrow> nat \<Rightarrow> ref option \<Rightarrow> analysis \<Rightarrow> analysis go_result" where
  "traverse_method trav m goID theIns a =
     (case m of
        NoDynamicType \<Rightarrow> Inl IndexOutOfRange
      | AbstractMethod \<Rightarrow> Inr a
      | Method f \<Rightarrow> trav f (fn_name (fun_of (prog a) f)) goID theIns a)"

text \<open>
  One label of \<^verbatim>\<open>pointerNewAnalysisHandleFunc\<close>. The outcome says how the loop goes on: to the next
  label, out of the function, or out of the loop with \<^verbatim>\<open>isInvoke\<close> set.
\<close>

datatype label_outcome = NextLabel | ReturnNow | InvokeCall

definition handle_label ::
    "trav_fn \<Rightarrow> pointer_fn \<Rightarrow> ref \<Rightarrow> nat \<Rightarrow> ref option \<Rightarrow> ref option \<Rightarrow> nat \<Rightarrow> analysis \<Rightarrow>
     (label_outcome \<times> analysis) go_result" where
  "handle_label trav pa location goID goInstr theIns label a =
     (let v = label_value (pta a) label; next = (\<lambda>a. Inr (NextLabel, a))
      in case the_obj a v of
           Function \<Rightarrow>
             (if sliceContainsFnCtr (prog a) (map Some (otherTests (cfg a))) (Some v) > 0 then Inr (ReturnNow, a)
              else if getParam a then next (a\<lparr>paramFunc := Some v, getParam := False\<rparr>)
              else bindR (trav v (fn_name (fun_of (prog a) v)) goID theIns a) next)
         | MakeInterface x \<Rightarrow>
             (case obj_opt a theIns of
                Some (Call _) \<Rightarrow>
                  bindR (method_of a theIns) (\<lambda>m.
                  bindR (traverse_method trav (dyn_method (pta a) location goInstr (loopIDs (loops a) goID) m)
                           goID theIns a) next)
              | Some (Go _) \<Rightarrow>
                  (case the_obj a x of
                     Parameter _ _ _ \<Rightarrow> bindR (pa x goID theIns a) next
                   | _ \<Rightarrow> next a)
              | _ \<Rightarrow> next a)
         | MakeChan _ \<Rightarrow> next (a\<lparr>chans := (chans a)\<lparr>chanName := val_name (prog a) v\<rparr>\<rparr>)
         | Alloc _ _ \<Rightarrow>
             (case theIns of
                None \<Rightarrow> next a
              | Some i \<Rightarrow>
                  (case the_obj a i of
                     Call _ \<Rightarrow>
                       (case free_var_func (pta a) (val_parent (prog a) i) i goInstr of
                          None \<Rightarrow> next a
                        | Some f \<Rightarrow> bindR (trav f (fn_name (fun_of (prog a) f)) goID theIns a) next)
                   | _ \<Rightarrow> next a))
         | _ \<Rightarrow> Inr (InvokeCall, a))"

fun handle_labels ::
    "trav_fn \<Rightarrow> pointer_fn \<Rightarrow> ref \<Rightarrow> nat \<Rightarrow> ref option \<Rightarrow> ref option \<Rightarrow> nat list \<Rightarrow> analysis \<Rightarrow>
     (label_outcome \<times> analysis) go_result" where
  "handle_labels trav pa location goID goInstr theIns [] a = Inr (NextLabel, a)"
| "handle_labels trav pa location goID goInstr theIns (l # ls) a =
     bindR (handle_label trav pa location goID goInstr theIns l a) (\<lambda>(out, a).
       case out of
         NextLabel \<Rightarrow> handle_labels trav pa location goID goInstr theIns ls a
       | _ \<Rightarrow> Inr (out, a))"

fun traverse_all :: "trav_fn \<Rightarrow> nat \<Rightarrow> ref option \<Rightarrow> ref list \<Rightarrow> analysis \<Rightarrow> analysis go_result" where
  "traverse_all trav goID theIns [] a = Inr a"
| "traverse_all trav goID theIns (f # fs) a =
     bindR (trav f (fn_name (fun_of (prog a) f)) goID theIns a) (traverse_all trav goID theIns fs)"

definition pointerNewAnalysisHandleFunc ::
    "trav_fn \<Rightarrow> pointer_fn \<Rightarrow> nat list \<Rightarrow> ref \<Rightarrow> nat \<Rightarrow> ref option \<Rightarrow> ref option \<Rightarrow> analysis \<Rightarrow> analysis go_result" where
  "pointerNewAnalysisHandleFunc trav pa labels location goID goInstr theIns a =
     (let loopID = loopIDs (loops a) goID
      in bindR (if length labels > 1 then bindR (filterLabels a labels location) (\<lambda>_. Inr []) else Inr labels) (\<lambda>labels.
         bindR (handle_labels trav pa location goID goInstr theIns labels a) (\<lambda>(out, a).
           case out of
             InvokeCall \<Rightarrow>
               (case theIns of
                  None \<Rightarrow> Inr a
                | Some i \<Rightarrow>
                    (case the_obj a i of
                       Call _ \<Rightarrow> traverse_all trav goID theIns (invoke_funcs (pta a) i location goInstr loopID) a
                     | _ \<Rightarrow> Inr a))
           | _ \<Rightarrow> Inr a)))"

definition pointerNewAnalysis ::
    "trav_fn \<Rightarrow> pointer_fn \<Rightarrow> ref \<Rightarrow> nat \<Rightarrow> ref option \<Rightarrow> analysis \<Rightarrow> analysis go_result" where
  "pointerNewAnalysis trav pa location goID theIns a =
     bindR (go_instr_opt a goID) (\<lambda>goInstr.
       let labels = pts (pta a) (Some location) goInstr (loopIDs (loops a) goID)
       in if labels = [] then Inr a
          else pointerNewAnalysisHandleFunc trav pa labels location goID goInstr theIns a)"

definition query_default :: "ref \<Rightarrow> analysis \<Rightarrow> analysis go_result" where
  "query_default location a =
     (if can_point (prog a) location then AddQuery location a
      else if can_point_elem (prog a) location
      then Inr (a\<lparr>indirectQueries := List.insert location (indirectQueries a)\<rparr>)
      else Inr a)"

definition pointer_default ::
    "trav_fn \<Rightarrow> ref \<Rightarrow> nat \<Rightarrow> ref option \<Rightarrow> analysis \<Rightarrow> analysis go_result" where
  "pointer_default trav location goID theIns a =
     bindR (query_default location a) (\<lambda>a.
       case pts0 (pta a) (Some location) of
         [] \<Rightarrow> Inr a
       | label # _ \<Rightarrow>
           (let v = label_value (pta a) label
            in case the_obj a v of
                 Function \<Rightarrow> trav v (fn_name (fun_of (prog a) v)) goID theIns a
               | MakeInterface _ \<Rightarrow>
                   bindR (method_of a theIns) (\<lambda>m.
                     traverse_method trav (dyn_method0 (pta a) location m) goID theIns a)
               | MakeChan _ \<Rightarrow> Inr (a\<lparr>chans := (chans a)\<lparr>chanName := val_name (prog a) v\<rparr>\<rparr>)
               | _ \<Rightarrow> Inr a))"

definition pointer_step ::
    "trav_fn \<Rightarrow> pointer_fn \<Rightarrow> ref \<Rightarrow> nat \<Rightarrow> ref option \<Rightarrow> analysis \<Rightarrow> analysis go_result" where
  "pointer_step trav pa location goID theIns a =
     (if (case the_obj a location of Parameter _ _ pkg \<Rightarrow> pkg = ''reflect'' | _ \<Rightarrow> False) then Inr a
      else if useDefaultPTA (cfg a) then pointer_default trav location goID theIns a
      else pointerNewAnalysis trav pa location goID theIns a)"

text \<open>\<^verbatim>\<open>pointerAnalysis\<close> calls itself on the operand of an interface value; the fuel bounds that chain.\<close>

fun pointerAnalysis :: "nat \<Rightarrow> trav_fn \<Rightarrow> ref \<Rightarrow> nat \<Rightarrow> ref option \<Rightarrow> analysis \<Rightarrow> analysis go_result" where
  "pointerAnalysis 0 trav location goID theIns a = Inl OutOfFuel"
| "pointerAnalysis (Suc n) trav location goID theIns a =
     pointer_step trav (pointerAnalysis n trav) location goID theIns a"

section \<open>Channels\<close>

definition insMakeChan :: "ref \<Rightarrow> ref \<Rightarrow> nat \<Rightarrow> analysis \<Rightarrow> analysis go_result" where
  "insMakeChan examIns sizeV ind a =
     (let bufferLen = (case the_obj a sizeV of Const n \<Rightarrow> n | Parameter _ _ _ \<Rightarrow> 10 | _ \<Rightarrow> 0)
      in case ins_block (prog a) examIns of
           None \<Rightarrow> Inl NilDereference
         | Some b \<Rightarrow>
             if ind = 0 then Inr a
             else bindR (nth_go (block_instrs (bb (prog a) b)) (int ind - 1)) (\<lambda>ch.
               Inr (case the_obj a ch of
                      Alloc comment _ \<Rightarrow>
                        a\<lparr>chans := (chans a)\<lparr>chanBuf := (chanBuf (chans a))(comment \<mapsto> bufferLen),
                            chanToken := (chanToken (chans a))(val_name (prog a) examIns \<mapsto> comment)\<rparr>\<rparr>
                    | _ \<Rightarrow>
                        a\<lparr>chans := (chans a)\<lparr>chanToken := (chanToken (chans a))(val_name (prog a) examIns \<mapsto> [])\<rparr>\<rparr>)))"

text \<open>The name of a channel loaded from \<open>x\<close>; \<open>ch\<close> is the name so far.\<close>

definition chan_name_from :: "ssa_program \<Rightarrow> ref \<Rightarrow> string \<Rightarrow> string" where
  "chan_name_from p x ch =
     (case obj p x of
        Alloc comment _ \<Rightarrow> comment
      | FreeVar \<Rightarrow> val_name p x
      | FieldAddr y \<Rightarrow>
          (case obj p y of Parameter _ _ _ \<Rightarrow> val_name p y | FieldAddr _ \<Rightarrow> val_name p y | _ \<Rightarrow> ch)
      | _ \<Rightarrow> ch)"

text \<open>The channel an operation is entered under; no entry for a channel that is not loaded.\<close>

definition chan_entry :: "analysis \<Rightarrow> ref \<Rightarrow> string option" where
  "chan_entry a chan =
     (let ch = val_name (prog a) chan
      in if ch \<in> dom (chanBuf (chans a)) then Some ch
         else case the_obj a chan of
                UnOp _ x \<Rightarrow> Some (chan_name_from (prog a) x ch)
              | _ \<Rightarrow> None)"

definition add_send :: "string \<Rightarrow> ref \<Rightarrow> analysis \<Rightarrow> analysis" where
  "add_send ch i a =
     a\<lparr>chans := (chans a)\<lparr>chanSnds := update_list (chanSnds (chans a)) ch (lookup_list (chanSnds (chans a)) ch @ [i])\<rparr>\<rparr>"

definition add_rcv :: "string \<Rightarrow> ref \<Rightarrow> analysis \<Rightarrow> analysis" where
  "add_rcv ch i a =
     a\<lparr>chans := (chans a)\<lparr>chanRcvs := update_list (chanRcvs (chans a)) ch (lookup_list (chanRcvs (chans a)) ch @ [i])\<rparr>\<rparr>"

definition insSend :: "ref \<Rightarrow> ref \<Rightarrow> nat \<Rightarrow> analysis \<Rightarrow> (string \<times> analysis) go_result" where
  "insSend examIns chan goID a =
     bindR (recordIns goID examIns a) (\<lambda>a.
       Inr (case chan_entry a chan of
              Some ch \<Rightarrow> (ch, add_send ch examIns a)
            | None \<Rightarrow> (val_name (prog a) chan, a)))"

definition insUnOp :: "token_op \<Rightarrow> ref \<Rightarrow> nat \<Rightarrow> ref \<Rightarrow> analysis \<Rightarrow> analysis go_result" where
  "insUnOp op x goID theIns a =
     (if op = MUL \<and> \<not> isLocalAddr (prog a) x
      then bindR (query_old x (updateRLockMap goID theIns (updateLockMap goID theIns a))) (recordIns goID theIns)
      else if op = ARROW
      then recordIns goID theIns (case chan_entry a x of Some ch \<Rightarrow> add_rcv ch theIns a | None \<Rightarrow> a)
      else Inr a)"

section \<open>Reads and writes\<close>

definition record_access :: "nat \<Rightarrow> ref \<Rightarrow> analysis \<Rightarrow> analysis go_result" where
  "record_access goID theIns a =
     bindR (recordIns goID theIns a) (\<lambda>a. Inr (updateRLockMap goID theIns (updateLockMap goID theIns a)))"

definition in_AfterFunc :: "analysis \<Rightarrow> bool go_result" where
  "in_AfterFunc a =
     (if length (storeFns a) > 1
      then case fnIns (storeFns a ! (length (storeFns a) - 2)) of
             None \<Rightarrow> Inl NilDereference
           | Some f \<Rightarrow> Inr (fn_name (fun_of (prog a) f) = ''AfterFunc'')
      else Inr False)"

definition store_fn :: "trav_fn \<Rightarrow> ref \<Rightarrow> nat \<Rightarrow> ref \<Rightarrow> analysis \<Rightarrow> analysis go_result" where
  "store_fn trav v goID theIns a =
     (if the_obj a v = Function then trav v (fn_name (fun_of (prog a) v)) goID (Some theIns) a else Inr a)"

definition insStore :: "trav_fn \<Rightarrow> ref \<Rightarrow> ref \<Rightarrow> nat \<Rightarrow> ref \<Rightarrow> analysis \<Rightarrow> analysis go_result" where
  "insStore trav addr v goID theIns a =
     (if isLocalAddr (prog a) addr then store_fn trav v goID theIns a
      else bindR (in_AfterFunc a) (\<lambda>after.
        if after then Inr a
        else bindR (recordIns goID theIns a) (\<lambda>a.
             bindR (query_old addr (updateLockMap goID theIns a)) (store_fn trav v goID theIns))))"

definition insFieldAddr :: "ref \<Rightarrow> nat \<Rightarrow> ref \<Rightarrow> analysis \<Rightarrow> analysis go_result" where
  "insFieldAddr x goID theIns a =
     (if isLocalAddr (prog a) x then Inr a
      else bindR (record_access goID theIns a) (query_old x))"

definition insLookUp :: "ref \<Rightarrow> nat \<Rightarrow> ref \<Rightarrow> analysis \<Rightarrow> analysis go_result" where
  "insLookUp x goID theIns a =
     (case the_obj a x of
        UnOp op y \<Rightarrow> if op = MUL \<and> \<not> isLocalAddr (prog a) y then record_access goID theIns a else Inr a
      | Parameter _ _ _ \<Rightarrow>
          if isLocalAddr (prog a) x then Inr a else bindR (record_access goID theIns a) (query_old x)
      | _ \<Rightarrow> Inr a)"

definition insChangeType :: "trav_fn \<Rightarrow> ref \<Rightarrow> nat \<Rightarrow> ref \<Rightarrow> analysis \<Rightarrow> analysis go_result" where
  "insChangeType trav x goID theIns a =
     (case the_obj a x of
        MakeClosure f _ \<Rightarrow> bindR (trav f (val_name (prog a) f) goID (Some theIns) a) (query_old x)
      | _ \<Rightarrow> Inr a)"

definition insMakeInterface :: "pointer_fn \<Rightarrow> ref \<Rightarrow> nat \<Rightarrow> ref \<Rightarrow> analysis \<Rightarrow> analysis go_result" where
  "insMakeInterface pa x goID theIns a =
     (if str_contains (val_string (prog a) x) ''complit'' then Inr a
      else case the_obj a x of
             Call _ \<Rightarrow> pa x goID (Some theIns) a
           | Parameter _ basic _ \<Rightarrow> if basic then Inr a else pa x goID (Some theIns) a
           | UnOp _ y \<Rightarrow> if the_obj a y = Global then Inr a else pa x goID (Some theIns) a
           | _ \<Rightarrow> Inr a)"

definition insMapUpdate :: "ref \<Rightarrow> nat \<Rightarrow> ref \<Rightarrow> analysis \<Rightarrow> analysis go_result" where
  "insMapUpdate m goID theIns a =
     bindR (recordIns goID theIns a) (\<lambda>a.
       let a = updateLockMap goID theIns a
       in case the_obj a m of UnOp _ x \<Rightarrow> query_old x a | _ \<Rightarrow> Inr a)"

section \<open>Calls\<close>

text \<open>
  The results of \<^verbatim>\<open>insCall\<close> are the locks that the call unlocks in a branch and the read locks that it
  unlocks.
\<close>

type_synonym call_result = "((ref list \<times> ref list) \<times> analysis) go_result"

definition no_ops :: "analysis \<Rightarrow> call_result" where
  "no_ops a = Inr (([], []), a)"

definition arg0 :: "call_common \<Rightarrow> ref go_result" where
  "arg0 c = nth_go (call_args c) 0"

definition query_arg0 :: "call_common \<Rightarrow> analysis \<Rightarrow> analysis go_result" where
  "query_arg0 c a = (if useNewPTA (cfg a) then Inr a else bindR (arg0 c) (\<lambda>x. AddQuery x a))"

definition call_delete :: "call_common \<Rightarrow> nat \<Rightarrow> ref \<Rightarrow> analysis \<Rightarrow> analysis go_result" where
  "call_delete c goID theIns a =
     bindR (arg0 c) (\<lambda>v.
       case the_obj a v of
         UnOp op x \<Rightarrow>
           if op = MUL \<and> \<not> isLocalAddr (prog a) x then bindR (record_access goID theIns a) (query_old x) else Inr a
       | _ \<Rightarrow> Inr a)"

definition delete_key :: "('k \<times> 'v) list \<Rightarrow> 'k \<Rightarrow> ('k \<times> 'v) list" where
  "delete_key m k = filter (\<lambda>e. fst e \<noteq> k) m"

definition close_chan :: "ref \<Rightarrow> analysis \<Rightarrow> analysis" where
  "close_chan arg a =
     (case the_obj a arg of
        UnOp _ x \<Rightarrow>
          (case the_obj a x of
             Alloc comment _ \<Rightarrow>
               if comment \<in> dom (chanBuf (chans a))
               then a\<lparr>chans := (chans a)\<lparr>chanBuf := (chanBuf (chans a))(comment := None),
                        chanSnds := delete_key (chanSnds (chans a)) comment\<rparr>\<rparr>
               else a
           | _ \<Rightarrow> a)
      | _ \<Rightarrow> a)"

definition call_dynamic :: "pointer_fn \<Rightarrow> call_common \<Rightarrow> nat \<Rightarrow> ref \<Rightarrow> analysis \<Rightarrow> analysis go_result" where
  "call_dynamic pa c goID theIns a =
     (if the_obj a (call_value c) \<noteq> Builtin then pa (call_value c) goID (Some theIns) a
      else if val_name (prog a) (call_value c) = ''delete'' then call_delete c goID theIns a
      else if val_name (prog a) (call_value c) = ''close'' then Inr (fold close_chan (call_args c) a)
      else Inr a)"

fun call_accesses :: "call_common \<Rightarrow> nat \<Rightarrow> ref \<Rightarrow> ref list \<Rightarrow> analysis \<Rightarrow> analysis go_result" where
  "call_accesses c goID theIns [] a = Inr a"
| "call_accesses c goID theIns (arg # args) a =
     bindR (case the_obj a arg of
              FieldAddr x \<Rightarrow>
                if \<not> isLocalAddr (prog a) x \<and> prefix_of ''Add'' (val_name (prog a) (call_value c))
                then bindR (record_access goID theIns a) (query_old x) else Inr a
            | UnOp _ x \<Rightarrow> if \<not> isLocalAddr (prog a) x then record_access goID theIns a else Inr a
            | _ \<Rightarrow> Inr a)
       (call_accesses c goID theIns args)"

definition call_static :: "trav_fn \<Rightarrow> call_common \<Rightarrow> ref \<Rightarrow> nat \<Rightarrow> ref \<Rightarrow> analysis \<Rightarrow> analysis go_result" where
  "call_static trav c f goID theIns a =
     bindR (call_accesses c goID theIns (call_args c) a) (\<lambda>a.
       if fn_blocks (fun_of (prog a) f) = None then Inr a
       else trav f (checkTokenName (prog a) (val_name (prog a) (call_value c)) theIns) goID (Some theIns) a)"

definition call_Lock :: "call_common \<Rightarrow> nat \<Rightarrow> ref \<Rightarrow> analysis \<Rightarrow> analysis go_result" where
  "call_Lock c goID theIns a =
     bindR (arg0 c) (\<lambda>lockLoc.
     bindR (query_old lockLoc a) (\<lambda>a.
       Inr (lock_acquire goID \<lparr>locAddr = lockLoc, locFreeze = False, locBloc = ins_block (prog a) theIns,
              lock_parentFn = val_parent (prog a) theIns\<rparr> a)))"

definition call_Unlock :: "call_common \<Rightarrow> nat \<Rightarrow> ref \<Rightarrow> analysis \<Rightarrow> call_result" where
  "call_Unlock c goID theIns a =
     bindR (arg0 c) (\<lambda>lockLoc.
     bindR (query_old lockLoc a) (\<lambda>a.
     bindR (lockSetContainsAt a lockSet lockLoc goID) (\<lambda>lockOp.
       if lockOp = -1 then no_ops a
       else case ins_block (prog a) theIns of
              None \<Rightarrow> Inl NilDereference
            | Some b \<Rightarrow>
                if str_contains (block_comment (bb (prog a) b)) ''if''
                then bindR (set_freeze True (lockSet (locks a) goID) (nat lockOp) a) (\<lambda>a. Inr (([lockLoc], []), a))
                else bindR (lock_remove goID (nat lockOp) a) no_ops)))"

definition call_RLock :: "call_common \<Rightarrow> nat \<Rightarrow> analysis \<Rightarrow> analysis go_result" where
  "call_RLock c goID a =
     bindR (arg0 c) (\<lambda>lockLoc.
     bindR (query_old lockLoc a) (\<lambda>a.
     bindR (lockSetContainsAt a RlockSet lockLoc goID) (\<lambda>at.
       Inr (if at = -1
            then rlock_acquire goID \<lparr>locAddr = lockLoc, locFreeze = False, locBloc = None, lock_parentFn = None\<rparr> a
            else a))))"

definition call_RUnlock :: "call_common \<Rightarrow> nat \<Rightarrow> analysis \<Rightarrow> call_result" where
  "call_RUnlock c goID a =
     bindR (arg0 c) (\<lambda>lockLoc.
     bindR (query_old lockLoc a) (\<lambda>a.
     bindR (lockSetContainsAt a RlockSet lockLoc goID) (\<lambda>at.
     bindR (if at = -1
            then let g = goCaller (gos a) goID
                 in bindR (lockSetContainsAt a RlockSet lockLoc g) (\<lambda>at.
                      if at \<noteq> -1 then set_freeze True (RlockSet (locks a) g) (nat at) a else Inr a)
            else set_freeze True (RlockSet (locks a) goID) (nat at) a)
       (\<lambda>a. Inr (([], [lockLoc]), a)))))"

definition call_sync :: "trav_fn \<Rightarrow> call_common \<Rightarrow> ref \<Rightarrow> nat \<Rightarrow> ref \<Rightarrow> analysis \<Rightarrow> call_result" where
  "call_sync trav c f goID theIns a =
     (let name = val_name (prog a) (call_value c)
      in if name = ''Range'' then bindR (trav f name goID (Some theIns) a) no_ops
         else if name = ''Lock'' then bindR (call_Lock c goID theIns a) no_ops
         else if name = ''Unlock'' then call_Unlock c goID theIns a
         else if name = ''RLock'' then bindR (call_RLock c goID a) no_ops
         else if name = ''RUnlock'' then call_RUnlock c goID a
         else if name = ''Wait'' \<or> name = ''Done''
         then bindR (recordIns goID theIns a) (\<lambda>a. bindR (query_arg0 c a) no_ops)
         else no_ops a)"

definition insCall :: "trav_fn \<Rightarrow> pointer_fn \<Rightarrow> call_common \<Rightarrow> nat \<Rightarrow> ref \<Rightarrow> analysis \<Rightarrow> call_result" where
  "insCall trav pa c goID theIns a =
     (case (StaticCallee (prog a) c, call_method c) of
        (None, None) \<Rightarrow> bindR (call_dynamic pa c goID theIns a) no_ops
      | (callee, method) \<Rightarrow>
          (case Option.bind method method_pkg of
             Some q \<Rightarrow>
               (if q \<noteq> ''sync'' \<and> the_obj a (call_value c) \<noteq> Builtin
                then bindR (pa (call_value c) goID (Some theIns) a) no_ops else no_ops a)
           | None \<Rightarrow>
               (case callee of
                  None \<Rightarrow> no_ops a
                | Some f \<Rightarrow>
                    (case fn_pkg (fun_of (prog a) f) of
                       None \<Rightarrow> no_ops a
                     | Some None \<Rightarrow> Inl NilDereference
                     | Some (Some q) \<Rightarrow>
                         if pkg_name q \<noteq> ''sync'' then bindR (call_static trav c f goID theIns a) no_ops
                         else call_sync trav c f goID theIns a))))"

section \<open>Goroutines\<close>

text \<open>\<^verbatim>\<open>goNames\<close>; for a type assertion on a parameter it queries the pointer analysis.\<close>

definition goNames :: "pointer_fn \<Rightarrow> call_common \<Rightarrow> analysis \<Rightarrow> (string \<times> analysis) go_result" where
  "goNames pa c a =
     (case the_obj a (call_value c) of
        MakeClosure f _ \<Rightarrow> Inr (val_name (prog a) f, a)
      | Function \<Rightarrow> Inr (val_name (prog a) (call_value c), a)
      | TypeAssert x \<Rightarrow>
          (case the_obj a x of
             Parameter _ _ _ \<Rightarrow>
               bindR (pa x 0 None a) (\<lambda>a.
                 Inr (case paramFunc a of None \<Rightarrow> [] | Some f \<Rightarrow> fn_name (fun_of (prog a) f), a))
           | _ \<Rightarrow> Inr ([], a))
      | _ \<Rightarrow> Inr ([], a))"

definition go_entry :: "pointer_fn \<Rightarrow> call_common \<Rightarrow> nat \<Rightarrow> ref \<Rightarrow> analysis \<Rightarrow> (ref option \<times> analysis) go_result" where
  "go_entry pa c goID theIns a =
     (case the_obj a (call_value c) of
        TypeAssert x \<Rightarrow>
          bindR (case the_obj a x of
                   Parameter _ _ _ \<Rightarrow> pa x goID (Some theIns) (a\<lparr>getParam := True\<rparr>)
                 | _ \<Rightarrow> Inr a)
            (\<lambda>a. Inr (paramFunc a, a))
      | _ \<Rightarrow> Inr (StaticCallee (prog a) c, a))"

definition new_goID :: "nat \<Rightarrow> analysis \<Rightarrow> nat" where
  "new_goID goID a =
     (if workList (gos a) = [] then goID + 1 else go_goID (last (workList (gos a))) + 1)"

text \<open>
  \<^verbatim>\<open>a.goStack = append(a.goStack, []); a.goStack[newGoID] = append(a.goStack[newGoID], ...)\<close>: an
  entry past the end of the extended slice panics.
\<close>

definition push_stack :: "nat \<Rightarrow> fnCallInfo list \<Rightarrow> fnCallInfo list list \<Rightarrow> fnCallInfo list list go_result" where
  "push_stack g s stacks =
     (let stacks = stacks @ [[]]
      in if g < length stacks then Inr (stacks[g := stacks ! g @ s]) else Inl IndexOutOfRange)"

definition spawn :: "ref \<Rightarrow> ref \<Rightarrow> nat \<Rightarrow> int \<Rightarrow> analysis \<Rightarrow> (int \<times> analysis) go_result" where
  "spawn examIns entry goID loopID a =
     (let newGoID = new_goID goID a;
          a = a\<lparr>loops := (loops a)\<lparr>loopIDs := (loopIDs (loops a))(newGoID := (if loopID > 0 then loopID else 0))\<rparr>\<rparr>
      in bindR (recordIns goID examIns a) (\<lambda>a.
           let a = (if goID = 0 \<and> insMono a = -1 then a\<lparr>insMono := int (length (RWIns a ! goID))\<rparr> else a);
               theGoCall = \<lparr>fc_id = next_call a, fnIns = Some entry, ssaIns = Some examIns\<rparr>;
               info = \<lparr>go_ssaIns = examIns, goIns_ref = examIns, entryMethod = entry, go_goID = newGoID\<rparr>
           in bindR (push_stack newGoID (storeFns a @ [theGoCall]) (goStack (gos a))) (\<lambda>stacks.
                Inr (int newGoID,
                     a\<lparr>next_call := Suc (next_call a),
                       gos := (gos a)\<lparr>goStack := stacks, goCaller := (goCaller (gos a))(newGoID := goID),
                                workList := workList (gos a) @ [info]\<rparr>\<rparr>))))"

definition insGo :: "pointer_fn \<Rightarrow> ref \<Rightarrow> call_common \<Rightarrow> nat \<Rightarrow> int \<Rightarrow> analysis \<Rightarrow> (int \<times> analysis) go_result" where
  "insGo pa examIns c goID loopID a =
     bindR (goNames pa c a) (\<lambda>(_, a).
     bindR (go_entry pa c goID examIns a) (\<lambda>(entry, a).
       case entry of
         None \<Rightarrow> Inr (-1, a)
       | Some f \<Rightarrow> spawn examIns f goID loopID a))"

section \<open>Select\<close>

text \<open>The name of a case, with the number of default cases counted down for a timeout.\<close>

definition select_ready :: "ref \<Rightarrow> string \<Rightarrow> analysis \<Rightarrow> analysis" where
  "select_ready i ch a =
     a\<lparr>sels := (sels a)\<lparr>selReady := update_list (selReady (sels a)) i (lookup_list (selReady (sels a)) i @ [ch])\<rparr>\<rparr>"

definition select_loaded :: "ref \<Rightarrow> ref \<Rightarrow> ref \<Rightarrow> analysis \<Rightarrow> string \<times> analysis" where
  "select_loaded i chan x a =
     (let ch = chan_name_from (prog a) x [];
          a = (if sliceContainsRcv (lookup_list (chanRcvs (chans a)) ch) chan then a else add_rcv ch chan a);
          a = (if sliceContainsStr (lookup_list (selReady (sels a)) i) ch then a else select_ready i ch a)
      in (ch, a))"

definition select_param ::
    "pointer_fn \<Rightarrow> ref \<Rightarrow> nat \<Rightarrow> nat \<Rightarrow> select_state \<Rightarrow> nat \<Rightarrow> analysis \<Rightarrow> (string \<times> analysis) go_result" where
  "select_param pa i cases_n k state goID a =
     bindR (pa (state_chan state) goID (Some i) a) (\<lambda>a.
       let name = chanName (chans a);
           ch = (case chanToken (chans a) name of None \<Rightarrow> [] | Some t \<Rightarrow> t);
           a = select_ready i ch a;
           unknown = (if i \<in> set (map fst (selUnknown (sels a))) then lookup_list (selUnknown (sels a)) i
                      else replicate cases_n []);
           m = update_list (selUnknown (sels a)) i unknown
       in if state_dir state = 1 \<or> state_dir state = 2
          then if k < length unknown
               then Inr (ch, a\<lparr>sels := (sels a)\<lparr>selUnknown := update_list m i (unknown[k := name])\<rparr>\<rparr>)
               else Inl IndexOutOfRange
          else Inr (ch, a\<lparr>sels := (sels a)\<lparr>selUnknown := m\<rparr>\<rparr>))"

definition select_case ::
    "pointer_fn \<Rightarrow> ref \<Rightarrow> bool \<Rightarrow> nat \<Rightarrow> nat \<Rightarrow> nat \<Rightarrow> select_state \<Rightarrow> string list \<times> int \<Rightarrow> analysis \<Rightarrow>
     ((string list \<times> int) \<times> analysis) go_result" where
  "select_case pa i blocking n goID k state acc a =
     (let (ready, def) = acc
      in case the_obj a (state_chan state) of
           UnOp _ x \<Rightarrow> (let (ch, a) = select_loaded i (state_chan state) x a in Inr ((ready[k := ch], def), a))
         | Parameter _ _ _ \<Rightarrow>
             bindR (select_param pa i (nat (int n + def)) k state goID a) (\<lambda>(ch, a). Inr ((ready[k := ch], def), a))
         | Call _ \<Rightarrow> Inr ((ready[k := ''timeOut''], if \<not> blocking then def - 1 else def), a)
         | _ \<Rightarrow> Inr ((ready, def), a))"

fun select_states ::
    "pointer_fn \<Rightarrow> ref \<Rightarrow> bool \<Rightarrow> nat \<Rightarrow> nat \<Rightarrow> nat \<Rightarrow> select_state list \<Rightarrow> string list \<times> int \<Rightarrow> analysis \<Rightarrow>
     ((string list \<times> int) \<times> analysis) go_result" where
  "select_states pa i blocking n goID k [] acc a = Inr (acc, a)"
| "select_states pa i blocking n goID k (state # states) acc a =
     bindR (select_case pa i blocking n goID k state acc a) (\<lambda>(acc, a).
       select_states pa i blocking n goID (Suc k) states acc a)"

definition insSelect ::
    "pointer_fn \<Rightarrow> ref \<Rightarrow> bool \<Rightarrow> select_state list \<Rightarrow> nat \<Rightarrow> analysis \<Rightarrow> (string list \<times> analysis) go_result" where
  "insSelect pa i blocking states goID a =
     bindR (recordIns goID i a) (\<lambda>a.
       let def = (if blocking then 0 else 1)
       in bindR (select_states pa i blocking (length states) goID 0 states (replicate (length states + nat def) [], def) a) (\<lambda>((ready, def), a).
            Inr (if def > 0 then ready[length ready - 1 := ''defaultCase''] else ready, a)))"

end
