(* ===== verification/Gorace_Traverse.thy ===== *)
theory Gorace_Traverse
  imports Gorace_Handlers
begin

text \<open>
  The traversal of \<^verbatim>\<open>gorace/analysisTools.go\<close>: \<^verbatim>\<open>visitAllInstructions\<close> with the order of blocks, the
  deferred calls and the release of locks at the end, \<^verbatim>\<open>visitLibFnInstructions\<close>, \<^verbatim>\<open>newGoroutine\<close>,
  \<^verbatim>\<open>visitGo\<close> and \<^verbatim>\<open>traverseFn\<close>. The functions call each other; \<open>trav\<close> is the recursive \<^verbatim>\<open>traverseFn\<close>
  and the fuel of \<open>traverseFn\<close> bounds the depth of that recursion, the chains of \<^verbatim>\<open>pointerAnalysis\<close> and
  the rounds of \<^verbatim>\<open>visitGo\<close>; running out is the error \<^const>\<open>OutOfFuel\<close>.
\<close>

section \<open>The order of blocks\<close>

text \<open>\<^verbatim>\<open>strings.Split(s, ".done")[0]\<close>\<close>

fun before_done :: "string \<Rightarrow> string" where
  "before_done [] = []"
| "before_done (c # s) = (if prefix_of ''.done'' (c # s) then [] else c # before_done s)"

text \<open>A \<^verbatim>\<open>.done\<close> block is held back until the blocks of its statement are over.\<close>

fun order_loop :: "ssa_program \<Rightarrow> blk list \<Rightarrow> blk list \<Rightarrow> blk list \<Rightarrow> string \<Rightarrow> blk list" where
  "order_loop p [] bVisit pushBack statement = bVisit"
| "order_loop p (b # rest) bVisit pushBack statement =
     (let c = block_comment (bb p b);
          flush = pushBack \<noteq> [] \<and> \<not> str_contains c statement;
          bVisit = (if flush then bVisit @ pushBack else bVisit);
          pushBack = (if flush then [] else pushBack);
          statement = (if flush then [] else statement);
          hold = str_contains c ''.done'' \<and> rest \<noteq> [];
          statement = (if hold then before_done c else statement);
          pushBack = (if hold then pushBack @ [b] else pushBack);
          bVisit = (if hold then bVisit else bVisit @ [b])
      in if pushBack \<noteq> [] \<and> rest = [] then order_loop p rest (bVisit @ pushBack) [] statement
         else order_loop p rest bVisit pushBack statement)"

definition bVisit_of :: "ssa_program \<Rightarrow> ref \<Rightarrow> blk list" where
  "bVisit_of p fn = order_loop p (DomPreorder p fn) [] [] []"

section \<open>Local variables of a visit\<close>

record visit =
  toDefer :: "ref list"
  toUnlock :: "ref list"
  toRUnlock :: "ref list"
  readyChans :: "string list"
  v_selIns :: "ref option"
  selCount :: nat
  defCase :: bool
  v_ifIns :: "ref option"
  ifEnds :: "ref list"

definition visit_init :: visit where
  "visit_init = \<lparr>toDefer = [], toUnlock = [], toRUnlock = [], readyChans = [], v_selIns = None, selCount = 0,
                 defCase = False, v_ifIns = None, ifEnds = []\<rparr>"

type_synonym visit_state = "visit \<times> analysis"

section \<open>Deferred calls\<close>

definition defer_call :: "analysis \<Rightarrow> ref \<Rightarrow> call_common go_result" where
  "defer_call a d = (case the_obj a d of Defer c \<Rightarrow> Inr c | _ \<Rightarrow> Inl TypeAssertionFailed)"

definition note_unlock :: "ref \<Rightarrow> visit_state \<Rightarrow> visit_state" where
  "note_unlock loc s = ((fst s)\<lparr>toUnlock := toUnlock (fst s) @ [loc]\<rparr>, snd s)"

definition note_runlock :: "ref \<Rightarrow> visit_state \<Rightarrow> visit_state" where
  "note_runlock loc s = ((fst s)\<lparr>toRUnlock := toRUnlock (fst s) @ [loc]\<rparr>, snd s)"

definition remove_found :: "ref \<Rightarrow> nat \<Rightarrow> analysis \<Rightarrow> analysis go_result" where
  "remove_found loc goID a =
     bindR (lockSetContainsAt a lockSet loc goID) (\<lambda>z. if z = -1 then Inr a else lock_remove goID (nat z) a)"

text \<open>
  One deferred call. At a \<^verbatim>\<open>rundefers\<close> instruction (\<open>at_end\<close> false) an \<^verbatim>\<open>Unlock\<close> is only noted; at the
  end of the function the lock is also removed at once.
\<close>

definition run_deferred :: "trav_fn \<Rightarrow> bool \<Rightarrow> nat \<Rightarrow> ref \<Rightarrow> visit_state \<Rightarrow> visit_state go_result" where
  "run_deferred trav at_end goID dIns s =
     (let (v, a) = s
      in bindR (defer_call a dIns) (\<lambda>c.
         if the_obj a (call_value c) = Builtin then Inr s
         else case StaticCallee (prog a) c of
                None \<Rightarrow> Inr s
              | Some f \<Rightarrow>
                  bindR (callee_pkg_name (prog a) c) (\<lambda>pkg.
                    let name = fn_name (fun_of (prog a) f); vname = val_name (prog a) (call_value c)
                    in if pkg \<noteq> ''sync''
                       then bindR (trav f (checkTokenNameDefer (prog a) vname c) goID (Some dIns) a) (\<lambda>a. Inr (v, a))
                       else if name = ''Unlock''
                       then bindR (arg0 c) (\<lambda>loc.
                            bindR (query_old loc a) (\<lambda>a.
                            bindR (if at_end then remove_found loc goID a else Inr a) (\<lambda>a. Inr (note_unlock loc (v, a)))))
                       else if name = ''RUnlock''
                       then bindR (arg0 c) (\<lambda>loc. bindR (query_old loc a) (\<lambda>a. Inr (note_runlock loc (v, a))))
                       else if vname = ''Done''
                       then bindR (recordIns goID dIns a) (\<lambda>a. bindR (query_arg0 c a) (\<lambda>a. Inr (v, a)))
                       else Inr s)))"

fun run_all_deferred :: "trav_fn \<Rightarrow> bool \<Rightarrow> nat \<Rightarrow> ref \<Rightarrow> ref list \<Rightarrow> visit_state \<Rightarrow> visit_state go_result" where
  "run_all_deferred trav at_end goID theIns [] s = Inr s"
| "run_all_deferred trav at_end goID theIns (d # ds) s =
     bindR (run_deferred trav at_end goID d
              (fst s, if at_end then snd s else (snd s)\<lparr>deferToRet := (deferToRet (snd s))(d \<mapsto> theIns)\<rparr>))
       (run_all_deferred trav at_end goID theIns ds)"

definition at_rundefers :: "trav_fn \<Rightarrow> nat \<Rightarrow> ref \<Rightarrow> visit_state \<Rightarrow> visit_state go_result" where
  "at_rundefers trav goID theIns s =
     (if val_string (prog (snd s)) theIns = ''rundefers''
      then bindR (recordIns goID theIns (snd s)) (\<lambda>a.
           bindR (run_all_deferred trav False goID theIns (toDefer (fst s)) (fst s, a)) (\<lambda>(v, a).
             Inr (v\<lparr>toDefer := []\<rparr>, a)))
      else Inr s)"

section \<open>One instruction\<close>

text \<open>The test for an excluded package, which leaves the function.\<close>

definition excluded_ins :: "analysis \<Rightarrow> ref \<Rightarrow> ref \<Rightarrow> bool go_result" where
  "excluded_ins a fn theIns =
     (if excludedPkgs (cfg a) = [] \<or> isSynthetic (prog a) fn then Inr False
      else case val_parent (prog a) theIns of
             None \<Rightarrow> Inl NilDereference
           | Some f \<Rightarrow>
               (case fn_pkg (fun_of (prog a) f) of
                  Some (Some q) \<Rightarrow> Inr (pkg_name q \<in> set (excludedPkgs (cfg a)))
                | _ \<Rightarrow> Inl NilDereference))"

definition block_of :: "analysis \<Rightarrow> ref \<Rightarrow> basic_block go_result" where
  "block_of a i = (case ins_block (prog a) i of None \<Rightarrow> Inl NilDereference | Some b \<Rightarrow> Inr (bb (prog a) b))"

definition if_block :: "string \<Rightarrow> bool" where
  "if_block c \<longleftrightarrow> c = ''if.then'' \<or> c = ''if.else'' \<or> c = ''if.done''"

definition visit_send :: "nat \<Rightarrow> ref \<Rightarrow> ref \<Rightarrow> analysis \<Rightarrow> analysis go_result" where
  "visit_send goID theIns chan a =
     bindR (insSend theIns chan goID a) (\<lambda>(chNm, a).
       if list_ex (\<lambda>e. sliceContainsStr (snd e) chNm) (selReady (sels a))
       then bindR (block_of a theIns) (\<lambda>b.
              if if_block (block_comment b)
              then bindR (nth_go (block_instrs b) 0) (\<lambda>i.
                     Inr (a\<lparr>ifs := (ifs a)\<lparr>commIfSucc := commIfSucc (ifs a) @ [i]\<rparr>\<rparr>))
              else Inr a)
       else Inr a)"

text \<open>
  A store to a local variable right after its allocation is its initialisation, and not recorded.
\<close>

definition is_alloc :: "analysis \<Rightarrow> ref \<Rightarrow> bool" where
  "is_alloc a x = (case the_obj a x of Alloc _ _ \<Rightarrow> True | _ \<Rightarrow> False)"

definition initialising_store :: "analysis \<Rightarrow> ref list \<Rightarrow> nat \<Rightarrow> ref \<Rightarrow> ref \<Rightarrow> bool" where
  "initialising_store a instrs ii addr v =
     (is_alloc a addr \<and> ii > 0 \<and>
      (case the_obj a (instrs ! (ii - 1)) of
         Alloc _ _ \<Rightarrow> True
       | MakeChan _ \<Rightarrow> True
       | Extract \<Rightarrow> ii \<ge> 2 \<and> is_alloc a (instrs ! (ii - 2))
       | _ \<Rightarrow> is_alloc a v))"

text \<open>The free variables of a closure spawned in a loop that are bound to variables of the loop.\<close>

definition loop_binding :: "ref \<Rightarrow> ref \<Rightarrow> nat \<Rightarrow> ref \<Rightarrow> analysis \<Rightarrow> analysis go_result" where
  "loop_binding goI f i b a =
     (case the_obj a b of
        Alloc comment _ \<Rightarrow>
          if sliceContainsStr (case val_parent (prog a) goI of None \<Rightarrow> [] | Some pf \<Rightarrow> allocLoop (loops a) pf) comment
          then bindR (nth_go (fn_free_vars (fun_of (prog a) f)) (int i)) (\<lambda>fv.
                 Inr (a\<lparr>loops := (loops a)\<lparr>bindingFV := (bindingFV (loops a))(goI := bindingFV (loops a) goI @ [fv])\<rparr>\<rparr>))
          else Inr a
      | _ \<Rightarrow> Inr a)"

fun loop_bindings :: "ref \<Rightarrow> ref \<Rightarrow> nat \<Rightarrow> ref list \<Rightarrow> analysis \<Rightarrow> analysis go_result" where
  "loop_bindings goI f i [] a = Inr a"
| "loop_bindings goI f i (b # bs) a = bindR (loop_binding goI f i b a) (loop_bindings goI f (Suc i) bs)"

definition visit_go :: "pointer_fn \<Rightarrow> nat \<Rightarrow> ref \<Rightarrow> call_common \<Rightarrow> analysis \<Rightarrow> analysis go_result" where
  "visit_go pa goID theIns c a =
     bindR (case the_obj a (call_value c) of
              MakeClosure f bindings \<Rightarrow>
                if bindings \<noteq> [] \<and> inLoop (loops a) then loop_bindings theIns f 0 bindings a else Inr a
            | _ \<Rightarrow> Inr a)
       (\<lambda>a. if inLoop (loops a)
            then bindR (insGo pa theIns c goID 1 a) (\<lambda>(new1, a).
                 bindR (insGo pa theIns c goID 2 a) (\<lambda>(new2, a).
                   Inr (if new2 \<noteq> -1 \<and> theIns \<notin> set (map fst (twinGoID (loops a)))
                        then a\<lparr>loops := (loops a)\<lparr>twinGoID :=
                               update_list (twinGoID (loops a)) theIns (if new1 \<noteq> -1 then nat new1 else 0, nat new2)\<rparr>\<rparr>
                        else a)))
            else bindR (insGo pa theIns c goID 0 a) (\<lambda>(_, a). Inr a))"

definition visit_alloc :: "nat \<Rightarrow> ref \<Rightarrow> string \<Rightarrow> analysis \<Rightarrow> analysis go_result" where
  "visit_alloc goID theIns comment a =
     bindR (recordIns goID theIns a) (\<lambda>a.
       if inLoop (loops a)
       then case val_parent (prog a) theIns of
              None \<Rightarrow> Inr a
            | Some f \<Rightarrow> Inr (a\<lparr>loops := (loops a)\<lparr>allocLoop := (allocLoop (loops a))
                              (f := allocLoop (loops a) f @ [comment])\<rparr>\<rparr>)
       else Inr a)"

definition visit_return :: "ref \<Rightarrow> nat \<Rightarrow> ref \<Rightarrow> analysis \<Rightarrow> analysis go_result" where
  "visit_return fn goID theIns a =
     bindR (recordIns goID theIns a) (\<lambda>a.
     bindR (block_of a theIns) (\<lambda>b.
       Inr (if if_block (block_comment b)
            then a\<lparr>ifs := (ifs a)\<lparr>ifFnReturn := (ifFnReturn (ifs a))(fn \<mapsto> theIns)\<rparr>\<rparr> else a)))"

definition keep :: "visit \<Rightarrow> analysis \<Rightarrow> visit_state go_result" where
  "keep v a = Inr (v, a)"

text \<open>The type switch over the instruction.\<close>

definition dispatch ::
    "trav_fn \<Rightarrow> pointer_fn \<Rightarrow> ref \<Rightarrow> nat \<Rightarrow> blk \<Rightarrow> nat \<Rightarrow> ref \<Rightarrow> visit_state \<Rightarrow> visit_state go_result" where
  "dispatch trav pa fn goID aBlock ii theIns s =
     (let (v, a) = s; instrs = block_instrs (bb (prog a) aBlock)
      in case the_obj a theIns of
           MakeChan sizeV \<Rightarrow> bindR (insMakeChan theIns sizeV ii a) (keep v)
         | Send chan \<Rightarrow> bindR (visit_send goID theIns chan a) (keep v)
         | Store addr val \<Rightarrow>
             if initialising_store a instrs ii addr val then Inr s
             else bindR (insStore trav addr val goID theIns a) (keep v)
         | UnOp op x \<Rightarrow> bindR (insUnOp op x goID theIns a) (keep v)
         | FieldAddr x \<Rightarrow> bindR (insFieldAddr x goID theIns a) (keep v)
         | Lookup x \<Rightarrow> bindR (insLookUp x goID theIns a) (keep v)
         | ChangeType x \<Rightarrow> bindR (insChangeType trav x goID theIns a) (keep v)
         | Defer _ \<Rightarrow> Inr (v\<lparr>toDefer := theIns # toDefer v\<rparr>, a)
         | MakeInterface x \<Rightarrow> bindR (insMakeInterface pa x goID theIns a) (keep v)
         | Call c \<Rightarrow>
             bindR (insCall trav pa c goID theIns a) (\<lambda>((us, rus), a).
               Inr (v\<lparr>toUnlock := toUnlock v @ us, toRUnlock := toRUnlock v @ rus\<rparr>, a))
         | Alloc comment _ \<Rightarrow> bindR (visit_alloc goID theIns comment a) (keep v)
         | Go c \<Rightarrow> bindR (visit_go pa goID theIns c a) (keep v)
         | Return \<Rightarrow> bindR (visit_return fn goID theIns a) (keep v)
         | MapUpdate m \<Rightarrow> bindR (insMapUpdate m goID theIns a) (keep v)
         | Select blocking states \<Rightarrow>
             bindR (insSelect pa theIns blocking states goID a) (\<lambda>(ready, a).
               Inr (v\<lparr>readyChans := ready, selCount := 0, v_selIns := Some theIns\<rparr>,
                    a\<lparr>sels := (sels a)\<lparr>selectBloc := (selectBloc (sels a))(block_index (bb (prog a) aBlock) \<mapsto> theIns)\<rparr>\<rparr>))
         | IfIns \<Rightarrow> bindR (recordIns goID theIns a) (\<lambda>a. Inr (v\<lparr>v_ifIns := Some theIns\<rparr>, a))
         | _ \<Rightarrow> bindR (recordIns goID theIns a) (keep v))"

text \<open>At the last instruction of a block the locks unlocked in a branch are thawed again.\<close>

fun thaw :: "ref list \<Rightarrow> nat \<Rightarrow> analysis \<Rightarrow> analysis go_result" where
  "thaw [] goID a = Inr a"
| "thaw (l # ls) goID a =
     bindR (lockSetContainsAt a lockSet l goID) (\<lambda>z.
     bindR (if z \<noteq> -1 then set_freeze False (lockSet (locks a) goID) (nat z) a else Inr a) (thaw ls goID))"

fun rthaw :: "ref list \<Rightarrow> nat \<Rightarrow> analysis \<Rightarrow> analysis go_result" where
  "rthaw [] goID a = Inr a"
| "rthaw (l # ls) goID a =
     bindR (lockSetContainsAt a RlockSet l goID) (\<lambda>z.
     bindR (if z \<noteq> -1 then set_freeze False (RlockSet (locks a) goID) (nat z) a else Inr a) (rthaw ls goID))"

definition thaw_locks :: "bool \<Rightarrow> nat \<Rightarrow> visit_state \<Rightarrow> visit_state go_result" where
  "thaw_locks last_ins goID s =
     (let (v, a) = s
      in if last_ins \<and> toUnlock v \<noteq> [] then bindR (thaw (toUnlock v) goID a) (keep (v\<lparr>toUnlock := []\<rparr>))
         else if last_ins \<and> toRUnlock v \<noteq> [] then bindR (rthaw (toRUnlock v) goID a) (keep (v\<lparr>toRUnlock := []\<rparr>))
         else Inr s)"

text \<open>
  The bookkeeping of select cases: the first and the last instruction of a ready case and every
  instruction in between are mapped to the channel and to the select statement.
\<close>

definition last_recorded :: "nat \<Rightarrow> analysis \<Rightarrow> ref go_result" where
  "last_recorded goID a =
     bindR (nth_go (RWIns a) (int goID)) (\<lambda>rs. bindR (nth_go rs (int (length rs) - 1)) (\<lambda>r. Inr (ins r)))"

definition record_if_new :: "nat \<Rightarrow> ref \<Rightarrow> analysis \<Rightarrow> analysis go_result" where
  "record_if_new goID theIns a =
     bindR (last_recorded goID a) (\<lambda>i. if i \<noteq> theIns then recordIns goID theIns a else Inr a)"

definition case_body :: "ref \<Rightarrow> ref option \<Rightarrow> analysis \<Rightarrow> analysis" where
  "case_body theIns selI a = a\<lparr>sels := (sels a)\<lparr>selectCaseBody := (selectCaseBody (sels a))(theIns \<mapsto> selI)\<rparr>\<rparr>"

definition case_begin :: "ref \<Rightarrow> string \<Rightarrow> analysis \<Rightarrow> analysis" where
  "case_begin theIns ch a = a\<lparr>sels := (sels a)\<lparr>selectCaseBegin := (selectCaseBegin (sels a))(theIns \<mapsto> ch)\<rparr>\<rparr>"

definition case_end :: "ref \<Rightarrow> string \<Rightarrow> analysis \<Rightarrow> analysis" where
  "case_end theIns ch a = a\<lparr>sels := (sels a)\<lparr>selectCaseEnd := (selectCaseEnd (sels a))(theIns \<mapsto> ch)\<rparr>\<rparr>"

text \<open>\<^verbatim>\<open>activeCase && readyChans[selCount] != "defaultCase" && ... != "timeOut"\<close>: the ready channel, if so.\<close>

definition active_chan :: "bool \<Rightarrow> visit \<Rightarrow> string option go_result" where
  "active_chan activeCase v =
     (if activeCase
      then bindR (nth_go (readyChans v) (int (selCount v))) (\<lambda>ch.
             Inr (if ch \<noteq> ''defaultCase'' \<and> ch \<noteq> ''timeOut'' then Some ch else None))
      else Inr None)"

definition note_case :: "bool \<Rightarrow> nat \<Rightarrow> nat \<Rightarrow> bool \<Rightarrow> ref \<Rightarrow> visit_state \<Rightarrow> visit_state go_result" where
  "note_case activeCase goID ii last_ins theIns s =
     (let (v, a) = s
      in bindR (active_chan activeCase v) (\<lambda>ch.
           case ch of
             None \<Rightarrow> Inr s
           | Some ch \<Rightarrow>
               if ii = 0
               then bindR (record_if_new goID theIns (case_begin theIns ch a)) (\<lambda>a. Inr (v, case_body theIns (v_selIns v) a))
               else if last_ins
               then bindR (record_if_new goID theIns (case_end theIns ch a)) (\<lambda>a. Inr (v, case_body theIns (v_selIns v) a))
               else Inr (v, case_body theIns (v_selIns v) a)))"

definition note_done :: "bool \<Rightarrow> nat \<Rightarrow> nat \<Rightarrow> ref \<Rightarrow> visit_state \<Rightarrow> visit_state go_result" where
  "note_done selDone goID ii theIns s =
     (let (v, a) = s; a = (if defCase v then case_body theIns (v_selIns v) a else a)
      in if selDone \<and> ii = 0
         then bindR (nth_go (RWIns a) (int goID)) (\<lambda>rs.
                if sliceContainsInsInfoAt rs theIns = -1 then bindR (recordIns goID theIns a) (keep v) else Inr (v, a))
         else Inr (v, a))"

text \<open>The body of the loop over instructions; \<^const>\<open>None\<close> as a result is the early return.\<close>

definition visit_ins ::
    "trav_fn \<Rightarrow> pointer_fn \<Rightarrow> ref \<Rightarrow> nat \<Rightarrow> blk \<Rightarrow> bool \<times> bool \<Rightarrow> nat \<Rightarrow> bool \<Rightarrow> ref \<Rightarrow> visit_state \<Rightarrow>
     (visit option \<times> analysis) go_result" where
  "visit_ins trav pa fn goID aBlock flags ii last_ins theIns s =
     bindR (at_rundefers trav goID theIns s) (\<lambda>s.
     bindR (excluded_ins (snd s) fn theIns) (\<lambda>excluded.
       if excluded then Inr (None, snd s)
       else bindR (dispatch trav pa fn goID aBlock ii theIns s) (\<lambda>s.
            bindR (thaw_locks last_ins goID s) (\<lambda>s.
            bindR (note_case (fst flags) goID ii last_ins theIns s) (\<lambda>s.
            bindR (note_done (snd flags) goID ii theIns s) (\<lambda>(v, a). Inr (Some v, a)))))))"

fun visit_instrs ::
    "trav_fn \<Rightarrow> pointer_fn \<Rightarrow> ref \<Rightarrow> nat \<Rightarrow> blk \<Rightarrow> bool \<times> bool \<Rightarrow> nat \<Rightarrow> ref list \<Rightarrow> visit_state \<Rightarrow>
     (visit option \<times> analysis) go_result" where
  "visit_instrs trav pa fn goID aBlock flags ii [] s = Inr (Some (fst s), snd s)"
| "visit_instrs trav pa fn goID aBlock flags ii (i # is) s =
     bindR (visit_ins trav pa fn goID aBlock flags ii (is = []) i s) (\<lambda>(ov, a).
       case ov of
         None \<Rightarrow> Inr (None, a)
       | Some v \<Rightarrow> visit_instrs trav pa fn goID aBlock flags (Suc ii) is (v, a))"

section \<open>One block\<close>

definition first_ins :: "analysis \<Rightarrow> blk \<Rightarrow> ref go_result" where
  "first_ins a b = nth_go (block_instrs (bb (prog a) b)) 0"

definition last_ins_of :: "analysis \<Rightarrow> blk \<Rightarrow> ref go_result" where
  "last_ins_of a b = (let is = block_instrs (bb (prog a) b) in nth_go is (int (length is) - 1))"

definition enter_select_done :: "blk \<Rightarrow> visit_state \<Rightarrow> (bool \<times> visit_state) go_result" where
  "enter_select_done b s =
     (let (v, a) = s
      in if block_comment (bb (prog a) b) = ''select.done''
         then bindR (first_ins a b) (\<lambda>i.
                Inr (True, v, a\<lparr>sels := (sels a)\<lparr>selectDone := (selectDone (sels a))(i \<mapsto> v_selIns v)\<rparr>\<rparr>))
         else Inr (False, s))"

definition enter_default :: "blk \<Rightarrow> visit_state \<Rightarrow> visit_state go_result" where
  "enter_default b s =
     (let (v, a) = s
      in case v_selIns v of
           None \<Rightarrow> Inr s
         | Some sel \<Rightarrow>
             if block_comment (bb (prog a) b) = ''select.next'' \<and>
                (case the_obj a sel of Select blocking _ \<Rightarrow> \<not> blocking | _ \<Rightarrow> False)
             then bindR (nth_go (readyChans v) (int (selCount v))) (\<lambda>ch.
                    if ch = ''defaultCase''
                    then bindR (first_ins a b) (\<lambda>i.
                         bindR (last_ins_of a b) (\<lambda>j.
                           Inr (v\<lparr>defCase := True\<rparr>, case_end j ch (case_begin i ch a))))
                    else Inr s)
             else Inr s)"

definition enter_branch :: "blk \<Rightarrow> visit_state \<Rightarrow> visit_state go_result" where
  "enter_branch b s =
     (let (v, a) = s
      in case v_ifIns v of
           None \<Rightarrow> Inr s
         | Some i \<Rightarrow>
             if if_block (block_comment (bb (prog a) b))
             then bindR (first_ins a b) (\<lambda>f.
                    let a = a\<lparr>ifs := (ifs a)\<lparr>ifSuccBegin := update_list (ifSuccBegin (ifs a)) f i\<rparr>\<rparr>
                    in if block_succs (bb (prog a) b) = []
                       then bindR (last_ins_of a b) (\<lambda>l. Inr (v\<lparr>ifEnds := ifEnds v @ [l]\<rparr>, a))
                       else Inr (v, a))
             else Inr s)"

definition enter_loop :: "blk \<Rightarrow> analysis \<Rightarrow> analysis" where
  "enter_loop b a =
     (if block_comment (bb (prog a) b) \<in> {''for.body'', ''rangeindex.body'', ''rangeiter.body''}
      then a\<lparr>loops := (loops a)\<lparr>inLoop := True\<rparr>\<rparr> else a)"

definition leave_loop :: "blk \<Rightarrow> analysis \<Rightarrow> analysis" where
  "leave_loop b a =
     (if block_comment (bb (prog a) b) \<in> {''for.body'', ''rangeindex.body''} \<and> inLoop (loops a)
      then a\<lparr>loops := (loops a)\<lparr>inLoop := False\<rparr>\<rparr> else a)"

text \<open>The end of a block; after the last block the open branches are mapped to the final return.\<close>

definition leave_block :: "ref \<Rightarrow> blk \<Rightarrow> bool \<Rightarrow> bool \<Rightarrow> visit_state \<Rightarrow> visit_state go_result" where
  "leave_block fn b activeCase last_block s =
     (let (v, a) = s; a = leave_loop b a
      in bindR (active_chan activeCase v) (\<lambda>ch.
         let v = (if ch \<noteq> None then v\<lparr>selCount := Suc (selCount v)\<rparr> else v)
         in Inr (v, if last_block
                    then a\<lparr>ifs := (ifs a)\<lparr>ifSuccEnd :=
                           fold (\<lambda>e m. m(e \<mapsto> ifFnReturn (ifs a) fn)) (ifEnds v) (ifSuccEnd (ifs a))\<rparr>\<rparr>
                    else a)))"

definition visit_block ::
    "trav_fn \<Rightarrow> pointer_fn \<Rightarrow> ref \<Rightarrow> nat \<Rightarrow> bool \<Rightarrow> blk \<Rightarrow> visit_state \<Rightarrow> (visit option \<times> analysis) go_result" where
  "visit_block trav pa fn goID last_block b s =
     (let c = block_comment (bb (prog (snd s)) b)
      in if c = ''recover'' then Inr (Some (fst s), snd s)
         else bindR (enter_select_done b s) (\<lambda>(selDone, s).
           let (v, a) = s; in_case = (c = ''select.body'' \<and> selCount v < length (readyChans v))
           in if in_case \<and> readyChans v ! selCount v = []
              then Inr (Some (v\<lparr>selCount := Suc (selCount v)\<rparr>), a)
              else bindR (enter_default b s) (\<lambda>s.
                   bindR (enter_branch b s) (\<lambda>(v, a).
                   bindR (visit_instrs trav pa fn goID b (in_case, selDone) 0 (block_instrs (bb (prog a) b))
                            (v, enter_loop b a)) (\<lambda>(ov, a).
                     case ov of
                       None \<Rightarrow> Inr (None, a)
                     | Some v \<Rightarrow>
                         bindR (leave_block fn b in_case last_block (v, a)) (\<lambda>(v, a). Inr (Some v, a)))))))"

fun visit_blocks ::
    "trav_fn \<Rightarrow> pointer_fn \<Rightarrow> ref \<Rightarrow> nat \<Rightarrow> blk list \<Rightarrow> visit_state \<Rightarrow> (visit option \<times> analysis) go_result" where
  "visit_blocks trav pa fn goID [] s = Inr (Some (fst s), snd s)"
| "visit_blocks trav pa fn goID (b # bs) s =
     bindR (visit_block trav pa fn goID (bs = []) b s) (\<lambda>(ov, a).
       case ov of
         None \<Rightarrow> Inr (None, a)
       | Some v \<Rightarrow> visit_blocks trav pa fn goID bs (v, a))"

section \<open>The end of a function\<close>

text \<open>
  The trace message of the second branch reads the entry of the current goroutine at an index of the
  lock set of its spawner.
\<close>

fun release_noted :: "ref list \<Rightarrow> nat \<Rightarrow> analysis \<Rightarrow> analysis go_result" where
  "release_noted [] goID a = Inr a"
| "release_noted (loc # locs) goID a =
     bindR (lockSetContainsAt a lockSet loc goID) (\<lambda>z.
     bindR (if z \<ge> 0 then lock_remove goID (nat z) a
            else let g = goCaller (gos a) goID
                 in bindR (lockSetContainsAt a lockSet loc g) (\<lambda>z.
                      if z = -1 then Inr a
                      else bindR (nth_go (slice_elems (locks a) (lockSet (locks a) goID)) z) (\<lambda>_.
                             lock_remove g (nat z) a)))
       (release_noted locs goID))"

fun rrelease_noted :: "ref list \<Rightarrow> nat \<Rightarrow> analysis \<Rightarrow> analysis go_result" where
  "rrelease_noted [] goID a = Inr a"
| "rrelease_noted (loc # locs) goID a =
     bindR (lockSetContainsAt a RlockSet loc goID) (\<lambda>z.
     bindR (if z \<ge> 0 then rlock_remove goID (nat z) a else Inr a) (rrelease_noted locs goID))"

definition lock_count :: "nat \<Rightarrow> analysis \<Rightarrow> nat" where
  "lock_count goID a = length (slice_elems (locks a) (lockSet (locks a) goID))"

text \<open>
  \<^verbatim>\<open>for i := lockSetSize; i < len(a.lockSet[goID]); i++\<close> removes the entry \<open>i\<close> in each round; \<open>n\<close>
  bounds the rounds and starts at the number of entries.
\<close>

fun release_rest :: "nat \<Rightarrow> nat \<Rightarrow> nat \<Rightarrow> analysis \<Rightarrow> analysis go_result" where
  "release_rest 0 i goID a = Inr a"
| "release_rest (Suc n) i goID a =
     (if i < lock_count goID a then bindR (lock_remove goID i a) (release_rest n (Suc i) goID) else Inr a)"

definition top_name :: "analysis \<Rightarrow> string go_result" where
  "top_name a =
     (if storeFns a = [] then Inl IndexOutOfRange
      else case fnIns (last (storeFns a)) of None \<Rightarrow> Inl NilDereference | Some f \<Rightarrow> Inr (fn_name (fun_of (prog a) f)))"

definition finish_visit ::
    "trav_fn \<Rightarrow> (analysis \<Rightarrow> analysis go_result) \<Rightarrow> ref \<Rightarrow> nat \<Rightarrow> nat \<Rightarrow> visit_state \<Rightarrow> analysis go_result" where
  "finish_visit trav go_on fn goID lockSetSize s =
     bindR (run_all_deferred trav True goID 0 (toDefer (fst s)) s) (\<lambda>(v, a).
     bindR (release_noted (toUnlock v) goID a) (\<lambda>a.
     bindR (rrelease_noted (toRUnlock v) goID a) (\<lambda>a.
     bindR (release_rest (lock_count goID a) lockSetSize goID a) (\<lambda>a.
     bindR (top_name a) (\<lambda>top.
     bindR (if fn_name (fun_of (prog a) fn) = top
            then updateRecords (fn_name (fun_of (prog a) fn)) goID ''POP  '' fn None a else Inr a)
       go_on)))))"

section \<open>Functions and goroutines\<close>

definition is_entry :: "analysis \<Rightarrow> ref \<Rightarrow> bool" where
  "is_entry a fn \<longleftrightarrow> fn_name (fun_of (prog a) fn) = entryFn (cfg a)"

definition begin_visit :: "ref \<Rightarrow> nat \<Rightarrow> analysis \<Rightarrow> analysis" where
  "begin_visit fn goID a =
     (let a = (if \<not> isSynthetic (prog a) fn \<and> is_entry a fn
               then a\<lparr>loops := (loops a)\<lparr>loopIDs := (loopIDs (loops a))(goID := 0)\<rparr>,
                      gos := (gos a)\<lparr>goStack := goStack (gos a) @ [[]]\<rparr>\<rparr>
               else a);
          a = (if levels a goID = None \<and> goID > 0 then a\<lparr>levels := (levels a)(goID \<mapsto> 1)\<rparr> else a)
      in if is_entry a fn then a\<lparr>RWIns := RWIns a @ [[]]\<rparr> else a)"

definition visitAllInstructions ::
    "trav_fn \<Rightarrow> pointer_fn \<Rightarrow> (analysis \<Rightarrow> analysis go_result) \<Rightarrow> ref \<Rightarrow> nat \<Rightarrow> analysis \<Rightarrow> analysis go_result" where
  "visitAllInstructions trav pa go_on fn goID a =
     (if \<not> isSynthetic (prog a) fn \<and> is_entry a fn \<and> \<not> (goID = 0 \<and> length (storeFns a) = 1) then Inr a
      else let lockSetSize = lock_count goID a; a = begin_visit fn goID a
           in bindR (visit_blocks trav pa fn goID (bVisit_of (prog a) fn) (visit_init, a)) (\<lambda>(ov, a).
                case ov of
                  None \<Rightarrow> Inr a
                | Some v \<Rightarrow> finish_visit trav go_on fn goID lockSetSize (v, a)))"

text \<open>The instructions of a library function that trigger a visit, in the order of its blocks.\<close>

definition calls_of_interest :: "analysis \<Rightarrow> ref \<Rightarrow> ref list" where
  "calls_of_interest a fn =
     filter (\<lambda>i. case the_obj a i of
                   Call c \<Rightarrow> (case StaticCallee (prog a) c of None \<Rightarrow> False | Some f \<Rightarrow> fromPkgsOfInterest a f)
                 | _ \<Rightarrow> False)
       (concat (map (\<lambda>b. if block_comment (bb (prog a) b) = ''recover'' then [] else block_instrs (bb (prog a) b))
                 (DomPreorder (prog a) fn)))"

fun visit_times :: "(analysis \<Rightarrow> analysis go_result) \<Rightarrow> ref list \<Rightarrow> analysis \<Rightarrow> analysis go_result" where
  "visit_times f [] a = Inr a"
| "visit_times f (_ # is) a = bindR (f a) (visit_times f is)"

definition visitLibFnInstructions ::
    "trav_fn \<Rightarrow> pointer_fn \<Rightarrow> (analysis \<Rightarrow> analysis go_result) \<Rightarrow> ref \<Rightarrow> nat \<Rightarrow> analysis \<Rightarrow> analysis go_result" where
  "visitLibFnInstructions trav pa go_on fn goID a =
     visit_times (visitAllInstructions trav pa go_on fn goID) (calls_of_interest a fn) a"

definition inherit_locks :: "nat \<Rightarrow> analysis \<Rightarrow> analysis" where
  "inherit_locks goID a =
     (let g = goCaller (gos a) goID
      in if lock_count g a > 0
         then a\<lparr>locks := (locks a)\<lparr>lockSet := (lockSet (locks a))(goID := lockSet (locks a) g)\<rparr>\<rparr> else a)"

definition go_target :: "analysis \<Rightarrow> ref \<Rightarrow> ref option go_result" where
  "go_target a i =
     (case the_obj a i of
        Go c \<Rightarrow> Inr (case the_obj a (call_value c) of TypeAssert _ \<Rightarrow> paramFunc a | _ \<Rightarrow> StaticCallee (prog a) c)
      | _ \<Rightarrow> Inl TypeAssertionFailed)"

definition newGoroutine :: "trav_fn \<Rightarrow> goroutineInfo \<Rightarrow> analysis \<Rightarrow> analysis go_result" where
  "newGoroutine trav info a =
     (let g = go_goID info;
          a = (if g \<ge> length (RWIns a) then a\<lparr>RWIns := RWIns a @ [[]]\<rparr> else a)
      in if (case goCalls (gos a) (goCaller (gos a) g) of None \<Rightarrow> False | Some ci \<Rightarrow> gc_goIns ci = goIns_ref info)
         then Inr a
         else bindR (recordIns g (go_ssaIns info) a) (\<lambda>a.
           let a = a\<lparr>gos := (gos a)\<lparr>goCalls := (goCalls (gos a))
                       (g \<mapsto> \<lparr>gc_ssaIns = go_ssaIns info, gc_goIns = goIns_ref info\<rparr>)\<rparr>\<rparr>;
               a = inherit_locks g a
           in bindR (go_target a (goIns_ref info)) (\<lambda>target.
                case target of
                  None \<Rightarrow> Inr a
                | Some f \<Rightarrow> trav f (fn_name (fun_of (prog a) f)) g (Some (go_ssaIns info)) a)))"

fun visitGo :: "nat \<Rightarrow> trav_fn \<Rightarrow> analysis \<Rightarrow> analysis go_result" where
  "visitGo 0 trav a = (if storeFns a = [] \<and> workList (gos a) \<noteq> [] then Inl OutOfFuel else Inr a)"
| "visitGo (Suc n) trav a =
     (if storeFns a = [] \<and> workList (gos a) \<noteq> []
      then bindR (newGoroutine trav (hd (workList (gos a))) (a\<lparr>gos := (gos a)\<lparr>workList := tl (workList (gos a))\<rparr>\<rparr>))
             (visitGo n trav)
      else Inr a)"

definition update_call_locks :: "nat \<Rightarrow> ref option \<Rightarrow> analysis \<Rightarrow> analysis go_result" where
  "update_call_locks goID theIns a =
     (case theIns of
        None \<Rightarrow> Inr a
      | Some i \<Rightarrow>
          bindR (isWriteIns (prog a) i) (\<lambda>w.
            Inr (if w \<or> isReadIns a i then updateRLockMap goID i (updateLockMap goID i a) else a)))"

definition traverse_step ::
    "trav_fn \<Rightarrow> pointer_fn \<Rightarrow> (analysis \<Rightarrow> analysis go_result) \<Rightarrow> ref \<Rightarrow> string \<Rightarrow> nat \<Rightarrow> ref option \<Rightarrow> analysis \<Rightarrow>
     analysis go_result" where
  "traverse_step trav pa go_on fn fnName goID theIns a =
     bindR (exploredFunction fn goID theIns a) (\<lambda>(explored, a).
     bindR (if explored then Inr a
            else if \<not> fromPkgsOfInterest a fn then visitLibFnInstructions trav pa go_on fn goID a
            else bindR (updateRecords fnName goID ''PUSH '' fn theIns a) (\<lambda>a.
                 bindR (case theIns of None \<Rightarrow> Inr a | Some i \<Rightarrow> recordIns goID i a)
                   (visitAllInstructions trav pa go_on fn goID)))
       (update_call_locks goID theIns))"

fun traverseFn :: "nat \<Rightarrow> ref \<Rightarrow> string \<Rightarrow> nat \<Rightarrow> ref option \<Rightarrow> analysis \<Rightarrow> analysis go_result" where
  "traverseFn 0 fn fnName goID theIns a = Inl OutOfFuel"
| "traverseFn (Suc n) fn fnName goID theIns a =
     traverse_step (traverseFn n) (pointerAnalysis n (traverseFn n)) (visitGo n (traverseFn n)) fn fnName goID theIns a"

end
