(* ===== verification/Gorace_Trace.thy ===== *)
theory Gorace_Trace
  imports Gorace_Traverse
begin
text \<open>
  What every run of the traversal guarantees. The locale \<open>traversal\<close> is the contract of a two-state
  property: it is closed under the few operations that touch the records and the goroutines, and
  everything else in the traversal leaves the core of the state alone; then every handler, and the
  traversal for every amount of fuel, has the property. It is interpreted for the growth of the
  records and for the well-formedness of the goroutines.
\<close>

section \<open>The core of the state\<close>

definition same_env :: "analysis \<Rightarrow> analysis \<Rightarrow> bool" where
  "same_env a b \<longleftrightarrow> prog b = prog a \<and> cfg b = cfg a \<and> pta b = pta a"

definition same_core :: "analysis \<Rightarrow> analysis \<Rightarrow> bool" where
  "same_core a b \<longleftrightarrow> same_env a b \<and> RWIns b = RWIns a \<and> gos b = gos a"

lemmas core_defs = same_core_def same_env_def

named_theorems core_simps

lemma same_core_refl [core_simps]: "same_core a a"
  by (simp add: core_defs)

lemma same_core_update [core_simps]:
  "same_core a (b\<lparr>chans := c\<rparr>) = same_core a b" "same_core a (b\<lparr>sels := se\<rparr>) = same_core a b"
  "same_core a (b\<lparr>ifs := i\<rparr>) = same_core a b" "same_core a (b\<lparr>loops := lo\<rparr>) = same_core a b"
  "same_core a (b\<lparr>locks := L\<rparr>) = same_core a b" "same_core a (b\<lparr>storeFns := s\<rparr>) = same_core a b"
  "same_core a (b\<lparr>next_call := n\<rparr>) = same_core a b" "same_core a (b\<lparr>levels := l\<rparr>) = same_core a b"
  "same_core a (b\<lparr>trieMap := t\<rparr>) = same_core a b" "same_core a (b\<lparr>queries := q\<rparr>) = same_core a b"
  "same_core a (b\<lparr>indirectQueries := q\<rparr>) = same_core a b" "same_core a (b\<lparr>getParam := g\<rparr>) = same_core a b"
  "same_core a (b\<lparr>paramFunc := f\<rparr>) = same_core a b" "same_core a (b\<lparr>deferToRet := d\<rparr>) = same_core a b"
  "same_core a (b\<lparr>insMono := m\<rparr>) = same_core a b"
  by (simp_all add: core_defs)

lemma same_core_op [core_simps]:
  "same_core a (updateLockMap g i b) = same_core a b" "same_core a (updateRLockMap g i b) = same_core a b"
  "same_core a (push_fn g f j b) = same_core a b" "same_core a (add_send ch i b) = same_core a b"
  "same_core a (add_rcv ch i b) = same_core a b" "same_core a (select_ready i ch b) = same_core a b"
  "same_core a (case_body i s b) = same_core a b" "same_core a (case_begin i ch b) = same_core a b"
  "same_core a (case_end i ch b) = same_core a b" "same_core a (enter_loop bl b) = same_core a b"
  "same_core a (leave_loop bl b) = same_core a b" "same_core a (inherit_locks g b) = same_core a b"
  "same_core a (snd (count_visit f cs str b)) = same_core a b"
  by (simp_all add: updateLockMap_def updateRLockMap_def push_fn_def add_send_def add_rcv_def select_ready_def
    case_body_def case_begin_def case_end_def enter_loop_def leave_loop_def inherit_locks_def count_visit_def Let_def
    core_simps)

lemma same_core_lock [core_simps]:
  "same_core a (lock_acquire g l b) = same_core a b" "same_core a (rlock_acquire g l b) = same_core a b"
  by (simp_all add: lock_acquire_def rlock_acquire_def core_simps split: prod.splits)

lemma same_core_if [core_simps]: "same_core a (if c then x else y) = (if c then same_core a x else same_core a y)"
  by simp

lemma same_core_close: "same_core a (close_chan x b) = same_core a b"
  unfolding close_chan_def
  by (intro object_cases [where Q = "\<lambda>z. same_core a z = same_core a b"]) (simp_all add: core_simps)

lemma same_core_close_all [core_simps]: "same_core a (fold close_chan xs b) = same_core a b"
  by (induction xs arbitrary: b) (simp_all add: same_core_close)

lemma same_core_select [core_simps]: "same_core a (snd (select_loaded i ch x b)) = same_core a b"
  by (simp add: select_loaded_def Let_def core_simps)

section \<open>Operations that leave the core alone\<close>

definition core_op :: "(analysis \<Rightarrow> analysis go_result) \<Rightarrow> bool" where
  "core_op f \<longleftrightarrow> (\<forall>a. okR (same_core a) (f a))"

lemma same_core_trans: "same_core a b \<Longrightarrow> same_core b c \<Longrightarrow> same_core a c"
  by (simp add: core_defs)

lemma core_opI: "(\<And>a. okR (same_core a) (f a)) \<Longrightarrow> core_op f"
  by (simp add: core_op_def)

lemma core_opD: "core_op f \<Longrightarrow> same_core a0 a \<Longrightarrow> okR (same_core a0) (f a)"
  unfolding core_op_def okR_def using same_core_trans by blast

lemma core_op_bind:
  "core_op f \<Longrightarrow> same_core a0 a \<Longrightarrow> (\<And>b. same_core a0 b \<Longrightarrow> okR P (h b)) \<Longrightarrow> okR P (bindR (f a) h)"
  by (rule okR_bind [OF core_opD])

lemma pure_bind: "(\<And>x. okR P (f x)) \<Longrightarrow> okR P (bindR r f)"
  by (rule okR_bind [OF okR_True])

lemma core_op_AddQuery: "core_op (AddQuery v)"
  by (rule core_opI) (simp add: AddQuery_def core_simps)

lemma core_op_query_old: "core_op (query_old v)"
  by (rule core_opI) (use core_op_AddQuery [of v] in \<open>simp add: query_old_def core_op_def core_simps\<close>)

lemma core_op_query_arg0: "core_op (query_arg0 c)"
  by (rule core_opI) (use core_op_AddQuery in \<open>auto simp: query_arg0_def core_op_def core_simps intro!: pure_bind\<close>)

lemma core_op_query_default: "core_op (query_default v)"
  by (rule core_opI) (use core_op_AddQuery [of v] in \<open>simp add: query_default_def core_op_def core_simps\<close>)

lemma core_op_pop_fn: "core_op (pop_fn g)"
  by (rule core_opI) (simp add: pop_fn_def core_simps)

lemma core_op_updateRecords: "core_op (updateRecords nm g pp f i)"
proof (rule core_opI)
  fix a
  have "okR (same_core a) (if pp = ''POP  '' then pop_fn g a else Inr a)"
    using core_op_pop_fn [of g] by (simp add: core_op_def core_simps)
  then show "okR (same_core a) (updateRecords nm g pp f i a)"
    unfolding updateRecords_def by (rule okR_bind) (simp add: core_simps)
qed

lemma core_op_remove: "core_op (\<lambda>a. lock_remove (g a) i a)" "core_op (\<lambda>a. rlock_remove (g a) i a)"
  by (rule core_opI; simp add: lock_remove_def rlock_remove_def slice_remove_def Let_def core_simps split: option.splits)+

lemma core_op_freeze: "core_op (\<lambda>a. set_freeze b (sl a) i a)"
  by (rule core_opI) (auto simp: set_freeze_def core_simps intro!: pure_bind)

lemma core_op_remove_found: "core_op (remove_found l g)"
  by (rule core_opI) (use core_op_remove(1) [of "\<lambda>_. g"] in \<open>auto simp: remove_found_def core_op_def core_simps intro!: pure_bind\<close>)

lemma core_op_if: "core_op f \<Longrightarrow> core_op h \<Longrightarrow> core_op (\<lambda>a. if c a then f a else h a)"
  by (simp add: core_op_def)

lemma core_op_Inr: "core_op Inr"
  by (simp add: core_op_def core_simps)

lemma core_op_pure: "(\<And>x. core_op (h x)) \<Longrightarrow> core_op (\<lambda>a. bindR (r a) (\<lambda>x. h x a))"
  by (auto simp: core_op_def intro!: pure_bind)

lemma core_op_seq: "core_op f \<Longrightarrow> core_op h \<Longrightarrow> core_op (\<lambda>a. bindR (f a) h)"
  unfolding core_op_def using core_opD core_op_def by (metis okR_bind)

lemmas core_op_rules = core_op_pure core_op_if core_op_freeze core_op_Inr core_op_remove

lemma core_op_thaw: "core_op (thaw ls g)"
proof (induction ls)
  case (Cons l ls)
  have "thaw (l # ls) g = (\<lambda>a. bindR (lockSetContainsAt a lockSet l g) (\<lambda>z.
      bindR (if z \<noteq> -1 then set_freeze False (lockSet (locks a) g) (nat z) a else Inr a) (thaw ls g)))" by (rule ext) simp
  then show ?case by (simp only:) (intro core_op_pure core_op_seq core_op_rules Cons)
qed (simp add: core_op_def core_simps)

lemma core_op_rthaw: "core_op (rthaw ls g)"
proof (induction ls)
  case (Cons l ls)
  have "rthaw (l # ls) g = (\<lambda>a. bindR (lockSetContainsAt a RlockSet l g) (\<lambda>z.
      bindR (if z \<noteq> -1 then set_freeze False (RlockSet (locks a) g) (nat z) a else Inr a) (rthaw ls g)))" by (rule ext) simp
  then show ?case by (simp only:) (intro core_op_pure core_op_seq core_op_rules Cons)
qed (simp add: core_op_def core_simps)

lemma core_op_release_noted: "core_op (release_noted ls g)"
proof (induction ls)
  case (Cons l ls)
  have "release_noted (l # ls) g = (\<lambda>a. bindR (lockSetContainsAt a lockSet l g) (\<lambda>z.
      bindR (if z \<ge> 0 then lock_remove g (nat z) a
             else bindR (lockSetContainsAt a lockSet l (goCaller (gos a) g)) (\<lambda>z.
                    if z = -1 then Inr a
                    else bindR (nth_go (slice_elems (locks a) (lockSet (locks a) g)) z) (\<lambda>_.
                           lock_remove (goCaller (gos a) g) (nat z) a))) (release_noted ls g)))"
    by (rule ext) (simp only: release_noted.simps Let_def)
  then show ?case by (simp only:) (intro core_op_pure core_op_seq core_op_rules Cons)
qed (simp add: core_op_def core_simps)

lemma core_op_rrelease_noted: "core_op (rrelease_noted ls g)"
proof (induction ls)
  case (Cons l ls)
  have "rrelease_noted (l # ls) g = (\<lambda>a. bindR (lockSetContainsAt a RlockSet l g) (\<lambda>z.
      bindR (if z \<ge> 0 then rlock_remove g (nat z) a else Inr a) (rrelease_noted ls g)))" by (rule ext) simp
  then show ?case by (simp only:) (intro core_op_pure core_op_seq core_op_rules Cons)
qed (simp add: core_op_def core_simps)

lemma core_op_release_rest: "core_op (release_rest n i g)"
proof (induction n arbitrary: i)
  case (Suc n)
  have "release_rest (Suc n) i g = (\<lambda>a. if i < lock_count g a then bindR (lock_remove g i a) (release_rest n (Suc i) g)
      else Inr a)" by (rule ext) simp
  then show ?case by (simp only:) (intro core_op_if core_op_seq core_op_rules Suc)
qed (simp add: core_op_def core_simps)

lemma core_op_loop_binding: "core_op (loop_binding go f k b)"
proof (rule core_opI)
  fix a
  show "okR (same_core a) (loop_binding go f k b a)"
    unfolding loop_binding_def by (intro okR_object okR_if pure_bind) (simp_all add: core_simps)
qed

lemma core_op_loop_bindings: "core_op (loop_bindings go f k bs)"
proof (induction bs arbitrary: k)
  case (Cons b bs)
  have "loop_bindings go f k (b # bs) = (\<lambda>a. bindR (loop_binding go f k b a) (loop_bindings go f (Suc k) bs))"
    by (rule ext) simp
  then show ?case by (simp only:) (intro core_op_seq core_op_loop_binding Cons)
qed (simp add: core_op_def core_simps)

lemma core_op_update_call_locks: "core_op (update_call_locks g i)"
  by (rule core_opI) (auto simp: update_call_locks_def core_simps intro!: pure_bind split: option.splits)

lemma core_op_insMakeChan: "core_op (insMakeChan i s k)"
proof (rule core_opI)
  fix a
  show "okR (same_core a) (insMakeChan i s k a)"
    unfolding insMakeChan_def Let_def
    by (intro okR_option okR_if pure_bind okR_Inr [THEN iffD2] okR_Inl object_cases [where Q = "same_core a"])
      (simp_all add: core_simps)
qed

lemma core_op_call_Lock: "core_op (call_Lock c g i)"
  unfolding call_Lock_def
  by (rule core_opI)
    (auto simp: core_simps intro!: pure_bind okR_bind [OF core_opD [OF core_op_query_old same_core_refl]])

lemma core_op_call_RLock: "core_op (call_RLock c g)"
  unfolding call_RLock_def
  by (rule core_opI)
    (auto simp: core_simps intro!: pure_bind okR_bind [OF core_opD [OF core_op_query_old same_core_refl]])

text \<open>The same for operations that return a value with the state.\<close>

lemma call_Unlock_core: "okR (\<lambda>x. same_core a (snd x)) (call_Unlock c g i a)"
proof -
  have f: "okR (\<lambda>x. same_core a (snd x)) (bindR (set_freeze True (sl b) n b) (\<lambda>a. Inr ((us, rs), a)))" if "same_core a b" for sl n b us rs
    by (rule okR_bind [OF core_opD [OF core_op_freeze [of True sl n] that]]) simp
  have r: "okR (\<lambda>x. same_core a (snd x)) (bindR (lock_remove g n b) no_ops)" if "same_core a b" for n b
    by (rule okR_bind [OF core_opD [OF core_op_remove(1) [of "\<lambda>_. g" n] that]]) (simp add: no_ops_def)
  show ?thesis unfolding call_Unlock_def
    by (intro pure_bind okR_bind [OF core_opD [OF core_op_query_old same_core_refl]] okR_if okR_option okR_Inl r f)
      (simp_all add: no_ops_def core_simps)
qed

lemma call_RUnlock_core: "okR (\<lambda>x. same_core a (snd x)) (call_RUnlock c g a)"
proof -
  have fr: "okR (same_core a) (set_freeze True (sl b) n b)" if "same_core a b" for sl n b
    by (rule core_opD [OF core_op_freeze [of True sl n] that])
  show ?thesis unfolding call_RUnlock_def Let_def
    by (rule pure_bind, rule okR_bind [OF core_opD [OF core_op_query_old same_core_refl]], rule pure_bind,
        rule okR_bind [where Q = "same_core a"])
      (auto intro!: okR_if pure_bind fr)
qed

lemma exploredFunction_core: "okR (\<lambda>x. same_core a (snd x)) (exploredFunction f g i a)"
proof (cases i)
  case (Some j)
  have cv: "okR (\<lambda>x. same_core a (snd x)) (case count_visit f cs str a of (t, b) \<Rightarrow> Inr (isBudgetExceeded (cfg b) t, b))" for cs str
    using same_core_op(13) [of a f cs str a] by (cases "count_visit f cs str a") (simp add: core_simps)
  show ?thesis unfolding exploredFunction_def Some option.case explored_call_def
    by (intro okR_if pure_bind) (auto simp: core_simps cv split: prod.splits)
qed (simp add: exploredFunction_def core_simps)

section \<open>The contract\<close>

text \<open>The state in which the instructions of a new goroutine are visited, after its first record.\<close>

definition start_goroutine :: "goroutineInfo \<Rightarrow> goroutineInfo list \<Rightarrow> analysis \<Rightarrow> analysis \<Rightarrow> bool" where
  "start_goroutine info rest a b \<longleftrightarrow>
     (let g = go_goID info; a1 = a\<lparr>gos := (gos a)\<lparr>workList := rest\<rparr>\<rparr>;
          a2 = (if g \<ge> length (RWIns a1) then a1\<lparr>RWIns := RWIns a1 @ [[]]\<rparr> else a1)
      in \<exists>a3. recordIns g (go_ssaIns info) a2 = Inr a3 \<and>
           same_core (a3\<lparr>gos := (gos a3)\<lparr>goCalls := (goCalls (gos a3))
             (g \<mapsto> \<lparr>gc_ssaIns = go_ssaIns info, gc_goIns = goIns_ref info\<rparr>)\<rparr>\<rparr>) b)"

locale traversal =
  fixes S :: "nat \<Rightarrow> analysis \<Rightarrow> analysis \<Rightarrow> bool"
  assumes S_refl: "S g a a"
    and S_trans: "S g a b \<Longrightarrow> S g b c \<Longrightarrow> S g a c"
    and S_env: "S g a b \<Longrightarrow> same_env a b"
    and S_core: "same_core a b \<Longrightarrow> S g a b"
    and S_record: "recordIns g i a = Inr b \<Longrightarrow> S g a b"
    and S_entry: "same_env a b \<Longrightarrow> RWIns b \<in> {RWIns a, RWIns a @ [[]]} \<Longrightarrow> gos b = (gos a)\<lparr>goStack := st\<rparr> \<Longrightarrow> S g a b"
    and S_spawn: "spawn i f g l a = Inr (n, b) \<Longrightarrow> the_obj a i = Go cc \<Longrightarrow> S g a b"
    and S_main: "S 0 a b \<Longrightarrow> the_obj a i = Go cc \<Longrightarrow> the_obj a (call_value cc) = TypeAssert x \<Longrightarrow>
        the_obj a x = Parameter p q r \<Longrightarrow> S g a b"
    and S_goroutine: "workList (gos a) = info # rest \<Longrightarrow> start_goroutine info rest a b \<Longrightarrow> S (go_goID info) b c \<Longrightarrow> S g a c"
    and S_skip: "workList (gos a) = info # rest \<Longrightarrow> same_env a b \<Longrightarrow> RWIns b \<in> {RWIns a, RWIns a @ [[]]} \<Longrightarrow>
        gos b = (gos a)\<lparr>workList := rest\<rparr> \<Longrightarrow> S g a b"
begin

lemma core: "S g a0 a \<Longrightarrow> same_core a b \<Longrightarrow> S g a0 b"
  using S_core S_trans by blast

lemma obj_same: "S g a0 a \<Longrightarrow> the_obj a i = the_obj a0 i"
  using S_env unfolding same_env_def by auto

lemma recordIns: "S g a0 a \<Longrightarrow> okR (S g a0) (recordIns g i a)"
  using S_record S_trans unfolding okR_def by blast

lemma core_result: "okR (same_core a) r \<Longrightarrow> S g a0 a \<Longrightarrow> okR (S g a0) r"
  using core unfolding okR_def by blast

lemma core_result_pair: "okR (\<lambda>x. same_core a (snd x)) r \<Longrightarrow> S g a0 a \<Longrightarrow> okR (\<lambda>x. S g a0 (snd x)) r"
  using core unfolding okR_def by blast

text \<open>Sequencing, by the kinds of the two results.\<close>

lemma bind_pair:
  "okR (\<lambda>x. S g a0 (snd x)) r \<Longrightarrow> (\<And>v a. S g a0 a \<Longrightarrow> okR (S g a0) (f v a)) \<Longrightarrow> okR (S g a0) (bindR r (case_prod f))"
  "okR (\<lambda>x. S g a0 (snd x)) r \<Longrightarrow> (\<And>v a. S g a0 a \<Longrightarrow> okR (\<lambda>x. S g a0 (snd x)) (f2 v a)) \<Longrightarrow>
    okR (\<lambda>x. S g a0 (snd x)) (bindR r (case_prod f2))"
  by (erule okR_bind_pair; blast)+

lemma bind_state:
  "okR (\<lambda>x. S g a0 (snd x)) r \<Longrightarrow> (\<And>s. S g a0 (snd s) \<Longrightarrow> okR (\<lambda>x. S g a0 (snd x)) (f2 s)) \<Longrightarrow>
    okR (\<lambda>x. S g a0 (snd x)) (bindR r f2)"
  by (erule okR_bind; blast)

lemma bind_core:
  "okR (S g a0) r' \<Longrightarrow> (\<And>a. S g a0 a \<Longrightarrow> okR (S g a0) (f a)) \<Longrightarrow> okR (S g a0) (bindR r' f)"
  "okR (S g a0) r' \<Longrightarrow> (\<And>a. S g a0 a \<Longrightarrow> okR (\<lambda>x. S g a0 (snd x)) (f2 a)) \<Longrightarrow> okR (\<lambda>x. S g a0 (snd x)) (bindR r' f2)"
  by (erule okR_bind; blast)+

lemma bind_pure: "(\<And>x. okR P (f x)) \<Longrightarrow> okR P (bindR r f)"
  by (rule okR_bind [OF okR_True])

lemmas flow = bind_pair bind_core okR_if okR_option okR_list okR_prod okR_object

lemmas fin = okR_Inr [THEN iffD2] okR_Inl

lemma core_op_S: "core_op f \<Longrightarrow> S g a0 a \<Longrightarrow> okR (S g a0) (f a)"
  by (rule core_result) (simp_all add: core_op_def)

lemmas core_S = core_op_query_old [THEN core_op_S] core_op_AddQuery [THEN core_op_S] core_op_query_arg0 [THEN core_op_S]
  core_op_query_default [THEN core_op_S] core_op_updateRecords [THEN core_op_S] core_op_insMakeChan [THEN core_op_S]
  core_op_call_Lock [THEN core_op_S] core_op_call_RLock [THEN core_op_S] core_op_update_call_locks [THEN core_op_S]
  core_op_loop_bindings [THEN core_op_S] core_op_thaw [THEN core_op_S] core_op_rthaw [THEN core_op_S]
  core_op_release_noted [THEN core_op_S] core_op_rrelease_noted [THEN core_op_S] core_op_release_rest [THEN core_op_S]
  core_op_remove_found [THEN core_op_S] call_Unlock_core [THEN core_result_pair] call_RUnlock_core [THEN core_result_pair]
  exploredFunction_core [THEN core_result_pair] recordIns

section \<open>Handlers without calls\<close>

lemma record_access: "S g a0 a \<Longrightarrow> okR (S g a0) (record_access g i a)"
  unfolding record_access_def
  by (rule bind_core, rule recordIns, assumption, rule fin, rule core, assumption, (simp add: core_simps; fail))

lemma insUnOp: "S g a0 a \<Longrightarrow> okR (S g a0) (insUnOp op x g i a)"
  unfolding insUnOp_def
  by (intro flow core_S fin; (assumption | (rule core, assumption, (simp add: core_simps split: option.splits; fail))))

lemma insFieldAddr: "S g a0 a \<Longrightarrow> okR (S g a0) (insFieldAddr x g i a)"
  unfolding insFieldAddr_def by (intro flow record_access core_S fin)

lemma insLookUp: "S g a0 a \<Longrightarrow> okR (S g a0) (insLookUp x g i a)"
  unfolding insLookUp_def by (intro flow record_access core_S fin)

lemma insMapUpdate: "S g a0 a \<Longrightarrow> okR (S g a0) (insMapUpdate m g i a)"
  unfolding insMapUpdate_def Let_def
  by (intro flow core_S fin; (assumption | (rule core, assumption, (simp add: core_simps; fail))))

lemma insSend: "S g a0 a \<Longrightarrow> okR (\<lambda>x. S g a0 (snd x)) (insSend i ch g a)"
  unfolding insSend_def
  by (rule bind_core, rule recordIns, assumption, rule fin, rule core, assumption, (simp add: core_simps split: option.splits; fail))

lemma call_delete: "S g a0 a \<Longrightarrow> okR (S g a0) (call_delete c g i a)"
  unfolding call_delete_def by (rule bind_pure) (intro flow record_access core_S fin)

lemma call_accesses: "S g a0 a \<Longrightarrow> okR (S g a0) (call_accesses c g i args a)"
proof (induction args arbitrary: a)
  case (Cons x args)
  show ?case unfolding call_accesses.simps
    by (insert Cons.prems, intro flow record_access core_S fin Cons.IH; assumption)
qed simp

lemma spawn:
  assumes "S g a0 a" "the_obj a0 i = Go cc"
  shows "okR (\<lambda>x. S g a0 (snd x)) (spawn i f g l a)"
proof (unfold okR_def, intro allI impI)
  fix x assume x: "spawn i f g l a = Inr x"
  obtain n b where "x = (n, b)" by (rule prod.exhaust)
  then show "S g a0 (snd x)"
    using S_spawn [of i f g l a n b cc] x assms obj_same [OF assms(1), of i] S_trans [OF assms(1)] by simp
qed

end

section \<open>Handlers that call back\<close>

locale traversal_calls = traversal S
  for S :: "nat \<Rightarrow> analysis \<Rightarrow> analysis \<Rightarrow> bool" +
  fixes trav :: trav_fn and pa :: pointer_fn and go_on :: "analysis \<Rightarrow> analysis go_result"
  assumes trav_S: "okR (S g a) (trav f nm g i a)"
    and pa_S: "okR (S g a) (pa x g i a)"
    and go_on_S: "okR (S g a) (go_on a)"
begin

lemma calls:
  "S g a0 a \<Longrightarrow> okR (S g a0) (trav f nm g i a)" "S g a0 a \<Longrightarrow> okR (S g a0) (pa x g i a)"
  "S g a0 a \<Longrightarrow> okR (S g a0) (go_on a)"
  using trav_S pa_S go_on_S S_trans unfolding okR_def by blast+

lemma traverse_method: "S g a0 a \<Longrightarrow> okR (S g a0) (traverse_method trav m g i a)"
  unfolding traverse_method_def by (cases m) (simp_all add: calls)

lemma handle_label: "S g a0 a \<Longrightarrow> okR (\<lambda>x. S g a0 (snd x)) (handle_label trav pa loc g goI i l a)"
  unfolding handle_label_def Let_def
  by (intro flow calls bind_pure traverse_method fin; (assumption | (rule core, assumption, (simp add: core_simps; fail))))

end

context traversal_calls
begin

lemma handle_labels: "S g a0 a \<Longrightarrow> okR (\<lambda>x. S g a0 (snd x)) (handle_labels trav pa loc g goI i ls a)"
proof (induction ls arbitrary: a)
  case (Cons l ls)
  show ?case unfolding handle_labels.simps
  proof (rule bind_pair(2) [OF handle_label [OF Cons.prems]])
    fix v b assume "S g a0 b"
    then show "okR (\<lambda>x. S g a0 (snd x)) (case v of NextLabel \<Rightarrow> handle_labels trav pa loc g goI i ls b | _ \<Rightarrow> Inr (v, b))"
      using Cons.IH by (cases v) simp_all
  qed
qed simp

lemma traverse_all: "S g a0 a \<Longrightarrow> okR (S g a0) (traverse_all trav g i fs a)"
proof (induction fs arbitrary: a)
  case (Cons f fs)
  show ?case unfolding traverse_all.simps by (rule bind_core(1) [OF calls(1) [OF Cons.prems] Cons.IH])
qed simp

lemma pointerNewAnalysisHandleFunc:
  "S g a0 a \<Longrightarrow> okR (S g a0) (pointerNewAnalysisHandleFunc trav pa ls loc g goI i a)"
  unfolding pointerNewAnalysisHandleFunc_def Let_def
proof (rule bind_pure, rule bind_pair(1), erule handle_labels)
  fix v b assume b: "S g a0 b"
  show "okR (S g a0) (case v of
      InvokeCall \<Rightarrow>
        (case i of None \<Rightarrow> Inr b
         | Some j \<Rightarrow> (case the_obj b j of Call _ \<Rightarrow> traverse_all trav g i (invoke_funcs (pta b) j loc goI (loopIDs (loops a) g)) b
                     | _ \<Rightarrow> Inr b))
      | _ \<Rightarrow> Inr b)"
    by (cases v; simp; (intro flow traverse_all fin)?) (use b in simp_all)
qed

lemma pointer_step: "S g a0 a \<Longrightarrow> okR (S g a0) (pointer_step trav pa x g i a)"
  unfolding pointer_step_def pointer_default_def pointerNewAnalysis_def Let_def
  by (intro flow pointerNewAnalysisHandleFunc traverse_method calls core_S bind_pure fin;
      (assumption | (rule core, assumption, (simp add: core_simps; fail))))

lemma insStore: "S g a0 a \<Longrightarrow> okR (S g a0) (insStore trav ad v g i a)"
  unfolding insStore_def store_fn_def
  by (intro okR_if bind_core calls core_S bind_pure fin;
      (assumption | (rule core, assumption, (simp add: core_simps; fail))))

lemma insChangeType: "S g a0 a \<Longrightarrow> okR (S g a0) (insChangeType trav x g i a)"
  unfolding insChangeType_def by (intro flow calls core_S fin)

lemma insMakeInterface: "S g a0 a \<Longrightarrow> okR (S g a0) (insMakeInterface pa x g i a)"
  unfolding insMakeInterface_def by (intro flow calls core_S fin)

lemma no_ops: "S g a0 a \<Longrightarrow> okR (\<lambda>x. S g a0 (snd x)) (no_ops a)"
  by (simp add: no_ops_def)

lemma call_dynamic: "S g a0 a \<Longrightarrow> okR (S g a0) (call_dynamic pa c g i a)"
  unfolding call_dynamic_def
  by (intro okR_if calls call_delete fin; (assumption | (rule core, assumption, (simp add: core_simps; fail))))

lemma call_static: "S g a0 a \<Longrightarrow> okR (S g a0) (call_static trav c f g i a)"
  unfolding call_static_def by (intro flow calls call_accesses fin)

lemma call_sync: "S g a0 a \<Longrightarrow> okR (\<lambda>x. S g a0 (snd x)) (call_sync trav c f g i a)"
  unfolding call_sync_def Let_def by (intro okR_if bind_core calls core_S no_ops)

lemma insCall: "S g a0 a \<Longrightarrow> okR (\<lambda>x. S g a0 (snd x)) (insCall trav pa c g i a)"
  unfolding insCall_def
  by (intro flow calls no_ops call_dynamic call_static call_sync fin)

end

context traversal_calls
begin

text \<open>A query on behalf of the main goroutine, as \<^verbatim>\<open>goNames\<close> makes it.\<close>

lemma goNames:
  assumes "S g a0 a" "the_obj a0 i = Go c"
  shows "okR (\<lambda>x. S g a0 (snd x)) (goNames pa c a)"
proof -
  have m: "okR (S g a0) (pa x 0 None a)" if "the_obj a (call_value c) = TypeAssert x" "the_obj a x = Parameter p q r" for x p q r
  proof (unfold okR_def, intro allI impI)
    fix b assume "pa x 0 None a = Inr b"
    then have "S 0 a b" by (rule okR_D [OF pa_S])
    then have "S g a b" using S_main that assms obj_same by metis
    then show "S g a0 b" using assms(1) S_trans by blast
  qed
  show ?thesis unfolding goNames_def
    by (intro okR_object bind_core(2) m fin) (use assms(1) in simp_all)
qed

lemma go_entry: "S g a0 a \<Longrightarrow> okR (\<lambda>x. S g a0 (snd x)) (go_entry pa c g i a)"
  unfolding go_entry_def
  by (intro flow calls fin; (assumption | (rule core, assumption, (simp add: core_simps; fail)) | simp))

lemma insGo:
  assumes "S g a0 a" "the_obj a0 i = Go c"
  shows "okR (\<lambda>x. S g a0 (snd x)) (insGo pa i c g l a)"
  unfolding insGo_def
  by (rule bind_pair(2) [OF goNames [OF assms]], rule bind_pair(2), erule go_entry)
    (intro okR_option fin spawn [OF _ assms(2)]; simp)

lemma select_param: "S g a0 a \<Longrightarrow> okR (\<lambda>x. S g a0 (snd x)) (select_param pa i n k st g a)"
  unfolding select_param_def Let_def
  by (intro bind_core okR_if calls fin; (assumption | (rule core, assumption, (simp add: core_simps; fail))))

lemma select_case: "S g a0 a \<Longrightarrow> okR (\<lambda>x. S g a0 (snd x)) (select_case pa i b n g k st acc a)"
proof -
  assume a: "S g a0 a"
  have l: "okR (\<lambda>x. S g a0 (snd x)) (case select_loaded i ch x a of (c, b) \<Rightarrow> Inr ((r c, d), b))" for ch x r and d :: int
    using core [OF a] same_core_select [of a i ch x a] same_core_refl [of a] by (cases "select_loaded i ch x a") simp
  show ?thesis unfolding select_case_def Let_def
    by (cases acc) (simp only: prod.case, intro okR_object l bind_pair(2) select_param fin a; simp add: a)
qed

lemma select_states: "S g a0 a \<Longrightarrow> okR (\<lambda>x. S g a0 (snd x)) (select_states pa i b n g k sts acc a)"
proof (induction sts arbitrary: k acc a)
  case (Cons st sts)
  show ?case unfolding select_states.simps by (rule bind_pair(2) [OF select_case [OF Cons.prems] Cons.IH])
qed simp

lemma insSelect: "S g a0 a \<Longrightarrow> okR (\<lambda>x. S g a0 (snd x)) (insSelect pa i b sts g a)"
  unfolding insSelect_def Let_def
  by (rule bind_core(2), erule recordIns, rule bind_pair(2), erule select_states) (auto split: prod.splits)

lemma visit_send: "S g a0 a \<Longrightarrow> okR (S g a0) (visit_send g i ch a)"
  unfolding visit_send_def
  by (rule bind_pair(1), erule insSend)
    (intro okR_if bind_pure fin; (assumption | (rule core, assumption, (simp add: core_simps; fail))))

lemma visit_go:
  assumes "S g a0 a" "the_obj a0 i = Go c"
  shows "okR (S g a0) (visit_go pa g i c a)"
  unfolding visit_go_def
  by (rule bind_core(1), intro okR_object okR_if core_S fin assms(1))
    (intro okR_if bind_pair(1) insGo [OF _ assms(2)] fin;
      (assumption | (rule core, assumption, (simp add: core_simps; fail))))

lemma visit_alloc: "S g a0 a \<Longrightarrow> okR (S g a0) (visit_alloc g i cm a)"
  unfolding visit_alloc_def
  by (intro flow core_S fin; (assumption | (rule core, assumption, (simp add: core_simps; fail))))

lemma visit_return: "S g a0 a \<Longrightarrow> okR (S g a0) (visit_return f g i a)"
  unfolding visit_return_def
  by (rule bind_core(1), erule recordIns, rule bind_pure, rule fin, rule core, assumption, (simp add: core_simps; fail))

lemma keep: "S g a0 a \<Longrightarrow> okR (\<lambda>x. S g a0 (snd x)) (keep v a)"
  by (simp add: keep_def)

lemma run_deferred:
  assumes "S g a0 (snd s)"
  shows "okR (\<lambda>x. S g a0 (snd x)) (run_deferred trav e g d s)"
proof -
  obtain v a where s: "s = (v, a)" by (rule prod.exhaust)
  have a: "S g a0 a" using assms s by simp
  have n: "okR (\<lambda>x. S g a0 (snd x)) (Inr (note_unlock l (v, b)))" "okR (\<lambda>x. S g a0 (snd x)) (Inr (note_runlock l (v, b)))"
    "okR (\<lambda>x. S g a0 (snd x)) (Inr (v, b))" if "S g a0 b" for l b
    using that by (simp_all add: note_unlock_def note_runlock_def)
  show ?thesis unfolding run_deferred_def s Let_def prod.case
    by (rule bind_pure, intro okR_if okR_option) (intro n a | rule bind_pure, intro okR_if bind_core calls core_S n a bind_pure fin)+
qed

end

context traversal_calls
begin

lemma run_all_deferred: "S g a0 (snd s) \<Longrightarrow> okR (\<lambda>x. S g a0 (snd x)) (run_all_deferred trav e g i ds s)"
proof (induction ds arbitrary: s)
  case (Cons d ds)
  let ?s = "(fst s, if e then snd s else (snd s)\<lparr>deferToRet := (deferToRet (snd s))(d \<mapsto> i)\<rparr>)"
  have "S g a0 (snd ?s)" using core [OF Cons.prems] Cons.prems by (simp add: core_simps)
  from bind_state [OF run_deferred [OF this] Cons.IH] show ?case unfolding run_all_deferred.simps .
qed simp

lemma at_rundefers: "S g a0 (snd s) \<Longrightarrow> okR (\<lambda>x. S g a0 (snd x)) (at_rundefers trav g i s)"
  unfolding at_rundefers_def
  by (intro okR_if bind_core bind_pair run_all_deferred core_S fin) simp_all

lemma dispatch:
  assumes "S g a0 (snd s)"
  shows "okR (\<lambda>x. S g a0 (snd x)) (dispatch trav pa f g bl ii i s)"
proof -
  obtain v a where s: "s = (v, a)" by (rule prod.exhaust)
  have a: "S g a0 a" using assms s by simp
  have go: "okR (S g a0) (visit_go pa g i c a)" if "the_obj a i = Go c" for c
    by (rule visit_go [OF a]) (use that obj_same [OF a, of i] in simp)
  have pr: "okR (\<lambda>x. S g a0 (snd x)) (Inr (w, b))" if "S g a0 b" for w b
    using that by simp
  show ?thesis unfolding dispatch_def s Let_def prod.case
    by (insert a, intro okR_object go okR_if bind_core bind_pair okR_prod keep visit_send insStore insUnOp insFieldAddr insLookUp
        insChangeType insMakeInterface insCall visit_alloc visit_return insMapUpdate insSelect core_S pr;
        (assumption | (rule core, assumption, (simp add: core_simps; fail)) | (simp split: prod.splits; fail)))
qed

lemma thaw_locks:
  assumes "S g a0 (snd s)"
  shows "okR (\<lambda>x. S g a0 (snd x)) (thaw_locks l g s)"
proof -
  obtain v a where s: "s = (v, a)" by (rule prod.exhaust)
  have a: "S g a0 a" using assms s by simp
  show ?thesis unfolding thaw_locks_def s Let_def prod.case
    by (intro okR_if bind_core core_S keep a fin) (simp_all add: a)
qed

lemma record_if_new: "S g a0 a \<Longrightarrow> okR (S g a0) (record_if_new g i a)"
  unfolding record_if_new_def by (rule bind_pure) (intro okR_if core_S fin)

lemma note_case:
  assumes "S g a0 (snd s)"
  shows "okR (\<lambda>x. S g a0 (snd x)) (note_case ac g ii l i s)"
proof -
  obtain v a where s: "s = (v, a)" by (rule prod.exhaust)
  have a: "S g a0 a" using assms s by simp
  show ?thesis unfolding note_case_def s Let_def prod.case
    by (rule bind_pure, insert a) (intro okR_if okR_option bind_core record_if_new fin;
      (assumption | (rule core, assumption, (simp add: core_simps; fail))))
qed

lemma note_done:
  assumes "S g a0 (snd s)"
  shows "okR (\<lambda>x. S g a0 (snd x)) (note_done sd g ii i s)"
proof -
  obtain v a where s: "s = (v, a)" by (rule prod.exhaust)
  have a: "S g a0 a" using assms s by simp
  show ?thesis unfolding note_done_def s Let_def prod.case
    by (insert a) (intro okR_if bind_pure fin bind_core core_S keep;
      (assumption | (rule core, assumption, (simp add: core_simps; fail))))
qed

lemma visit_ins: "S g a0 (snd s) \<Longrightarrow> okR (\<lambda>x. S g a0 (snd x)) (visit_ins trav pa f g bl fl ii l i s)"
  unfolding visit_ins_def
  by (rule bind_state, erule at_rundefers, rule bind_pure, rule okR_if, simp,
      rule bind_state, erule dispatch, rule bind_state, erule thaw_locks, rule bind_state, erule note_case,
      rule bind_pair(2), erule note_done) simp

lemma visit_instrs: "S g a0 (snd s) \<Longrightarrow> okR (\<lambda>x. S g a0 (snd x)) (visit_instrs trav pa f g bl fl ii is s)"
proof (induction "is" arbitrary: ii s)
  case (Cons i "is")
  show ?case unfolding visit_instrs.simps
    by (rule bind_pair(2) [OF visit_ins [OF Cons.prems]]) (intro okR_option Cons.IH; simp)
qed simp

lemma enter_ops:
  assumes "S g a0 a"
  shows "okR (\<lambda>x. S g a0 (snd (snd x))) (enter_select_done bl (v, a))"
    "okR (\<lambda>x. S g a0 (snd x)) (enter_default bl (v, a))" "okR (\<lambda>x. S g a0 (snd x)) (enter_branch bl (v, a))"
  using assms unfolding enter_select_done_def enter_default_def enter_branch_def Let_def prod.case
  by (auto intro!: okR_if okR_option bind_pure core [OF assms] simp: core_simps)

lemma leave_block:
  assumes "S g a0 a"
  shows "okR (\<lambda>x. S g a0 (snd x)) (leave_block f bl ac l (v, a))"
  unfolding leave_block_def Let_def prod.case
  by (rule bind_pure) (auto intro!: core [OF assms] simp: core_simps)

lemma visit_block:
  assumes "S g a0 (snd s)"
  shows "okR (\<lambda>x. S g a0 (snd x)) (visit_block trav pa f g lb bl s)"
proof -
  obtain v a where s: "s = (v, a)" by (rule prod.exhaust)
  have a: "S g a0 a" using assms s by simp
  have body: "okR (\<lambda>x. S g a0 (snd x)) (bindR (enter_default bl (v, b)) (\<lambda>s. bindR (enter_branch bl s) (\<lambda>(v, a).
      bindR (visit_instrs trav pa f g bl (ic, sd) 0 (block_instrs (bb (prog a) bl)) (v, enter_loop bl a)) (\<lambda>(ov, a).
        case ov of None \<Rightarrow> Inr (None, a)
        | Some v \<Rightarrow> bindR (leave_block f bl ic' lb (v, a)) (\<lambda>(v, a). Inr (Some v, a))))))"
    if "S g a0 b" for v b ic ic' sd
  proof (rule bind_state [OF enter_ops(2) [OF that]])
    fix s :: visit_state assume "S g a0 (snd s)"
    then have "okR (\<lambda>x. S g a0 (snd x)) (enter_branch bl s)" using enter_ops(3) [of g a0 "snd s" bl "fst s"] by simp
    then show "okR (\<lambda>x. S g a0 (snd x)) (bindR (enter_branch bl s) (\<lambda>(v, a).
      bindR (visit_instrs trav pa f g bl (ic, sd) 0 (block_instrs (bb (prog a) bl)) (v, enter_loop bl a)) (\<lambda>(ov, a).
        case ov of None \<Rightarrow> Inr (None, a)
        | Some v \<Rightarrow> bindR (leave_block f bl ic' lb (v, a)) (\<lambda>(v, a). Inr (Some v, a)))))"
    proof (rule bind_pair(2))
      fix v :: visit and b assume "S g a0 b"
      then have "S g a0 (snd (v, enter_loop bl b))" using core by (simp add: core_simps)
      then show "okR (\<lambda>x. S g a0 (snd x)) (bindR (visit_instrs trav pa f g bl (ic, sd) 0 (block_instrs (bb (prog b) bl))
          (v, enter_loop bl b)) (\<lambda>(ov, a). case ov of None \<Rightarrow> Inr (None, a)
        | Some v \<Rightarrow> bindR (leave_block f bl ic' lb (v, a)) (\<lambda>(v, a). Inr (Some v, a))))"
        by (rule bind_pair(2) [OF visit_instrs]) (intro okR_option bind_pair(2) leave_block fin; simp)
    qed
  qed
  have sel: "okR (\<lambda>x. S g a0 (snd (snd x))) (enter_select_done bl (v, a))" by (rule enter_ops(1) [OF a])
  show ?thesis unfolding visit_block_def s Let_def
    by (intro okR_if okR_bind [OF sel] okR_prod body fin) (use a in \<open>auto simp: Let_def intro!: body\<close>)
qed

lemma visit_blocks: "S g a0 (snd s) \<Longrightarrow> okR (\<lambda>x. S g a0 (snd x)) (visit_blocks trav pa f g bs s)"
proof (induction bs arbitrary: s)
  case (Cons b bs)
  show ?case unfolding visit_blocks.simps
    by (rule bind_pair(2) [OF visit_block [OF Cons.prems]]) (intro okR_option Cons.IH; simp)
qed simp

end

context traversal_calls
begin

lemma begin_visit: "S g a0 a \<Longrightarrow> S g a0 (begin_visit f g a)"
proof (erule S_trans, rule S_entry)
  show "same_env a (begin_visit f g a)"
    by (simp add: begin_visit_def Let_def same_env_def)
  show "RWIns (begin_visit f g a) \<in> {RWIns a, RWIns a @ [[]]}"
    by (simp add: begin_visit_def Let_def)
  show "gos (begin_visit f g a) = (gos a)\<lparr>goStack := goStack (gos (begin_visit f g a))\<rparr>"
    by (simp add: begin_visit_def Let_def)
qed

lemma finish_visit: "S g a0 (snd s) \<Longrightarrow> okR (S g a0) (finish_visit trav go_on f g n s)"
  unfolding finish_visit_def
  by (rule bind_pair(1), erule run_all_deferred, rule bind_core(1), erule core_S, rule bind_core(1), erule core_S,
      rule bind_core(1), erule core_S, rule bind_pure, rule bind_core(1), intro okR_if core_S fin; (assumption | (erule calls)))

lemma visitAllInstructions: "S g a0 a \<Longrightarrow> okR (S g a0) (visitAllInstructions trav pa go_on f g a)"
  unfolding visitAllInstructions_def Let_def
  by (intro okR_if fin, assumption, rule bind_pair(1), rule visit_blocks, simp add: begin_visit)
    (intro okR_option fin finish_visit; simp)

lemma visit_times: "(\<And>a. S g a0 a \<Longrightarrow> okR (S g a0) (h a)) \<Longrightarrow> S g a0 a \<Longrightarrow> okR (S g a0) (visit_times h is a)"
proof (induction "is" arbitrary: a)
  case (Cons i "is")
  show ?case unfolding visit_times.simps
    by (rule bind_core(1)) (use Cons in blast)+
qed simp

lemma visitLibFnInstructions: "S g a0 a \<Longrightarrow> okR (S g a0) (visitLibFnInstructions trav pa go_on f g a)"
  unfolding visitLibFnInstructions_def by (rule visit_times [OF visitAllInstructions])

lemma traverse_step: "S g a0 a \<Longrightarrow> okR (S g a0) (traverse_step trav pa go_on f nm g i a)"
  unfolding traverse_step_def
  by (rule bind_pair(1), erule core_S)
    (intro bind_core(1) okR_if okR_option visitLibFnInstructions visitAllInstructions core_S fin; assumption)

lemma newGoroutine:
  assumes "workList (gos a) = info # rest" "S g a0 a"
  shows "okR (S g a0) (newGoroutine trav info (a\<lparr>gos := (gos a)\<lparr>workList := rest\<rparr>\<rparr>))"
proof -
  let ?g = "go_goID info" and ?a1 = "a\<lparr>gos := (gos a)\<lparr>workList := rest\<rparr>\<rparr>"
  let ?a2 = "if ?g \<ge> length (RWIns ?a1) then ?a1\<lparr>RWIns := RWIns ?a1 @ [[]]\<rparr> else ?a1"
  have skip: "S g a0 ?a2"
    by (rule S_trans [OF assms(2) S_skip [OF assms(1)]]) (simp_all add: same_env_def)
  have "S g a0 c" if "recordIns ?g (go_ssaIns info) ?a2 = Inr a3"
    "bindR (go_target (inherit_locks ?g (a3\<lparr>gos := (gos a3)\<lparr>goCalls := (goCalls (gos a3))
             (?g \<mapsto> \<lparr>gc_ssaIns = go_ssaIns info, gc_goIns = goIns_ref info\<rparr>)\<rparr>\<rparr>)) (goIns_ref info)) (\<lambda>target.
       case target of None \<Rightarrow> Inr (inherit_locks ?g (a3\<lparr>gos := (gos a3)\<lparr>goCalls := (goCalls (gos a3))
             (?g \<mapsto> \<lparr>gc_ssaIns = go_ssaIns info, gc_goIns = goIns_ref info\<rparr>)\<rparr>\<rparr>))
       | Some f \<Rightarrow> trav f (nm f) ?g (Some (go_ssaIns info)) (inherit_locks ?g (a3\<lparr>gos := (gos a3)\<lparr>goCalls := (goCalls (gos a3))
             (?g \<mapsto> \<lparr>gc_ssaIns = go_ssaIns info, gc_goIns = goIns_ref info\<rparr>)\<rparr>\<rparr>))) = Inr c" for a3 c nm
  proof -
    define b where "b = inherit_locks ?g (a3\<lparr>gos := (gos a3)\<lparr>goCalls := (goCalls (gos a3))
             (?g \<mapsto> \<lparr>gc_ssaIns = go_ssaIns info, gc_goIns = goIns_ref info\<rparr>)\<rparr>\<rparr>)"
    have "S ?g b c" using that(2) unfolding b_def [symmetric]
      by (auto simp: bindR_eq_Inr_iff S_refl split: option.splits dest: okR_D [OF trav_S])
    moreover have "start_goroutine info rest a b"
      using that(1) unfolding start_goroutine_def Let_def b_def by (intro exI [of _ a3] conjI) (simp_all add: core_simps)
    ultimately show ?thesis using S_goroutine [OF assms(1)] S_trans [OF assms(2)] by blast
  qed
  then show ?thesis using skip
    unfolding newGoroutine_def Let_def okR_def by (auto simp: bindR_eq_Inr_iff split: if_splits)
qed

lemma visitGo: "S g a0 a \<Longrightarrow> okR (S g a0) (visitGo n trav a)"
proof (induction n arbitrary: a)
  case (Suc n)
  show ?case
  proof (cases "workList (gos a)")
    case (Cons info rest)
    show ?thesis unfolding visitGo.simps Cons list.sel
      by (intro okR_if bind_core(1) [OF newGoroutine [OF Cons Suc.prems] Suc.IH]) (use Suc.prems in simp_all)
  qed (use Suc.prems in simp)
qed simp

end

text \<open>Every amount of fuel: the recursion is closed by induction.\<close>

context traversal
begin

lemma callsI:
  assumes "\<And>f nm g i a. okR (S g a) (trav f nm g i a)" "\<And>x g i a. okR (S g a) (pa x g i a)"
  shows "traversal_calls S trav pa Inr"
  using assms by unfold_locales (simp_all add: S_refl)

lemma pointerAnalysis:
  assumes "\<And>f nm g i a. okR (S g a) (trav f nm g i a)"
  shows "okR (S g a) (pointerAnalysis n trav x g i a)"
proof (induction n arbitrary: x g i a)
  case (Suc n)
  show ?case unfolding pointerAnalysis.simps
    by (rule traversal_calls.pointer_step [OF callsI [OF assms Suc.IH] S_refl])
qed simp

lemma traverseFn: "okR (S g a) (traverseFn n f nm g i a)"
proof (induction n arbitrary: f nm g i a)
  case (Suc n)
  have v: "okR (S g a) (visitGo n (traverseFn n) a)" for g a
    by (rule traversal_calls.visitGo [OF callsI [OF Suc.IH pointerAnalysis [OF Suc.IH]] S_refl])
  have "traversal_calls S (traverseFn n) (pointerAnalysis n (traverseFn n)) (visitGo n (traverseFn n))"
    by unfold_locales (rule Suc.IH pointerAnalysis [OF Suc.IH] v)+
  then show ?case unfolding traverseFn.simps by (rule traversal_calls.traverse_step [OF _ S_refl])
qed simp

end

end
