(* ===== verification/Gorace_Goroutines.thy ===== *)
theory Gorace_Goroutines
  imports Gorace_Trace "HOL-Library.Sublist"
begin

text \<open>
  Two instances of the traversal contract: the records of the analysed program only grow, and the
  goroutines stay well formed (numbering, spawners, waiting list, first records), which is what the
  later stages rely on.
\<close>

section \<open>Growth of the records\<close>

text \<open>No record is ever changed or removed; the records of a goroutine only get longer.\<close>

definition records_grow :: "analysis \<Rightarrow> analysis \<Rightarrow> bool" where
  "records_grow a b \<longleftrightarrow>
     same_env a b \<and> length (RWIns a) \<le> length (RWIns b) \<and>
     (\<forall>k < length (RWIns a). prefix (RWIns a ! k) (RWIns b ! k))"

lemma records_grow_trans: "records_grow a b \<Longrightarrow> records_grow b c \<Longrightarrow> records_grow a c"
  unfolding records_grow_def same_env_def by (auto intro: prefix_order.trans)

lemma records_grow_core: "same_core a b \<Longrightarrow> records_grow a b"
  by (simp add: records_grow_def core_defs)

lemma records_grow_record: "recordIns g i a = Inr b \<Longrightarrow> records_grow a b"
  by (auto simp: recordIns_def records_grow_def same_env_def nth_list_update split: if_splits)

lemma records_grow_entry: "same_env a b \<Longrightarrow> RWIns b \<in> {RWIns a, RWIns a @ [[]]} \<Longrightarrow> records_grow a b"
  by (auto simp: records_grow_def nth_append)

lemma spawn_cases:
  assumes "spawn i f g l a = Inr (n, b)"
  shows "\<exists>a' stacks. recordIns g i a = Inr a' \<and> same_env a b \<and> RWIns b = RWIns a' \<and>
    gos b = (gos a)\<lparr>goStack := stacks, goCaller := (goCaller (gos a))(new_goID g a := g),
      workList := workList (gos a) @ [\<lparr>go_ssaIns = i, goIns_ref = i, entryMethod = f, go_goID = new_goID g a\<rparr>]\<rparr>"
proof -
  let ?a1 = "a\<lparr>loops := (loops a)\<lparr>loopIDs := (loopIDs (loops a))(new_goID g a := (if l > 0 then l else 0))\<rparr>\<rparr>"
  obtain a2 where a2: "recordIns g i ?a1 = Inr a2"
    using assms unfolding spawn_def Let_def by (auto simp: bindR_eq_Inr_iff)
  then have r: "g < length (RWIns a)"
    "a2 = ?a1\<lparr>RWIns := (RWIns a)[g := RWIns a ! g @ [\<lparr>ins = i, ins_stack = storeFns a\<rparr>]]\<rparr>"
    by (auto simp: recordIns_def split: if_splits)
  show ?thesis
    using assms a2 r unfolding spawn_def Let_def
    by (auto simp: bindR_eq_Inr_iff recordIns_def same_env_def)
qed

lemma start_goroutine_cases:
  assumes "start_goroutine info rest a b"
  shows "\<exists>R. R \<in> {RWIns a, RWIns a @ [[]]} \<and> go_goID info < length R \<and> same_env a b \<and>
    (\<exists>st. RWIns b = R[go_goID info := R ! go_goID info @ [\<lparr>ins = go_ssaIns info, ins_stack = st\<rparr>]]) \<and>
    goCaller (gos b) = goCaller (gos a) \<and> workList (gos b) = rest"
  using assms unfolding start_goroutine_def Let_def
  by (auto simp: recordIns_def core_defs split: if_splits)

lemma records_grow_start: "start_goroutine info rest a b \<Longrightarrow> records_grow a b"
  using start_goroutine_cases [of info rest a b] by (auto simp: records_grow_def nth_append nth_list_update)

interpretation trace: traversal "\<lambda>_. records_grow"
proof unfold_locales
  show "records_grow a a" for a by (rule records_grow_core [OF same_core_refl])
  show "records_grow a b \<Longrightarrow> same_env a b" for a b by (simp add: records_grow_def)
  show "spawn i f g l a = Inr (n, b) \<Longrightarrow> records_grow a b" for i f g l a n b
    using spawn_cases [of i f g l a n b] records_grow_record [of g i a] by (auto simp: records_grow_def)
  show "workList (gos a) = info # rest \<Longrightarrow> start_goroutine info rest a b \<Longrightarrow> records_grow b c \<Longrightarrow> records_grow a c"
    for a info rest b c by (metis records_grow_trans records_grow_start)
qed (auto intro: records_grow_trans records_grow_core records_grow_record records_grow_entry)

section \<open>Well-formed goroutines\<close>

text \<open>
  A goroutine is spawned by one with a smaller number, the waiting goroutines are numbered upwards
  from the current one, and the first record of a worker goroutine is its go statement. The exception
  is a go statement on a type assertion of a parameter: computing its name visits the callee on
  behalf of the main goroutine.
\<close>

definition is_go :: "ssa_program \<Rightarrow> ref \<Rightarrow> bool" where
  "is_go p i \<longleftrightarrow> (\<exists>c. obj p i = Go c)"

definition no_dynamic_go :: "ssa_program \<Rightarrow> bool" where
  "no_dynamic_go p \<longleftrightarrow>
     (\<forall>i c x u v w. obj p i = Go c \<longrightarrow> obj p (call_value c) = TypeAssert x \<longrightarrow> obj p x \<noteq> Parameter u v w)"

definition heads_ok :: "ssa_program \<Rightarrow> insInfo list list \<Rightarrow> bool" where
  "heads_ok p R \<longleftrightarrow> (\<forall>x. 0 < x \<longrightarrow> x < length R \<longrightarrow> R ! x \<noteq> [] \<longrightarrow> is_go p (ins (hd (R ! x))))"

definition queue_ok :: "ssa_program \<Rightarrow> nat \<Rightarrow> goroutineInfo list \<Rightarrow> bool" where
  "queue_ok p g w \<longleftrightarrow>
     sorted_wrt (<) (map go_goID w) \<and> (\<forall>info \<in> set w. g < go_goID info \<and> is_go p (go_ssaIns info))"

definition goroutines_ok :: "nat \<Rightarrow> analysis \<Rightarrow> bool" where
  "goroutines_ok g a \<longleftrightarrow>
     (\<forall>x > 0. goCaller (gos a) x < x) \<and> queue_ok (prog a) g (workList (gos a)) \<and> heads_ok (prog a) (RWIns a) \<and>
     (g = 0 \<or> g < length (RWIns a) \<and> RWIns a ! g \<noteq> [])"

definition goroutine_step :: "nat \<Rightarrow> analysis \<Rightarrow> analysis \<Rightarrow> bool" where
  "goroutine_step g a b \<longleftrightarrow> records_grow a b \<and> (no_dynamic_go (prog a) \<longrightarrow> goroutines_ok g a \<longrightarrow> goroutines_ok g b)"

lemma heads_ok_append: "heads_ok p R \<Longrightarrow> heads_ok p (R @ [[]])"
  by (auto simp: heads_ok_def nth_append)

lemma heads_ok_record:
  assumes "heads_ok p R" "g < length R" "g = 0 \<or> R ! g \<noteq> [] \<or> is_go p (ins r)"
  shows "heads_ok p (R[g := R ! g @ [r]])"
  using assms by (auto simp: heads_ok_def nth_list_update hd_append)

lemma new_goID_greater:
  assumes "queue_ok p g (workList (gos a))"
  shows "g < new_goID g a" "\<forall>info \<in> set (workList (gos a)). go_goID info < new_goID g a"
proof -
  show "\<forall>info \<in> set (workList (gos a)). go_goID info < new_goID g a"
  proof
    fix info assume i: "info \<in> set (workList (gos a))"
    then obtain xs where xs: "workList (gos a) = xs @ [last (workList (gos a))]"
      by (metis append_butlast_last_id empty_iff empty_set)
    have "sorted_wrt (<) (map go_goID (xs @ [last (workList (gos a))]))"
      using assms unfolding queue_ok_def by (subst xs [symmetric]) simp
    then have "\<forall>y \<in> set xs. go_goID y < go_goID (last (workList (gos a)))" by (simp add: sorted_wrt_append)
    moreover have "info \<in> set xs \<or> info = last (workList (gos a))" using i by (subst (asm) xs) auto
    ultimately show "go_goID info < new_goID g a" using i by (auto simp: new_goID_def)
  qed
  show "g < new_goID g a"
  proof (cases "workList (gos a) = []")
    case False
    then have "g < go_goID (last (workList (gos a)))" using assms by (simp add: queue_ok_def)
    then show ?thesis using False by (simp add: new_goID_def)
  qed (simp add: new_goID_def)
qed

lemma queue_ok_snoc:
  assumes "queue_ok p g w" "g < go_goID info" "\<forall>x \<in> set w. go_goID x < go_goID info" "is_go p (go_ssaIns info)"
  shows "queue_ok p g (w @ [info])"
  using assms by (auto simp: queue_ok_def sorted_wrt_append)

lemma queue_ok_Cons:
  assumes "queue_ok p g (info # rest)"
  shows "queue_ok p g rest" "queue_ok p (go_goID info) rest" "g < go_goID info" "is_go p (go_ssaIns info)"
  using assms by (auto simp: queue_ok_def)

lemma queue_ok_mono: "queue_ok p h w \<Longrightarrow> g \<le> h \<Longrightarrow> queue_ok p g w"
  by (auto simp: queue_ok_def)

lemma goroutines_ok_record:
  assumes "recordIns g i a = Inr b" "goroutines_ok g a"
  shows "goroutines_ok g b"
proof -
  have r: "g < length (RWIns a)" "b = a\<lparr>RWIns := (RWIns a)[g := RWIns a ! g @ [\<lparr>ins = i, ins_stack = storeFns a\<rparr>]]\<rparr>"
    using assms(1) by (auto simp: recordIns_def split: if_splits)
  then show ?thesis
    using assms(2) heads_ok_record [of "prog a" "RWIns a" g "\<lparr>ins = i, ins_stack = storeFns a\<rparr>"]
    by (auto simp: goroutines_ok_def)
qed

lemma goroutines_ok_spawn:
  assumes "spawn i f g l a = Inr (n, b)" "the_obj a i = Go c" "goroutines_ok g a"
  shows "goroutines_ok g b"
proof -
  obtain a' stacks where r: "recordIns g i a = Inr a'" "same_env a b" "RWIns b = RWIns a'"
    "gos b = (gos a)\<lparr>goStack := stacks, goCaller := (goCaller (gos a))(new_goID g a := g),
      workList := workList (gos a) @ [\<lparr>go_ssaIns = i, goIns_ref = i, entryMethod = f, go_goID = new_goID g a\<rparr>]\<rparr>"
    using spawn_cases [OF assms(1)] by blast
  have a': "goroutines_ok g a'" "prog a' = prog a"
    using goroutines_ok_record [OF r(1) assms(3)] r(1) by (auto simp: recordIns_def split: if_splits)
  have q: "queue_ok (prog a) g (workList (gos a))" using assms(3) by (simp add: goroutines_ok_def)
  have "queue_ok (prog a) g (workList (gos b))"
    using queue_ok_snoc [OF q] new_goID_greater [OF q] assms(2) by (auto simp: r(4) is_go_def)
  then show ?thesis using assms(3) a' r new_goID_greater(1) [OF q] by (auto simp: goroutines_ok_def same_env_def)
qed

lemma goroutines_ok_start:
  assumes "workList (gos a) = info # rest" "start_goroutine info rest a b" "goroutines_ok g a"
  shows "goroutines_ok (go_goID info) b"
proof -
  obtain R st where r: "R \<in> {RWIns a, RWIns a @ [[]]}" "go_goID info < length R" "same_env a b"
    "RWIns b = R[go_goID info := R ! go_goID info @ [\<lparr>ins = go_ssaIns info, ins_stack = st\<rparr>]]"
    "goCaller (gos b) = goCaller (gos a)" "workList (gos b) = rest"
    using start_goroutine_cases [OF assms(2)] by blast
  have q: "queue_ok (prog a) g (info # rest)" using assms(1,3) by (simp add: goroutines_ok_def)
  have "heads_ok (prog a) R" using assms(3) r(1) heads_ok_append by (auto simp: goroutines_ok_def)
  then have "heads_ok (prog a) (RWIns b)"
    using heads_ok_record [OF _ r(2)] queue_ok_Cons(4) [OF q] by (simp add: r(4))
  then show ?thesis using assms(3) r(2,3,5,6) queue_ok_Cons(2) [OF q] by (simp add: goroutines_ok_def same_env_def r(4))
qed

lemma goroutines_ok_return:
  assumes "goroutines_ok g a" "records_grow a c" "goroutines_ok h c" "g \<le> h"
  shows "goroutines_ok g c"
proof -
  have "g = 0 \<or> g < length (RWIns c) \<and> RWIns c ! g \<noteq> []"
    using assms(1,2) by (fastforce simp: goroutines_ok_def records_grow_def)
  then show ?thesis using assms(3) queue_ok_mono [OF _ assms(4)] by (simp add: goroutines_ok_def)
qed

interpretation gor: traversal goroutine_step
proof unfold_locales
  fix g a b c info rest i f l n p q r x st cc
  show "goroutine_step g a a" by (simp add: goroutine_step_def records_grow_core core_simps)
  show "goroutine_step g a b \<Longrightarrow> goroutine_step g b c \<Longrightarrow> goroutine_step g a c"
    by (auto simp: goroutine_step_def records_grow_def same_env_def intro: records_grow_trans prefix_order.trans)
  show "goroutine_step g a b \<Longrightarrow> same_env a b" by (simp add: goroutine_step_def records_grow_def)
  show "same_core a b \<Longrightarrow> goroutine_step g a b"
    by (auto simp: goroutine_step_def records_grow_core goroutines_ok_def core_defs)
  show "recordIns g i a = Inr b \<Longrightarrow> goroutine_step g a b"
    by (auto simp: goroutine_step_def intro: records_grow_record goroutines_ok_record)
  show "same_env a b \<Longrightarrow> RWIns b \<in> {RWIns a, RWIns a @ [[]]} \<Longrightarrow> gos b = (gos a)\<lparr>goStack := st\<rparr> \<Longrightarrow> goroutine_step g a b"
    using records_grow_entry [of a b] heads_ok_append [of "prog a" "RWIns a"]
    by (auto simp: goroutine_step_def goroutines_ok_def same_env_def nth_append)
  show "spawn i f g l a = Inr (n, b) \<Longrightarrow> the_obj a i = Go cc \<Longrightarrow> goroutine_step g a b"
    using trace.S_spawn goroutines_ok_spawn by (auto simp: goroutine_step_def)
  show "goroutine_step 0 a b \<Longrightarrow> the_obj a i = Go cc \<Longrightarrow> the_obj a (call_value cc) = TypeAssert x \<Longrightarrow>
      the_obj a x = Parameter p q r \<Longrightarrow> goroutine_step g a b"
    by (auto simp: goroutine_step_def no_dynamic_go_def)
  show "workList (gos a) = info # rest \<Longrightarrow> start_goroutine info rest a b \<Longrightarrow> goroutine_step (go_goID info) b c \<Longrightarrow>
      goroutine_step g a c"
  proof -
    assume h: "workList (gos a) = info # rest" "start_goroutine info rest a b" "goroutine_step (go_goID info) b c"
    have gr: "records_grow a c" using h(3) records_grow_trans [OF records_grow_start [OF h(2)]] by (simp add: goroutine_step_def)
    have "goroutines_ok g c" if "no_dynamic_go (prog a)" "goroutines_ok g a"
    proof -
      have "prog b = prog a" using records_grow_start [OF h(2)] by (simp add: records_grow_def same_env_def)
      then have c: "goroutines_ok (go_goID info) c" using h(3) goroutines_ok_start [OF h(1,2) that(2)] that(1) by (simp add: goroutine_step_def)
      have "g < go_goID info" using that(2) h(1) by (auto simp: goroutines_ok_def queue_ok_def)
      then show ?thesis using goroutines_ok_return [OF that(2) gr c] by simp
    qed
    then show ?thesis using gr by (simp add: goroutine_step_def)
  qed
  show "workList (gos a) = info # rest \<Longrightarrow> same_env a b \<Longrightarrow> RWIns b \<in> {RWIns a, RWIns a @ [[]]} \<Longrightarrow>
      gos b = (gos a)\<lparr>workList := rest\<rparr> \<Longrightarrow> goroutine_step g a b"
    using records_grow_entry [of a b] heads_ok_append [of "prog a" "RWIns a"] queue_ok_Cons(1) [of "prog a" g info rest]
    by (auto simp: goroutine_step_def goroutines_ok_def same_env_def nth_append)
qed

interpretation gor_calls: traversal_calls goroutine_step "traverseFn n" "pointerAnalysis n (traverseFn n)"
    "visitGo n (traverseFn n)" for n
  by unfold_locales
    (rule gor.traverseFn gor.pointerAnalysis [OF gor.traverseFn]
      traversal_calls.visitGo [OF gor.callsI [OF gor.traverseFn gor.pointerAnalysis [OF gor.traverseFn]] gor.S_refl])+

end
