(* ===== verification/Gorace_Runner.thy ===== *)
theory Gorace_Runner
  imports Gorace_Check Gorace_BuildHB Gorace_Goroutines
begin

text \<open>
  \<^verbatim>\<open>runChecker\<close> of \<^verbatim>\<open>gorace/analysisTools.go\<close>: the stages in order. The graph package is a parameter,
  the function that lists the neighbours of a node for the edges created so far; the answers of the
  pointer analysis are those of the finished analysis. Messages and the report files are left out.
\<close>

section \<open>The stages\<close>

definition initialAnalysis :: "ssa_program \<Rightarrow> config \<Rightarrow> pta_result \<Rightarrow> analysis" where
  "initialAnalysis p c r =
     \<lparr>prog = p, cfg = c, pta = r, RWIns = [], insMono = -1, storeFns = [], levels = Map.empty, getParam = False,
      paramFunc = None, deferToRet = Map.empty, trieMap = Map.empty, next_call = 0, queries = [], indirectQueries = [],
      locks = \<lparr>lock_heap = (\<lambda>_. \<lparr>locAddr = 0, locFreeze = False, locBloc = None, lock_parentFn = None\<rparr>), lock_next = 0,
               arrays = (\<lambda>_. []), arr_next = 0, lockSet = (\<lambda>_. None), RlockSet = (\<lambda>_. None),
               lockMap = (\<lambda>_. []), RlockMap = (\<lambda>_. [])\<rparr>,
      chans = \<lparr>chanToken = Map.empty, chanBuf = Map.empty, chanRcvs = [], chanSnds = [], chanName = []\<rparr>,
      sels = \<lparr>selectBloc = Map.empty, selReady = [], selUnknown = [], selectCaseBegin = Map.empty,
              selectCaseEnd = Map.empty, selectCaseBody = Map.empty, selectDone = Map.empty\<rparr>,
      ifs = \<lparr>ifSuccBegin = [], ifFnReturn = Map.empty, ifSuccEnd = Map.empty, commIfSucc = [], omitComm = []\<rparr>,
      loops = \<lparr>inLoop = False, loopIDs = (\<lambda>_. 0), allocLoop = (\<lambda>_. []), bindingFV = (\<lambda>_. []), twinGoID = []\<rparr>,
      gos = \<lparr>goStack = [], goCaller = (\<lambda>_. 0), goCalls = Map.empty, workList = []\<rparr>\<rparr>"

definition set_efficiency :: "analysis \<Rightarrow> analysis" where
  "set_efficiency a =
     (if str_contains (main_path (cfg a)) ''GoBench'' then a\<lparr>cfg := (cfg a)\<lparr>efficiency := False\<rparr>\<rparr>
      else if \<not> goTest (cfg a) then a\<lparr>cfg := (cfg a)\<lparr>efficiency := True\<rparr>\<rparr>
      else a)"

text \<open>A channel of an unknown select case that nothing sends to, receives from or creates is not ready.\<close>

definition chan_unready :: "chan_state \<Rightarrow> string \<Rightarrow> bool" where
  "chan_unready c ch \<longleftrightarrow>
     ch \<notin> set (map fst (chanSnds c)) \<and> ch \<noteq> [] \<and> ch \<notin> set (map fst (chanRcvs c)) \<and>
     (case chanToken c ch of None \<Rightarrow> [] | Some t \<Rightarrow> t) \<notin> dom (chanBuf c)"

fun clear_cases :: "chan_state \<Rightarrow> nat \<Rightarrow> string list \<Rightarrow> string list \<Rightarrow> string list" where
  "clear_cases c i [] exist = exist"
| "clear_cases c i (ch # chs) exist =
     clear_cases c (Suc i) chs (if chan_unready c ch \<and> i < length exist then exist[i := []] else exist)"

definition confirm_selects :: "analysis \<Rightarrow> analysis" where
  "confirm_selects a =
     a\<lparr>sels := (sels a)\<lparr>selReady :=
        fold (\<lambda>(sel, chs) m. if sel \<in> set (map fst m)
                then update_list m sel (clear_cases (chans a) 0 chs (lookup_list m sel)) else m)
          (selUnknown (sels a)) (selReady (sels a))\<rparr>\<rparr>"

type_synonym neighbors_fn = "(nat \<times> nat) list \<Rightarrow> nat \<Rightarrow> nat list"

definition graph_of :: "neighbors_fn \<Rightarrow> hb_state \<Rightarrow> nat hb_graph" where
  "graph_of nbrs s = \<lparr>neighbors = nbrs (edges s), value_of = (\<lambda>n. n), rwInsMap = RWinsMap s\<rparr>"

definition with_omitted :: "hb_state \<Rightarrow> analysis \<Rightarrow> analysis" where
  "with_omitted s a = a\<lparr>ifs := (ifs a)\<lparr>omitComm := hb_omit s\<rparr>\<rparr>"

definition detect :: "neighbors_fn \<Rightarrow> analysis \<Rightarrow> raceInfo list go_result" where
  "detect nbrs a =
     (if length (RWIns a) = 1 then Inr []
      else let a = confirm_selects a
           in bindR (buildHB a) (\<lambda>s.
              bindR (checkRacyPairs (with_omitted s a) (graph_of nbrs s) Map.empty) (\<lambda>(races, _). Inr races)))"

definition runChecker :: "nat \<Rightarrow> neighbors_fn \<Rightarrow> ref option \<Rightarrow> analysis \<Rightarrow> raceInfo list go_result" where
  "runChecker n nbrs entry a =
     (let a = set_efficiency a
      in case entry of
           None \<Rightarrow> Inl NilDereference
         | Some f \<Rightarrow> bindR (traverseFn n f (fn_name (fun_of (prog a) f)) 0 None a) (detect nbrs))"

section \<open>What the traversal leaves to the later stages\<close>

lemma initial_goroutines_ok: "goroutines_ok 0 (set_efficiency (initialAnalysis p c r))"
  by (simp add: set_efficiency_def initialAnalysis_def goroutines_ok_def queue_ok_def heads_ok_def)

lemma initial_prog: "prog (set_efficiency (initialAnalysis p c r)) = p"
  by (simp add: set_efficiency_def initialAnalysis_def)

lemma traversal_goroutines_ok:
  assumes "traverseFn n f nm 0 None (set_efficiency (initialAnalysis p c r)) = Inr a" "no_dynamic_go p"
  shows "goroutines_ok 0 a" "prog a = p"
proof -
  have "goroutine_step 0 (set_efficiency (initialAnalysis p c r)) a"
    using okR_D [OF gor.traverseFn assms(1)] .
  then show "goroutines_ok 0 a" "prog a = p"
    using initial_goroutines_ok [of p c r] initial_prog [of p c r] assms(2)
    by (auto simp: goroutine_step_def records_grow_def same_env_def)
qed

section \<open>Paths in the graph\<close>

definition graph_law :: "neighbors_fn \<Rightarrow> bool" where
  "graph_law nbrs \<longleftrightarrow> (\<forall>es n. set (nbrs es n) = {m. (n, m) \<in> set es})"

lemma graph_edges: "graph_law nbrs \<Longrightarrow> edges_of (neighbors (graph_of nbrs s)) = set (edges s)"
  by (auto simp: graph_law_def edges_of_def graph_of_def)

lemma graph_reach_finite:
  assumes "graph_law nbrs"
  shows "finite (reach_set (neighbors (graph_of nbrs s)) n)"
proof -
  have "reach_set (neighbors (graph_of nbrs s)) n \<subseteq> insert n (snd ` set (edges s))"
  proof
    fix m assume "m \<in> reach_set (neighbors (graph_of nbrs s)) n"
    then have "(n, m) \<in> (set (edges s))\<^sup>*" by (simp add: reach_set_def graph_edges [OF assms])
    then show "m \<in> insert n (snd ` set (edges s))" by (rule rtranclE) (auto intro: rev_image_eqI)
  qed
  then show ?thesis by (rule finite_subset) simp
qed

lemma unordered_no_path:
  assumes "graph_law nbrs" "unordered (graph_of nbrs s) x i y j"
    "RWinsMap s \<lparr>gi_ins = x, gi_goID = i\<rparr> = Some m" "RWinsMap s \<lparr>gi_ins = y, gi_goID = j\<rparr> = Some n"
  shows "(m, n) \<notin> (set (edges s))\<^sup>*" "(n, m) \<notin> (set (edges s))\<^sup>*"
proof -
  have inj: "inj_on (value_of (graph_of nbrs s)) A" for A by (simp add: graph_of_def inj_on_def)
  have k: "rwInsMap (graph_of nbrs s) = RWinsMap s" by (simp add: graph_of_def)
  note F = reachableBFS_correct [OF _ _ graph_reach_finite [OF assms(1)] inj, where rwInsMap = "RWinsMap s"]
  show "(m, n) \<notin> (set (edges s))\<^sup>*" "(n, m) \<notin> (set (edges s))\<^sup>*"
    using assms(2) F [OF assms(3,4)] F [OF assms(4,3)] unfolding unordered_def k graph_edges [OF assms(1)] by auto
qed

lemma conflicting_access:
  assumes "conflicting a x y = Inr True"
  shows "access_ins a x" "access_ins a y"
  using assms unfolding conflicting_def access_ins_def
  by (auto simp: bindR_eq_Inr_iff split: if_splits)

lemma with_omitted_simps [simp]:
  "RWIns (with_omitted s a) = RWIns a" "prog (with_omitted s a) = prog a" "access_ins (with_omitted s a) x = access_ins a x"
  by (simp_all add: with_omitted_def access_ins_def isReadIns_def cong: object.case_cong)

lemma confirm_selects_RWIns [simp]: "RWIns (confirm_selects a) = RWIns a" "prog (confirm_selects a) = prog a"
  by (simp_all add: confirm_selects_def)

lemma buildHB_all: "buildHB a = Inr s \<Longrightarrow> hb_all a 0 (RWIns a) (hb_init (omitComm (ifs a))) = Inr s"
  by (simp add: buildHB_def)

text \<open>A reported race has no path between the nodes of its accesses.\<close>

lemma candidate_no_path:
  assumes "buildHB a = Inr s" "graph_law nbrs" "considered (with_omitted s a) i j ii jj"
    "candidate (with_omitted s a) (graph_of nbrs s) i j (RWIns a ! i ! ii) (RWIns a ! j ! jj) x y"
  shows "\<exists>m n. RWinsMap s \<lparr>gi_ins = ins (RWIns a ! i ! ii), gi_goID = i\<rparr> = Some m \<and>
    RWinsMap s \<lparr>gi_ins = ins (RWIns a ! j ! jj), gi_goID = j\<rparr> = Some n \<and>
    (m, n) \<notin> (set (edges s))\<^sup>* \<and> (n, m) \<notin> (set (edges s))\<^sup>*"
proof -
  have b: "i < length (RWIns a)" "ii < length (RWIns a ! i)" "j < length (RWIns a)" "jj < length (RWIns a ! j)"
    using assms(3) by (auto simp: considered_def)
  have acc: "access_ins a (ins (RWIns a ! i ! ii))" "access_ins a (ins (RWIns a ! j ! jj))"
    using assms(4) conflicting_access [of "with_omitted s a"] by (auto simp: candidate_def)
  have "\<lparr>gi_ins = ins (RWIns a ! i ! ii), gi_goID = i\<rparr> \<in> dom (RWinsMap s)"
    "\<lparr>gi_ins = ins (RWIns a ! j ! jj), gi_goID = j\<rparr> \<in> dom (RWinsMap s)"
    using hb_all_ok [OF buildHB_all [OF assms(1)] hb_init_ok] b acc by auto
  then obtain m n where mn: "RWinsMap s \<lparr>gi_ins = ins (RWIns a ! i ! ii), gi_goID = i\<rparr> = Some m"
    "RWinsMap s \<lparr>gi_ins = ins (RWIns a ! j ! jj), gi_goID = j\<rparr> = Some n" by blast
  have "unordered (graph_of nbrs s) (ins (RWIns a ! i ! ii)) i (ins (RWIns a ! j ! jj)) j"
    using assms(4) by (simp add: candidate_def)
  from unordered_no_path [OF assms(2) this mn] show ?thesis using mn by blast
qed

section \<open>Program order and spawning\<close>

definition plain_goroutine :: "analysis \<Rightarrow> nat \<Rightarrow> bool" where
  "plain_goroutine a g \<longleftrightarrow> (\<forall>r \<in> set (RWIns a ! g). plain_ins a (ins r)) \<and> distinct (accesses a (RWIns a ! g))"

lemma program_order:
  assumes "buildHB a = Inr s" "g < length (RWIns a)" "plain_goroutine a g" "k \<le> l" "l < length (RWIns a ! g)"
  shows "(node_at (RWIns a) g k, node_at (RWIns a) g l) \<in> (set (edges s))\<^sup>*"
  using assms(4,5)
proof (induction l)
  case (Suc l)
  have "(node_at (RWIns a) g l, node_at (RWIns a) g (Suc l)) \<in> set (edges s)"
    using hb_all_edges [OF buildHB_all [OF assms(1)] hb_init_ok assms(2)] assms(3) Suc.prems(2)
    by (auto simp: plain_goroutine_def hb_init_def)
  then show ?case using Suc by (cases "k = Suc l") (auto intro: rtrancl_into_rtrancl)
qed simp

text \<open>The go statement of goroutine \<open>j\<close> is recorded once before it, as record \<open>k\<close> of goroutine \<open>i\<close>.\<close>

definition spawned_at :: "analysis \<Rightarrow> nat \<Rightarrow> nat \<Rightarrow> nat \<Rightarrow> bool" where
  "spawned_at a j i k \<longleftrightarrow>
     (\<forall>g < j. \<forall>l < length (RWIns a ! g). ins (RWIns a ! g ! l) = ins (hd (RWIns a ! j)) \<longrightarrow> g = i \<and> l = k)"

lemma spawn_edge:
  assumes "buildHB a = Inr s" "0 < j" "j < length (RWIns a)" "RWIns a ! j \<noteq> []" "plain_goroutine a j" "spawned_at a j i k"
  shows "(node_at (RWIns a) i k, node_at (RWIns a) j 0) \<in> set (edges s)"
proof -
  have vals: "node_vals s = keys_from 0 (RWIns a)"
    using hb_all_ok [OF buildHB_all [OF assms(1)] hb_init_ok] by (simp add: hb_init_def)
  obtain m where m: "m < node_at (RWIns a) j 0" "gi_ins (node_vals s ! m) = ins (hd (RWIns a ! j))"
    "gi_goID (node_vals s ! m) < j" "(m, node_at (RWIns a) j 0) \<in> set (edges s)"
    using hb_all_edges [OF buildHB_all [OF assms(1)] hb_init_ok assms(3)] assms(2,4,5)
    by (auto simp: plain_goroutine_def hb_init_def)
  have "m < length (keys_from 0 (RWIns a))"
    using m(1) keys_from_nth(1) [of j "RWIns a" 0 0] assms(3,4) by simp
  then obtain g l where gl: "g < length (RWIns a)" "l < length (RWIns a ! g)" "m = node_at (RWIns a) g l"
    using keys_from_index by blast
  then have "ins (RWIns a ! g ! l) = ins (hd (RWIns a ! j))" "g < j"
    using m(2,3) keys_from_nth(2) [OF gl(1,2), of 0] vals by simp_all
  then have "g = i \<and> l = k" using assms(6) gl(2) by (auto simp: spawned_at_def)
  then show ?thesis using m(4) gl(3) by simp
qed

lemma spawn_path:
  assumes "buildHB a = Inr s" "i < length (RWIns a)" "0 < j" "j < length (RWIns a)"
    "plain_goroutine a i" "plain_goroutine a j" "spawned_at a j i k" "k < length (RWIns a ! i)"
    "ii \<le> k" "jj < length (RWIns a ! j)"
  shows "(node_at (RWIns a) i ii, node_at (RWIns a) j jj) \<in> (set (edges s))\<^sup>*"
proof -
  have "(node_at (RWIns a) i ii, node_at (RWIns a) i k) \<in> (set (edges s))\<^sup>*"
    by (rule program_order [OF assms(1,2,5,9,8)])
  also have "(node_at (RWIns a) i k, node_at (RWIns a) j 0) \<in> set (edges s)"
    by (rule spawn_edge [OF assms(1,3,4) _ assms(6,7)]) (use assms(10) in auto)
  also have "(node_at (RWIns a) j 0, node_at (RWIns a) j jj) \<in> (set (edges s))\<^sup>*"
    by (rule program_order [OF assms(1,4,6) _ assms(10)]) simp
  finally show ?thesis .
qed

lemma access_node:
  assumes "buildHB a = Inr s" "g < length (RWIns a)" "l < length (RWIns a ! g)" "plain_goroutine a g"
    "access_ins a (ins (RWIns a ! g ! l))"
  shows "RWinsMap s \<lparr>gi_ins = ins (RWIns a ! g ! l), gi_goID = g\<rparr> = Some (node_at (RWIns a) g l)"
  using hb_all_nodes [OF buildHB_all [OF assms(1)] hb_init_ok assms(2,3)] assms(4,5)
  by (simp add: plain_goroutine_def hb_init_def)

end
