(* ===== verification/Gorace_Sample.thy ===== *)
theory Gorace_Sample
  imports Gorace_Runner
begin

text \<open>
  A small program on which the definitions of the race detector are evaluated: \<^verbatim>\<open>main\<close> starts a
  goroutine that runs \<^verbatim>\<open>worker\<close>, and both store to the same global. The collection \<open>exec\<close> holds the
  equations that evaluate a run by rewriting; the two congruence rules keep the simplifier out of
  the continuation of a computation until its first part is a value.
\<close>

section \<open>The program\<close>


definition sample_fn :: "string \<Rightarrow> blk \<Rightarrow> ssa_function" where
  "sample_fn nm b = \<lparr>fn_name = nm, fn_string = nm, fn_pkg = Some (Some \<lparr>pkg_name = ''main'', pkg_path = ''main''\<rparr>),
     fn_from_app = True, fn_synthetic = [], fn_blocks = Some [b], fn_free_vars = []\<rparr>"

definition sample_block :: "ref \<Rightarrow> ref list \<Rightarrow> basic_block" where
  "sample_block f is = \<lparr>block_index = 0, block_comment = ''entry'', block_parent = Some f, block_instrs = is,
     block_succs = [], dom_pre = 0, dom_post = 0\<rparr>"

fun sample_obj :: "ref \<Rightarrow> object" where
  "sample_obj r =
     (if r = 0 \<or> r = 1 then Function else if r = 2 then Global
      else if r = 3 then Go \<lparr>call_value = 1, call_method = None, call_args = []\<rparr>
      else if r = 4 \<or> r = 6 then Store 2 9 else if r = 5 \<or> r = 7 then Return else Const 1)"

definition sample_pos :: "ref \<Rightarrow> int" where "sample_pos r = int r + 10"
definition sample_str :: "ref \<Rightarrow> string" where "sample_str r = ''v''"
definition sample_where :: "ref \<Rightarrow> nat option" where
  "sample_where r = (if r = 3 \<or> r = 4 \<or> r = 5 then Some 0 else if r = 6 \<or> r = 7 then Some 1 else None)"
definition sample_fun :: "ref \<Rightarrow> ssa_function" where
  "sample_fun r = (if r = 0 then sample_fn ''main'' 0 else sample_fn ''worker'' 1)"
definition sample_bb :: "blk \<Rightarrow> basic_block" where
  "sample_bb b = (if b = 0 then sample_block 0 [3, 4, 5] else sample_block 1 [6, 7])"
definition sample_yes :: "ref \<Rightarrow> bool" where "sample_yes r = True"

definition sample_prog :: ssa_program where
  "sample_prog = \<lparr>obj = sample_obj, val_pos = sample_pos, val_name = sample_str, val_string = sample_str,
     ins_block = sample_where, val_parent = sample_where, fun_of = sample_fun, bb = sample_bb,
     val_type_string = sample_str, can_point = sample_yes, can_point_elem = sample_yes\<rparr>"

definition sample_cfg :: config where
  "sample_cfg = \<lparr>useNewPTA = True, useDefaultPTA = False, goTest = False, channelComm = True, cfg_trieLimit = 2,
     excludedPkgs = [], excludedFns = [], efficiency = False, scope = [], entryFn = ''main'',
     main_path = ''command-line-arguments'', main_name = ''main'', otherTests = [], spare_cap = (\<lambda>_. 0)\<rparr>"

definition sample_pta :: pta_result where
  "sample_pta = \<lparr>pts = (\<lambda>_ _ _. []), pts0 = (\<lambda>_. []), label_value = (\<lambda>l. l), label_string = (\<lambda>_. []),
     dyn_method = (\<lambda>_ _ _ _. NoDynamicType), dyn_method0 = (\<lambda>_ _. NoDynamicType), free_var_func = (\<lambda>_ _ _. None),
     invoke_funcs = (\<lambda>_ _ _ _. [])\<rparr>"

definition sample_nbrs :: neighbors_fn where
  "sample_nbrs es n = map snd (filter (\<lambda>e. fst e = n) es)"

definition sample_start :: analysis where
  "sample_start = initialAnalysis sample_prog sample_cfg sample_pta"

section \<open>Evaluation\<close>

lemma bindR_cong_weak: "m = m' \<Longrightarrow> bindR m f = bindR m' f"
  by simp

lemma Let_cong_weak: "m = m' \<Longrightarrow> Let m f = Let m' f"
  by simp

lemmas exec =
  nth_go_def NoPos_def StaticCallee_def Dominates_def DomPreorder_def callee_pkg_name_def prefix_of_def
  empty_queue_def enQueue_def deQueue_def queue_isEmpty_def queue_size_def reachableBFS_def reachable_def obj_opt_def
  call_stack_step_def csStr_of_def insToCallStack_def same_goroutines_def sliceContains_def noGoAfterFn_def
  sliceContainsFnCtr_def sliceContainsStrCtr_def sliceContainsBlocAt_def sliceContainsInsAt_def
  sliceContainsInsInfoAt_def lockSetVal_def isReadIns_def isWriteIns_def isLocal_def isLocalAddr_def getSrcPos_def
  read_args_def ins_address_def insAddress_def go_instr_def go_instr_opt_def Intersects_labels_def may_alias_def
  sameAddress_def locks_of_def lockSetsIntersect_def static_call_def bothAtomic_def selectMutEx_def fromLibrary_def
  root_path_def spawn_stack_def access_stack_def same_call_def call_block_def no_divergence_def incomparable_def
  both_in_def canRunInParallel_def deferred_block_def diverged_at_def at_block_def returning_branch_def
  mutuallyExcluded_def reachable_from_def conflicting_def race_condition_def check_pair_def skip_first_def
  check_goroutines_def go_pairs_def checkRacyPairs_def slice_elems_def slice_locks_def slice_grow_def slice_append_def
  slice_remove_def new_lock_def lock_acquire_def rlock_acquire_def lock_remove_def rlock_remove_def set_freeze_def
  snapshot_def updateLockMap_def updateRLockMap_def lock_root_def root_pos_def root_loc_def lockSetContainsAt_def
  fromPkgsOfInterest_def fromExcludedFns_def isSynthetic_def recordIns_def AddQuery_def query_old_def push_fn_def
  pop_fn_def updateRecords_def isBudgetExceeded_def count_visit_def explored_call_def exploredFunction_def
  digit_value_def Atoi_def token_name_def call_value_name_def checkTokenName_def checkTokenNameDefer_def
  keep_label_def filterParam_def filterInvoke_def filterLabels_def method_of_def traverse_method_def handle_label_def
  pointerNewAnalysisHandleFunc_def pointerNewAnalysis_def query_default_def pointer_default_def pointer_step_def
  insMakeChan_def chan_name_from_def chan_entry_def add_send_def add_rcv_def insSend_def insUnOp_def record_access_def
  in_AfterFunc_def store_fn_def insStore_def insFieldAddr_def insLookUp_def insChangeType_def insMakeInterface_def
  insMapUpdate_def no_ops_def arg0_def query_arg0_def call_delete_def delete_key_def close_chan_def call_dynamic_def
  call_static_def call_Lock_def call_Unlock_def call_RLock_def call_RUnlock_def call_sync_def insCall_def goNames_def
  go_entry_def new_goID_def push_stack_def spawn_def insGo_def select_ready_def select_loaded_def select_param_def
  select_case_def insSelect_def bVisit_of_def visit_init_def defer_call_def note_unlock_def note_runlock_def
  remove_found_def run_deferred_def at_rundefers_def excluded_ins_def block_of_def if_block_def visit_send_def
  is_alloc_def initialising_store_def loop_binding_def visit_go_def visit_alloc_def visit_return_def keep_def
  dispatch_def thaw_locks_def last_recorded_def record_if_new_def case_body_def case_begin_def case_end_def
  active_chan_def note_case_def note_done_def visit_ins_def first_ins_def last_ins_of_def enter_select_done_def
  enter_default_def enter_branch_def enter_loop_def leave_loop_def leave_block_def visit_block_def lock_count_def
  top_name_def finish_visit_def is_entry_def begin_visit_def visitAllInstructions_def calls_of_interest_def
  visitLibFnInstructions_def inherit_locks_def go_target_def newGoroutine_def update_call_locks_def traverse_step_def
  make_node_def make_edge_def node_goID_def getRcvChan_def getSndChan_def isReadySel_def classify_def note_ends_def
  block_comment_of_def case_edge_def done_edge_def succ_edge_def open_case_def incoming_edge_def hb_node_def
  first_arg_def call_of_def put_waiting_def sync_edges_def join_nodes_def receive_edges_def channel_edges_def
  return_edges_def hb_ins_def hb_init_def buildHB_def initialAnalysis_def set_efficiency_def chan_unready_def
  confirm_selects_def graph_of_def with_omitted_def detect_def runChecker_def Let_def

lemmas samples =
  sample_start_def sample_prog_def sample_cfg_def sample_pta_def sample_pos_def sample_str_def sample_where_def
  sample_fun_def sample_fn_def sample_bb_def sample_block_def sample_yes_def sample_nbrs_def


section \<open>The end of the traversal\<close>

definition sample_call :: "nat \<Rightarrow> ref \<Rightarrow> ref option \<Rightarrow> fnCallInfo" where
  "sample_call k f i = \<lparr>fc_id = k, fnIns = Some f, ssaIns = i\<rparr>"

definition sample_records :: "insInfo list list" where
  "sample_records =
     [map (\<lambda>i. \<lparr>ins = i, ins_stack = [sample_call 0 0 None]\<rparr>) [3, 4, 5],
      \<lparr>ins = 3, ins_stack = []\<rparr> # map (\<lambda>i. \<lparr>ins = i, ins_stack = [sample_call 2 1 (Some 3)]\<rparr>) [3, 6, 7]]"

definition sample_end :: analysis where
  "sample_end =
     (set_efficiency sample_start)\<lparr>
       RWIns := sample_records, insMono := 1, levels := [0 \<mapsto> 0, 1 \<mapsto> 0], next_call := 3,
       trieMap := [\<lparr>fi_fn = 0, contextStr = []\<rparr> \<mapsto> \<lparr>trie_name = ''main'', budget = 1, fnContext = []\<rparr>,
                   \<lparr>fi_fn = 1, contextStr = []\<rparr> \<mapsto> \<lparr>trie_name = ''worker'', budget = 1, fnContext = []\<rparr>],
       locks := (locks sample_start)\<lparr>lockMap := (\<lambda>_. [])(4 := [], 6 := [])\<rparr>,
       loops := (loops sample_start)\<lparr>loopIDs := (\<lambda>_. 0)(0 := 0, 1 := 0)\<rparr>,
       gos := \<lparr>goStack = [[], [sample_call 0 0 None, sample_call 1 1 (Some 3)]], goCaller = (\<lambda>_. 0)(1 := 0),
               goCalls = [1 \<mapsto> \<lparr>gc_ssaIns = 3, gc_goIns = 3\<rparr>], workList = []\<rparr>\<rparr>"

lemma sample_traversal: "traverseFn 6 0 ''main'' 0 None (set_efficiency sample_start) = Inr sample_end"
  by (simp add: exec samples sample_end_def sample_records_def sample_call_def eval_nat_numeral
      cong: bindR_cong_weak Let_cong_weak)

lemmas sample_ends = sample_end_def sample_records_def sample_call_def samples

lemma sample_detect:
  "detect sample_nbrs sample_end =
     Inr [race_of 0 1 1 2 (sample_records ! 0 ! 1) (sample_records ! 1 ! 2) 2 2]"
  by (simp add: exec sample_ends race_of_def go_path.simps bfs_loop.simps eval_nat_numeral
      cong: bindR_cong_weak Let_cong_weak)

lemma sample_run:
  "runChecker 6 sample_nbrs (Some 0) sample_start =
     Inr [race_of 0 1 1 2 (sample_records ! 0 ! 1) (sample_records ! 1 ! 2) 2 2]"
proof -
  have "fn_name (fun_of (prog (set_efficiency sample_start)) 0) = ''main''"
    by (simp add: set_efficiency_def initialAnalysis_def samples)
  then show ?thesis by (simp add: runChecker_def sample_traversal sample_detect)
qed

lemma sample_graph: "graph_law sample_nbrs"
  by (auto simp: graph_law_def sample_nbrs_def image_iff intro: rev_image_eqI)

section \<open>Its graph\<close>

definition sample_hb :: hb_state where
  "sample_hb =
     (hb_init [])\<lparr>
       node_vals := map (\<lambda>i. \<lparr>gi_ins = i, gi_goID = 0\<rparr>) [3, 4, 5] @ map (\<lambda>i. \<lparr>gi_ins = i, gi_goID = 1\<rparr>) [3, 3, 6, 7],
       edges := [(0, 1), (1, 2), (0, 3), (3, 4), (4, 5), (5, 6)],
       RWinsMap := [\<lparr>gi_ins = 4, gi_goID = 0\<rparr> \<mapsto> 1, \<lparr>gi_ins = 6, gi_goID = 1\<rparr> \<mapsto> 5],
       prevN := Some 6, goCallerN := [3 \<mapsto> 4]\<rparr>"

lemma sample_built: "buildHB (confirm_selects sample_end) = Inr sample_hb"
  by (simp add: exec sample_ends sample_hb_def eval_nat_numeral cong: bindR_cong_weak Let_cong_weak)

lemma sample_considered: "considered (with_omitted sample_hb (confirm_selects sample_end)) 0 1 1 2"
  by (simp add: considered_def exec sample_ends sample_hb_def go_path.simps eval_nat_numeral
      cong: bindR_cong_weak Let_cong_weak)

lemma sample_candidate:
  "candidate (with_omitted sample_hb (confirm_selects sample_end)) (graph_of sample_nbrs sample_hb) 0 1
     (sample_records ! 0 ! 1) (sample_records ! 1 ! 2) 2 2"
  by (simp add: candidate_def unordered_def exec sample_ends sample_hb_def go_path.simps bfs_loop.simps eval_nat_numeral
      cong: bindR_cong_weak Let_cong_weak)

lemma sample_plain: "plain_goroutine sample_end 0" "plain_goroutine sample_end 1"
  by (simp_all add: plain_goroutine_def plain_ins_def accesses_def access_ins_def exec sample_ends eval_nat_numeral
      cong: bindR_cong_weak Let_cong_weak)

lemma sample_spawned: "spawned_at sample_end 1 0 0"
  by (auto simp: spawned_at_def sample_ends less_Suc_eq nth_Cons split: nat.splits)

end
