(* ===== verification/Gorace_Spawners.thy ===== *)
theory Gorace_Spawners
  imports Gorace_Goroutines
begin

text \<open>
  A third instance of the traversal contract: where the go statements of the goroutines come from. A
  goroutine that waits was spawned at a statement its spawner has recorded, and a goroutine that was
  started begins its records with a go statement that a goroutine of smaller number has recorded.
\<close>

section \<open>Recorded go statements\<close>

definition recorded :: "analysis \<Rightarrow> nat \<Rightarrow> ref \<Rightarrow> bool" where
  "recorded a h i \<longleftrightarrow> h < length (RWIns a) \<and> (\<exists>r \<in> set (RWIns a ! h). ins r = i)"

definition recorded_below :: "analysis \<Rightarrow> nat \<Rightarrow> ref \<Rightarrow> bool" where
  "recorded_below a g i \<longleftrightarrow> (\<exists>h < g. recorded a h i)"

text \<open>The goroutines that wait, those that have records, and the entries of \<^verbatim>\<open>goCalls\<close>.\<close>

definition waiting_recorded :: "analysis \<Rightarrow> bool" where
  "waiting_recorded a \<longleftrightarrow> (\<forall>info \<in> set (workList (gos a)). recorded a (goCaller (gos a) (go_goID info)) (go_ssaIns info))"

definition heads_recorded :: "analysis \<Rightarrow> bool" where
  "heads_recorded a \<longleftrightarrow> (\<forall>g. 0 < g \<longrightarrow> g < length (RWIns a) \<longrightarrow> RWIns a ! g \<noteq> [] \<longrightarrow> recorded_below a g (ins (hd (RWIns a ! g))))"

definition calls_recorded :: "analysis \<Rightarrow> bool" where
  "calls_recorded a \<longleftrightarrow> (\<forall>g ci. goCalls (gos a) g = Some ci \<longrightarrow>
     recorded a g (gc_ssaIns ci) \<and> recorded_below a g (gc_ssaIns ci) \<and> is_go (prog a) (gc_ssaIns ci))"

definition spawns_recorded :: "analysis \<Rightarrow> bool" where
  "spawns_recorded a \<longleftrightarrow> waiting_recorded a \<and> heads_recorded a \<and> calls_recorded a"

lemmas spawns_defs = spawns_recorded_def waiting_recorded_def heads_recorded_def calls_recorded_def

lemma recorded_grow:
  assumes "records_grow a b"
  shows "recorded a h i \<Longrightarrow> recorded b h i" "recorded_below a g i \<Longrightarrow> recorded_below b g i"
proof -
  show r: "recorded a h i \<Longrightarrow> recorded b h i" for h
    using assms unfolding recorded_def records_grow_def by (meson order_less_le_trans set_mono_prefix subsetD)
  show "recorded_below a g i \<Longrightarrow> recorded_below b g i" using r by (auto simp: recorded_below_def)
qed

text \<open>Heads stay when records are appended.\<close>

lemma head_grow:
  assumes "records_grow a b" "g < length (RWIns a)" "RWIns a ! g \<noteq> []"
  shows "hd (RWIns b ! g) = hd (RWIns a ! g)"
  using assms unfolding records_grow_def prefix_def by (metis hd_append2)

lemma heads_recorded_grow:
  assumes "records_grow a b" "heads_recorded a"
    "\<And>g. 0 < g \<Longrightarrow> g < length (RWIns b) \<Longrightarrow> RWIns b ! g \<noteq> [] \<Longrightarrow> g < length (RWIns a) \<and> RWIns a ! g \<noteq> [] \<or>
       recorded_below b g (ins (hd (RWIns b ! g)))"
  shows "heads_recorded b"
  unfolding heads_recorded_def
proof (intro allI impI)
  fix g assume g: "0 < g" "g < length (RWIns b)" "RWIns b ! g \<noteq> []"
  show "recorded_below b g (ins (hd (RWIns b ! g)))"
  proof (cases "g < length (RWIns a) \<and> RWIns a ! g \<noteq> []")
    case True
    then have "recorded_below a g (ins (hd (RWIns a ! g)))" using assms(2) g(1) by (simp add: heads_recorded_def)
    then show ?thesis using recorded_grow(2) [OF assms(1)] head_grow [OF assms(1)] True by simp
  qed (use assms(3) [OF g] in blast)
qed

lemma calls_recorded_grow:
  assumes "records_grow a b" "calls_recorded a" "goCalls (gos b) = goCalls (gos a)"
  shows "calls_recorded b"
  using assms(2,3) recorded_grow [OF assms(1)] assms(1) by (auto simp: calls_recorded_def records_grow_def same_env_def)

lemma waiting_recorded_grow:
  assumes "records_grow a b" "waiting_recorded a" "set (workList (gos b)) \<subseteq> set (workList (gos a))" "goCaller (gos b) = goCaller (gos a)"
  shows "waiting_recorded b"
  using assms(2-4) recorded_grow(1) [OF assms(1)] unfolding waiting_recorded_def by auto

section \<open>The steps\<close>

lemma spawns_record:
  assumes "recordIns g i a = Inr b" "goroutines_ok g a" "spawns_recorded a"
  shows "spawns_recorded b" "recorded b g i" "gos b = gos a"
proof -
  have r: "g < length (RWIns a)" "b = a\<lparr>RWIns := (RWIns a)[g := RWIns a ! g @ [\<lparr>ins = i, ins_stack = storeFns a\<rparr>]]\<rparr>"
    using assms(1) by (auto simp: recordIns_def split: if_splits)
  note gr = records_grow_record [OF assms(1)]
  show gos: "gos b = gos a" using r by simp
  show "recorded b g i" using r by (simp add: recorded_def)
  have ne: "g = 0 \<or> RWIns a ! g \<noteq> []" using assms(2) by (auto simp: goroutines_ok_def)
  have "heads_recorded b"
  proof (rule heads_recorded_grow [OF gr])
    show "heads_recorded a" using assms(3) by (simp add: spawns_recorded_def)
    fix h assume "0 < h" "h < length (RWIns b)" "RWIns b ! h \<noteq> []"
    then show "h < length (RWIns a) \<and> RWIns a ! h \<noteq> [] \<or> recorded_below b h (ins (hd (RWIns b ! h)))"
      using ne r by (cases "h = g") auto
  qed
  then show "spawns_recorded b"
    using calls_recorded_grow [OF gr] waiting_recorded_grow [OF gr] assms(3) gos by (simp add: spawns_recorded_def)
qed

lemma spawns_spawn:
  assumes "spawn i f g l a = Inr (n, b)" "goroutines_ok g a" "spawns_recorded a"
  shows "spawns_recorded b"
proof -
  obtain a' stacks where r: "recordIns g i a = Inr a'" "same_env a b" "RWIns b = RWIns a'"
    "gos b = (gos a)\<lparr>goStack := stacks, goCaller := (goCaller (gos a))(new_goID g a := g),
      workList := workList (gos a) @ [\<lparr>go_ssaIns = i, goIns_ref = i, entryMethod = f, go_goID = new_goID g a\<rparr>]\<rparr>"
    using spawn_cases [OF assms(1)] by blast
  note s = spawns_record [OF r(1) assms(2,3)]
  have same: "recorded b = recorded a'" "recorded_below b = recorded_below a'" "prog b = prog a'"
    using r(2,3) r(1) by (auto simp: fun_eq_iff recorded_def recorded_below_def same_env_def recordIns_def split: if_splits)
  have "\<forall>info \<in> set (workList (gos a)). go_goID info < new_goID g a"
    using assms(2) unfolding goroutines_ok_def by (intro new_goID_greater(2)) blast
  then have "waiting_recorded b" using s by (auto simp: waiting_recorded_def spawns_recorded_def same r(4))
  moreover have "heads_recorded b" "calls_recorded b"
    using s(1,3) by (simp_all add: spawns_recorded_def heads_recorded_def calls_recorded_def same r(3,4))
  ultimately show ?thesis by (simp add: spawns_recorded_def)
qed

lemma start_goroutine_calls:
  assumes "start_goroutine info rest a b"
  shows "goCalls (gos b) = (goCalls (gos a))(go_goID info \<mapsto> \<lparr>gc_ssaIns = go_ssaIns info, gc_goIns = goIns_ref info\<rparr>)"
  using assms unfolding start_goroutine_def Let_def by (auto simp: recordIns_def core_defs split: if_splits)

lemma spawns_start:
  assumes "workList (gos a) = info # rest" "start_goroutine info rest a b" "goroutines_ok g a" "spawns_recorded a"
  shows "spawns_recorded b"
proof -
  let ?g = "go_goID info"
  obtain R st where r: "R \<in> {RWIns a, RWIns a @ [[]]}" "?g < length R" "same_env a b"
    "RWIns b = R[?g := R ! ?g @ [\<lparr>ins = go_ssaIns info, ins_stack = st\<rparr>]]"
    "goCaller (gos b) = goCaller (gos a)" "workList (gos b) = rest"
    using start_goroutine_cases [OF assms(2)] by blast
  note gr = records_grow_start [OF assms(2)]
  have q: "g < ?g" "is_go (prog a) (go_ssaIns info)" "goCaller (gos a) ?g < ?g"
    using assms(1,3) by (auto simp: goroutines_ok_def queue_ok_def)
  have "recorded a (goCaller (gos a) ?g) (go_ssaIns info)" using assms(1,4) by (simp add: spawns_defs)
  then have below: "recorded_below b ?g (go_ssaIns info)"
    using recorded_grow(1) [OF gr] q(3) by (auto simp: recorded_below_def)
  have "heads_recorded b"
  proof (rule heads_recorded_grow [OF gr])
    show "heads_recorded a" using assms(4) by (simp add: spawns_recorded_def)
    fix h assume h: "0 < h" "h < length (RWIns b)" "RWIns b ! h \<noteq> []"
    show "h < length (RWIns a) \<and> RWIns a ! h \<noteq> [] \<or> recorded_below b h (ins (hd (RWIns b ! h)))"
    proof (cases "h = ?g")
      case True
      show ?thesis
      proof (cases "R ! ?g = []")
        case empty: True
        then have "hd (RWIns b ! h) = \<lparr>ins = go_ssaIns info, ins_stack = st\<rparr>" using r(2) True by (simp add: r(4))
        then show ?thesis using below True by simp
      next
        case False
        then show ?thesis using r(1,2) True by (auto simp: nth_append less_Suc_eq split: if_splits)
      qed
    next
      case False
      then have "R ! h \<noteq> []" using h(3) by (simp add: r(4))
      then show ?thesis using r(1) h(2) by (auto simp: r(4) nth_append split: if_splits)
    qed
  qed
  moreover have "calls_recorded b"
    unfolding calls_recorded_def start_goroutine_calls [OF assms(2)]
  proof (intro allI impI)
    fix h ci assume ci: "((goCalls (gos a))(?g \<mapsto> \<lparr>gc_ssaIns = go_ssaIns info, gc_goIns = goIns_ref info\<rparr>)) h = Some ci"
    have p: "prog b = prog a" using r(3) by (simp add: same_env_def)
    show "recorded b h (gc_ssaIns ci) \<and> recorded_below b h (gc_ssaIns ci) \<and> is_go (prog b) (gc_ssaIns ci)"
    proof (cases "h = ?g")
      case True
      then have "gc_ssaIns ci = go_ssaIns info" using ci by auto
      then show ?thesis using below q(2) p True r(2) by (simp add: recorded_def r(4))
    next
      case False
      then show ?thesis using assms(4) ci p recorded_grow [OF gr] by (simp add: spawns_recorded_def calls_recorded_def)
    qed
  qed
  moreover have "waiting_recorded b"
    using waiting_recorded_grow [OF gr] assms(1,4) r(5,6) by (auto simp: spawns_recorded_def)
  ultimately show ?thesis by (simp add: spawns_recorded_def)
qed

lemma spawns_same:
  assumes "records_grow a b" "RWIns b \<in> {RWIns a, RWIns a @ [[]]}" "spawns_recorded a"
    "set (workList (gos b)) \<subseteq> set (workList (gos a))" "goCaller (gos b) = goCaller (gos a)" "goCalls (gos b) = goCalls (gos a)"
  shows "spawns_recorded b"
proof -
  have "heads_recorded b"
    by (rule heads_recorded_grow [OF assms(1)]) (use assms(2,3) in \<open>auto simp: spawns_recorded_def nth_append split: if_splits\<close>)
  then show ?thesis
    using calls_recorded_grow [OF assms(1)] waiting_recorded_grow [OF assms(1)] assms(3-6) by (simp add: spawns_recorded_def)
qed

section \<open>The instance\<close>

definition spawn_step :: "nat \<Rightarrow> analysis \<Rightarrow> analysis \<Rightarrow> bool" where
  "spawn_step g a b \<longleftrightarrow> goroutine_step g a b \<and>
     (no_dynamic_go (prog a) \<longrightarrow> goroutines_ok g a \<longrightarrow> spawns_recorded a \<longrightarrow> spawns_recorded b)"

lemma spawn_stepI:
  "goroutine_step g a b \<Longrightarrow> (goroutines_ok g a \<Longrightarrow> spawns_recorded a \<Longrightarrow> spawns_recorded b) \<Longrightarrow> spawn_step g a b"
  by (simp add: spawn_step_def)

interpretation spw: traversal spawn_step
proof unfold_locales
  fix g a b c info rest i f l n p q r x st cc
  show "spawn_step g a a" by (rule spawn_stepI [OF gor.S_refl])
  show "spawn_step g a c" if h: "spawn_step g a b" "spawn_step g b c"
  proof -
    have s: "goroutine_step g a b" "goroutine_step g b c" using h by (simp_all add: spawn_step_def)
    have "prog b = prog a" using gor.S_env [OF s(1)] by (simp add: same_env_def)
    then show ?thesis using h gor.S_trans [OF s] s(1) by (auto simp: spawn_step_def goroutine_step_def)
  qed
  show "spawn_step g a b \<Longrightarrow> same_env a b" using gor.S_env [of g a b] by (simp add: spawn_step_def)
  show "spawn_step g a b" if h: "same_core a b"
    by (rule spawn_stepI [OF gor.S_core [OF h] spawns_same [OF records_grow_core [OF h]]]) (use h in \<open>auto simp: core_defs\<close>)
  show "spawn_step g a b" if h: "recordIns g i a = Inr b"
    by (rule spawn_stepI [OF gor.S_record [OF h] spawns_record(1) [OF h]])
  show "spawn_step g a b" if h: "same_env a b" "RWIns b \<in> {RWIns a, RWIns a @ [[]]}" "gos b = (gos a)\<lparr>goStack := st\<rparr>"
    by (rule spawn_stepI [OF gor.S_entry [OF h] spawns_same [OF records_grow_entry [OF h(1,2)] h(2)]]) (simp_all add: h(3))
  show "spawn_step g a b" if h: "spawn i f g l a = Inr (n, b)" "the_obj a i = Go cc"
    by (rule spawn_stepI [OF gor.S_spawn [OF h] spawns_spawn [OF h(1)]])
  show "spawn_step g a b" if h: "spawn_step 0 a b" "the_obj a i = Go cc" "the_obj a (call_value cc) = TypeAssert x"
      "the_obj a x = Parameter p q r"
  proof -
    have "goroutine_step 0 a b" using h(1) by (simp add: spawn_step_def)
    moreover have "\<not> no_dynamic_go (prog a)" using h(2-4) unfolding no_dynamic_go_def by blast
    ultimately show ?thesis using gor.S_main [OF _ h(2-4), of b] by (simp add: spawn_step_def)
  qed
  show "spawn_step g a c" if h: "workList (gos a) = info # rest" "start_goroutine info rest a b" "spawn_step (go_goID info) b c"
  proof -
    have "prog b = prog a" using records_grow_start [OF h(2)] by (simp add: records_grow_def same_env_def)
    then have "spawns_recorded c" if "no_dynamic_go (prog a)" "goroutines_ok g a" "spawns_recorded a"
      using that h(3) spawns_start [OF h(1,2)] goroutines_ok_start [OF h(1,2)] by (simp add: spawn_step_def)
    then show ?thesis using gor.S_goroutine [OF h(1,2)] h(3) by (simp add: spawn_step_def)
  qed
  show "spawn_step g a b" if h: "workList (gos a) = info # rest" "same_env a b" "RWIns b \<in> {RWIns a, RWIns a @ [[]]}"
      "gos b = (gos a)\<lparr>workList := rest\<rparr>"
    by (rule spawn_stepI [OF gor.S_skip [OF h] spawns_same [OF records_grow_entry [OF h(2,3)] h(3)]]) (auto simp: h(1,4))
qed

text \<open>The instance holds for every traversal; before it nothing is recorded or waiting.\<close>

lemma spawns_recorded_traverseFn:
  assumes "traverseFn n f nm g i a = Inr b" "no_dynamic_go (prog a)" "goroutines_ok g a" "spawns_recorded a"
  shows "spawns_recorded b"
  using okR_D [OF spw.traverseFn assms(1)] assms(2-4) by (simp add: spawn_step_def)

end
