(* ===== verification/Gorace_Fuel.thy ===== *)
theory Gorace_Fuel
  imports Gorace_Traverse
begin

text \<open>
  The fuel of the traversal is only a bound: once it suffices, more fuel gives the same result. The
  order \<open>le_R\<close> relates a result to one with more fuel; every operation is monotone in the functions it
  calls back, which the locale \<open>fuel_order\<close> states and proves.
\<close>

section \<open>The order of results\<close>

definition le_R :: "'a go_result \<Rightarrow> 'a go_result \<Rightarrow> bool" where
  "le_R r s \<longleftrightarrow> r = Inl OutOfFuel \<or> s = r"

lemma le_refl: "le_R r r"
  by (simp add: le_R_def)

lemma le_bind: "le_R r s \<Longrightarrow> (\<And>x. le_R (f x) (h x)) \<Longrightarrow> le_R (bindR r f) (bindR s h)"
  by (cases r) (auto simp: le_R_def)

lemma le_if: "le_R x x' \<Longrightarrow> le_R y y' \<Longrightarrow> le_R (if c then x else y) (if c then x' else y')"
  by simp

lemma le_option: "le_R u u' \<Longrightarrow> (\<And>v. le_R (f v) (h v)) \<Longrightarrow> le_R (case_option u f x) (case_option u' h x)"
  by (cases x) simp_all

lemma le_list: "le_R u u' \<Longrightarrow> (\<And>v vs. le_R (f v vs) (h v vs)) \<Longrightarrow> le_R (case_list u f x) (case_list u' h x)"
  by (cases x) simp_all

lemma le_prod: "(\<And>v w. le_R (f v w) (h v w)) \<Longrightarrow> le_R (case_prod f x) (case_prod h x)"
  by (cases x) simp

lemma le_outcome:
  "le_R u u' \<Longrightarrow> le_R v v' \<Longrightarrow> le_R w w' \<Longrightarrow> le_R (case_label_outcome u v w x) (case_label_outcome u' v' w' x)"
  by (cases x) simp_all

lemma le_lookup:
  "le_R u u' \<Longrightarrow> le_R v v' \<Longrightarrow> (\<And>f. le_R (w f) (w' f)) \<Longrightarrow> le_R (case_method_lookup u v w x) (case_method_lookup u' v' w' x)"
  by (cases x) simp_all

lemma le_object:
  assumes "\<And>x0 x1. le_R (f0 x0 x1) (h0 x0 x1)" "le_R (f1) (h1)" "le_R (f2) (h2)"
    "\<And>x0 x1 x2. le_R (f3 x0 x1 x2) (h3 x0 x1 x2)" "\<And>x0. le_R (f4 x0) (h4 x0)" "le_R (f5) (h5)"
    "le_R (f6) (h6)" "\<And>x0. le_R (f7 x0) (h7 x0)" "\<And>x0. le_R (f8 x0) (h8 x0)"
    "\<And>x0 x1. le_R (f9 x0 x1) (h9 x0 x1)" "\<And>x0. le_R (f10 x0) (h10 x0)"
    "\<And>x0 x1. le_R (f11 x0 x1) (h11 x0 x1)" "\<And>x0. le_R (f12 x0) (h12 x0)"
    "\<And>x0. le_R (f13 x0) (h13 x0)" "\<And>x0. le_R (f14 x0) (h14 x0)" "\<And>x0. le_R (f15 x0) (h15 x0)"
    "\<And>x0. le_R (f16 x0) (h16 x0)" "\<And>x0. le_R (f17 x0) (h17 x0)"
    "\<And>x0 x1. le_R (f18 x0 x1) (h18 x0 x1)" "\<And>x0. le_R (f19 x0) (h19 x0)" "le_R (f20) (h20)"
    "\<And>x0. le_R (f21 x0) (h21 x0)" "\<And>x0 x1. le_R (f22 x0 x1) (h22 x0 x1)" "le_R (f23) (h23)"
    "le_R (f24) (h24)" "\<And>x0. le_R (f25 x0) (h25 x0)" "le_R (f26) (h26)" "le_R (f27) (h27)" "le_R (f28) (h28)"
  shows "le_R (case_object f0 f1 f2 f3 f4 f5 f6 f7 f8 f9 f10 f11 f12 f13 f14 f15 f16 f17 f18 f19 f20 f21 f22 f23 f24 f25 f26 f27 f28 x)
    (case_object h0 h1 h2 h3 h4 h5 h6 h7 h8 h9 h10 h11 h12 h13 h14 h15 h16 h17 h18 h19 h20 h21 h22 h23 h24 h25 h26 h27 h28 x)"
  using assms by (cases x) simp_all

lemmas le_rules = le_bind le_if le_option le_list le_prod le_outcome le_lookup le_object

section \<open>Monotonicity\<close>

locale fuel_order =
  fixes trav trav' :: trav_fn and pa pa' :: pointer_fn and go_on go_on' :: "analysis \<Rightarrow> analysis go_result"
  assumes trav_le: "le_R (trav f nm g i a) (trav' f nm g i a)"
    and pa_le: "le_R (pa x g i a) (pa' x g i a)"
    and go_on_le: "le_R (go_on a) (go_on' a)"
begin

lemmas call_le = trav_le pa_le go_on_le

lemma traverse_method_le: "le_R (traverse_method trav m g i a) (traverse_method trav' m g i a)"
  unfolding traverse_method_def by (intro le_rules call_le le_refl)

lemma handle_label_le: "le_R (handle_label trav pa x g go i l a) (handle_label trav' pa' x g go i l a)"
  unfolding handle_label_def Let_def
  by (rule le_object; (rule le_refl | intro le_rules call_le traverse_method_le; (rule le_refl)?))

end

context fuel_order
begin

lemma handle_labels_le: "le_R (handle_labels trav pa x g go i ls a) (handle_labels trav' pa' x g go i ls a)"
proof (induction ls arbitrary: a)
  case (Cons l ls)
  show ?case unfolding handle_labels.simps by (rule le_refl handle_label_le Cons.IH le_rules)+
qed (simp add: le_refl)

lemma traverse_all_le: "le_R (traverse_all trav g i fs a) (traverse_all trav' g i fs a)"
proof (induction fs arbitrary: a)
  case (Cons f fs)
  show ?case unfolding traverse_all.simps by (rule le_refl call_le Cons.IH le_rules)+
qed (simp add: le_refl)

lemma pointer_step_le: "le_R (pointer_step trav pa x g i a) (pointer_step trav' pa' x g i a)"
  unfolding pointer_step_def pointer_default_def pointerNewAnalysis_def pointerNewAnalysisHandleFunc_def Let_def
  by (rule le_refl call_le handle_labels_le traverse_all_le traverse_method_le le_rules)+

lemma insStore_le: "le_R (insStore trav ad v g i a) (insStore trav' ad v g i a)"
  unfolding insStore_def store_fn_def by (rule le_refl call_le le_rules)+

lemma insChangeType_le: "le_R (insChangeType trav x g i a) (insChangeType trav' x g i a)"
  unfolding insChangeType_def by (rule le_refl call_le le_rules)+

lemma insMakeInterface_le: "le_R (insMakeInterface pa x g i a) (insMakeInterface pa' x g i a)"
  unfolding insMakeInterface_def by (rule le_refl call_le le_rules)+

lemma insCall_le: "le_R (insCall trav pa c g i a) (insCall trav' pa' c g i a)"
  unfolding insCall_def call_dynamic_def call_static_def call_sync_def Let_def
  by (rule le_refl call_le le_rules)+

lemma insGo_le: "le_R (insGo pa i c g l a) (insGo pa' i c g l a)"
  unfolding insGo_def goNames_def go_entry_def by (rule le_refl call_le le_rules)+

lemma select_case_le: "le_R (select_case pa i b n g k st acc a) (select_case pa' i b n g k st acc a)"
  unfolding select_case_def select_param_def Let_def by (rule le_refl call_le le_rules)+

lemma select_states_le: "le_R (select_states pa i b n g k sts acc a) (select_states pa' i b n g k sts acc a)"
proof (induction sts arbitrary: k acc a)
  case (Cons st sts)
  show ?case unfolding select_states.simps by (rule le_refl select_case_le Cons.IH le_rules)+
qed (simp add: le_refl)

lemma insSelect_le: "le_R (insSelect pa i b sts g a) (insSelect pa' i b sts g a)"
  unfolding insSelect_def Let_def by (rule le_refl select_states_le le_rules)+

lemma visit_go_le: "le_R (visit_go pa g i c a) (visit_go pa' g i c a)"
  unfolding visit_go_def by (rule le_refl insGo_le le_rules)+

lemma run_deferred_le: "le_R (run_deferred trav e g d s) (run_deferred trav' e g d s)"
  unfolding run_deferred_def Let_def by (rule le_refl call_le le_rules)+

lemma run_all_deferred_le: "le_R (run_all_deferred trav e g i ds s) (run_all_deferred trav' e g i ds s)"
proof (induction ds arbitrary: s)
  case (Cons d ds)
  show ?case unfolding run_all_deferred.simps by (rule le_refl run_deferred_le Cons.IH le_rules)+
qed (simp add: le_refl)

lemma at_rundefers_le: "le_R (at_rundefers trav g i s) (at_rundefers trav' g i s)"
  unfolding at_rundefers_def by (rule le_refl run_all_deferred_le le_rules)+

lemma dispatch_le: "le_R (dispatch trav pa f g bl ii i s) (dispatch trav' pa' f g bl ii i s)"
  unfolding dispatch_def Let_def
  by (rule le_refl insStore_le insChangeType_le insMakeInterface_le insCall_le visit_go_le insSelect_le le_rules)+

lemma visit_ins_le: "le_R (visit_ins trav pa f g bl fl ii l i s) (visit_ins trav' pa' f g bl fl ii l i s)"
  unfolding visit_ins_def by (rule le_refl at_rundefers_le dispatch_le le_rules)+

lemma visit_instrs_le: "le_R (visit_instrs trav pa f g bl fl ii is s) (visit_instrs trav' pa' f g bl fl ii is s)"
proof (induction "is" arbitrary: ii s)
  case (Cons i "is")
  show ?case unfolding visit_instrs.simps by (rule le_refl visit_ins_le Cons.IH le_rules)+
qed (simp add: le_refl)

lemma visit_block_le: "le_R (visit_block trav pa f g lb bl s) (visit_block trav' pa' f g lb bl s)"
  unfolding visit_block_def Let_def by (rule le_refl visit_instrs_le le_rules)+

lemma visit_blocks_le: "le_R (visit_blocks trav pa f g bs s) (visit_blocks trav' pa' f g bs s)"
proof (induction bs arbitrary: s)
  case (Cons b bs)
  show ?case unfolding visit_blocks.simps by (rule le_refl visit_block_le Cons.IH le_rules)+
qed (simp add: le_refl)

lemma visitAllInstructions_le:
  "le_R (visitAllInstructions trav pa go_on f g a) (visitAllInstructions trav' pa' go_on' f g a)"
  unfolding visitAllInstructions_def finish_visit_def Let_def
  by (rule le_refl call_le visit_blocks_le run_all_deferred_le le_rules)+

lemma visit_times_le:
  "(\<And>a. le_R (h a) (h' a)) \<Longrightarrow> le_R (visit_times h is a) (visit_times h' is a)"
proof (induction "is" arbitrary: a)
  case (Cons i "is")
  show ?case unfolding visit_times.simps by (rule le_bind [OF Cons.prems]) (rule Cons.IH [OF Cons.prems])
qed (simp add: le_refl)

lemma traverse_step_le:
  "le_R (traverse_step trav pa go_on f nm g i a) (traverse_step trav' pa' go_on' f nm g i a)"
  unfolding traverse_step_def visitLibFnInstructions_def
  by (rule le_refl visitAllInstructions_le visit_times_le le_rules)+

lemma newGoroutine_le: "le_R (newGoroutine trav info a) (newGoroutine trav' info a)"
  unfolding newGoroutine_def Let_def by (rule le_refl call_le le_rules)+

lemma visitGo_le: "n \<le> m \<Longrightarrow> le_R (visitGo n trav a) (visitGo m trav' a)"
proof (induction n arbitrary: m a)
  case 0
  then show ?case by (cases m) (simp_all add: le_R_def)
next
  case (Suc n)
  then obtain k where k: "m = Suc k" "n \<le> k" by (cases m) auto
  show ?case unfolding k(1) visitGo.simps by (rule le_refl newGoroutine_le Suc.IH [OF k(2)] le_rules)+
qed

end

section \<open>More fuel\<close>

lemma pointerAnalysis_le:
  assumes "\<And>f nm g i a. le_R (trav f nm g i a) (trav' f nm g i a)" "n \<le> m"
  shows "le_R (pointerAnalysis n trav x g i a) (pointerAnalysis m trav' x g i a)"
  using assms(2)
proof (induction n arbitrary: m x g i a)
  case (Suc n)
  then obtain k where k: "m = Suc k" "n \<le> k" by (cases m) auto
  have "fuel_order trav trav' (pointerAnalysis n trav) (pointerAnalysis k trav') Inr Inr"
    by unfold_locales (rule assms(1) Suc.IH [OF k(2)] le_refl)+
  then show ?case unfolding k(1) pointerAnalysis.simps by (rule fuel_order.pointer_step_le)
qed (simp add: le_R_def)

lemma traverseFn_le: "n \<le> m \<Longrightarrow> le_R (traverseFn n f nm g i a) (traverseFn m f nm g i a)"
proof (induction n arbitrary: m f nm g i a)
  case (Suc n)
  then obtain k where k: "m = Suc k" "n \<le> k" by (cases m) auto
  note t = Suc.IH [OF k(2)]
  note p = pointerAnalysis_le [OF t k(2)]
  have "fuel_order (traverseFn n) (traverseFn k) (pointerAnalysis n (traverseFn n)) (pointerAnalysis k (traverseFn k)) Inr Inr"
    by unfold_locales (rule t p le_refl)+
  note v = fuel_order.visitGo_le [OF this k(2)]
  have "fuel_order (traverseFn n) (traverseFn k) (pointerAnalysis n (traverseFn n)) (pointerAnalysis k (traverseFn k))
      (visitGo n (traverseFn n)) (visitGo k (traverseFn k))"
    by unfold_locales (rule t p v)+
  then show ?case unfolding k(1) traverseFn.simps by (rule fuel_order.traverse_step_le)
qed (simp add: le_R_def)

interpretation more_fuel: fuel_order "traverseFn n" "traverseFn (n + k)"
    "pointerAnalysis n (traverseFn n)" "pointerAnalysis (n + k) (traverseFn (n + k))" Inr Inr for n k
  by unfold_locales (rule traverseFn_le pointerAnalysis_le le_refl; simp add: traverseFn_le)+

end
