(* ===== verification/Gorace_Termination.thy ===== *)
theory Gorace_Termination
  imports Gorace_Runner
begin

text \<open>
  The stages after the traversal end: the loops whose end is not evident from the code are the walk up
  the spawning goroutines and the search in the graph, whose failure to return is the error
  \<^const>\<open>Diverges\<close>. The collection \<open>returns\<close> holds the rules that carry the absence of that error
  through the code.
\<close>

named_theorems returns

definition returns :: "'a go_result \<Rightarrow> bool" where
  "returns r \<longleftrightarrow> r \<noteq> Inl Diverges"

lemma returns_Inr [simp]: "returns (Inr x)" and returns_Inl [simp]: "returns (Inl e) \<longleftrightarrow> e \<noteq> Diverges"
  by (simp_all add: returns_def)

lemma returns_bind [returns]: "returns r \<Longrightarrow> (\<And>x. returns (f x)) \<Longrightarrow> returns (bindR r f)"
  by (cases r) simp_all

lemma returns_if [returns]: "returns x \<Longrightarrow> returns y \<Longrightarrow> returns (if c then x else y)"
  by simp

lemma returns_option [returns]: "returns u \<Longrightarrow> (\<And>v. returns (f v)) \<Longrightarrow> returns (case_option u f x)"
  by (cases x) simp_all

lemma returns_prod [returns]: "(\<And>v w. returns (f v w)) \<Longrightarrow> returns (case_prod f x)"
  by (cases x) simp

lemma returns_list [returns]: "returns u \<Longrightarrow> (\<And>v vs. returns (f v vs)) \<Longrightarrow> returns (case_list u f x)"
  by (cases x) simp_all

lemmas returns_object [returns] = object_cases [where Q = returns]

section \<open>The graph construction\<close>

lemma returns_prims [returns]:
  "returns (nth_go xs i)" "returns (make_edge m n s)" "returns (callee_pkg_name p c)" "returns (first_arg c)"
  by (simp_all add: nth_go_def make_edge_def callee_pkg_name_def first_arg_def split: option.splits list.splits)

lemma returns_node_goID [returns]: "returns (node_goID s n)"
  unfolding node_goID_def by (intro returns | simp)+

lemma returns_call_of [returns]: "returns (call_of a i)"
  unfolding call_of_def by (intro returns | simp)+

lemma returns_go_instr [returns]: "returns (go_instr a g)" "returns (go_instr_opt a g)"
  unfolding go_instr_def go_instr_opt_def by (intro returns | simp)+

lemma returns_isWriteIns [returns]: "returns (isWriteIns p i)"
  unfolding isWriteIns_def by (intro returns | simp)+

lemma returns_may_alias [returns]: "returns (may_alias a x y g h)"
  unfolding may_alias_def by (intro returns | simp)+

lemma returns_sameAddress [returns]: "returns (sameAddress a x y g h)"
  unfolding sameAddress_def by (intro returns | simp)+

lemma returns_classify [returns]: "returns (classify a g i x n s)"
  unfolding classify_def Let_def by (intro returns | simp)+

lemma returns_skip_succ [returns]: "returns (skip_succ a x i l acc)"
proof (induction l arbitrary: acc)
  case (Cons e l)
  have c: "returns (block_comment_of a y)" for y unfolding block_comment_of_def by (intro returns | simp)+
  obtain p q where e: "e = (p, q)" by (rule prod.exhaust)
  show ?case unfolding e skip_succ.simps by (intro returns c Cons.IH)
qed simp

lemma returns_incoming_edge [returns]: "returns (incoming_edge a x n s)"
  unfolding incoming_edge_def case_edge_def done_edge_def succ_edge_def Let_def by (intro returns | simp)+

lemma returns_hb_node [returns]: "returns (hb_node a g i x s)"
  unfolding hb_node_def make_node_def Let_def by (intro returns | simp)+

lemma returns_done_to_waits [returns]: "returns (done_to_waits a g c l s)"
  by (induction a g c l s rule: done_to_waits.induct) (simp, auto intro!: returns)

lemma returns_send_edges [returns]: "returns (send_edges x l s)"
  by (induction x l s rule: send_edges.induct) (auto intro!: returns simp: join_nodes_def)

lemma returns_edges_to [returns]: "returns (edges_to ms n s)"
  by (induction ms n s rule: edges_to.induct) (auto intro!: returns)

lemma returns_hb_ins [returns]: "returns (hb_ins a g i x s)"
  unfolding hb_ins_def sync_edges_def channel_edges_def receive_edges_def return_edges_def join_nodes_def Let_def
  by (intro returns | simp)+

lemma returns_hb_goroutine [returns]: "returns (hb_goroutine a g i l s)"
  by (induction a g i l s rule: hb_goroutine.induct) (auto intro!: returns)

lemma returns_hb_all [returns]: "returns (hb_all a g l s)"
  by (induction a g l s rule: hb_all.induct) (auto intro!: returns)

lemma returns_buildHB [returns]: "returns (buildHB a)"
  unfolding buildHB_def by (rule returns)

section \<open>The comparison of accesses\<close>

text \<open>A goroutine numbered above its spawner, and a graph with finitely many edges.\<close>

definition climbs :: "analysis \<Rightarrow> bool" where
  "climbs a \<longleftrightarrow> (\<forall>x > 0. goCaller (gos a) x < x)"

lemma returns_root_path: "climbs a \<Longrightarrow> returns (root_path a g)"
  using root_path_total [of a g] by (auto simp: climbs_def)

lemma returns_concat_stacks [returns]: "(\<And>g. returns (f g)) \<Longrightarrow> returns (concat_stacks f gs)"
  by (induction gs) (auto intro!: returns)

lemma returns_stacks: "climbs a \<Longrightarrow> returns (spawn_stack a g)" "climbs a \<Longrightarrow> returns (access_stack a g x)"
  unfolding spawn_stack_def access_stack_def by (intro returns returns_root_path | simp)+

lemma returns_call_block [returns]: "returns (call_block a f)"
  unfolding call_block_def by (intro returns | simp)+

lemma returns_deferred_block [returns]: "returns (deferred_block b a f)"
  unfolding deferred_block_def by (intro returns | simp)+

lemma returns_parallel_loop [returns]: "returns (parallel_loop a j l s0 s1)"
  by (induction l arbitrary: j) (auto intro!: returns)

lemma returns_diverged_at [returns]: "returns (diverged_at b a j f s0 s1)" "returns (at_block a s0 k)"
  unfolding diverged_at_def at_block_def by (intro returns | simp)+

lemma returns_excluded_loop [returns]: "returns (excluded_loop a x y j l s0 s1)"
proof (induction l arbitrary: j)
  case (Cons f l)
  show ?case unfolding excluded_loop.simps by (intro returns Cons | simp)+
qed simp

lemma returns_canRunInParallel: "climbs a \<Longrightarrow> returns (canRunInParallel a i j)"
  unfolding canRunInParallel_def by (intro returns returns_stacks | simp)+

lemma returns_mutuallyExcluded: "climbs a \<Longrightarrow> returns (mutuallyExcluded a x i y j)"
  unfolding mutuallyExcluded_def returning_branch_def Let_def by (intro returns returns_stacks | simp)+

lemma returns_filters [returns]:
  "returns (insAddress p xy)" "returns (bothAtomic p x y)" "returns (conflicting a x y)" "returns (lockSetsIntersect a x y i j)"
proof -
  show "returns (insAddress p xy)" unfolding insAddress_def ins_address_def by (intro returns | simp)+
  show "returns (bothAtomic p x y)" unfolding bothAtomic_def by (intro returns | simp)+
  show "returns (conflicting a x y)" unfolding conflicting_def by (intro returns | simp)+
  have inner: "returns (lock_inner a l ls g h)" for l ls g h by (induction ls) (auto intro!: returns)
  have "returns (lock_outer a ks ls g h)" for ks ls g h by (induction ks) (auto intro!: returns inner)
  then show "returns (lockSetsIntersect a x y i j)" by (simp add: lockSetsIntersect_def)
qed

lemma graph_search_returns:
  assumes "graph_law nbrs"
  shows "reachableBFS (neighbors (graph_of nbrs s)) (value_of (graph_of nbrs s)) (rwInsMap (graph_of nbrs s)) i g j h \<noteq> None"
    "reachableBFS (neighbors (graph_of nbrs s)) (value_of (graph_of nbrs s)) (rwInsMap (graph_of nbrs s)) i g j h \<noteq> Some (Inl e)"
proof -
  let ?M = "rwInsMap (graph_of nbrs s)" and ?N = "neighbors (graph_of nbrs s)" and ?V = "value_of (graph_of nbrs s)"
  have inj: "inj_on ?V A" for A by (simp add: graph_of_def inj_on_def)
  consider (both) m n where "?M \<lparr>gi_ins = i, gi_goID = g\<rparr> = Some m" "?M \<lparr>gi_ins = j, gi_goID = h\<rparr> = Some n" |
    (missing) "?M \<lparr>gi_ins = i, gi_goID = g\<rparr> = None \<or> ?M \<lparr>gi_ins = j, gi_goID = h\<rparr> = None" by fastforce
  then have "\<exists>b. reachableBFS ?N ?V ?M i g j h = Some (Inr b)"
  proof cases
    case both
    then show ?thesis using reachableBFS_correct [OF both graph_reach_finite [OF assms] inj] by blast
  next
    case missing
    then show ?thesis by (auto simp: reachableBFS_def split: option.splits)
  qed
  then show "reachableBFS ?N ?V ?M i g j h \<noteq> None" "reachableBFS ?N ?V ?M i g j h \<noteq> Some (Inl e)" by auto
qed

lemma returns_reachable_from: "graph_law nbrs \<Longrightarrow> returns (reachable_from (graph_of nbrs s) c i g j h)"
  using graph_search_returns [of nbrs s i g j h]
  by (auto simp: reachable_from_def reachable_def split: option.splits sum.splits)

lemma returns_check_pair:
  assumes "climbs a" "graph_law nbrs"
  shows "returns (check_pair a (graph_of nbrs s) i j ii goI jj goJ st)"
  unfolding check_pair_def race_condition_def Let_def
  by (intro returns returns_reachable_from returns_mutuallyExcluded assms | simp)+

lemma returns_check_all:
  assumes "climbs a" "graph_law nbrs"
  shows "returns (check_all a (graph_of nbrs s) ijs st)"
proof -
  have inner: "returns (check_inner a (graph_of nbrs s) i j ii goI jj l st)" for i j ii goI jj l st
    by (induction l arbitrary: jj st) (auto intro!: returns returns_check_pair assms)
  have outer: "returns (check_outer a (graph_of nbrs s) i j ii l st)" for i j ii l st
    by (induction l arbitrary: ii st) (auto intro!: returns inner)
  have go: "returns (check_goroutines a (graph_of nbrs s) ij st)" for ij st
    unfolding check_goroutines_def by (intro returns returns_canRunInParallel assms outer | simp)+
  show ?thesis by (induction ijs arbitrary: st) (auto intro!: returns go)
qed

lemma returns_detect:
  assumes "climbs a" "graph_law nbrs"
  shows "returns (detect nbrs a)"
proof -
  have "climbs (with_omitted s (confirm_selects a))" for s
    using assms(1) by (simp add: climbs_def with_omitted_def confirm_selects_def)
  then show ?thesis unfolding detect_def checkRacyPairs_def Let_def
    by (intro returns returns_check_all assms(2) | simp)+
qed

end
