(* ===== verification/Gorace_Properties.thy ===== *)
theory Gorace_Properties
  imports Gorace_Sample Gorace_Spawners Gorace_Fuel Gorace_Termination
begin

text \<open>
  The properties of the race detector: what a run reports, what the traversal leaves behind, the
  happens-before graph and the search in it, and the goroutine filters. Each is applied to the
  program of \<^verbatim>\<open>Gorace_Sample\<close> where it has hypotheses.
\<close>

section \<open>What a run reports\<close>

lemma sample_confirm: "confirm_selects sample_end = sample_end"
  by (simp add: confirm_selects_def sample_end_def set_efficiency_def initialAnalysis_def samples)

lemma detect_Inr:
  assumes "detect nbrs a = Inr races" "length (RWIns a) \<noteq> 1"
  shows "\<exists>s cache. buildHB (confirm_selects a) = Inr s \<and>
    checkRacyPairs (with_omitted s (confirm_selects a)) (graph_of nbrs s) Map.empty = Inr (races, cache)"
  using assms by (auto simp: detect_def Let_def bindR_eq_Inr_iff split: prod.splits)

lemma runChecker_Inr:
  assumes "runChecker n nbrs (Some f) a0 = Inr races"
  shows "\<exists>a. traverseFn n f (fn_name (fun_of (prog a0) f)) 0 None (set_efficiency a0) = Inr a \<and> detect nbrs a = Inr races"
proof -
  have "prog (set_efficiency a0) = prog a0" by (simp add: set_efficiency_def)
  then show ?thesis using assms by (auto simp: runChecker_def Let_def bindR_eq_Inr_iff)
qed

text \<open>
  \<open>no_path\<close>: both accesses have a node and no path leads from one to the other. \<open>real_race\<close> reads the
  fields of a report as what they claim about the records \<open>b\<close> and the graph \<open>s\<close>.
\<close>

definition no_path :: "hb_state \<Rightarrow> ref \<Rightarrow> nat \<Rightarrow> ref \<Rightarrow> nat \<Rightarrow> bool" where
  "no_path s x i y j \<longleftrightarrow>
     (case (RWinsMap s \<lparr>gi_ins = x, gi_goID = i\<rparr>, RWinsMap s \<lparr>gi_ins = y, gi_goID = j\<rparr>) of
        (Some m, Some k) \<Rightarrow> (m, k) \<notin> (set (edges s))\<^sup>* \<and> (k, m) \<notin> (set (edges s))\<^sup>*
      | _ \<Rightarrow> False)"

definition real_race :: "analysis \<Rightarrow> hb_state \<Rightarrow> raceInfo \<Rightarrow> bool" where
  "real_race b s r \<longleftrightarrow>
     (case (race_goIDs r, insInd r, race_ins r, addrPair r) of
        ((i, j), (ii, jj), (goI, goJ), (x, y)) \<Rightarrow>
          i < j \<and> j < length (RWIns b) \<and> ii < length (RWIns b ! i) \<and> jj < length (RWIns b ! j) \<and>
          goI = RWIns b ! i ! ii \<and> goJ = RWIns b ! j ! jj \<and>
          access_ins b (ins goI) \<and> access_ins b (ins goJ) \<and>
          (isWriteIns (prog b) (ins goI) = Inr True \<or> isWriteIns (prog b) (ins goJ) = Inr True) \<and>
          insAddress (prog b) (goI, goJ) = Inr (Some x, Some y) \<and>
          sameAddress b (Some x) (Some y) i j = Inr True \<and>
          lockSetsIntersect b (ins goI) (ins goJ) i j = Inr False \<and>
          bothAtomic (prog b) (ins goI) (ins goJ) = Inr False \<and>
          no_path s (ins goI) i (ins goJ) j)"

lemma conflicting_write:
  assumes "conflicting a x y = Inr True"
  shows "isWriteIns (prog a) x = Inr True \<or> isWriteIns (prog a) y = Inr True"
  using assms by (auto simp: conflicting_def bindR_eq_Inr_iff split: if_splits)

lemma race_sound_real:
  assumes "buildHB a = Inr s" "graph_law nbrs" "race_sound (with_omitted s a) (graph_of nbrs s) r"
  shows "real_race (with_omitted s a) s r"
proof -
  let ?b = "with_omitted s a"
  obtain i j ii jj x y where c: "considered ?b i j ii jj"
    "candidate ?b (graph_of nbrs s) i j (RWIns ?b ! i ! ii) (RWIns ?b ! j ! jj) x y"
    "r = race_of i j ii jj (RWIns ?b ! i ! ii) (RWIns ?b ! j ! jj) x y"
    using assms(3) unfolding race_sound_def by blast
  have "no_path s (ins (RWIns a ! i ! ii)) i (ins (RWIns a ! j ! jj)) j"
    using candidate_no_path [OF assms(1,2) c(1) c(2) [unfolded with_omitted_simps]] by (auto simp: no_path_def)
  moreover have "isWriteIns (prog a) (ins (RWIns a ! i ! ii)) = Inr True \<or> isWriteIns (prog a) (ins (RWIns a ! j ! jj)) = Inr True"
    using conflicting_write [of ?b] c(2) by (auto simp: candidate_def)
  moreover have "access_ins a (ins (RWIns a ! i ! ii))" "access_ins a (ins (RWIns a ! j ! jj))"
    using conflicting_access [of ?b] c(2) by (auto simp: candidate_def)
  ultimately show ?thesis
    using c unfolding real_race_def c(3) race_of_def by (simp add: considered_def candidate_def)
qed

text \<open>The stages of a run and what \<^verbatim>\<open>checkRacyPairs\<close> returns in it.\<close>

lemma detect_races:
  assumes "detect nbrs a = Inr races" "length (RWIns a) \<noteq> 1" "graph_law nbrs"
  shows "\<exists>s. buildHB (confirm_selects a) = Inr s \<and> no_duplicates races \<and>
    (\<forall>r \<in> set races. real_race (with_omitted s (confirm_selects a)) s r)"
proof -
  obtain s cache where s: "buildHB (confirm_selects a) = Inr s"
    "checkRacyPairs (with_omitted s (confirm_selects a)) (graph_of nbrs s) Map.empty = Inr (races, cache)"
    using detect_Inr [OF assms(1,2)] by blast
  note C = checkRacyPairs_correct [OF cache_ok_empty s(2)]
  show ?thesis using s(1) C(2) C(1) race_sound_real [OF s(1) assms(3)] by blast
qed

text \<open>
  C1. Every race that a run reports is a pair of recorded accesses of two different goroutines, at
  least one of them a write, that may touch the same address, hold no lock in common, are not both
  atomic, and whose nodes in the happens-before graph are connected by a path in neither direction.
\<close>
theorem reported_races_are_unordered_conflicts:
  assumes "runChecker n nbrs (Some f) a0 = Inr races" "r \<in> set races" "graph_law nbrs"
  shows "\<exists>a s. traverseFn n f (fn_name (fun_of (prog a0) f)) 0 None (set_efficiency a0) = Inr a \<and>
    buildHB (confirm_selects a) = Inr s \<and> real_race (with_omitted s (confirm_selects a)) s r"
proof -
  obtain a where a: "traverseFn n f (fn_name (fun_of (prog a0) f)) 0 None (set_efficiency a0) = Inr a"
    "detect nbrs a = Inr races" using runChecker_Inr [OF assms(1)] by blast
  have "length (RWIns a) \<noteq> 1" using a(2) assms(2) by (auto simp: detect_def)
  then show ?thesis using detect_races [OF a(2) _ assms(3)] a(1) assms(2) by blast
qed

theorem reported_races_are_unordered_conflicts_witness:
  "\<exists>a s. traverseFn 6 0 (fn_name (fun_of (prog sample_start) 0)) 0 None (set_efficiency sample_start) = Inr a \<and>
     buildHB (confirm_selects a) = Inr s \<and> real_race (with_omitted s (confirm_selects a)) s
       (race_of 0 1 1 2 (sample_records ! 0 ! 1) (sample_records ! 1 ! 2) 2 2)"
  by (rule reported_races_are_unordered_conflicts [OF sample_run _ sample_graph]) simp

lemma no_duplicates_once:
  assumes "no_duplicates races" "reported races x y"
  shows "\<exists>!k. k < length races \<and> {fst (addrPair (races ! k)), snd (addrPair (races ! k))} = {x, y}"
proof -
  obtain k where k: "k < length races" "addrPair (races ! k) = (x, y) \<or> addrPair (races ! k) = (y, x)"
    using assms(2) by (auto simp: reported_def strictSliceContains_iff in_set_conv_nth)
  show ?thesis
  proof (intro ex1I conjI)
    show "k < length races" "{fst (addrPair (races ! k)), snd (addrPair (races ! k))} = {x, y}" using k by auto
    fix l assume l: "l < length races \<and> {fst (addrPair (races ! l)), snd (addrPair (races ! l))} = {x, y}"
    then have p: "addrPair (races ! l) = addrPair (races ! k) \<or>
      addrPair (races ! l) = (snd (addrPair (races ! k)), fst (addrPair (races ! k)))"
      using k(2) by (cases "addrPair (races ! l)") (auto simp: doubleton_eq_iff)
    then have "\<not> k < l" "\<not> l < k" using assms(1) l k by (fastforce simp: no_duplicates_def)+
    then show "l = k" by simp
  qed
qed

text \<open>
  C2. Completeness of the comparison without duplicates: when a pair of accesses is considered and
  survives every filter, exactly one reported race has its two addresses (in one order or the other).
\<close>
theorem candidates_are_reported_once:
  assumes "detect nbrs a = Inr races" "length (RWIns a) \<noteq> 1" "buildHB (confirm_selects a) = Inr s"
    "considered (with_omitted s (confirm_selects a)) i j ii jj"
    "candidate (with_omitted s (confirm_selects a)) (graph_of nbrs s) i j (RWIns a ! i ! ii) (RWIns a ! j ! jj) x y"
  shows "\<exists>!k. k < length races \<and> {fst (addrPair (races ! k)), snd (addrPair (races ! k))} = {x, y}"
proof -
  obtain cache where c:
    "checkRacyPairs (with_omitted s (confirm_selects a)) (graph_of nbrs s) Map.empty = Inr (races, cache)"
    using detect_Inr [OF assms(1,2)] assms(3) by auto
  have "reported races x y"
    by (rule checkRacyPairs_correct(4) [OF cache_ok_empty c assms(4)]) (simp add: assms(5))
  then show ?thesis by (rule no_duplicates_once [OF checkRacyPairs_correct(2) [OF cache_ok_empty c]])
qed

theorem candidates_are_reported_once_witness:
  "\<exists>!k. k < length [race_of 0 1 1 2 (sample_records ! 0 ! 1) (sample_records ! 1 ! 2) 2 2] \<and>
     {fst (addrPair ([race_of 0 1 1 2 (sample_records ! 0 ! 1) (sample_records ! 1 ! 2) 2 2] ! k)),
      snd (addrPair ([race_of 0 1 1 2 (sample_records ! 0 ! 1) (sample_records ! 1 ! 2) 2 2] ! k))} = {2, 2}"
proof -
  have s: "length (RWIns sample_end) \<noteq> 1" "RWIns sample_end ! 0 ! 1 = sample_records ! 0 ! 1"
    "RWIns sample_end ! 1 ! 2 = sample_records ! 1 ! 2" by (simp_all add: sample_end_def sample_records_def)
  show ?thesis
    by (rule candidates_are_reported_once [OF sample_detect s(1) sample_built sample_considered])
      (use sample_candidate s(2,3) in simp)
qed



section \<open>What the traversal leaves\<close>

lemma traversal_spawns_recorded:
  assumes "traverseFn n f nm 0 None (set_efficiency (initialAnalysis p c r)) = Inr a" "no_dynamic_go p"
  shows "spawns_recorded a"
proof -
  have "spawns_recorded (set_efficiency (initialAnalysis p c r))"
    by (simp add: spawns_defs set_efficiency_def initialAnalysis_def)
  then show ?thesis
    using spawns_recorded_traverseFn [OF assms(1)] initial_goroutines_ok [of p c r] initial_prog [of p c r] assms(2) by simp
qed

text \<open>
  C4. After the traversal of a program without a go statement on a type assertion of a parameter, every
  goroutine is numbered above its spawner. The first record of a worker goroutine that has records is a go
  statement that a goroutine of smaller number has recorded. The go statement entered in \<^verbatim>\<open>goCalls\<close> for a
  goroutine is recorded by the goroutine itself and by one of smaller number. A goroutine still waiting was
  spawned at a go statement that its spawner has recorded.
\<close>
theorem spawning_is_a_tree:
  assumes "traverseFn n f nm 0 None (set_efficiency (initialAnalysis p c r)) = Inr a" "no_dynamic_go p"
  shows "(\<forall>g > 0. goCaller (gos a) g < g) \<and>
    (\<forall>g. 0 < g \<and> g < length (RWIns a) \<and> RWIns a ! g \<noteq> [] \<longrightarrow>
       (\<exists>i d. go_instr a g = Inr i \<and> obj p i = Go d \<and> recorded_below a g i)) \<and>
    (\<forall>g ci. goCalls (gos a) g = Some ci \<longrightarrow>
       recorded a g (gc_ssaIns ci) \<and> recorded_below a g (gc_ssaIns ci) \<and> (\<exists>d. obj p (gc_ssaIns ci) = Go d)) \<and>
    (\<forall>info \<in> set (workList (gos a)). (\<exists>d. obj p (go_ssaIns info) = Go d) \<and>
       recorded a (goCaller (gos a) (go_goID info)) (go_ssaIns info))"
proof -
  have ok: "goroutines_ok 0 a" "prog a = p" using traversal_goroutines_ok [OF assms] .
  have sp: "waiting_recorded a" "heads_recorded a" "calls_recorded a"
    using traversal_spawns_recorded [OF assms] by (simp_all add: spawns_recorded_def)
  have "\<exists>i d. go_instr a g = Inr i \<and> obj p i = Go d \<and> recorded_below a g i"
    if "0 < g" "g < length (RWIns a)" "RWIns a ! g \<noteq> []" for g
  proof -
    have "is_go p (ins (hd (RWIns a ! g)))" using ok that by (auto simp: goroutines_ok_def heads_ok_def)
    then show ?thesis using that ok(2) sp(2) by (auto simp: is_go_def go_instr_def heads_recorded_def)
  qed
  moreover have "\<forall>info \<in> set (workList (gos a)). (\<exists>d. obj p (go_ssaIns info) = Go d) \<and>
       recorded a (goCaller (gos a) (go_goID info)) (go_ssaIns info)"
    using sp(1) ok by (auto simp: waiting_recorded_def goroutines_ok_def queue_ok_def is_go_def)
  ultimately show ?thesis using ok sp(3) by (auto simp: goroutines_ok_def calls_recorded_def is_go_def)
qed

lemma sample_no_dynamic_go: "no_dynamic_go sample_prog"
  by (simp add: no_dynamic_go_def sample_prog_def)

theorem spawning_is_a_tree_witness:
  "goCaller (gos sample_end) 1 < 1 \<and> (\<exists>i d. go_instr sample_end 1 = Inr i \<and> sample_obj i = Go d \<and> recorded_below sample_end 1 i)"
proof -
  have "length (RWIns sample_end) = 2" "RWIns sample_end ! 1 \<noteq> []" by (simp_all add: sample_ends)
  then show ?thesis
    using spawning_is_a_tree [OF sample_traversal [unfolded sample_start_def] sample_no_dynamic_go]
    by (auto simp: sample_prog_def)
qed

text \<open>
  C5. The stages after the traversal of a program without a go statement on a type assertion of a parameter
  return: neither the walk up the spawning goroutines nor the search in the happens-before graph runs for
  ever, whatever accesses were recorded. The graph package is assumed to answer with the targets of the
  edges of a node (\<open>graph_law\<close>).
\<close>
theorem detection_returns:
  assumes "traverseFn n f nm 0 None (set_efficiency (initialAnalysis p c r)) = Inr a" "no_dynamic_go p" "graph_law nbrs"
  shows "detect nbrs a \<noteq> Inl Diverges"
proof -
  have "climbs a" using traversal_goroutines_ok(1) [OF assms(1,2)] by (auto simp: climbs_def goroutines_ok_def)
  then show ?thesis using returns_detect [OF _ assms(3)] by (simp add: returns_def)
qed

theorem detection_returns_witness: "detect sample_nbrs sample_end \<noteq> Inl Diverges"
  by (rule detection_returns [OF sample_traversal [unfolded sample_start_def] sample_no_dynamic_go sample_graph])

text \<open>
  C6. A visit never changes or removes a record: the list of goroutines only gets longer, and the records
  of each goroutine are a prefix of its records afterwards.
\<close>
theorem visits_only_add_records:
  assumes "traverseFn n f nm g i a = Inr b"
  shows "length (RWIns a) \<le> length (RWIns b) \<and> (\<forall>k < length (RWIns a). prefix (RWIns a ! k) (RWIns b ! k))"
  using okR_D [OF trace.traverseFn assms] by (auto simp: records_grow_def)

theorem visits_only_add_records_witness: "length (RWIns (set_efficiency sample_start)) \<le> length (RWIns sample_end)"
  using visits_only_add_records [OF sample_traversal] by simp

text \<open>
  The fuel of the model does not influence a run: once a run returns, races or a panic, every larger
  amount of fuel gives the same result.
\<close>
theorem more_fuel_same_run:
  assumes "runChecker n nbrs entry a \<noteq> Inl OutOfFuel" "n \<le> m"
  shows "runChecker m nbrs entry a = runChecker n nbrs entry a"
proof (cases entry)
  case (Some f)
  let ?a = "set_efficiency a"
  have "le_R (traverseFn n f (fn_name (fun_of (prog ?a) f)) 0 None ?a) (traverseFn m f (fn_name (fun_of (prog ?a) f)) 0 None ?a)"
    by (rule traverseFn_le [OF assms(2)])
  then show ?thesis using assms(1) by (auto simp: runChecker_def Let_def le_R_def Some)
qed (simp add: runChecker_def)

theorem more_fuel_same_run_witness:
  "runChecker 100 sample_nbrs (Some 0) sample_start =
     Inr [race_of 0 1 1 2 (sample_records ! 0 ! 1) (sample_records ! 1 ! 2) 2 2]"
  using more_fuel_same_run [of 6 sample_nbrs "Some 0" sample_start 100] by (simp add: sample_run)

section \<open>The happens-before graph\<close>

lemma length_keys_from: "length (keys_from g rss) = length (concat rss)"
  by (induction rss arbitrary: g) (simp_all add: keys_of_def)

text \<open>
  C7. The graph has one node per record, in the order of the goroutines, every edge connects two of
  them, and every recorded access is mapped to a node of its own goroutine.
\<close>
theorem graph_is_well_formed:
  assumes "buildHB a = Inr s"
  shows "node_vals s = keys_from 0 (RWIns a) \<and> length (node_vals s) = length (concat (RWIns a)) \<and>
    (\<forall>(m, k) \<in> set (edges s). m < length (node_vals s) \<and> k < length (node_vals s)) \<and>
    (\<forall>g < length (RWIns a). \<forall>x \<in> set (RWIns a ! g). access_ins a (ins x) \<longrightarrow>
       (\<exists>m < length (node_vals s). RWinsMap s \<lparr>gi_ins = ins x, gi_goID = g\<rparr> = Some m \<and> gi_goID (node_vals s ! m) = g))"
proof -
  note B = hb_all_ok [OF buildHB_all [OF assms] hb_init_ok]
  have vals: "node_vals s = keys_from 0 (RWIns a)" using B by (simp add: hb_init_def)
  have nodes: "nodes_ok s" "map_own s" using B by (simp_all add: before_goroutine_def)
  have bound: "m < length (node_vals s)" if "m \<in> mentioned s" for m
    using nodes(1) that by (auto simp: nodes_ok_def)
  have e: "\<forall>(m, k) \<in> set (edges s). m < length (node_vals s) \<and> k < length (node_vals s)"
  proof (intro ballI, clarify)
    fix m k assume "(m, k) \<in> set (edges s)"
    then have "m \<in> fst ` set (edges s)" "k \<in> snd ` set (edges s)" by (force intro: rev_image_eqI)+
    then show "m < length (node_vals s) \<and> k < length (node_vals s)"
      using bound by (simp add: mentioned_def)
  qed
  have "\<exists>m < length (node_vals s). RWinsMap s \<lparr>gi_ins = ins x, gi_goID = g\<rparr> = Some m \<and> gi_goID (node_vals s ! m) = g"
    if "g < length (RWIns a)" "x \<in> set (RWIns a ! g)" "access_ins a (ins x)" for g x
  proof -
    have "\<lparr>gi_ins = ins x, gi_goID = g\<rparr> \<in> dom (RWinsMap s)" using B that by simp
    then obtain m where m: "RWinsMap s \<lparr>gi_ins = ins x, gi_goID = g\<rparr> = Some m" by blast
    then have "m \<in> mentioned s" by (simp add: mentioned_def ranI)
    then show ?thesis using m nodes(2) bound unfolding map_own_def by (intro exI [of _ m]) simp
  qed
  then show ?thesis using vals e length_keys_from [of 0 "RWIns a"] by simp
qed

theorem graph_is_well_formed_witness:
  "length (node_vals sample_hb) = 7 \<and> (\<exists>m < 7. RWinsMap sample_hb \<lparr>gi_ins = 6, gi_goID = 1\<rparr> = Some m \<and> gi_goID (node_vals sample_hb ! m) = 1)"
proof -
  have R: "length (RWIns sample_end) = 2" "RWIns sample_end ! 1 ! 2 = sample_records ! 1 ! 2"
    "2 < length (RWIns sample_end ! 1)" "length (concat (RWIns sample_end)) = 7" "ins (sample_records ! 1 ! 2) = 6"
    by (simp_all add: sample_end_def sample_records_def)
  have x: "access_ins sample_end (ins (sample_records ! 1 ! 2))"
    using R(5) by (simp add: access_ins_def exec sample_end_def samples)
  have m: "sample_records ! 1 ! 2 \<in> set (RWIns sample_end ! 1)" using R(2,3) nth_mem by metis
  note W = graph_is_well_formed [OF sample_built, unfolded sample_confirm]
  have "length (node_vals sample_hb) = 7" by (rule trans [OF W [THEN conjunct2, THEN conjunct1] R(4)])
  then show ?thesis
    using W [THEN conjunct2, THEN conjunct2, THEN conjunct2, THEN spec, THEN mp, THEN bspec, THEN mp, OF _ m x] R(1,5)
    by simp
qed



text \<open>
  C9. The search of two accesses that have nodes returns, and answers whether there is a path between
  them in the graph; the cache stays coherent, so cached answers are right as well.
\<close>
theorem reachable_decides_paths:
  assumes "graph_law nbrs" "G_ok (graph_of nbrs s) cache"
    "RWinsMap s \<lparr>gi_ins = x, gi_goID = i\<rparr> = Some m" "RWinsMap s \<lparr>gi_ins = y, gi_goID = j\<rparr> = Some k"
  shows "\<exists>cache'. reachable (nbrs (edges s)) (\<lambda>n. n) (RWinsMap s) cache x i y j =
      Some (Inr ((m, k) \<in> (set (edges s))\<^sup>*, cache')) \<and> G_ok (graph_of nbrs s) cache'"
proof -
  have G: "neighbors (graph_of nbrs s) = nbrs (edges s)" "value_of (graph_of nbrs s) = (\<lambda>n. n)"
    "rwInsMap (graph_of nbrs s) = RWinsMap s" by (simp_all add: graph_of_def)
  have b: "reachableBFS (nbrs (edges s)) (\<lambda>n. n) (RWinsMap s) x i y j = Some (Inr ((m, k) \<in> (set (edges s))\<^sup>*))"
    using reachableBFS_correct [OF assms(3,4) graph_reach_finite [OF assms(1), of s], of "\<lambda>n. n"]
      graph_edges [OF assms(1), of s] by (simp add: G)
  show ?thesis using reachable_cached [OF assms(2) [unfolded G] b] unfolding G .
qed

theorem reachable_decides_paths_witness:
  "\<exists>cache'. reachable (sample_nbrs (edges sample_hb)) (\<lambda>n. n) (RWinsMap sample_hb) Map.empty 4 0 6 1 =
      Some (Inr ((1, 5) \<in> (set (edges sample_hb))\<^sup>*, cache')) \<and> G_ok (graph_of sample_nbrs sample_hb) cache'"
  by (rule reachable_decides_paths [OF sample_graph cache_ok_empty]) (simp_all add: sample_hb_def)

text \<open>
  C10. The slice queue of the search refines the abstract queue of its pending elements: each operation
  acts on the pending list as on a first-in first-out queue, and taking from the empty queue panics.
\<close>
theorem queue_refines_list:
  assumes "queue_inv q"
  shows "queue_inv (enQueue q v) \<and> queue_pending (enQueue q v) = queue_pending q @ [v] \<and>
    queue_isEmpty q = (queue_pending q = []) \<and> queue_size q = int (length (queue_pending q)) \<and>
    map_sum id (\<lambda>(x, q'). (x, queue_pending q')) (deQueue q) =
      (case queue_pending q of [] \<Rightarrow> Inl IndexOutOfRange | x # xs \<Rightarrow> Inr (x, xs)) \<and>
    (\<forall>x q'. deQueue q = Inr (x, q') \<longrightarrow> queue_inv q')"
proof -
  have d: "map_sum id (\<lambda>(x, q'). (x, queue_pending q')) (deQueue q) =
      (case queue_pending q of [] \<Rightarrow> Inl IndexOutOfRange | x # xs \<Rightarrow> Inr (x, xs))"
  proof (cases "queue_pending q")
    case Nil
    then show ?thesis by (simp add: queue_pending_def deQueue_def)
  next
    case (Cons x xs)
    then obtain q' where "deQueue q = Inr (x, q')" "queue_pending q' = xs" using gq.deq [OF assms Cons] by blast
    then show ?thesis using Cons by simp
  qed
  have "queue_inv q'" if "deQueue q = Inr (x, q')" for x q'
    using that by (auto simp: deQueue_def queue_inv_def split: if_splits)
  then show ?thesis using gq.enq [OF assms] gq.is_emp [OF assms] gq.siz [OF assms] d by auto
qed

theorem queue_refines_list_witness: "queue_pending (enQueue \<lparr>data = [1, 2, 3], head = 2\<rparr> (4::nat)) = [3, 4]"
  using queue_refines_list [of "\<lparr>data = [1, 2, 3], head = 2\<rparr>" "4::nat"] by (simp add: queue_inv_def queue_pending_def)

end
