(* ===== verification/Gorace_Filter_Properties.thy ===== *)
theory Gorace_Filter_Properties
  imports Gorace_Sample "HOL-Library.Multiset"
begin

text \<open>
  The properties of single components of the race detector: the order of spawning, the lock sets and
  the lock filter, the exploration budget, the order of blocks, the release of locks at the end of a
  function and the waiting goroutines.
\<close>

section \<open>States for the examples\<close>

text \<open>
  \<open>sample_stacks\<close>: the goroutines 1 and 2 are spawned by \<^verbatim>\<open>main\<close> with the given stacks, the instructions
  3 and 6 are in two blocks of \<^verbatim>\<open>main\<close> that do not dominate each other. \<open>sample_locked\<close>: \<^verbatim>\<open>main\<close> holds the
  locks at the addresses of a list.
\<close>

definition sample_two :: "blk \<Rightarrow> basic_block" where
  "sample_two b = (sample_block 0 [])\<lparr>dom_pre := int b, dom_post := int b\<rparr>"

definition sample_stacks :: "fnCallInfo list \<Rightarrow> fnCallInfo list \<Rightarrow> analysis" where
  "sample_stacks s1 s2 =
     sample_end\<lparr>gos := (gos sample_end)\<lparr>goStack := [[], s1, s2], goCaller := \<lambda>_. 0\<rparr>,
                prog := sample_prog\<lparr>bb := sample_two\<rparr>\<rparr>"

definition sample_locked :: "ref list \<Rightarrow> analysis" where
  "sample_locked xs =
     sample_end\<lparr>locks := (locks sample_end)\<lparr>
       lock_heap := (\<lambda>k. \<lparr>locAddr = xs ! k, locFreeze = False, locBloc = None, lock_parentFn = None\<rparr>),
       lock_next := length xs, arrays := (\<lambda>_. [0..<length xs]), arr_next := 1,
       lockSet := [0 \<mapsto> \<lparr>arr = 0, len = length xs\<rparr>]\<rparr>\<rparr>"

lemma sample_spawn_stack:
  assumes "0 < g" "g < 3"
  shows "spawn_stack (sample_stacks s1 s2) g = Inr ([[], s1, s2] ! g)"
proof -
  have "g = 1 \<or> g = 2" using assms by auto
  then show ?thesis
    by (auto simp: spawn_stack_def root_path_def go_path.simps sample_stacks_def nth_go_def)
qed

lemmas sample_locks = sample_locked_def sample_end_def set_efficiency_def initialAnalysis_def slice_elems_def slice_locks_def

section \<open>Goroutines that exclude each other\<close>

lemma nth_go_Inr: "nth_go xs i = Inr x \<longleftrightarrow> 0 \<le> i \<and> nat i < length xs \<and> x = xs ! nat i"
  by (auto simp: nth_go_def nat_less_iff)

text \<open>The two stacks part at index \<open>k\<close>: the calls before are the same, those at \<open>k\<close> differ.\<close>

definition part_at :: "fnCallInfo list \<Rightarrow> fnCallInfo list \<Rightarrow> nat \<Rightarrow> bool" where
  "part_at s0 s1 k \<longleftrightarrow>
     0 < k \<and> k < length s0 \<and> k < length s1 \<and> \<not> same_call (s0 ! k) (s1 ! k) \<and>
     (\<forall>l. 0 < l \<and> l < k \<longrightarrow> same_call (s0 ! l) (s1 ! l))"

lemma parallel_loop_parts:
  assumes "parallel_loop a j (drop j s0) s0 s1 = Inr (Some d)" "\<forall>l. 0 < l \<and> l < j \<longrightarrow> same_call (s0 ! l) (s1 ! l)"
  shows "d = no_divergence \<or>
    (\<exists>k. part_at s0 s1 k \<and> divFn d = fnIns (s0 ! (k - 1)) \<and>
       call_block a (s0 ! k) = Inr (b1 d) \<and> call_block a (s1 ! k) = Inr (b2 d))"
  using assms
proof (induction "length s0 - j" arbitrary: j)
  case 0
  then show ?case by simp
next
  case (Suc m)
  then have j: "j < length s0" by simp
  have dj: "drop j s0 = s0 ! j # drop (Suc j) s0" using Cons_nth_drop_Suc [OF j] by simp
  show ?case
  proof (cases "j = 0")
    case True
    then have "parallel_loop a (Suc j) (drop (Suc j) s0) s0 s1 = Inr (Some d)"
      using Suc.prems(1) unfolding dj by (auto split: if_splits)
    then show ?thesis using Suc.hyps(1) [of "Suc j"] Suc.hyps(2) True by auto
  next
    case False
    obtain other where o: "nth_go s1 (int j) = Inr other"
      using Suc.prems(1) False unfolding dj by (auto simp: bindR_eq_Inr_iff)
    then have other: "other = s1 ! j" "j < length s1" by (auto simp: nth_go_Inr)
    show ?thesis
    proof (cases "same_call (s0 ! j) (s1 ! j)")
      case True
      then have "parallel_loop a (Suc j) (drop (Suc j) s0) s0 s1 = Inr (Some d)"
        using Suc.prems(1) False o other unfolding dj by (auto split: if_splits)
      moreover have "\<forall>l. 0 < l \<and> l < Suc j \<longrightarrow> same_call (s0 ! l) (s1 ! l)"
        using Suc.prems(2) True by (auto simp: less_Suc_eq)
      moreover have "m = length s0 - Suc j" using Suc.hyps(2) by simp
      ultimately show ?thesis by (rule Suc.hyps(1) [rotated])
    next
      case differ: False
      have "nth_go s0 (int j - 1) = Inr (s0 ! (j - 1))"
        using j False by (auto simp: nth_go_Inr nat_diff_distrib)
      then have "divFn d = fnIns (s0 ! (j - 1))" "call_block a (s0 ! j) = Inr (b1 d)" "call_block a (s1 ! j) = Inr (b2 d)"
        using Suc.prems(1) False o other differ unfolding dj by (auto simp: bindR_eq_Inr_iff)
      moreover have "part_at s0 s1 j" using False j other(2) differ Suc.prems(2) by (simp add: part_at_def)
      ultimately show ?thesis by blast
    qed
  qed
qed

text \<open>
  C22. Two goroutines are skipped as exclusive only when their spawning stacks part at a pair of calls
  that lie in two blocks of the same function, neither of which dominates the other.
\<close>
theorem skipped_goroutines_are_exclusive:
  assumes "canRunInParallel a i j = Inr False"
  shows "\<exists>s0 s1 k x y. spawn_stack a i = Inr s0 \<and> spawn_stack a j = Inr s1 \<and> part_at s0 s1 k \<and>
    call_block a (s0 ! k) = Inr (Some x) \<and> call_block a (s1 ! k) = Inr (Some y) \<and>
    block_parent (bb (prog a) x) = fnIns (s0 ! (k - 1)) \<and> block_parent (bb (prog a) y) = fnIns (s0 ! (k - 1)) \<and>
    \<not> Dominates (prog a) x y \<and> \<not> Dominates (prog a) y x"
proof -
  obtain s0 s1 d where s: "spawn_stack a i = Inr s0" "spawn_stack a j = Inr s1"
    "parallel_loop a 0 s0 s0 s1 = Inr (Some d)"
    "(case both_in a d of Some (x, y) \<Rightarrow> \<not> incomparable a x y | None \<Rightarrow> True) = False"
    using assms by (auto simp: canRunInParallel_def bindR_eq_Inr_iff split: option.splits)
  then obtain x y where xy: "both_in a d = Some (x, y)" "incomparable a x y" by (auto split: option.splits)
  then have b: "b1 d = Some x" "b2 d = Some y" "block_parent (bb (prog a) x) = divFn d" "block_parent (bb (prog a) y) = divFn d"
    by (auto simp: both_in_def split: option.splits if_splits)
  then have "d \<noteq> no_divergence" by (auto simp: no_divergence_def)
  then obtain k where "part_at s0 s1 k" "divFn d = fnIns (s0 ! (k - 1))"
    "call_block a (s0 ! k) = Inr (b1 d)" "call_block a (s1 ! k) = Inr (b2 d)"
    using parallel_loop_parts [of a 0 s0 s1 d] s(3) by auto
  then show ?thesis using s(1,2) b xy(2) unfolding incomparable_def
    by (intro exI [of _ s0] exI [of _ s1] exI [of _ k] exI [of _ x] exI [of _ y]) simp
qed

theorem skipped_goroutines_are_exclusive_witness:
  "\<exists>s0 s1 k. spawn_stack (sample_stacks [sample_call 0 0 None, sample_call 1 1 (Some 3)]
      [sample_call 0 0 None, sample_call 2 1 (Some 6)]) 1 = Inr s0 \<and>
    spawn_stack (sample_stacks [sample_call 0 0 None, sample_call 1 1 (Some 3)]
      [sample_call 0 0 None, sample_call 2 1 (Some 6)]) 2 = Inr s1 \<and> part_at s0 s1 k"
proof -
  have p: "prog (sample_stacks s t) = sample_prog\<lparr>bb := sample_two\<rparr>" for s t by (simp add: sample_stacks_def)
  have c: "same_call (sample_call k f i) (sample_call l g j) \<longleftrightarrow> k = l" "fnIns (sample_call k f i) = Some f"
    "ssaIns (sample_call k f i) = i" for k f i l g j
    by (simp_all add: sample_call_def same_call_def)
  have "canRunInParallel (sample_stacks [sample_call 0 0 None, sample_call 1 1 (Some 3)]
      [sample_call 0 0 None, sample_call 2 1 (Some 6)]) 1 2 = Inr False"
    by (simp add: canRunInParallel_def sample_spawn_stack [of 1, simplified] sample_spawn_stack [of 2] nth_go_def c p
        call_block_def both_in_def incomparable_def Dominates_def sample_two_def sample_block_def sample_prog_def sample_where_def)
  from skipped_goroutines_are_exclusive [OF this] show ?thesis by blast
qed

text \<open>
  A pair of goroutines whose second spawning stack is a proper prefix of the first makes the
  comparison panic: the code tests the length of the first stack twice and indexes past the second.
\<close>
theorem shorter_second_stack_panics:
  assumes "spawn_stack a i = Inr (s @ rest)" "spawn_stack a j = Inr s" "2 \<le> length s" "rest \<noteq> []"
  shows "canRunInParallel a i j = Inl IndexOutOfRange"
proof -
  have "parallel_loop a k (drop k (s @ rest)) (s @ rest) s = Inl IndexOutOfRange" if "k \<le> length s" for k
    using that
  proof (induction "length s - k" arbitrary: k)
    case 0
    then show ?case using assms(3,4) by (cases rest) (auto simp: nth_go_def)
  next
    case (Suc m)
    then have k: "k < length s" by simp
    have d: "drop k (s @ rest) = s ! k # drop (Suc k) (s @ rest)"
      using Cons_nth_drop_Suc [of k "s @ rest"] k by (simp add: nth_append)
    have "parallel_loop a (Suc k) (drop (Suc k) (s @ rest)) (s @ rest) s = Inl IndexOutOfRange"
      using Suc k by auto
    moreover have "nth_go s (int k) = Inr (s ! k)" using k by (simp add: nth_go_def)
    moreover have "int k \<noteq> int (length (s @ rest)) - 1" "k = 0 \<longrightarrow> int k \<noteq> int (length s) - 1"
      using k assms(3,4) by (cases rest; simp)+
    ultimately show ?case unfolding d parallel_loop.simps by (auto simp: same_call_def simp del: length_append)
  qed
  from this [of 0] show ?thesis using assms(1,2) by (simp add: canRunInParallel_def)
qed

theorem shorter_second_stack_panics_witness:
  "canRunInParallel (sample_stacks ([sample_call 0 0 None, sample_call 1 1 (Some 3)] @ [sample_call 2 1 (Some 6)])
     [sample_call 0 0 None, sample_call 1 1 (Some 3)]) 1 2 = Inl IndexOutOfRange"
  by (rule shorter_second_stack_panics [where s = "[sample_call 0 0 None, sample_call 1 1 (Some 3)]" and
        rest = "[sample_call 2 1 (Some 6)]"])
    (simp_all add: sample_spawn_stack [of 1, simplified] sample_spawn_stack [of 2])

section \<open>Locks\<close>

text \<open>
  C23. The lock filter discards a pair of accesses exactly when some pair of their recorded locks may be
  the same address or has the same source position, where the read locks count for reads only.
\<close>
theorem lock_filter_exact:
  assumes "lockSetsIntersect a x y i j = Inr r"
  shows "r \<longleftrightarrow> (\<exists>k \<in> set (locks_of a x). \<exists>l \<in> set (locks_of a y).
    sameAddress a k l i j = Inr True \<or> getSrcPos (prog a) k = getSrcPos (prog a) l)"
  using lock_outer_Inr [OF assms [unfolded lockSetsIntersect_def]] .

theorem lock_filter_exact_witness:
  "False \<longleftrightarrow> (\<exists>k \<in> set (locks_of sample_end 4). \<exists>l \<in> set (locks_of sample_end 6).
    sameAddress sample_end k l 0 1 = Inr True \<or> getSrcPos (prog sample_end) k = getSrcPos (prog sample_end) l)"
  by (rule lock_filter_exact)
    (simp add: lockSetsIntersect_def locks_of_def isReadIns_def sample_end_def samples set_efficiency_def initialAnalysis_def)

text \<open>
  C24. Two accesses that hold mutexes at two different global variables are taken to hold a common lock,
  so a race between them is never reported: the source position of a global is read as none.
\<close>
theorem different_global_mutexes_match:
  assumes "Some u \<in> set (lockMap (locks a) x)" "Some v \<in> set (lockMap (locks a) y)"
    "obj (prog a) u = Global" "obj (prog a) v = Global"
  shows "lockSetsIntersect a x y i j \<noteq> Inr False"
proof
  assume "lockSetsIntersect a x y i j = Inr False"
  moreover have "Some u \<in> set (locks_of a x)" "Some v \<in> set (locks_of a y)" using assms(1,2) by (auto simp: locks_of_def)
  moreover have "getSrcPos (prog a) (Some u) = getSrcPos (prog a) (Some v)" using assms(3,4) by (simp add: getSrcPos_def)
  ultimately show False unfolding lockSetsIntersect_def using lock_outer_Inr by blast
qed

theorem different_global_mutexes_match_witness:
  "lockSetsIntersect (sample_end\<lparr>prog := sample_prog\<lparr>obj := sample_obj(8 := Global)\<rparr>,
     locks := (locks sample_end)\<lparr>lockMap := (\<lambda>_. [])(4 := [Some 2], 6 := [Some 8])\<rparr>\<rparr>) 4 6 0 1 \<noteq> Inr False"
  by (rule different_global_mutexes_match [of 2 _ _ 8]) (simp_all add: sample_prog_def)

text \<open>
  C25. Acquiring a lock is seen by the accesses that follow: the snapshot taken for an access after an
  acquisition is the snapshot before it with the new lock at its end.
\<close>
theorem acquired_lock_is_recorded:
  assumes "slice_ok (locks a) (lockSet (locks a) g)" "\<forall>x \<in> set (slice_elems (locks a) (lockSet (locks a) g)). x < lock_next (locks a)"
  shows "lockMap (locks (updateLockMap g x (lock_acquire g l a))) x =
    lockMap (locks (updateLockMap g x a)) x @ [if locFreeze l then None else Some (locAddr l)]"
proof -
  define L where "L = (locks a)\<lparr>lock_heap := (lock_heap (locks a))(lock_next (locks a) := l), lock_next := Suc (lock_next (locks a))\<rparr>"
  obtain sl L' where A: "slice_append (spare_cap (cfg a)) (lockSet (locks a) g) (lock_next (locks a)) L = (sl, L')"
    by (rule prod.exhaust)
  have ok: "slice_ok L (lockSet (locks a) g)" "slice_elems L (lockSet (locks a) g) = slice_elems (locks a) (lockSet (locks a) g)"
    using assms(1) by (simp_all add: L_def slice_ok_def slice_elems_def split: option.splits)
  have heap: "lock_heap L' = lock_heap L"
    using A by (auto simp: slice_append_def slice_grow_def Let_def split: option.splits if_splits)
  have acq: "locks (lock_acquire g l a) = L'\<lparr>lockSet := (lockSet L')(g := Some sl)\<rparr>"
    using A by (simp add: lock_acquire_def new_lock_def L_def)
  have "slice_elems (L'\<lparr>lockSet := (lockSet L')(g := Some sl)\<rparr>) (Some sl) = slice_elems L' (Some sl)"
    by (simp add: slice_elems_def)
  then have "slice_locks (locks (lock_acquire g l a)) (Some sl) =
      map (lock_heap L) (slice_elems (locks a) (lockSet (locks a) g) @ [lock_next (locks a)])"
    using slice_append_elems(1) [OF ok(1) A] ok(2) heap by (simp add: slice_locks_def acq)
  moreover have "map (lock_heap L) (slice_elems (locks a) (lockSet (locks a) g)) = slice_locks (locks a) (lockSet (locks a) g)"
    using assms(2) by (auto simp: L_def slice_locks_def)
  ultimately show ?thesis by (simp add: updateLockMap_def acq snapshot_def L_def)
qed

theorem acquired_lock_is_recorded_witness:
  "lockMap (locks (updateLockMap 0 4 (lock_acquire 0 \<lparr>locAddr = 8, locFreeze = False, locBloc = None, lock_parentFn = None\<rparr>
     (sample_locked [2])))) 4 = [Some 2, Some 8]"
proof -
  have "slice_ok (locks (sample_locked [2])) (lockSet (locks (sample_locked [2])) 0)"
    "\<forall>x \<in> set (slice_elems (locks (sample_locked [2])) (lockSet (locks (sample_locked [2])) 0)).
       x < lock_next (locks (sample_locked [2]))"
    by (simp_all add: sample_locks slice_ok_def)
  from acquired_lock_is_recorded [OF this, of 4] show ?thesis by (simp add: sample_locks updateLockMap_def snapshot_def)
qed



text \<open>
  A mutex that is neither a global nor a field, a local variable for example, is taken for the first
  lock of the set when that is no global or field either: any two local mutexes are the same.
\<close>
theorem local_mutexes_are_confused:
  assumes "lock_root (prog a) e = None" "slice_locks (locks a) (lockSet (locks a) g) = k # ks"
    "lock_root (prog a) (locAddr k) = None"
  shows "lockSetContainsAt a lockSet e g = Inr 0"
  by (rule lockSetContainsAt_no_root [where s = lockSet, OF assms])

theorem local_mutexes_are_confused_witness: "lockSetContainsAt (sample_locked [9]) lockSet 10 0 = Inr 0"
proof (rule local_mutexes_are_confused)
  show "lock_root (prog (sample_locked [9])) 10 = None"
    by (simp add: lock_root_def sample_locks samples)
  show "slice_locks (locks (sample_locked [9])) (lockSet (locks (sample_locked [9])) 0) =
      [\<lparr>locAddr = 9, locFreeze = False, locBloc = None, lock_parentFn = None\<rparr>]"
    by (simp add: sample_locks)
  show "lock_root (prog (sample_locked [9])) (locAddr \<lparr>locAddr = 9, locFreeze = False, locBloc = None, lock_parentFn = None\<rparr>) = None"
    by (simp add: lock_root_def sample_locks samples)
qed

lemma lock_remove_count:
  assumes "slice_ok (locks a) (lockSet (locks a) g)" "i < lock_count g a"
  shows "\<exists>b. lock_remove g i a = Inr b \<and> slice_ok (locks b) (lockSet (locks b) g) \<and>
    slice_elems (locks b) (lockSet (locks b) g) =
      take i (slice_elems (locks a) (lockSet (locks a) g)) @ drop (Suc i) (slice_elems (locks a) (lockSet (locks a) g))"
proof -
  obtain sl where sl: "lockSet (locks a) g = Some sl" "i < len sl"
    using assms(2) by (auto simp: lock_count_def slice_elems_def split: option.splits)
  then obtain s' L' where r: "slice_remove (lockSet (locks a) g) i (locks a) = Inr (s', L')"
    by (auto simp: slice_remove_def Let_def)
  have "slice_elems (L'\<lparr>lockSet := f\<rparr>) s' = slice_elems L' s'" "slice_ok (L'\<lparr>lockSet := f\<rparr>) s' = slice_ok L' s'" for f
    by (simp_all add: slice_elems_def slice_ok_def split: option.splits)
  then show ?thesis using slice_remove_elems [OF assms(1) r] r by (simp add: lock_remove_def)
qed

text \<open>Every second entry of a list, from the second one.\<close>

fun every_second :: "'a list \<Rightarrow> 'a list" where
  "every_second (x # y # xs) = y # every_second xs"
| "every_second xs = []"

text \<open>
  The loop that releases the locks a function still holds at its end removes only every other one of
  them, since each removal shifts the rest of the set while the index moves on.
\<close>
theorem half_of_the_locks_stay:
  assumes "slice_ok (locks a) (lockSet (locks a) g)" "lock_count g a \<le> i + n" "i \<le> lock_count g a"
  shows "\<exists>b. release_rest n i g a = Inr b \<and>
    slice_elems (locks b) (lockSet (locks b) g) =
      take i (slice_elems (locks a) (lockSet (locks a) g)) @
      every_second (drop i (slice_elems (locks a) (lockSet (locks a) g)))"
  using assms
proof (induction n arbitrary: i a)
  case (Suc n)
  let ?es = "slice_elems (locks a) (lockSet (locks a) g)"
  show ?case
  proof (cases "i < lock_count g a")
    case True
    then obtain b where b: "lock_remove g i a = Inr b" "slice_ok (locks b) (lockSet (locks b) g)"
      "slice_elems (locks b) (lockSet (locks b) g) = take i ?es @ drop (Suc i) ?es"
      using lock_remove_count [OF Suc.prems(1)] by blast
    have len: "lock_count g b = lock_count g a - 1" using b(3) True by (simp add: lock_count_def)
    have i: "i < length ?es" using True by (simp add: lock_count_def)
    have d: "drop i ?es = ?es ! i # drop (Suc i) ?es" using Cons_nth_drop_Suc [OF i] by simp
    show ?thesis
    proof (cases "Suc i \<le> lock_count g b")
      case more: True
      have j: "Suc i < length ?es" using more len True by (simp add: lock_count_def)
      have e: "drop (Suc i) ?es = ?es ! Suc i # drop (Suc (Suc i)) ?es" using Cons_nth_drop_Suc [OF j] by simp
      have "take (Suc i) (take i ?es @ drop (Suc i) ?es) = take i ?es @ [?es ! Suc i]"
        "drop (Suc i) (take i ?es @ drop (Suc i) ?es) = drop (Suc (Suc i)) ?es"
        using i e by (simp_all add: min_def)
      then show ?thesis
        using Suc.IH [of b "Suc i"] b more len True Suc.prems(2) d e by simp
    next
      case no_more: False
      then have "drop (Suc i) ?es = []" "\<not> Suc i < lock_count g b" using len True by (simp_all add: lock_count_def)
      moreover from this have "release_rest n (Suc i) g b = Inr b" by (cases n) simp_all
      ultimately show ?thesis using True b d by simp
    qed
  next
    case False
    then show ?thesis using Suc.prems(3) by (simp add: lock_count_def)
  qed
qed (simp add: lock_count_def)

theorem half_of_the_locks_stay_witness:
  "\<exists>b. release_rest 3 0 0 (sample_locked [2, 8, 9]) = Inr b \<and> slice_elems (locks b) (lockSet (locks b) 0) = [1]"
proof -
  have "slice_ok (locks (sample_locked [2, 8, 9])) (lockSet (locks (sample_locked [2, 8, 9])) 0)"
    "lock_count 0 (sample_locked [2, 8, 9]) = 3"
    "slice_elems (locks (sample_locked [2, 8, 9])) (lockSet (locks (sample_locked [2, 8, 9])) 0) = [0, 1, 2]"
    by (simp_all add: sample_locks slice_ok_def lock_count_def upt_rec)
  then show ?thesis using half_of_the_locks_stay [of "sample_locked [2, 8, 9]" 0 0 3] by simp
qed

text \<open>
  A deferred unlock of a mutex that only the spawning goroutine holds, at an index the own lock set
  does not have, panics: the trace message reads the own set at the index in the spawner's.
\<close>
theorem unlock_of_spawner_lock_panics:
  assumes "lockSetContainsAt a lockSet loc g = Inr (-1)" "lockSetContainsAt a lockSet loc (goCaller (gos a) g) = Inr z"
    "0 \<le> z" "int (lock_count g a) \<le> z"
  shows "release_noted (loc # locs) g a = Inl IndexOutOfRange"
  using assms by (simp add: Let_def nth_go_def lock_count_def)

theorem unlock_of_spawner_lock_panics_witness: "release_noted [2] 1 (sample_locked [2]) = Inl IndexOutOfRange"
proof (rule unlock_of_spawner_lock_panics [of _ _ _ 0])
  show "lockSetContainsAt (sample_locked [2]) lockSet 2 1 = Inr (-1)"
    by (simp add: lockSetContainsAt_def sample_locks)
  show "lockSetContainsAt (sample_locked [2]) lockSet 2 (goCaller (gos (sample_locked [2])) 1) = Inr 0"
    by (simp add: lockSetContainsAt_def sample_locks)
  show "int (lock_count 1 (sample_locked [2])) \<le> 0" by (simp add: lock_count_def sample_locks samples)
qed simp

section \<open>Bounds and orders of the traversal\<close>

text \<open>
  C27. A call is visited only while its callee occurs at most the trie limit many times on the call string
  of the goroutine and has been entered at most that many times under it; the visit is counted.
\<close>
theorem visits_are_bounded:
  assumes "exploredFunction fn g (Some i) a = Inr (False, b)"
  shows "\<exists>csSlice csStr t. insToCallStack (prog a) (RWIns a ! g) = (csSlice, csStr) \<and>
    trieMap b \<lparr>fi_fn = fn, contextStr = csStr\<rparr> = Some t \<and> budget t \<le> cfg_trieLimit (cfg a) \<and>
    budget t = (case trieMap a \<lparr>fi_fn = fn, contextStr = csStr\<rparr> of Some t \<Rightarrow> budget t + 1 | None \<Rightarrow> 1) \<and>
    sliceContainsFnCtr (prog a) csSlice (Some fn) \<le> cfg_trieLimit (cfg a)"
proof -
  obtain csSlice csStr where cs: "insToCallStack (prog a) (RWIns a ! g) = (csSlice, csStr)" by (rule prod.exhaust)
  obtain vis oc where v: "nth_go (RWIns a) (int g) = Inr vis"
    "(if efficiency (cfg a) then sliceContainsFnCall (prog a) (storeFns a) fn i else Inr False) = Inr oc"
    using assms by (auto simp: exploredFunction_def explored_call_def bindR_eq_Inr_iff split: if_splits)
  then have "vis = RWIns a ! g" by (simp add: nth_go_Inr)
  then show ?thesis
    using assms v cs by (auto simp: exploredFunction_def explored_call_def count_visit_def isBudgetExceeded_def Let_def
        split: if_splits option.splits)
qed

theorem visits_are_bounded_witness:
  "\<exists>csSlice csStr. sliceContainsFnCtr sample_prog csSlice (Some 1) \<le> 2 \<and>
     insToCallStack sample_prog [\<lparr>ins = 3, ins_stack = []\<rparr>] = (csSlice, csStr)"
proof -
  let ?a = "(set_efficiency sample_start)\<lparr>RWIns := [[\<lparr>ins = 3, ins_stack = []\<rparr>]]\<rparr>"
  have "map_sum id fst (exploredFunction 1 0 (Some 3) ?a) = Inr False"
    by (simp add: exec samples eval_nat_numeral cong: bindR_cong_weak Let_cong_weak)
  then obtain b where b: "exploredFunction 1 0 (Some 3) ?a = Inr (False, b)"
    by (cases "exploredFunction 1 0 (Some 3) ?a") auto
  have "prog ?a = sample_prog" "cfg_trieLimit (cfg ?a) = 2"
    by (simp_all add: set_efficiency_def initialAnalysis_def sample_start_def sample_cfg_def)
  then show ?thesis using visits_are_bounded [OF b] by auto
qed

lemma mset_order_loop:
  assumes "bs \<noteq> [] \<or> pb = []"
  shows "mset (order_loop p bs v pb st) = mset bs + mset v + mset pb"
  using assms
proof (induction bs arbitrary: v pb st)
  case (Cons b bs)
  show ?case
    by (cases "bs = []") (auto simp: Let_def Cons.IH)
qed simp

text \<open>
  C28. Holding back the \<^verbatim>\<open>.done\<close> blocks only changes the order of a visit: every block of the function is
  visited exactly as often as it is in the dominator preorder.
\<close>
theorem every_block_is_visited: "mset (bVisit_of p f) = mset (DomPreorder p f)"
  by (simp add: bVisit_of_def mset_order_loop)

text \<open>The channels a send instruction is recorded under.\<close>

definition channels_in :: "(string \<times> ref list) list \<Rightarrow> ref \<Rightarrow> string set" where
  "channels_in m i = {ch. \<exists>is. (ch, is) \<in> set m \<and> i \<in> set is}"

definition send_channels :: "analysis \<Rightarrow> ref \<Rightarrow> string set" where
  "send_channels a i = channels_in (chanSnds (chans a)) i"

lemma channels_in_simps:
  "channels_in [] i = {}"
  "channels_in ((ch, is) # m) i = (if i \<in> set is then insert ch (channels_in m i) else channels_in m i)"
  by (auto simp: channels_in_def)

lemma channels_in_update:
  "channels_in (update_list m ch (lookup_list m ch @ [i])) j = (if j = i then insert ch (channels_in m j) else channels_in m j)"
proof (induction m)
  case (Cons e m)
  obtain k ks where e: "e = (k, ks)" by (rule prod.exhaust)
  show ?case using Cons unfolding e by (cases "k = ch"; cases "j = i"; cases "i \<in> set ks") (auto simp: channels_in_simps)
qed (simp add: channels_in_simps)

lemma getSndChan_loop_in: "channels_in m i \<noteq> {} \<Longrightarrow> getSndChan_loop m i \<in> channels_in m i"
proof (induction m)
  case (Cons e m)
  obtain k ks where e: "e = (k, ks)" by (rule prod.exhaust)
  show ?case using Cons unfolding e by (cases "i \<in> set ks") (simp_all add: channels_in_simps slice_simps)
qed (simp add: channels_in_simps)

lemma getSndChan_loop_update: "j \<noteq> i \<Longrightarrow> getSndChan_loop (update_list m ch (lookup_list m ch @ [i])) j = getSndChan_loop m j"
proof (induction m)
  case (Cons e m)
  then show ?case by (cases e) (auto simp: slice_simps)
qed (simp add: slice_simps)

text \<open>
  C29. Recording a send under a channel adds that channel to those the send is recorded under, and changes
  nothing for other sends. The lookup of the channel of the send then answers one of the channels it is
  recorded under: the new one when there was no other, perhaps an older one when there was. The lookup of
  every other send answers as before.
\<close>
theorem recorded_send_is_found:
  shows "send_channels (add_send ch i a) i = insert ch (send_channels a i) \<and>
    getSndChan (add_send ch i a) i \<in> send_channels (add_send ch i a) i \<and>
    (send_channels a i \<subseteq> {ch} \<longrightarrow> getSndChan (add_send ch i a) i = ch) \<and>
    (\<forall>j. j \<noteq> i \<longrightarrow> send_channels (add_send ch i a) j = send_channels a j \<and>
       getSndChan (add_send ch i a) j = getSndChan a j)"
proof -
  let ?b = "add_send ch i a"
  have new: "send_channels ?b i = insert ch (send_channels a i)" by (simp add: send_channels_def add_send_def channels_in_update)
  then have "channels_in (chanSnds (chans ?b)) i \<noteq> {}" by (simp add: send_channels_def)
  from getSndChan_loop_in [OF this] have "getSndChan ?b i \<in> send_channels ?b i" by (simp add: getSndChan_def send_channels_def)
  moreover have "send_channels ?b j = send_channels a j" "getSndChan ?b j = getSndChan a j" if "j \<noteq> i" for j
    using that by (simp_all add: send_channels_def getSndChan_def add_send_def channels_in_update getSndChan_loop_update)
  ultimately show ?thesis using new by auto
qed

theorem recorded_send_is_found_witness:
  "getSndChan (add_send ''ch'' 7 sample_end) 7 = ''ch'' \<and> getSndChan (add_send ''ch'' 7 sample_end) 8 = []"
proof -
  have "send_channels sample_end 7 \<subseteq> {''ch''}" "getSndChan sample_end 8 = []"
    by (simp_all add: send_channels_def channels_in_def getSndChan_def sample_end_def sample_start_def set_efficiency_def initialAnalysis_def)
  then show ?thesis using recorded_send_is_found [of "''ch''" 7 sample_end] by simp
qed

end
