(* ===== verification/Spec2Isabelle.thy ===== *)
theory Spec2Isabelle
  imports Intsets_Properties Pointer_Query_Properties Gorace_Runner Gorace_Properties Gorace_Filter_Properties
begin

text \<open>
  A model of the static race detector \<^verbatim>\<open>gorace\<close>, of the solver, the calling contexts, the node layout and the
  queries of its pointer analysis, and of the set library under both.

  \<^bold>\<open>The program.\<close> \<^verbatim>\<open>gorace/\<close> finds data races in a Go program given in SSA form. \<^verbatim>\<open>runChecker\<close> visits the
  program from its entry point (\<^verbatim>\<open>traverseFn\<close>, \<^verbatim>\<open>visitAllInstructions\<close>) and records, per goroutine, the
  instructions that read, write, send, receive, lock or start goroutines; \<^verbatim>\<open>buildHB\<close> turns the records
  into a happens-before graph; \<^verbatim>\<open>checkRacyPairs\<close> compares the accesses of every two goroutines through a
  chain of filters and reports the pairs that survive. Aliasing is answered by the pointer analysis
  \<^verbatim>\<open>gopta/go/pointer\<close>, a fork of the one in \<^verbatim>\<open>golang.org/x/tools\<close>, whose points-to sets are the sparse bit
  sets of \<^verbatim>\<open>gopta/container/intsets\<close>. The analysis gives every function a node of the call graph per calling
  context (the goroutine it runs in, or its last \<^verbatim>\<open>K\<close> call sites), lays out the nodes of its values and
  objects in blocks, collects inclusion constraints between nodes, renumbers the nodes so that objects come
  first, solves the constraints with a worklist, and adds a call edge for every function found at a call.

  \<^bold>\<open>The theories.\<close>
  \<^item> \<^verbatim>\<open>Prelude\<close>: panics (\<open>go_panic\<close>), the result type \<open>go_result\<close> with \<open>bindR\<close>, rules for
    conditions on results (\<open>okR\<close>), Go's integer division, lists addressed by a cursor.
  \<^item> \<^verbatim>\<open>Intsets_Bits\<close>, \<^verbatim>\<open>Intsets_Block\<close>, \<^verbatim>\<open>Intsets_Sparse\<close>, \<^verbatim>\<open>Intsets_SetOps\<close>, \<^verbatim>\<open>Intsets_Algebra\<close>: the
    bit operations of \<^verbatim>\<open>intsets/util.go\<close> on 64-bit words, the blocks of 256 bits and the sparse sets of
    \<^verbatim>\<open>sparse.go\<close> as the list of their blocks in ring order, every operation on them, and what each
    computes on the set of integers. \<^verbatim>\<open>Intsets_Properties\<close> states the results.
  \<^item> \<^verbatim>\<open>Pointer_Nodeset\<close>, \<^verbatim>\<open>Pointer_Solve\<close>: points-to sets over the sparse sets (\<^verbatim>\<open>util.go\<close>), the constraints
    of \<^verbatim>\<open>constraint.go\<close>, their rules and both worklist loops of \<^verbatim>\<open>solve.go\<close>, with and without a limit.
    \<^verbatim>\<open>Pointer_Steps\<close>, \<^verbatim>\<open>Pointer_Rules\<close>: what one step and one rule change. \<^verbatim>\<open>Pointer_Invariant\<close>: the loop
    invariant. \<^verbatim>\<open>Pointer_Sound\<close>, \<^verbatim>\<open>Pointer_Least\<close>, \<^verbatim>\<open>Pointer_Termination\<close>: the result satisfies the
    constraints, is the least such, and is reached. \<^verbatim>\<open>Pointer_Known\<close>: the
    case in which no function is generated while solving. \<^verbatim>\<open>Pointer_Sample\<close> runs the solver by rewriting;
    \<^verbatim>\<open>Pointer_Properties\<close> states the results.
  \<^item> \<^verbatim>\<open>Pointer_Context\<close>: call sites and call-graph nodes of \<^verbatim>\<open>callgraph.go\<close>, how they are compared, and the
    match of a pointer of \<^verbatim>\<open>api.go\<close> with a goroutine and loop. \<^verbatim>\<open>Pointer_Renumber\<close>: \<^verbatim>\<open>opt.go\<close> and the renumbering of every
    table of node ids. \<^verbatim>\<open>Pointer_Layout\<close>, \<^verbatim>\<open>Pointer_Permute\<close>: nodes laid out in blocks, and the
    permutation of them that the two passes compute. \<^verbatim>\<open>Pointer_Renumber_Properties\<close> states the results.
  \<^item> \<^verbatim>\<open>Pointer_Types\<close>: \<^verbatim>\<open>flatten\<close>, \<^verbatim>\<open>sizeof\<close>, \<^verbatim>\<open>offsetOf\<close> of \<^verbatim>\<open>util.go\<close>. \<^verbatim>\<open>Pointer_Objects\<close>: the functions of
    \<^verbatim>\<open>gen.go\<close> that add nodes, objects and constraints. \<^verbatim>\<open>Pointer_Loops\<close>: \<^verbatim>\<open>isInLoop\<close> and the searches for
    the use of a closure. \<^verbatim>\<open>Pointer_Origins\<close>: function objects per context
    (\<^verbatim>\<open>makeFunctionObjectWithContext\<close>). \<^verbatim>\<open>Pointer_Callgraph\<close>: the call graph, call edges, and the
    propagation of actual contexts. \<^verbatim>\<open>Pointer_Origin_Properties\<close> states the results.
  \<^item> \<^verbatim>\<open>Pointer_Queries\<close>: pointers with a context, their points-to sets, aliasing and labels, and the queries of
    \<^verbatim>\<open>api.go\<close> by value, goroutine and loop. \<^verbatim>\<open>Pointer_Results\<close>: the end of \<^verbatim>\<open>AnalyzeWCtx\<close> (the nodes and
    edges of the call graph) and the tables that \<^verbatim>\<open>translateResult\<close> fills (\<^verbatim>\<open>analysis.go\<close>).
    \<^verbatim>\<open>Pointer_Answers\<close>, \<^verbatim>\<open>Pointer_Tables\<close>: what they answer and hold. \<^verbatim>\<open>Pointer_Query_Properties\<close> states the
    results.
  \<^item> \<^verbatim>\<open>Ssa_Model\<close>: the SSA program as a read-only heap: a reference is a pointer to a value or an
    instruction, \<open>object\<close> lists the kinds the detector distinguishes (\<^verbatim>\<open>go/ssa/ssa.go\<close>, \<^verbatim>\<open>dom.go\<close>).
  \<^item> \<^verbatim>\<open>Gorace_State\<close>: the structs of \<^verbatim>\<open>staticAnalysis.go\<close> and the state \<^verbatim>\<open>analysis\<close> of
    \<^verbatim>\<open>analysisTools.go\<close>. \<^verbatim>\<open>Gorace_Slices\<close>: the searches of \<^verbatim>\<open>sliceTools.go\<close>.
  \<^item> \<^verbatim>\<open>Gorace_Access\<close>, \<^verbatim>\<open>Gorace_Order\<close>, \<^verbatim>\<open>Gorace_Check\<close>: \<^verbatim>\<open>raceCollection.go\<close> with the tests of
    \<^verbatim>\<open>ssaInstructions.go\<close> and \<^verbatim>\<open>util.go\<close> it uses: accesses and aliasing, the filters on goroutines,
    stacks, locks and atomics, and the four loops of \<^verbatim>\<open>checkRacyPairs\<close>.
  \<^item> \<^verbatim>\<open>Gorace_HB\<close>, \<^verbatim>\<open>Gorace_BuildHB\<close>: \<^verbatim>\<open>shbgraph.go\<close>: the queue, the breadth-first search with its cache,
    and the construction of the graph.
  \<^item> \<^verbatim>\<open>Gorace_Locks\<close>, \<^verbatim>\<open>Gorace_Records\<close>, \<^verbatim>\<open>Gorace_Handlers\<close>, \<^verbatim>\<open>Gorace_Traverse\<close>: the traversal: lock sets as
    slices over shared arrays, records and the exploration budget, one function per handler of
    \<^verbatim>\<open>ssaInstructions.go\<close>, and the loops of \<^verbatim>\<open>analysisTools.go\<close>.
  \<^item> \<^verbatim>\<open>Gorace_Trace\<close>: a locale for two-state conditions kept by every step of the traversal, proved once
    for the whole recursion; \<^verbatim>\<open>Gorace_Goroutines\<close> instantiates it for the growth of the records and the
    numbering of the goroutines, \<^verbatim>\<open>Gorace_Spawners\<close> for the go statements recorded by the spawners,
    \<^verbatim>\<open>Gorace_Fuel\<close> does the same for the order on results by fuel.
  \<^item> \<^verbatim>\<open>Gorace_Runner\<close>: \<^verbatim>\<open>runChecker\<close>, and how its stages fit together. \<^verbatim>\<open>Gorace_Termination\<close>: the stages
    after the traversal return. \<^verbatim>\<open>Gorace_Sample\<close>: a program of two goroutines evaluated by rewriting.
    \<^verbatim>\<open>Gorace_Properties\<close> and \<^verbatim>\<open>Gorace_Filter_Properties\<close> state the results.

  \<^bold>\<open>Conventions.\<close> A panic of the code is a value \<^const>\<open>Inl\<close> of \<open>go_result\<close>; nil pointers are \<^const>\<open>None\<close>.
  Go maps are functions to options, or association lists in insertion order where the code iterates over
  them (Go leaves that order open; the model fixes one). Appending to a lock set may or may not find spare
  capacity, a parameter of the configuration. The mutual recursion of the traversal is cut by fuel that
  bounds its depth and the rounds of its worklist; the lemma \<open>more_fuel_same_run\<close> shows that a run that returns does
  not depend on it. The search in the graph and the walk up the spawners are \<^theory_text>\<open>partial_function\<close>s whose
  value \<^const>\<open>None\<close> means that they do not return; \<open>detection_returns\<close> shows that this does not happen.
  The loops of the solver, of the renumbering, of the loop test and of the context propagation are
  \<^theory_text>\<open>partial_function\<close>s too, and returning is among their properties. Node ids are 32-bit words. Solver states live on a
  heap, because nodes that the optimiser found equivalent share one; call sites, and the nodes and edges of
  the call graph, are addresses in a store, because the code compares and updates them by pointer. The type
  checker's answers (assignability, method sets) and the functions generated while solving are arguments of
  the solver. Types are references into a store, since named types are cyclic; \<open>flatten\<close> takes fuel for
  the nesting of arrays, structs and tuples, which Go keeps acyclic: the hypothesis \<open>sized\<close> is a rank that
  decreases from a type to its parts, and fuel above the rank is enough (\<open>flatten_total\<close>).
  \<^verbatim>\<open>shouldTrack\<close> is taken in the mode the analysis sets, in which every type is tracked.

  \<^bold>\<open>What the theorems show.\<close> Of the detector: a reported race is a pair of conflicting accesses of two
  goroutines on one address without a common lock and without a path between them in the graph; every pair
  that survives the filters is reported once; the graph is well formed and the search in it decides paths.
  Records are only added. For a program without a go statement on a type assertion of a parameter
  (\<open>no_dynamic_go\<close>) goroutines are numbered above their spawners, begin with a go statement that a lower
  goroutine recorded, and the stages after the traversal return. For plain goroutines (\<open>plain_goroutine\<close>: no
  record begins a select case, the block after a select, or an \<^verbatim>\<open>if.then\<close>, \<^verbatim>\<open>if.else\<close> or \<^verbatim>\<open>if.done\<close> block entered
  after an \<^verbatim>\<open>if\<close>; none receives from a ready select case; each access is recorded once) the graph contains program
  order, and spawning when the go statement is recorded once below the spawned goroutine (\<open>spawned_at\<close>);
  nothing is then reported between what precedes the go statement and the goroutine it starts.

  Of the sets of integers: every operation behaves as on sets. Of the pointer analysis: the solver returns on
  any constraints when nothing is generated while solving; the labels of its result are derived from the
  constraints, whatever the points-to limit and the reflection flag, and without a limit and reflection exactly
  the derived ones are found, both without interface calls; with interface calls, no limit, no reflection and
  all methods made before solving (\<open>known\<close>, what \<^verbatim>\<open>preSolve\<close> is for) the result satisfies the constraints,
  save what is copied from or attached to the identity nodes of call blocks (\<open>call_states\<close>). A run without a
  configuration file sets a limit of 10, so that only derived labels are found but not all of them. On nodes in blocks
  without objects of size zero (\<open>numbered\<close>) the renumbering permutes the nodes and rewrites every table by that
  permutation, and, without a limit, reflection and interface calls, the solution with them. The nodes of a
  field are found at its offset; function objects keep the block layout that renumbering needs; in
  origin-sensitive mode a context asked for twice is made once; deleting a node leaves a consistent call
  graph, and the propagation of contexts ends. The call graph has exactly the edges that the points-to sets
  resolve; \<^verbatim>\<open>MayAlias\<close> and the query by goroutine answer what the solution and the tables say.

  Some theorems record defects: mutexes at different globals or local mutexes count as one, half of the locks a
  function still holds stay in the set at its end, a lock set inherited by a goroutine is changed in place for
  its spawner too, and two index errors; contexts deeper than one call site are compared by the first only,
  and in call-site-sensitive mode an existing context of an ordinary call is not found; an object of size zero
  would make the renumbering run for ever.

  \<^bold>\<open>Not modelled.\<close> The detector takes the answers of the pointer analysis (points-to labels, dynamic types,
  targets) as parameters, although the queries are modelled on their own. The graph package
  \<^verbatim>\<open>github.com/twmb/algoimpl\<close> is a parameter too; \<open>graph_law\<close> says that the neighbours of a node are the
  targets of its edges. \<^verbatim>\<open>genMissingFn\<close> (\<^verbatim>\<open>gen.go\<close>), which generates a function met while solving, is an argument
  of the solver. \<^verbatim>\<open>buildHB\<close> calls \<^verbatim>\<open>goNames\<close> for debug names, and for a go statement on a type assertion that
  call can query the pointer analysis and visit functions; the model of \<^verbatim>\<open>buildHB\<close> leaves those calls out, so
  what is proved of the graph and of races does not cover programs with such a go statement. Messages,
  report files, source printing, the configuration file and command line
  (\<^verbatim>\<open>gorace.go\<close>, \<^verbatim>\<open>main.go\<close>, \<^verbatim>\<open>printSource.go\<close>), the interactive choice of entry points and the loading of
  packages have no counterpart. Of \<^verbatim>\<open>gopta\<close>, the walk over instructions that
  generates the constraints, intrinsics and the constraints for reflection, the offline optimiser
  (\<^verbatim>\<open>hvn.go\<close>), the statistics of \<^verbatim>\<open>api.go\<close>, the unmodified analysis of \<^verbatim>\<open>pointer_default\<close>, the SSA builder and the
  tools of \<^verbatim>\<open>x/tools\<close> that \<^verbatim>\<open>gorace\<close> does not use (language server, refactoring, analysis passes) are left out.
\<close>

end
